(* ===== verification/Prelude.thy ===== *)
theory Prelude
  imports "HOL-Library.Word" "HOL-Library.Monad_Syntax"
begin

text \<open>
  Shared vocabulary of the development: the machine integer types of
  \<^verbatim>\<open>include/sys/defs.h\<close>, the kernel's higher-half window
  (\<^verbatim>\<open>0xffffffff80000000\<close>, the link address of \<^verbatim>\<open>sys/linker.script\<close> that the
  kernel ORs into physical addresses before it dereferences them), pages and page-table
  indices, and the word and option lemmas that the component theories use.

  Kernel code is modelled by explicit state passing.  A partial operation (a loop that
  may not stop, a dereference of a null table) has an \<open>option\<close> result, \<open>None\<close> standing
  for "does not return".
\<close>

unbundle bit_operations_syntax

type_synonym u8 = "8 word"
type_synonym u16 = "16 word"
type_synonym u32 = "32 word"
type_synonym u64 = "64 word"

named_theorems kframe \<open>fields that an operation leaves alone\<close>
named_theorems kinv \<open>invariants that an operation preserves\<close>

section \<open>The higher-half window\<close>

abbreviation KERNBASE :: u64 where
  "KERNBASE \<equiv> 0xffffffff80000000"

text \<open>Physical address behind a kernel pointer: inside the window the base is taken off,
  a low pointer denotes itself (the identity mapping the loader leaves at boot).\<close>

definition phys :: "u64 \<Rightarrow> u64" where
  "phys a = (if KERNBASE \<le> a then a - KERNBASE else a)"

definition kva :: "u64 \<Rightarrow> u64" where
  "kva a = a OR KERNBASE"

section \<open>Word lemmas\<close>

lemma unat_lt2p: "unat (x :: 'a::len word) < 2 ^ LENGTH('a)"
  by (rule unsigned_less)

lemma unat_of_nat_eq: "n < 2 ^ LENGTH('a) \<Longrightarrow> unat (of_nat n :: 'a::len word) = n"
  by (simp add: unat_of_nat)

lemma word_of_nat_unat [simp]: "of_nat (unat (x :: 'a::len word)) = x"
  by simp

lemma unat_add_one:
  fixes a b :: "'a::len word"
  assumes "a < b"
  shows "unat (a + 1) = Suc (unat a)"
proof -
  have "unat a < unat b" using assms by (simp add: word_less_nat_alt)
  moreover have "unat b < 2 ^ LENGTH('a)" by simp
  ultimately have "Suc (unat a) < 2 ^ LENGTH('a)" by linarith
  then show ?thesis by (simp add: unat_word_ariths(1) mod_less)
qed

lemma word_less_add_one_iff:
  fixes a b :: "'a::len word"
  assumes "b < c"
  shows "a < b + 1 \<longleftrightarrow> a \<le> b"
  using unat_add_one [OF assms] by (simp add: word_less_nat_alt word_le_nat_alt less_Suc_eq_le)

lemma inc_le_iff:
  fixes a b :: "'a::len word"
  assumes "a < b"
  shows "a + 1 \<le> k \<longleftrightarrow> a < k"
  using word_less_add_one_iff [OF assms, of k] by (meson linorder_not_le)

lemma unat_diff_add_one:
  fixes a b :: "'a::len word"
  assumes "a < b"
  shows "unat (b - (a + 1)) < unat (b - a)"
proof -
  have "a + 1 \<le> b" using assms by (rule inc_le)
  then have "unat (b - (a + 1)) = unat b - unat (a + 1)" by (simp add: unat_sub)
  moreover have "unat (b - a) = unat b - unat a" using assms by (simp add: unat_sub)
  moreover have "unat a < unat b" using assms by (simp add: word_less_nat_alt)
  ultimately show ?thesis using unat_add_one [OF assms] by simp
qed

section \<open>Bits of addresses\<close>

lemma FRAME_MASK_eq: "(0xFFFFFFFFFFFFF000 :: u64) = NOT (mask 12)"
  by (simp add: mask_eq_exp_minus_1)

lemma KERNBASE_eq: "KERNBASE = NOT (mask 31)"
  by (simp add: mask_eq_exp_minus_1)

lemma low_bits:
  fixes a :: u64
  assumes "unat a < 2 ^ k" "bit a n"
  shows "n < k"
proof -
  have "bit (unat a) n" using assms(2) by (simp add: bit_unsigned_iff)
  moreover have "take_bit k (unat a) = unat a" using assms(1) by (rule take_bit_nat_eq_self)
  ultimately show ?thesis by (metis bit_take_bit_iff)
qed

lemma page_bits: "bit ((p :: u64) * 0x1000) n \<Longrightarrow> 12 \<le> n"
proof -
  have "p * 0x1000 = push_bit 12 p" by (simp add: push_bit_eq_mult)
  then show "bit (p * 0x1000) n \<Longrightarrow> 12 \<le> n" by (simp add: bit_push_bit_iff)
qed

text \<open>Flags in the low twelve bits of a page address are masked out again.\<close>

lemma frame_mask_or:
  fixes a :: u64
  assumes "\<And>n. bit a n \<Longrightarrow> 12 \<le> n" "unat f < 2 ^ 12"
  shows "(a OR f) AND 0xFFFFFFFFFFFFF000 = a"
  unfolding FRAME_MASK_eq
proof (rule bit_word_eqI)
  fix n
  assume "n < LENGTH(64)"
  then show "bit ((a OR f) AND NOT (mask 12)) n = bit a n"
    using assms(1) [of n] low_bits [OF assms(2), of n] by (auto simp: bit_simps)
qed

text \<open>Below two gigabytes, or-ing the window base on is adding it, and \<open>phys\<close> takes it off.\<close>

lemma kernbase_or:
  assumes "unat a < 2 ^ 31"
  shows "a OR KERNBASE = a + KERNBASE"
proof -
  have "a AND NOT (mask 31) = 0"
    by (rule bit_word_eqI) (auto simp: bit_simps dest: low_bits [OF assms])
  then show ?thesis unfolding KERNBASE_eq by (rule disjunctive_add_eq_or [symmetric])
qed

lemma phys_or:
  assumes "unat a < 2 ^ 31"
  shows "phys (a OR KERNBASE) = a" "phys (KERNBASE OR a) = a" "phys a = a"
proof -
  have "unat (a + KERNBASE) = unat a + unat KERNBASE"
    using assms by (subst unat_add_lem [THEN iffD1]) simp_all
  then have "KERNBASE \<le> a + KERNBASE" by (simp add: word_le_nat_alt)
  then show "phys (a OR KERNBASE) = a" by (simp add: kernbase_or [OF assms] phys_def)
  then show "phys (KERNBASE OR a) = a" by (simp add: or.commute)
  have "\<not> KERNBASE \<le> a" using assms by (simp add: word_le_nat_alt)
  then show "phys a = a" by (simp add: phys_def)
qed

end
