(* ===== verification/CString.thy ===== *)
theory CString
  imports Prelude
begin

text \<open>
  The byte and string routines of \<^verbatim>\<open>sys/string.c\<close>, over a flat byte memory.

  A memory is a total function from 64-bit addresses to bytes, so pointer arithmetic wraps
  as it does on the machine and aliasing between source and destination is visible.  Index
  variables of type \<^verbatim>\<open>int\<close> are \<open>nat\<close> or \<open>int\<close> counters: they agree with the C code for
  objects shorter than two gigabytes.  The loops that run until a NUL byte are
  \<^theory_text>\<open>partial_function (option)\<close>; the lemmas show when they return.
\<close>

type_synonym bmem = "u64 \<Rightarrow> u8"

section \<open>The routines\<close>

function memset_loop :: "bmem \<Rightarrow> u64 \<Rightarrow> int \<Rightarrow> int \<Rightarrow> int \<Rightarrow> bmem" where
  "memset_loop m ptr val i sz =
     (if i < sz then memset_loop (m(ptr + word_of_int i := word_of_int val)) ptr val (i + 1) sz
      else m)"
  by pat_completeness auto
termination
  by (relation "measure (\<lambda>(m, ptr, val, i, sz). nat (sz - i))") auto

definition memset :: "bmem \<Rightarrow> u64 \<Rightarrow> int \<Rightarrow> int \<Rightarrow> bmem" where
  "memset m ptr val sz = memset_loop m ptr val 0 sz"

partial_function (option) strlen_loop :: "bmem \<Rightarrow> u64 \<Rightarrow> nat \<Rightarrow> nat option" where
  "strlen_loop m a len =
     (if m (a + of_nat len) \<noteq> 0 then strlen_loop m a (len + 1) else Some len)"

definition strlen :: "bmem \<Rightarrow> u64 \<Rightarrow> nat option" where
  "strlen m a = strlen_loop m a 0"

partial_function (option) strcmp_loop :: "bmem \<Rightarrow> u64 \<Rightarrow> u64 \<Rightarrow> nat \<Rightarrow> nat option" where
  "strcmp_loop m a b len =
     (if m (a + of_nat len) = m (b + of_nat len)
      then if m (a + of_nat len) = 0 \<and> m (b + of_nat len) = 0 then Some len
           else strcmp_loop m a b (len + 1)
      else Some len)"

definition strcmp :: "bmem \<Rightarrow> u64 \<Rightarrow> u64 \<Rightarrow> nat \<Rightarrow> int option" where
  "strcmp m a b len = do {
     alen \<leftarrow> strlen m a;
     blen \<leftarrow> strlen m b;
     if alen = blen
     then do {
       l \<leftarrow> strcmp_loop m a b len;
       if l = alen then Some 0 else Some (- 1)
     }
     else Some (- 1)
   }"

partial_function (option) strcpy_loop :: "bmem \<Rightarrow> u64 \<Rightarrow> u64 \<Rightarrow> nat \<Rightarrow> bmem option" where
  "strcpy_loop m src dest i =
     (if m (src + of_nat i) \<noteq> 0
      then strcpy_loop (m(dest + of_nat i := m (src + of_nat i))) src dest (i + 1)
      else Some (m(dest + of_nat i := 0)))"

definition strcpy :: "bmem \<Rightarrow> u64 \<Rightarrow> u64 \<Rightarrow> bmem option" where
  "strcpy m src dest = strcpy_loop m src dest 0"

text \<open>The inner loop of \<^verbatim>\<open>strstr\<close>: \<open>Some True\<close> is its \<^verbatim>\<open>return 1\<close>.\<close>

partial_function (option) strstr_inner :: "bmem \<Rightarrow> u64 \<Rightarrow> u64 \<Rightarrow> nat \<Rightarrow> nat \<Rightarrow> bool option" where
  "strstr_inner m str sub i j =
     (if m (str + of_nat (i + j)) = m (sub + of_nat j)
      then if m (sub + of_nat (j + 1)) = 0 then Some True
           else strstr_inner m str sub i (j + 1)
      else Some False)"

function strstr_outer :: "bmem \<Rightarrow> u64 \<Rightarrow> u64 \<Rightarrow> nat \<Rightarrow> nat \<Rightarrow> int option" where
  "strstr_outer m str sub n i =
     (if i < n
      then case strstr_inner m str sub i 0 of
             None \<Rightarrow> None
           | Some True \<Rightarrow> Some 1
           | Some False \<Rightarrow> strstr_outer m str sub n (i + 1)
      else Some 0)"
  by pat_completeness auto
termination
  by (relation "measure (\<lambda>(m, str, sub, n, i). n - i)") auto

definition strstr :: "bmem \<Rightarrow> u64 \<Rightarrow> u64 \<Rightarrow> int option" where
  "strstr m str sub = do {
     slen \<leftarrow> strlen m str;
     sublen \<leftarrow> strlen m sub;
     if slen \<ge> sublen then strstr_outer m str sub (slen - sublen) 0 else Some 0
   }"

text \<open>The \<^verbatim>\<open>int\<close> counter of \<^verbatim>\<open>memcpy\<close> is compared with the \<^verbatim>\<open>uint64_t\<close> length at 64 bits; it
  does not overflow for the lengths below \<open>2 ^ 31\<close> that the kernel copies.\<close>

function memcpy_loop :: "bmem \<Rightarrow> u64 \<Rightarrow> u64 \<Rightarrow> u64 \<Rightarrow> u64 \<Rightarrow> bmem" where
  "memcpy_loop m pd ps i len =
     (if i < len then memcpy_loop (m(pd := m ps)) (pd + 1) (ps + 1) (i + 1) len else m)"
  by pat_completeness auto
termination
  by (relation "measure (\<lambda>(m, pd, ps, i, len). unat (len - i))") (auto simp: unat_diff_add_one)

definition memcpy :: "bmem \<Rightarrow> u64 \<Rightarrow> u64 \<Rightarrow> u64 \<Rightarrow> bmem" where
  "memcpy m dest src len = memcpy_loop m dest src 0 len"

declare memset_loop.simps [simp del] strstr_outer.simps [simp del] memcpy_loop.simps [simp del]

section \<open>Strings in memory\<close>

definition cstr :: "bmem \<Rightarrow> u64 \<Rightarrow> u8 list \<Rightarrow> bool" where
  "cstr m a s \<longleftrightarrow>
     (\<forall>i < length s. m (a + of_nat i) = s ! i) \<and> m (a + of_nat (length s)) = 0 \<and> 0 \<notin> set s"

lemma cstr_Nil: "cstr m a [] \<longleftrightarrow> m a = 0"
  by (simp add: cstr_def)

lemma cstr_Cons: "cstr m a (c # s) \<longleftrightarrow> c \<noteq> 0 \<and> m a = c \<and> cstr m (a + 1) s"
  by (auto simp: cstr_def All_less_Suc2 algebra_simps)

lemma cstr_nth: "cstr m a s \<Longrightarrow> i < length s \<Longrightarrow> m (a + of_nat i) = s ! i"
  by (simp add: cstr_def)

lemma cstr_end: "cstr m a s \<Longrightarrow> m (a + of_nat (length s)) = 0"
  by (simp add: cstr_def)

lemma cstr_nth_nonzero: "cstr m a s \<Longrightarrow> i < length s \<Longrightarrow> m (a + of_nat i) \<noteq> 0"
  by (metis cstr_def nth_mem)

lemma cstr_at: "cstr m a s \<Longrightarrow> i \<le> length s \<Longrightarrow> m (a + of_nat i) = (s @ [0]) ! i"
  by (cases "i = length s") (auto simp: nth_append cstr_nth cstr_end)

section \<open>What the routines compute\<close>

lemma strlen_loop_cstr:
  assumes "cstr m a s" "i \<le> length s"
  shows "strlen_loop m a i = Some (length s)"
  using assms(2)
proof (induction "length s - i" arbitrary: i)
  case 0
  then have "i = length s" by simp
  then show ?case using cstr_end [OF assms(1)] by (subst strlen_loop.simps) simp
next
  case (Suc k)
  then have "i < length s" by simp
  moreover have "strlen_loop m a (i + 1) = Some (length s)" using Suc by simp
  ultimately show ?case
    using cstr_nth_nonzero [OF assms(1)] by (simp add: strlen_loop.simps [of m a i])
qed

lemma strlen_cstr: "cstr m a s \<Longrightarrow> strlen m a = Some (length s)"
  by (simp add: strlen_def strlen_loop_cstr)

lemma strcmp_loop_cstr:
  assumes "cstr m a s" "cstr m b t" "length s = length t" "i \<le> length s"
  shows "\<exists>l. strcmp_loop m a b i = Some l \<and> (l = length s \<longleftrightarrow> drop i s = drop i t) \<and> l \<le> length s"
  using assms(4)
proof (induction "length s - i" arbitrary: i)
  case 0
  then have "i = length s" by simp
  then show ?case using assms(3) cstr_end [OF assms(1)] cstr_end [OF assms(2)]
    by (subst strcmp_loop.simps) simp
next
  case (Suc k)
  then have i: "i < length s" "i < length t" using assms(3) by simp_all
  have rd: "m (a + of_nat i) = s ! i" "m (b + of_nat i) = t ! i" "s ! i \<noteq> 0"
    using i assms(1,2) cstr_nth cstr_nth_nonzero by metis+
  obtain l where l: "strcmp_loop m a b (i + 1) = Some l"
    "(l = length s) = (drop (i + 1) s = drop (i + 1) t)" "l \<le> length s"
    using Suc.hyps(1) [of "i + 1"] Suc.hyps(2) Suc.prems
    by (metis Suc_diff_Suc Suc_eq_plus1 Suc_leI i(1) nat.inject)
  show ?case
  proof (cases "s ! i = t ! i")
    case True
    then show ?thesis using l rd i
      by (simp add: strcmp_loop.simps [of m a b i] Cons_nth_drop_Suc [symmetric])
  next
    case False
    then have "drop i s \<noteq> drop i t" using i by (metis Cons_nth_drop_Suc list.inject)
    then show ?thesis using False rd i by (simp add: strcmp_loop.simps [of m a b i])
  qed
qed

text \<open>\<^verbatim>\<open>strcmp(a,b,len)\<close> compares the lengths and then only the characters from position
  \<^verbatim>\<open>len\<close> on.\<close>

lemma strcmp_cstr:
  assumes "cstr m a s" "cstr m b t" "len \<le> length s"
  shows "strcmp m a b len = Some (if length s = length t \<and> drop len s = drop len t then 0 else - 1)"
  using strcmp_loop_cstr [OF assms(1,2) _ assms(3)]
  by (auto simp: strcmp_def strlen_cstr [OF assms(1)] strlen_cstr [OF assms(2)])

lemma strcmp_eq:
  assumes "cstr m a s" "cstr m b t"
  shows "strcmp m a b 0 = Some (if s = t then 0 else - 1)"
  using strcmp_cstr [OF assms, of 0] by auto

text \<open>Offsets into a block: equal addresses at equal offsets.\<close>

lemma unat_offset_eq:
  fixes a p :: u64
  assumes "n < 2 ^ 64"
  shows "unat (a - p) = n \<longleftrightarrow> a = p + of_nat n"
proof
  assume "unat (a - p) = n"
  then have "a - p = of_nat n" by (metis word_of_nat_unat)
  then show "a = p + of_nat n" by (simp add: algebra_simps)
next
  assume "a = p + of_nat n"
  then show "unat (a - p) = n" using assms by (simp add: unat_of_nat_eq)
qed

text \<open>Two blocks of at most \<open>n\<close> bytes can be copied forward, byte by byte, without reading
  a byte that was already overwritten.\<close>

definition fwd_ok :: "u64 \<Rightarrow> u64 \<Rightarrow> nat \<Rightarrow> bool" where
  "fwd_ok dest src n \<longleftrightarrow> dest = src \<or> n \<le> unat (dest - src)"

lemma fwd_ok_neq:
  assumes "fwd_ok dest src n" "i < k" "k < n" "n \<le> 2 ^ 64"
  shows "src + of_nat k \<noteq> dest + of_nat i"
proof
  assume eq: "src + of_nat k = dest + of_nat i"
  have "dest - src = of_nat k - (of_nat i :: u64)" using eq by (simp add: algebra_simps)
  also have "\<dots> = of_nat (k - i)" using assms(2) by (simp add: of_nat_diff)
  finally have "unat (dest - src) = k - i"
    using assms(3,4) by (simp add: unat_of_nat_eq)
  moreover from this have "dest \<noteq> src" using assms(2) by auto
  ultimately show False using assms(1-3) by (simp add: fwd_ok_def)
qed

lemma memset_loop_eq:
  assumes "0 \<le> i" "i \<le> sz" "sz \<le> 2 ^ 64"
  shows "memset_loop m ptr val i sz =
    (\<lambda>a. if i \<le> uint (a - ptr) \<and> uint (a - ptr) < sz then word_of_int val else m a)"
  using assms
proof (induction m ptr val i sz rule: memset_loop.induct)
  case (1 m ptr val i sz)
  show ?case
  proof (cases "i < sz")
    case True
    have eq: "a = ptr + word_of_int i \<longleftrightarrow> uint (a - ptr) = i" for a
    proof
      assume "a = ptr + word_of_int i"
      then show "uint (a - ptr) = i" using True "1.prems" by (simp add: uint_word_of_int)
    next
      assume "uint (a - ptr) = i"
      then have "a - ptr = word_of_int i" by (metis word_of_int_uint)
      then show "a = ptr + word_of_int i" by (simp add: algebra_simps)
    qed
    show ?thesis using True "1.prems"
      by (subst memset_loop.simps) (auto simp: "1.IH" fun_eq_iff eq)
  next
    case False
    then show ?thesis by (subst memset_loop.simps) (auto simp: fun_eq_iff)
  qed
qed

lemma memset_eq:
  assumes "0 \<le> sz" "sz \<le> 2 ^ 64"
  shows "memset m ptr val sz = (\<lambda>a. if uint (a - ptr) < sz then word_of_int val else m a)"
  using memset_loop_eq [of 0 sz m ptr val] assms by (simp add: memset_def)

lemma memcpy_loop_eq:
  assumes "fwd_ok dest src (unat len)" "i \<le> unat len"
  shows "memcpy_loop m (dest + of_nat i) (src + of_nat i) (of_nat i) len =
    (\<lambda>a. if i \<le> unat (a - dest) \<and> unat (a - dest) < unat len then m (src + (a - dest)) else m a)"
  using assms(2)
proof (induction "unat len - i" arbitrary: i m)
  case 0
  then have "i = unat len" by simp
  then show ?case by (subst memcpy_loop.simps) (auto simp: fun_eq_iff)
next
  case (Suc k)
  then have i: "i < unat len" by simp
  have i64: "i < 2 ^ 64" using i unat_lt2p [of len] by simp
  then have lt: "of_nat i < len" using i by (simp add: word_less_nat_alt unat_of_nat_eq)
  let ?m = "m(dest + of_nat i := m (src + of_nat i))"
  have "memcpy_loop m (dest + of_nat i) (src + of_nat i) (of_nat i) len =
      memcpy_loop ?m (dest + of_nat (Suc i)) (src + of_nat (Suc i)) (of_nat (Suc i)) len"
    using lt by (subst memcpy_loop.simps) (simp add: ac_simps)
  also have "\<dots> = (\<lambda>a. if Suc i \<le> unat (a - dest) \<and> unat (a - dest) < unat len
      then ?m (src + (a - dest)) else ?m a)"
    using Suc.hyps(1) [of "Suc i" ?m] Suc.hyps(2) i by simp
  also have "\<dots> = (\<lambda>a. if i \<le> unat (a - dest) \<and> unat (a - dest) < unat len
      then m (src + (a - dest)) else m a)"
  proof
    fix a
    have a: "a = dest + of_nat i \<longleftrightarrow> unat (a - dest) = i" using unat_offset_eq [OF i64] by metis
    have "src + (a - dest) \<noteq> dest + of_nat i" if "Suc i \<le> unat (a - dest)" "unat (a - dest) < unat len"
      using fwd_ok_neq [OF assms(1), of i "unat (a - dest)"] that unat_lt2p [of len] by simp
    then show "(if Suc i \<le> unat (a - dest) \<and> unat (a - dest) < unat len
        then ?m (src + (a - dest)) else ?m a) =
      (if i \<le> unat (a - dest) \<and> unat (a - dest) < unat len then m (src + (a - dest)) else m a)"
      using a i by auto
  qed
  finally show ?case .
qed

lemma memcpy_eq:
  assumes "fwd_ok dest src (unat len)"
  shows "memcpy m dest src len = (\<lambda>a. if a - dest < len then m (src + (a - dest)) else m a)"
  using memcpy_loop_eq [OF assms, of 0 m] by (simp add: memcpy_def word_less_nat_alt)

subsection \<open>Copying strings\<close>

lemma strcpy_loop_eq:
  assumes "fwd_ok dest src (n + 1)" "n < 2 ^ 64" "i \<le> n"
    and "\<forall>k. i \<le> k \<and> k < n \<longrightarrow> m (src + of_nat k) \<noteq> 0" "m (src + of_nat n) = 0"
  shows "strcpy_loop m src dest i =
    Some (\<lambda>a. if i \<le> unat (a - dest) \<and> unat (a - dest) \<le> n then m (src + (a - dest)) else m a)"
  using assms(3-5)
proof (induction "n - i" arbitrary: i m)
  case 0
  then have i: "i = n" by simp
  have "a = dest + of_nat n \<longleftrightarrow> unat (a - dest) = n" for a
    using unat_offset_eq [OF assms(2)] by metis
  then show ?case using "0.prems" i by (subst strcpy_loop.simps) (auto simp: fun_eq_iff)
next
  case (Suc k)
  then have i: "i < n" by simp
  then have i64: "i < 2 ^ 64" using assms(2) by simp
  let ?m = "m(dest + of_nat i := m (src + of_nat i))"
  have keep: "src + of_nat j \<noteq> dest + of_nat i" if "i < j" "j \<le> n" for j
    using fwd_ok_neq [OF assms(1), of i j] that assms(2) by simp
  have "strcpy_loop m src dest i = strcpy_loop ?m src dest (i + 1)"
    using Suc.prems(2) i by (subst strcpy_loop.simps) simp
  also have "\<dots> = Some (\<lambda>a. if i + 1 \<le> unat (a - dest) \<and> unat (a - dest) \<le> n
      then ?m (src + (a - dest)) else ?m a)"
    using Suc.prems Suc.hyps(2) i keep by (intro Suc.hyps(1)) auto
  also have "\<dots> = Some (\<lambda>a. if i \<le> unat (a - dest) \<and> unat (a - dest) \<le> n
      then m (src + (a - dest)) else m a)"
  proof -
    have "a = dest + of_nat i \<longleftrightarrow> unat (a - dest) = i" for a
      using unat_offset_eq [OF i64] by metis
    moreover have "src + (a - dest) \<noteq> dest + of_nat i" if "i < unat (a - dest)" "unat (a - dest) \<le> n" for a
      using keep [of "unat (a - dest)"] that by simp
    ultimately show ?thesis using i by (auto simp: fun_eq_iff)
  qed
  finally show ?case .
qed

text \<open>Copying a string is copying its bytes and the terminator.\<close>

lemma strcpy_memcpy:
  assumes "cstr m src s" "length s < 2 ^ 64 - 1" "fwd_ok dest src (length s + 1)"
  shows "strcpy m src dest = Some (memcpy m dest src (of_nat (length s + 1)))"
proof -
  have n: "unat (of_nat (length s + 1) :: u64) = length s + 1"
    using assms(2) by (intro unat_of_nat_eq) simp
  have "strcpy m src dest =
    Some (\<lambda>a. if unat (a - dest) \<le> length s then m (src + (a - dest)) else m a)"
    using strcpy_loop_eq [OF assms(3), of 0 m] assms(2) cstr_nth_nonzero [OF assms(1)]
      cstr_end [OF assms(1)] by (simp add: strcpy_def)
  then show ?thesis
    using assms(3) n memcpy_eq [of dest src "of_nat (length s + 1)" m]
    by (simp add: word_less_nat_alt less_Suc_eq_le)
qed

lemma strcpy_cstr:
  assumes "cstr m src s" "length s < 2 ^ 64 - 1" "fwd_ok dest src (length s + 1)"
  obtains m' where "strcpy m src dest = Some m'" "cstr m' dest s"
    "\<And>a. length s < unat (a - dest) \<Longrightarrow> m' a = m a"
proof -
  have n: "unat (of_nat (length s + 1) :: u64) = length s + 1"
    using assms(2) by (intro unat_of_nat_eq) simp
  let ?m = "memcpy m dest src (of_nat (length s + 1))"
  have m: "?m a = (if unat (a - dest) \<le> length s then m (src + (a - dest)) else m a)" for a
    using assms(3) n memcpy_eq [of dest src "of_nat (length s + 1)" m]
    by (simp add: word_less_nat_alt less_Suc_eq_le)
  have "?m (dest + of_nat i) = m (src + of_nat i)" if "i \<le> length s" for i
    unfolding m using that assms(2) by (simp add: unat_of_nat_eq)
  then have "cstr ?m dest s" using assms(1) unfolding cstr_def by (metis less_imp_le order_refl)
  then show thesis using that strcpy_memcpy [OF assms] m by simp
qed

subsection \<open>Searching\<close>

lemma strstr_inner_eq:
  assumes "cstr m str s" "cstr m sub t" "i + length t \<le> length s" "j < length t"
  shows "strstr_inner m str sub i j = Some (\<forall>k. j \<le> k \<and> k < length t \<longrightarrow> s ! (i + k) = t ! k)"
  using assms(4)
proof (induction "length t - j" arbitrary: j)
  case 0
  then show ?case by simp
next
  case (Suc d)
  have rd: "m (str + of_nat (i + j)) = s ! (i + j)" "m (sub + of_nat j) = t ! j"
    using cstr_nth [OF assms(1), of "i + j"] cstr_nth [OF assms(2), of j] Suc.prems assms(3) by auto
  show ?case
  proof (cases "j + 1 = length t")
    case True
    then have "m (sub + of_nat (j + 1)) = 0" using cstr_end [OF assms(2)] by metis
    moreover have "(\<forall>k. j \<le> k \<and> k < length t \<longrightarrow> s ! (i + k) = t ! k) = (s ! (i + j) = t ! j)"
      using True by (metis Suc_eq_plus1 le_antisym less_Suc_eq_le lessI order_refl)
    ultimately show ?thesis using rd by (subst strstr_inner.simps) simp
  next
    case False
    then have j: "j + 1 < length t" using Suc.prems by simp
    have "m (sub + of_nat (j + 1)) \<noteq> 0" using cstr_nth_nonzero [OF assms(2) j] by simp
    moreover have "strstr_inner m str sub i (j + 1) =
        Some (\<forall>k. j + 1 \<le> k \<and> k < length t \<longrightarrow> s ! (i + k) = t ! k)"
      using Suc.hyps j by simp
    moreover have "(\<forall>k. j \<le> k \<and> k < length t \<longrightarrow> s ! (i + k) = t ! k) =
        (s ! (i + j) = t ! j \<and> (\<forall>k. j + 1 \<le> k \<and> k < length t \<longrightarrow> s ! (i + k) = t ! k))"
      using Suc.prems by (metis Suc_eq_plus1 Suc_leD le_antisym not_less_eq_eq order_refl)
    ultimately show ?thesis using rd by (subst strstr_inner.simps) simp
  qed
qed

lemma strstr_inner_match:
  assumes "cstr m str s" "cstr m sub t" "i + length t < length s"
  shows "strstr_inner m str sub i 0 = Some (t \<noteq> [] \<and> take (length t) (drop i s) = t)"
proof (cases "t = []")
  case True
  then have "m sub = 0" "m (str + of_nat i) \<noteq> 0"
    using cstr_end [OF assms(2)] cstr_nth_nonzero [OF assms(1), of i] assms(3) by auto
  then show ?thesis using True by (subst strstr_inner.simps) simp
next
  case False
  have "(take (length t) (drop i s) = t) = (\<forall>k < length t. s ! (i + k) = t ! k)"
    using assms(3) by (auto simp: list_eq_iff_nth_eq)
  then show ?thesis using strstr_inner_eq [OF assms(1,2), of i 0] assms(3) False by simp
qed

lemma strstr_outer_eq:
  assumes "cstr m str s" "cstr m sub t" "n = length s - length t"
  shows "strstr_outer m str sub n i =
    Some (if \<exists>k. i \<le> k \<and> k < n \<and> t \<noteq> [] \<and> take (length t) (drop k s) = t then 1 else 0)"
proof (induction "n - i" arbitrary: i)
  case 0
  then show ?case by (subst strstr_outer.simps) auto
next
  case (Suc d)
  then have i: "i < n" by simp
  then have "strstr_inner m str sub i 0 = Some (t \<noteq> [] \<and> take (length t) (drop i s) = t)"
    using strstr_inner_match [OF assms(1,2)] assms(3) by simp
  moreover have "strstr_outer m str sub n (i + 1) = Some (if \<exists>k. i + 1 \<le> k \<and> k < n \<and> t \<noteq> []
      \<and> take (length t) (drop k s) = t then 1 else 0)" using Suc by simp
  ultimately show ?case using i
    by (subst strstr_outer.simps) (auto simp: Suc_le_eq le_less split: bool.splits)
qed

text \<open>\<^verbatim>\<open>strstr\<close> finds an occurrence that something follows; one at the very end of the
  string is missed.\<close>

lemma strstr_cstr:
  assumes "cstr m str s" "cstr m sub t"
  shows "strstr m str sub =
    Some (if t \<noteq> [] \<and> (\<exists>us vs. vs \<noteq> [] \<and> s = us @ t @ vs) then 1 else 0)"
proof -
  have "(\<exists>k. k < length s - length t \<and> take (length t) (drop k s) = t) \<longleftrightarrow>
      (\<exists>us vs. vs \<noteq> [] \<and> s = us @ t @ vs)" (is "?L = ?R")
  proof
    assume ?L
    then obtain k where k: "k < length s - length t" "take (length t) (drop k s) = t" by blast
    have "drop k s = t @ drop (length t) (drop k s)" using k(2) by (metis append_take_drop_id)
    then have "s = take k s @ t @ drop (length t) (drop k s)" by (metis append_take_drop_id)
    moreover have "drop (length t) (drop k s) \<noteq> []" using k(1) by simp
    ultimately show ?R by blast
  next
    assume ?R
    then obtain us vs where "vs \<noteq> []" "s = us @ t @ vs" by blast
    then show ?L by (intro exI [of _ "length us"]) auto
  qed
  then show ?thesis
    using strstr_outer_eq [OF assms refl, of 0]
    by (auto simp: strstr_def strlen_cstr [OF assms(1)] strlen_cstr [OF assms(2)])
qed

section \<open>Properties\<close>

text \<open>Two strings for the witnesses: \<^verbatim>\<open>ab\<close> at 16 and \<^verbatim>\<open>cb\<close> at 32.\<close>

definition two_strings :: bmem where
  "two_strings a = (if a = 16 then 97 else if a = 17 then 98 else if a = 32 then 99 else if a = 33 then 98 else 0)"

lemma two_strings_cstr: "cstr two_strings 16 [97, 98]" "cstr two_strings 32 [99, 98]" "cstr two_strings 33 [98]"
  by (auto simp: cstr_def two_strings_def less_Suc_eq)

text \<open>\<^verbatim>\<open>strcmp(a,b,len)\<close> on two terminated strings returns, and returns 0 exactly when they have
  the same length and agree from position \<^verbatim>\<open>len\<close> on: the third argument is not a bound but a
  prefix that is skipped.\<close>

theorem strcmp_tail:
  assumes "cstr m a s" "cstr m b t" "len \<le> length s"
  shows "strcmp m a b len = Some (if length s = length t \<and> drop len s = drop len t then 0 else - 1)"
  using assms by (rule strcmp_cstr)

theorem strcmp_tail_witness:
  "strcmp two_strings 16 32 1 = Some 0 \<and> strcmp two_strings 16 32 0 = Some (- 1)"
  using strcmp_tail [OF two_strings_cstr(1,2), of 1] strcmp_tail [OF two_strings_cstr(1,2), of 0] by simp

text \<open>\<^verbatim>\<open>strcpy(src,dest)\<close> on a terminated string whose destination does not overlap the part of
  the source still to be read terminates, leaves the same string at \<^verbatim>\<open>dest\<close> and changes no byte
  outside the \<open>length + 1\<close> bytes from \<^verbatim>\<open>dest\<close>.\<close>

theorem strcpy_copies:
  assumes "cstr m src s" "length s < 2 ^ 64 - 1" "fwd_ok dest src (length s + 1)"
  shows "\<exists>m'. strcpy m src dest = Some m' \<and> cstr m' dest s \<and> (\<forall>a. length s < unat (a - dest) \<longrightarrow> m' a = m a)"
  using strcpy_cstr [OF assms] by metis

theorem strcpy_copies_witness:
  "\<exists>m'. strcpy two_strings 16 64 = Some m' \<and> cstr m' 64 [97, 98] \<and> m' 32 = 99"
proof -
  have "unat ((32 :: u64) - 64) = 2 ^ 64 - 32" by (simp add: unat_sub_if' word_le_nat_alt)
  then have "length [97 :: u8, 98] < unat ((32 :: u64) - 64)" by simp
  then show ?thesis
    using strcpy_copies [OF two_strings_cstr(1), of 64] by (auto simp: fwd_ok_def two_strings_def)
qed

text \<open>\<^verbatim>\<open>strstr(str,sub)\<close> terminates, and returns 1 exactly when \<^verbatim>\<open>sub\<close> is not empty and occurs
  in \<^verbatim>\<open>str\<close> with at least one character after it: an occurrence at the end is not found.\<close>

theorem strstr_inner_occurrence:
  assumes "cstr m str s" "cstr m sub t"
  shows "strstr m str sub = Some (if t \<noteq> [] \<and> (\<exists>us vs. vs \<noteq> [] \<and> s = us @ t @ vs) then 1 else 0)"
  using assms by (rule strstr_cstr)

theorem strstr_inner_occurrence_witness: "strstr two_strings 16 33 = Some 0"
  using strstr_inner_occurrence [OF two_strings_cstr(1,3)]
  by (auto simp: Cons_eq_append_conv append_eq_Cons_conv)

end
