(* ===== verification/Console.thy ===== *)
theory Console
  imports CString
begin

text \<open>
  The text console of \<^verbatim>\<open>sys/kprintf.c\<close>: the VGA text buffer at physical address
  \<^verbatim>\<open>0xB8000\<close>, the write pointer \<^verbatim>\<open>video\<close>, the cursor \<^verbatim>\<open>(xp,yp)\<close>, the two scratch
  arrays \<^verbatim>\<open>x\<close> and \<^verbatim>\<open>d\<close> that \<^verbatim>\<open>convert\<close> fills, and the formatter \<^verbatim>\<open>kprintf\<close>.

  The record is the root of the kernel state: the other components extend it, so that an
  operation that prints carries its output with it.  The byte memory \<open>vram\<close> is indexed by
  physical address; a pointer is resolved with \<^const>\<open>phys\<close> when it is dereferenced.
\<close>

record console =
  vram :: bmem
  video :: u64
  xp :: int
  yp :: int
  color :: int
  x_buf :: "u8 list"
  d_buf :: "u8 list"

text \<open>The initial values of the globals; the contents of the text buffer are what the loader
  left there.\<close>

definition console_init :: "bmem \<Rightarrow> 'a \<Rightarrow> 'a console_scheme" where
  "console_init m rest = \<lparr>vram = m, video = 0xB8000 + 160, xp = 0, yp = 1, color = 7,
     x_buf = replicate 1000 0, d_buf = replicate 1000 0, \<dots> = rest\<rparr>"

abbreviation VGA :: u64 where
  "VGA \<equiv> 0xB8000"

abbreviation KVGA :: u64 where
  "KVGA \<equiv> 0xffffffff800B8000"

section \<open>Cursor, screen and single characters\<close>

definition printCursor :: "'a console_scheme \<Rightarrow> 'a console_scheme" where
  "printCursor s = s"

definition backspace :: "'a console_scheme \<Rightarrow> 'a console_scheme" where
  "backspace s =
     (let s = s\<lparr>video := video s - 1\<rparr>;
          s = s\<lparr>vram := (vram s)(phys (video s) := 0)\<rparr>;
          s = s\<lparr>video := video s - 1\<rparr>;
          s = s\<lparr>vram := (vram s)(phys (video s) := 0)\<rparr>;
          s = (if xp s = 0 \<and> yp s > 1 then s\<lparr>xp := 80, yp := yp s - 1\<rparr>
               else if xp s > 0 then s\<lparr>xp := xp s - 1\<rparr> else s)
      in printCursor s)"

definition clearScreen :: "'a console_scheme \<Rightarrow> 'a console_scheme" where
  "clearScreen s =
     (let s = s\<lparr>xp := 0, yp := 1\<rparr>;
          tempV = KVGA + 160;
          s = s\<lparr>vram := memset (vram s) (phys tempV) 0 (23 * 160)\<rparr>;
          s = s\<lparr>video := KVGA + word_of_int (yp s * 160)\<rparr>
      in printCursor s)"

definition scroll :: "'a console_scheme \<Rightarrow> 'a console_scheme" where
  "scroll s =
     (let tempV = KVGA + 160;
          s = s\<lparr>yp := 22\<rparr>;
          s = s\<lparr>vram := memcpy (vram s) (phys tempV) (phys (tempV + 160)) (22 * 160)\<rparr>;
          s = s\<lparr>vram := memset (vram s) (phys (tempV + 22 * 160)) 0 160\<rparr>
      in s\<lparr>video := KVGA + word_of_int (yp s * 160)\<rparr>)"

definition kwrite :: "u8 \<Rightarrow> 'a console_scheme \<Rightarrow> 'a console_scheme" where
  "kwrite c s =
     (let s = s\<lparr>vram := (vram s)(phys (video s) := c), video := video s + 1\<rparr>;
          s = s\<lparr>vram := (vram s)(phys (video s) := word_of_int (color s)), video := video s + 1\<rparr>
      in if xp s < 80 then s\<lparr>xp := xp s + 1\<rparr>
         else let s = s\<lparr>xp := 0\<rparr>
              in if yp s < 21 then s\<lparr>yp := yp s + 1\<rparr> else scroll s)"

definition newline :: "'a console_scheme \<Rightarrow> 'a console_scheme" where
  "newline s =
     (let s = s\<lparr>video := video s + word_of_int ((80 - xp s) * 2)\<rparr>;
          s = s\<lparr>xp := 0\<rparr>
      in if yp s < 22 then s\<lparr>yp := yp s + 1\<rparr> else scroll s)"

definition car_return :: "'a console_scheme \<Rightarrow> 'a console_scheme" where
  "car_return s = (let s = s\<lparr>video := video s - word_of_int (xp s * 2)\<rparr> in s\<lparr>xp := 0\<rparr>)"

section \<open>Number conversion\<close>

definition digit_char :: "u64 \<Rightarrow> u8" where
  "digit_char rem =
     (if rem = 15 then of_char CHR ''f''
      else if rem = 14 then of_char CHR ''e''
      else if rem = 13 then of_char CHR ''d''
      else if rem = 12 then of_char CHR ''c''
      else if rem = 11 then of_char CHR ''b''
      else if rem = 10 then of_char CHR ''a''
      else ucast (rem + 48))"

text \<open>The \<^verbatim>\<open>do ... while (dec>0)\<close> loop, least significant digit first.  The base is 10 or 16
  at every call; the guard on it only makes the recursion total.\<close>

function convert_loop :: "u64 \<Rightarrow> u64 \<Rightarrow> u8 list" where
  "convert_loop dec base =
     digit_char (dec mod base) #
     (if dec div base > 0 \<and> base > 1 then convert_loop (dec div base) base else [])"
  by pat_completeness auto
termination
proof (relation "measure (\<lambda>(dec, base). unat dec)", goal_cases)
  case 1
  show ?case by simp
next
  case (2 dec base)
  then have "1 < unat base" by (metis unat_1 word_less_nat_alt)
  moreover have "dec \<noteq> 0" using 2 by auto
  ultimately show ?case by (simp add: unat_div unat_gt_0)
qed

declare convert_loop.simps [simp del]

text \<open>The local array \<^verbatim>\<open>fmt\<close> after the digit loop and the optional prefix.\<close>

definition convert_fmt :: "u64 \<Rightarrow> u64 \<Rightarrow> char \<Rightarrow> u8 list" where
  "convert_fmt dec base type =
     convert_loop dec base @
     (if type = CHR ''p'' then [of_char CHR ''x'', of_char CHR ''0''] else [])"

text \<open>Writing \<open>xs\<close> into an array from position 0.\<close>

definition put_array :: "u8 list \<Rightarrow> u8 list \<Rightarrow> u8 list" where
  "put_array xs arr = xs @ drop (length xs) arr"

fun write_all :: "u8 list \<Rightarrow> 'a console_scheme \<Rightarrow> 'a console_scheme" where
  "write_all [] s = s"
| "write_all (c # cs) s = write_all cs (kwrite c s)"

definition convert :: "u64 \<Rightarrow> u64 \<Rightarrow> char \<Rightarrow> 'a console_scheme \<Rightarrow> 'a console_scheme" where
  "convert dec base type s =
     (let out = rev (convert_fmt dec base type) in
      if type = CHR ''c'' then write_all out s
      else if type = CHR ''d'' then s\<lparr>d_buf := put_array (out @ [0]) (d_buf s)\<rparr>
      else if type = CHR ''x'' then s\<lparr>x_buf := put_array (out @ [0]) (x_buf s)\<rparr>
      else s\<lparr>x_buf := put_array out (x_buf s)\<rparr>)"

section \<open>Formatted output\<close>

text \<open>The bytes of a character array up to its terminator.\<close>

definition upto_nul :: "u8 list \<Rightarrow> u8 list" where
  "upto_nul arr = takeWhile (\<lambda>c. c \<noteq> 0) arr"

text \<open>\<^verbatim>\<open>printx(int)\<close> and \<^verbatim>\<open>printd(int)\<close>: the \<^verbatim>\<open>int\<close> is converted to \<^verbatim>\<open>unsigned long\<close> at the
  call of \<^verbatim>\<open>convert\<close>, which sign-extends it.\<close>

definition printx :: "u32 \<Rightarrow> 'a console_scheme \<Rightarrow> 'a console_scheme" where
  "printx num s = (let s = convert (scast num) 16 CHR ''x'' s in write_all (upto_nul (x_buf s)) s)"

definition printd :: "u32 \<Rightarrow> 'a console_scheme \<Rightarrow> 'a console_scheme" where
  "printd num s = (let s = convert (scast num) 10 CHR ''d'' s in write_all (upto_nul (d_buf s)) s)"

text \<open>\<^verbatim>\<open>prints\<close> with its null check: \<open>None\<close> is the null pointer.\<close>

definition prints :: "u8 list option \<Rightarrow> 'a console_scheme \<Rightarrow> 'a console_scheme" where
  "prints fmt s = (case fmt of None \<Rightarrow> s | Some cs \<Rightarrow> write_all cs s)"

definition printp :: "u64 \<Rightarrow> 'a console_scheme \<Rightarrow> 'a console_scheme" where
  "printp p s =
     (let s = prints (Some (map of_char ''0x'')) s;
          s = convert p 16 CHR ''x'' s
      in write_all (upto_nul (x_buf s)) s)"

definition printc :: "u8 \<Rightarrow> 'a console_scheme \<Rightarrow> 'a console_scheme" where
  "printc fmt s = kwrite fmt s"

text \<open>A variadic argument: an integer register, or a pointer to a string.  A conversion that
  does not fit its argument, or has none, is undefined in C; here it prints nothing.\<close>

datatype karg = KInt u64 | KStr "u8 list option"

fun print_arg :: "char \<Rightarrow> karg list \<Rightarrow> 'a console_scheme \<Rightarrow> karg list \<times> 'a console_scheme" where
  "print_arg c (KInt w # args) s =
     (if c = CHR ''x'' then (args, printx (ucast w) s)
      else if c = CHR ''s'' then (args, s)
      else if c = CHR ''c'' then (args, printc (ucast w) s)
      else if c = CHR ''p'' then (args, printp w s)
      else if c = CHR ''d'' then (args, printd (ucast w) s)
      else (KInt w # args, s))"
| "print_arg c (KStr p # args) s =
     (if c = CHR ''s'' then (args, prints p s)
      else if c \<in> {CHR ''x'', CHR ''c'', CHR ''p'', CHR ''d''} then (args, s)
      else (KStr p # args, s))"
| "print_arg c [] s = ([], s)"

text \<open>A format that ends in a single \<^verbatim>\<open>%\<close> makes the code step over the terminator; here the
  output stops there.\<close>

fun kprintf :: "string \<Rightarrow> karg list \<Rightarrow> 'a console_scheme \<Rightarrow> 'a console_scheme" where
  "kprintf [] args s = s"
| "kprintf (c # cs) args s =
     (if c = CHR ''%''
      then case cs of [] \<Rightarrow> s
           | k # cs' \<Rightarrow> (case print_arg k args s of (args, s) \<Rightarrow> kprintf cs' args s)
      else if c = CHR 0x0A then kprintf cs args (newline s)
      else if c = CHR 0x0D then kprintf cs args (car_return s)
      else kprintf cs args (printc (of_char c) s))"

section \<open>Pointer arithmetic in the window\<close>

lemma uint_add_of_int:
  fixes a :: u64
  assumes "0 \<le> uint a + k" "uint a + k < 2 ^ 64"
  shows "uint (a + word_of_int k) = uint a + k"
proof -
  have "uint (a + word_of_int k) = (uint a + k) mod 2 ^ 64"
    by (simp add: uint_word_ariths uint_word_of_int mod_add_right_eq take_bit_eq_mod)
  then show ?thesis using assms by simp
qed

lemma phys_shift:
  assumes "uint (phys a) < 2 ^ 31" "0 \<le> uint (phys a) + k" "uint (phys a) + k < 2 ^ 31"
  shows "uint (phys (a + word_of_int k)) = uint (phys a) + k"
proof (cases "KERNBASE \<le> a")
  case True
  then have a: "uint (phys a) = uint a - 0xffffffff80000000"
    by (simp add: phys_def word_le_def uint_sub_if')
  then have b: "uint (a + word_of_int k) = uint a + k" using assms uint_lt2p [of a]
    by (intro uint_add_of_int) auto
  then have "KERNBASE \<le> a + word_of_int k" using a assms by (simp add: word_le_def)
  then show ?thesis using a b assms by (simp add: phys_def word_le_def uint_sub_if')
next
  case False
  then have a: "phys a = a" by (simp add: phys_def)
  then have b: "uint (a + word_of_int k) = uint a + k" using assms
    by (intro uint_add_of_int) auto
  then have "\<not> KERNBASE \<le> a + word_of_int k" using a assms by (simp add: word_le_def)
  then show ?thesis using a b by (simp add: phys_def)
qed

section \<open>What every output primitive respects, \<open>kprintf\<close> respects\<close>

text \<open>A preorder on states that single characters, line feeds, carriage returns and the two
  scratch arrays respect is respected by the whole formatter.\<close>

locale console_preorder =
  fixes R :: "'a console_scheme \<Rightarrow> 'a console_scheme \<Rightarrow> bool"
  assumes R_refl: "R s s"
    and R_trans: "R s t \<Longrightarrow> R t u \<Longrightarrow> R s u"
    and R_kwrite: "R s (kwrite c s)"
    and R_newline: "R s (newline s)"
    and R_car_return: "R s (car_return s)"
    and R_x_buf: "R s (s\<lparr>x_buf := b\<rparr>)"
    and R_d_buf: "R s (s\<lparr>d_buf := b\<rparr>)"
begin

lemma R_write_all: "R s (write_all cs s)"
  by (induction cs arbitrary: s) (auto intro: R_refl R_trans R_kwrite)

lemma R_convert: "R s (convert dec base t s)"
  by (simp add: convert_def Let_def R_write_all R_x_buf R_d_buf)

lemma R_prints: "R s (prints p s)"
  by (simp add: prints_def R_refl R_write_all split: option.splits)

lemma R_convert_write: "R s (write_all cs (convert dec base t s))"
  by (rule R_trans [OF R_convert R_write_all])

lemma R_printp: "R s (printp p s)"
  unfolding printp_def Let_def by (rule R_trans [OF R_prints R_convert_write])

lemma R_print_arg: "R s (snd (print_arg c args s))"
  by (cases "(c, args, s)" rule: print_arg.cases)
    (simp_all add: printx_def printc_def printd_def Let_def R_refl R_kwrite R_prints R_printp
      R_convert_write)

lemma R_kprintf: "R s (kprintf fmt args s)"
proof (induction fmt args s rule: kprintf.induct)
  case (1 args s)
  show ?case by (simp add: R_refl)
next
  case (2 c cs args s)
  show ?case
  proof (cases "c = CHR ''%''")
    case True
    show ?thesis
    proof (cases cs)
      case Nil
      then show ?thesis using True by (simp add: R_refl)
    next
      case (Cons k cs')
      obtain args' s' where p: "print_arg k args s = (args', s')" by force
      have "R s s'" using R_print_arg [of s k args] p by simp
      moreover have "R s' (kprintf cs' args' s')" using "2.IH"(1) True Cons p by simp
      ultimately have "R s (kprintf cs' args' s')" by (rule R_trans)
      then show ?thesis using True Cons p by simp
    qed
  next
    case False
    then show ?thesis
      using R_trans [OF R_newline "2.IH"(2)] R_trans [OF R_car_return "2.IH"(3)]
        R_trans [OF R_kwrite "2.IH"(4) [unfolded printc_def]]
      by (simp add: printc_def)
  qed
qed

end

text \<open>Output only touches the console: the extension of the record is unchanged.\<close>

definition same_more :: "'a console_scheme \<Rightarrow> 'a console_scheme \<Rightarrow> bool" where
  "same_more s t \<longleftrightarrow> console.more t = console.more s"

lemma scroll_more [kframe]: "console.more (scroll s) = console.more s"
  by (simp add: scroll_def Let_def)

lemma backspace_more [kframe]: "console.more (backspace s) = console.more s"
  by (simp add: backspace_def printCursor_def Let_def)

lemma clearScreen_more [kframe]: "console.more (clearScreen s) = console.more s"
  by (simp add: clearScreen_def printCursor_def Let_def)

interpretation con_more: console_preorder same_more
  by unfold_locales
    (simp_all add: same_more_def kwrite_def newline_def car_return_def Let_def kframe)

lemma kprintf_more [kframe]: "console.more (kprintf fmt args s) = console.more s"
  using con_more.R_kprintf [of s fmt args] by (simp add: same_more_def)

section \<open>The screen invariant\<close>

text \<open>Offset of the write pointer in the text buffer.  \<^verbatim>\<open>write\<close> counts 81 columns before it
  moves to the next row, so the pointer may run ahead of \<^verbatim>\<open>(xp,yp)\<close>, by at most one cell
  for every row above.\<close>

definition vpos :: "'a console_scheme \<Rightarrow> int" where
  "vpos s = uint (phys (video s)) - 0xB8000"

definition con_inv :: "'a console_scheme \<Rightarrow> bool" where
  "con_inv s \<longleftrightarrow> 0 \<le> xp s \<and> xp s \<le> 80 \<and> 0 \<le> yp s \<and> yp s \<le> 22 \<and>
     160 * yp s + 2 * xp s \<le> vpos s \<and> vpos s \<le> 160 * yp s + 2 * xp s + 2 * yp s"

text \<open>The 80 x 25 text buffer, two bytes per cell.\<close>

definition in_vga :: "u64 \<Rightarrow> bool" where
  "in_vga a \<longleftrightarrow> 0xB8000 \<le> uint a \<and> uint a < 0xB8000 + 4000"

definition con_step :: "'a console_scheme \<Rightarrow> 'a console_scheme \<Rightarrow> bool" where
  "con_step s t \<longleftrightarrow>
     (con_inv s \<longrightarrow> con_inv t \<and> (\<forall>a. \<not> in_vga a \<longrightarrow> vram t a = vram s a))"

lemma vpos_video:
  assumes "uint (phys (video s)) < 2 ^ 31" "0 \<le> uint (phys (video s)) + k"
    "uint (phys (video s)) + k < 2 ^ 31"
  shows "vpos (s\<lparr>video := video s + word_of_int k\<rparr>) = vpos s + k"
  using phys_shift [OF assms] by (simp add: vpos_def)

lemma phys_KVGA: "0 \<le> k \<Longrightarrow> k < 2 ^ 20 \<Longrightarrow> uint (phys (KVGA + word_of_int k)) = 0xB8000 + k"
  using phys_shift [of KVGA k] by (simp add: phys_def)

lemma scroll_inv: "xp s = 0 \<Longrightarrow> con_inv (scroll s)"
  using phys_KVGA [of "22 * 160"] by (simp add: scroll_def Let_def con_inv_def vpos_def)

lemma uint_minus:
  fixes a b :: u64
  shows "uint (a - b) = (if uint b \<le> uint a then uint a - uint b else uint a - uint b + 2 ^ 64)"
  by (simp add: uint_sub_if' word_le_def)

lemma in_vga_offset:
  assumes "\<not> in_vga a" "0xB8000 \<le> uint b" "uint b + n \<le> 0xB8000 + 4000"
  shows "n \<le> uint (a - b)"
proof (cases "uint b \<le> uint a")
  case True
  then show ?thesis using assms unfolding in_vga_def uint_minus if_P [OF True] by linarith
next
  case False
  have "(0xB8000 + 4000 :: int) \<le> 2 ^ 64" by simp
  with False show ?thesis
    using assms uint_ge_0 [of a] unfolding in_vga_def uint_minus if_not_P [OF False] by linarith
qed

lemma scroll_vram:
  assumes "\<not> in_vga a"
  shows "vram (scroll s) a = vram s a"
proof -
  have "\<not> a - 0xB80A0 < 22 * 160"
    using in_vga_offset [OF assms, of "0xB80A0" "22 * 160"] by (simp add: word_less_def)
  then have "memcpy m 0xB80A0 0xB8140 (22 * 160) a = m a" for m
    using memcpy_eq [of "0xB80A0" "0xB8140" "22 * 160" m] by (simp add: fwd_ok_def)
  moreover have "memset m 0xB8E60 0 160 a = m a" for m
    using in_vga_offset [OF assms, of "0xB8E60" 160] memset_eq [of 160 m "0xB8E60" 0] by simp
  ultimately show ?thesis by (simp add: scroll_def Let_def phys_def)
qed

lemma con_inv_vpos: "con_inv s \<Longrightarrow> 0 \<le> vpos s \<and> vpos s < 3800"
  by (auto simp: con_inv_def)

lemma con_inv_shift:
  assumes "con_inv s" "0 \<le> vpos s + k" "vpos s + k < 4000"
  shows "uint (phys (video s + word_of_int k)) = 0xB8000 + vpos s + k"
  using phys_shift [of "video s" k] con_inv_vpos [OF assms(1)] assms(2,3) by (simp add: vpos_def)

lemma kwrite_step: "con_step s (kwrite c s)"
  unfolding con_step_def
proof (intro impI)
  assume inv: "con_inv s"
  note b = con_inv_vpos [OF inv]
  have sh: "uint (phys (video s + word_of_int k)) = 0xB8000 + vpos s + k" if "0 \<le> k" "k \<le> 2" for k
    using con_inv_shift [OF inv, of k] that b by simp
  have p0: "uint (phys (video s)) = 0xB8000 + vpos s" using sh [of 0] by simp
  have p1: "uint (phys (video s + 1)) = 0xB8000 + vpos s + 1" using sh [of 1] by simp
  have p2: "uint (phys (video s + 1 + 1)) = 0xB8000 + vpos s + 2" using sh [of 2] by (simp add: add.assoc)
  let ?s = "s\<lparr>vram := (vram s)(phys (video s) := c, phys (video s + 1) := word_of_int (color s)),
      video := video s + 1 + 1\<rparr>"
  have cells: "in_vga (phys (video s))" "in_vga (phys (video s + 1))"
    using p0 p1 b by (simp_all add: in_vga_def)
  have fr: "vram ?s a = vram s a" if "\<not> in_vga a" for a using that cells by auto
  have w: "kwrite c s = (if xp s < 80 then ?s\<lparr>xp := xp s + 1\<rparr>
      else if yp s < 21 then ?s\<lparr>xp := 0, yp := yp s + 1\<rparr> else scroll (?s\<lparr>xp := 0\<rparr>))"
    by (simp add: kwrite_def Let_def)
  have "con_inv (kwrite c s)"
    using inv p2 scroll_inv [of "?s\<lparr>xp := 0\<rparr>"] unfolding w by (auto simp: con_inv_def vpos_def)
  moreover have "vram (kwrite c s) a = vram s a" if "\<not> in_vga a" for a
    using fr [OF that] scroll_vram [OF that, of "?s\<lparr>xp := 0\<rparr>"] unfolding w by simp
  ultimately show "con_inv (kwrite c s) \<and> (\<forall>a. \<not> in_vga a \<longrightarrow> vram (kwrite c s) a = vram s a)"
    by blast
qed

lemma newline_step: "con_step s (newline s)"
  unfolding con_step_def
proof (intro impI)
  assume inv: "con_inv s"
  let ?s = "s\<lparr>video := video s + word_of_int ((80 - xp s) * 2), xp := 0\<rparr>"
  have w: "newline s = (if yp s < 22 then ?s\<lparr>yp := yp s + 1\<rparr> else scroll ?s)"
    by (simp add: newline_def Let_def)
  have v: "uint (phys (video ?s)) = 0xB8000 + vpos s + (80 - xp s) * 2"
    using con_inv_shift [OF inv, of "(80 - xp s) * 2"] con_inv_vpos [OF inv] inv by (simp add: con_inv_def)
  have "con_inv (newline s)"
    using inv v scroll_inv [of ?s] unfolding w by (auto simp: con_inv_def vpos_def)
  moreover have "vram (newline s) a = vram s a" if "\<not> in_vga a" for a
    using scroll_vram [OF that, of ?s] unfolding w by simp
  ultimately show "con_inv (newline s) \<and> (\<forall>a. \<not> in_vga a \<longrightarrow> vram (newline s) a = vram s a)"
    by blast
qed

lemma car_return_step: "con_step s (car_return s)"
  unfolding con_step_def
proof (intro impI)
  assume inv: "con_inv s"
  have "uint (phys (video s - word_of_int (xp s * 2))) = 0xB8000 + vpos s - xp s * 2"
    using con_inv_shift [OF inv, of "- (xp s * 2)"] con_inv_vpos [OF inv] inv
    by (simp add: con_inv_def)
  then show "con_inv (car_return s) \<and> (\<forall>a. \<not> in_vga a \<longrightarrow> vram (car_return s) a = vram s a)"
    using inv by (simp add: car_return_def Let_def con_inv_def vpos_def)
qed

interpretation con_screen: console_preorder con_step
proof
  fix s t u :: "'a console_scheme"
  show "con_step s s" by (simp add: con_step_def)
  show "con_step s t \<Longrightarrow> con_step t u \<Longrightarrow> con_step s u" by (auto simp: con_step_def)
qed (simp_all add: kwrite_step newline_step car_return_step,
    simp_all add: con_step_def con_inv_def vpos_def)

lemma kprintf_con_inv [kinv]: "con_inv s \<Longrightarrow> con_inv (kprintf fmt args s)"
  using con_screen.R_kprintf [of s fmt args] by (simp add: con_step_def)

lemma clearScreen_con_inv [kinv]: "con_inv (clearScreen s)"
  using phys_KVGA [of 160]
  by (simp add: clearScreen_def printCursor_def Let_def con_inv_def vpos_def)

section \<open>Numbers as text\<close>

text \<open>Reading a numeral back: the specification of \<^verbatim>\<open>convert\<close>.\<close>

definition digit_val :: "u8 \<Rightarrow> nat" where
  "digit_val c = (if c < 58 then unat c - 48 else unat c - 87)"

definition num_val :: "nat \<Rightarrow> u8 list \<Rightarrow> nat" where
  "num_val base cs = foldl (\<lambda>v c. base * v + digit_val c) 0 cs"

lemma small_u64_cases:
  fixes r :: u64
  assumes "r < 16"
  shows "r \<in> {0, 1, 2, 3, 4, 5, 6, 7, 8, 9, 10, 11, 12, 13, 14, 15}"
proof -
  have "unat r < 16" using assms by (simp add: word_less_nat_alt)
  then have "unat r \<in> {0, 1, 2, 3, 4, 5, 6, 7, 8, 9, 10, 11, 12, 13, 14, 15}"
    by (simp only: insert_iff empty_iff) arith
  then have "of_nat (unat r) \<in> (of_nat ` {0, 1, 2, 3, 4, 5, 6, 7, 8, 9, 10, 11, 12, 13, 14, 15} :: u64 set)"
    by (rule imageI)
  then show ?thesis by simp
qed

lemma digit_char_val:
  assumes "r < 16"
  shows "digit_val (digit_char r) = unat r" "digit_char r \<noteq> 0"
  using small_u64_cases [OF assms] by (auto simp: digit_char_def digit_val_def)

lemma mod_base_less:
  fixes dec base :: u64
  assumes "base = 10 \<or> base = 16"
  shows "dec mod base < 16"
proof -
  have "unat (dec mod base) < unat base" using assms by (auto simp: unat_mod)
  then show ?thesis using assms by (auto simp: word_less_nat_alt)
qed

lemma convert_loop_nonzero: "base = 10 \<or> base = 16 \<Longrightarrow> 0 \<notin> set (convert_loop dec base)"
proof (induction dec base rule: convert_loop.induct)
  case (1 dec base)
  then show ?case
    using digit_char_val(2) [OF mod_base_less [of base dec]]
    by (subst convert_loop.simps) auto
qed

lemma convert_loop_val:
  "base = 10 \<or> base = 16 \<Longrightarrow> num_val (unat base) (rev (convert_loop dec base)) = unat dec"
proof (induction dec base rule: convert_loop.induct)
  case (1 dec base)
  have d: "digit_val (digit_char (dec mod base)) = unat dec mod unat base"
    using digit_char_val(1) [OF mod_base_less [OF "1.prems"]] by (simp add: unat_mod)
  have b: "1 < base" using "1.prems" by auto
  show ?case
  proof (cases "dec div base > 0")
    case True
    then have "num_val (unat base) (rev (convert_loop (dec div base) base)) = unat dec div unat base"
      using "1.IH" "1.prems" b by (simp add: unat_div)
    then show ?thesis using True b d
      by (subst convert_loop.simps) (simp add: num_val_def)
  next
    case False
    then have "dec div base = 0" by (simp add: word_gt_0)
    then have "unat dec div unat base = 0" by (metis unat_0 unat_div)
    then have "unat dec mod unat base = unat dec"
      using div_mult_mod_eq [of "unat dec" "unat base"] by simp
    then show ?thesis using False d
      by (subst convert_loop.simps) (simp add: num_val_def)
  qed
qed

lemma convert_loop_length:
  assumes "1 < base" "unat dec < unat base ^ k" "0 < k"
  shows "length (convert_loop dec base) \<le> k"
  using assms(2,3)
proof (induction k arbitrary: dec)
  case 0
  then show ?case by simp
next
  case (Suc k)
  show ?case
  proof (cases "dec div base > 0")
    case True
    have q: "unat (dec div base) < unat base ^ k"
      using Suc.prems(1) by (simp add: unat_div less_mult_imp_div_less mult.commute)
    moreover have "0 < k"
    proof (rule ccontr)
      assume "\<not> 0 < k"
      then have "unat (dec div base) = 0" using q by simp
      then show False using True by (simp add: unat_0_iff)
    qed
    ultimately have "length (convert_loop (dec div base) base) \<le> k" by (rule Suc.IH)
    then show ?thesis by (subst convert_loop.simps) simp
  next
    case False
    then show ?thesis by (subst convert_loop.simps) simp
  qed
qed

lemma upto_nul_put: "0 \<notin> set xs \<Longrightarrow> upto_nul (put_array (xs @ [0]) arr) = xs"
  unfolding upto_nul_def put_array_def by (auto simp: takeWhile_append)

text \<open>The text that \<^verbatim>\<open>convert\<close> leaves in \<^verbatim>\<open>d\<close> (base 10) and in \<^verbatim>\<open>x\<close> (base 16), read back as
  a numeral, is the number converted, for every 64-bit number.\<close>

theorem convert_roundtrip:
  "num_val 10 (upto_nul (d_buf (convert n 10 CHR ''d'' s))) = unat n \<and>
   num_val 16 (upto_nul (x_buf (convert n 16 CHR ''x'' s))) = unat n"
  using convert_loop_val [of 10 n] convert_loop_val [of 16 n] convert_loop_nonzero [of 10 n]
    convert_loop_nonzero [of 16 n]
  by (simp add: convert_def convert_fmt_def upto_nul_put)

text \<open>C9. The local array \<^verbatim>\<open>char fmt[20]\<close> of \<^verbatim>\<open>convert\<close> is never overrun: every 64-bit number
  needs at most 20 entries in base 10, and at most 18 in base 16 with the \<^verbatim>\<open>0x\<close> prefix.\<close>

theorem convert_fmt_bounds:
  "length (convert_fmt n 10 CHR ''d'') \<le> 20 \<and> length (convert_fmt n 16 CHR ''x'') \<le> 16 \<and>
   length (convert_fmt n 16 CHR ''p'') \<le> 18"
proof -
  have n: "unat n < 2 ^ 64" using unat_lt2p [of n] by simp
  have "length (convert_loop n 10) \<le> 20" "length (convert_loop n 16) \<le> 16"
    using n by (intro convert_loop_length; simp)+
  then show ?thesis by (simp add: convert_fmt_def)
qed

lemma kwrite_d_buf [kframe]: "d_buf (kwrite c s) = d_buf s"
  by (simp add: kwrite_def scroll_def Let_def)

lemma write_all_d_buf [kframe]: "d_buf (write_all cs s) = d_buf s"
  by (induction cs arbitrary: s) (simp_all add: kframe)

lemma int_scast:
  "int (unat (scast (n :: u32) :: u64)) = (if 0 \<le> sint n then sint n else sint n + 2 ^ 64)"
proof -
  have "int (unat (scast n :: u64)) = sint n mod 2 ^ 64"
    by (simp only: of_nat_unat scast_eq uint_word_of_int) simp
  also have "\<dots> = (if 0 \<le> sint n then sint n else sint n + 2 ^ 64)"
    using sint_ge [of n] sint_lt [of n] mod_pos_pos_trivial [of "sint n + 2 ^ 64" "2 ^ 64"]
    by (cases "0 \<le> sint n") (simp_all add: mod_pos_pos_trivial)
  finally show ?thesis .
qed

text \<open>\<^verbatim>\<open>%d\<close> has no minus sign: \<^verbatim>\<open>printd\<close> writes the digits of the number when it is not
  negative, and the unsigned 64-bit two's-complement pattern of a negative one.\<close>

theorem printd_value:
  "\<exists>ds. printd n s = write_all ds (s\<lparr>d_buf := d_buf (printd n s)\<rparr>) \<and> 0 \<notin> set ds \<and>
     int (num_val 10 ds) = (if 0 \<le> sint n then sint n else sint n + 2 ^ 64)"
proof -
  let ?ds = "rev (convert_loop (scast n) 10)"
  have nz: "0 \<notin> set ?ds" using convert_loop_nonzero [of 10] by simp
  have "printd n s = write_all ?ds (s\<lparr>d_buf := put_array (?ds @ [0]) (d_buf s)\<rparr>)"
    using upto_nul_put [OF nz] by (simp add: printd_def convert_def convert_fmt_def Let_def)
  moreover have "int (num_val 10 ?ds) = (if 0 \<le> sint n then sint n else sint n + 2 ^ 64)"
    using convert_loop_val [of 10 "scast n"] int_scast [of n] by simp
  ultimately show ?thesis using nz by (intro exI [of _ ?ds]) (simp add: kframe)
qed

lemma console_init_inv: "con_inv (console_init m r)"
  by (simp add: console_init_def con_inv_def vpos_def phys_def)

text \<open>C8. From a well-placed cursor, \<^verbatim>\<open>kprintf\<close> with any format and arguments keeps the cursor
  on the screen and writes no byte outside the 4000-byte text buffer.\<close>

theorem kprintf_confined:
  assumes "con_inv s"
  shows "con_inv (kprintf fmt args s) \<and>
    (\<forall>a. vram (kprintf fmt args s) a \<noteq> vram s a \<longrightarrow> in_vga a)"
  using con_screen.R_kprintf [of s fmt args] assms by (auto simp: con_step_def)

theorem kprintf_confined_witness:
  "con_inv (kprintf ''%d%s'' [KInt 7, KStr None] (console_init (\<lambda>_. 0) ())) \<and>
   vram (kprintf ''%d%s'' [KInt 7, KStr None] (console_init (\<lambda>_. 0) ())) 0x1000 = 0"
proof -
  have "\<not> in_vga 0x1000" by (simp add: in_vga_def)
  then show ?thesis
    using kprintf_confined [OF console_init_inv, of "''%d%s''" "[KInt 7, KStr None]" "\<lambda>_. 0" "()"]
    by (auto simp: console_init_def)
qed

declare kprintf.simps [simp del] print_arg.simps [simp del]

end
