(* ===== verification/Bytes.thy ===== *)
theory Bytes
  imports CString
begin

text \<open>
  Numbers of several bytes in a byte memory, in the order of the machine (least significant byte first), for the
  components that lay out structures byte by byte.  An address \<open>x\<close> is in the \<open>n\<close> bytes from \<open>a\<close> when \<open>unat (x - a) < n\<close>.
\<close>

fun ldn :: "nat \<Rightarrow> bmem \<Rightarrow> u64 \<Rightarrow> u64" where
  "ldn 0 m a = 0"
| "ldn (Suc n) m a = ucast (m a) OR push_bit 8 (ldn n m (a + 1))"

fun stn :: "nat \<Rightarrow> u64 \<Rightarrow> u64 \<Rightarrow> bmem \<Rightarrow> bmem" where
  "stn 0 a v m = m"
| "stn (Suc n) a v m = stn n (a + 1) (drop_bit 8 v) (m(a := ucast v))"

section \<open>Ranges of addresses\<close>

lemma unat_pred_offset:
  fixes x a :: u64
  assumes "x \<noteq> a"
  shows "unat (x - a) = Suc (unat (x - (a + 1)))"
proof -
  have "x - a \<noteq> 0" using assms by simp
  then have "unat (x - a - 1) = unat (x - a) - 1" "0 < unat (x - a)"
    by (simp_all add: unat_minus_one unat_gt_0)
  then show ?thesis by (simp add: diff_diff_eq)
qed

lemma unat_self_offset: "unat (a - (a + 1) :: u64) = 2 ^ 64 - 1"
  by (simp add: unsigned_minus_1_eq_mask mask_eq_exp_minus_1)

lemma range_sub:
  fixes x T :: u64
  assumes "c + n \<le> 2 ^ 64"
  shows "unat (x - (T + of_nat c)) < n \<longleftrightarrow> c \<le> unat (x - T) \<and> unat (x - T) < c + n"
proof
  assume l: "unat (x - (T + of_nat c)) < n"
  have "x - T = of_nat (c + unat (x - (T + of_nat c)))" by simp
  then have "unat (x - T) = c + unat (x - (T + of_nat c))"
    using unat_of_nat_eq [of "c + unat (x - (T + of_nat c))", where ?'a = 64] l assms by simp
  then show "c \<le> unat (x - T) \<and> unat (x - T) < c + n" using l by simp
next
  assume r: "c \<le> unat (x - T) \<and> unat (x - T) < c + n"
  have "x - (T + of_nat c) = of_nat (unat (x - T) - c)" using r by (simp add: of_nat_diff)
  moreover have "unat (of_nat (unat (x - T) - c) :: u64) = unat (x - T) - c"
    using unat_lt2p [of "x - T"] by (intro unat_of_nat_eq) simp
  ultimately have e: "unat (x - (T + of_nat c)) = unat (x - T) - c" by (simp only:)
  show "unat (x - (T + of_nat c)) < n" unfolding e using r by linarith
qed

lemma range_off:
  fixes T :: u64
  shows "c < 2 ^ 64 \<Longrightarrow> unat (T + of_nat c - T) = c"
  by (simp add: unat_of_nat_eq)

section \<open>Loading what was stored\<close>

lemma stn_apply:
  assumes "n < 2 ^ 64"
  shows "stn n a v m x = (if unat (x - a) < n then ucast (drop_bit (8 * unat (x - a)) v) else m x)"
  using assms
proof (induction n arbitrary: a v m)
  case (Suc n)
  show ?case
  proof (cases "x = a")
    case True
    then show ?thesis using Suc unat_self_offset [of a] by simp
  next
    case False
    then show ?thesis using Suc unat_pred_offset [OF False] by (simp add: add.commute)
  qed
qed simp

lemma ldn_cong:
  assumes "\<And>x. unat (x - a) < n \<Longrightarrow> m x = m' x" "n < 2 ^ 64"
  shows "ldn n m a = ldn n m' a"
  using assms
proof (induction n arbitrary: a)
  case (Suc n)
  have "m x = m' x" if "unat (x - (a + 1)) < n" for x
  proof (cases "x = a")
    case False
    then show ?thesis using Suc.prems(1) [of x] that unat_pred_offset [OF False] by simp
  qed (use Suc.prems(1) [of a] in simp)
  then have "ldn n m (a + 1) = ldn n m' (a + 1)" using Suc.IH Suc.prems(2) by simp
  then show ?case using Suc.prems(1) [of a] by simp
qed simp

lemma take_bit_split:
  fixes v :: u64
  shows "take_bit (8 + k) v = take_bit 8 v OR push_bit 8 (take_bit k (drop_bit 8 v))"
  by (rule bit_word_eqI) (auto simp: bit_simps)

lemma ldn_stn:
  assumes "n < 2 ^ 64"
  shows "ldn n (stn n a v m) a = take_bit (8 * n) v"
  using assms
proof (induction n arbitrary: a v m)
  case (Suc n)
  have "stn n (a + 1) (drop_bit 8 v) (m(a := ucast v)) a = ucast v"
    using Suc.prems unat_self_offset [of a] by (simp add: stn_apply)
  moreover have "ucast (ucast v :: u8) = (take_bit 8 v :: u64)"
    by (rule bit_word_eqI) (auto simp: bit_simps)
  ultimately show ?case using Suc take_bit_split [of "8 * n" v] by (simp add: algebra_simps)
qed simp

lemma ldn_stn_other:
  assumes "\<And>x. unat (x - b) < k \<Longrightarrow> \<not> unat (x - a) < n" "n < 2 ^ 64" "k < 2 ^ 64"
  shows "ldn k (stn n a v m) b = ldn k m b"
  using assms by (intro ldn_cong) (simp_all add: stn_apply)

lemma ldn_bound: "ldn n m a = take_bit (8 * n) (ldn n m a)"
proof (induction n arbitrary: a)
  case (Suc n)
  have "take_bit (8 * Suc n) (ldn (Suc n) m a) =
      take_bit 8 (ldn (Suc n) m a) OR push_bit 8 (take_bit (8 * n) (drop_bit 8 (ldn (Suc n) m a)))"
    using take_bit_split [of "8 * n" "ldn (Suc n) m a"] by (simp add: algebra_simps)
  also have "drop_bit 8 (ldn (Suc n) m a) = take_bit 56 (ldn n m (a + 1))"
    by (rule bit_word_eqI) (auto simp: bit_simps dest: bit_imp_le_length)
  also have "take_bit 8 (ldn (Suc n) m a) = ucast (m a)"
    by (rule bit_word_eqI) (auto simp: bit_simps dest: bit_imp_le_length)
  also have "push_bit 8 (take_bit (8 * n) (take_bit 56 (ldn n m (a + 1)))) = push_bit 8 (ldn n m (a + 1))"
    by (subst (2) Suc.IH) (rule bit_word_eqI, auto simp: bit_simps)
  finally show ?case by simp
qed simp

end
