(* ===== verification/Ahci.thy ===== *)
theory Ahci
  imports Console Bytes
begin

text \<open>
  The disk driver of \<^verbatim>\<open>sys/enumpci.c\<close> over the structures of \<^verbatim>\<open>include/sys/ahci.h\<close>: command slots, the command list and
  command tables in memory, issuing a command and waiting for it, and the set-up of a port.

  The controller is not part of the sources: it is the parameter \<open>hba\<close>, which answers the accesses to its registers.  The
  registers are volatile, so every access may change the controller, and as it transfers data by itself also the memory.
  The structures of the header are offsets into the byte memory; the low addresses that the driver uses are mapped to
  themselves.
\<close>

record 'd hba =
  reg_read :: "u64 \<Rightarrow> 'd \<Rightarrow> bmem \<Rightarrow> u64 \<times> 'd \<times> bmem"
  reg_write :: "u64 \<Rightarrow> u64 \<Rightarrow> 'd \<Rightarrow> bmem \<Rightarrow> 'd \<times> bmem"

record 'd disk = console +
  ram :: bmem
  ctl :: 'd

section \<open>Registers of a port\<close>

datatype preg = P_clb | P_fb | P_is | P_ie | P_cmd | P_tfd | P_sig | P_ssts | P_sctl | P_serr | P_sact | P_ci | P_sntf | P_fbs

fun preg_off :: "preg \<Rightarrow> u64" where
  "preg_off P_clb = 0x00"
| "preg_off P_fb = 0x08"
| "preg_off P_is = 0x10"
| "preg_off P_ie = 0x14"
| "preg_off P_cmd = 0x18"
| "preg_off P_tfd = 0x20"
| "preg_off P_sig = 0x24"
| "preg_off P_ssts = 0x28"
| "preg_off P_sctl = 0x2C"
| "preg_off P_serr = 0x30"
| "preg_off P_sact = 0x34"
| "preg_off P_ci = 0x38"
| "preg_off P_sntf = 0x3C"
| "preg_off P_fbs = 0x40"

text \<open>The two base addresses are 64 bits wide, the other registers 32.\<close>

definition preg_val :: "preg \<Rightarrow> u64 \<Rightarrow> u64" where
  "preg_val r v = (if r = P_clb \<or> r = P_fb then v else take_bit 32 v)"

definition pread :: "'d hba \<Rightarrow> u64 \<Rightarrow> preg \<Rightarrow> ('d, 'a) disk_scheme \<Rightarrow> u64 \<times> ('d, 'a) disk_scheme" where
  "pread env port r s =
     (let (v, d, m) = reg_read env (port + preg_off r) (ctl s) (ram s)
      in (preg_val r v, s\<lparr>ram := m, ctl := d\<rparr>))"

definition pwrite :: "'d hba \<Rightarrow> u64 \<Rightarrow> preg \<Rightarrow> u64 \<Rightarrow> ('d, 'a) disk_scheme \<Rightarrow> ('d, 'a) disk_scheme" where
  "pwrite env port r v s =
     (let (d, m) = reg_write env (port + preg_off r) (preg_val r v) (ctl s) (ram s)
      in s\<lparr>ram := m, ctl := d\<rparr>)"

section \<open>Command slots\<close>

function slot_loop :: "u64 \<Rightarrow> nat \<Rightarrow> int" where
  "slot_loop slots i =
     (if i < 32 then if slots AND 1 = 0 then int i else slot_loop (drop_bit 1 slots) (i + 1)
      else - 1)"
  by pat_completeness auto
termination by (relation "measure (\<lambda>(slots, i). 32 - i)") auto

declare slot_loop.simps [simp del]

definition find_cmdslot :: "'d hba \<Rightarrow> u64 \<Rightarrow> ('d, 'a) disk_scheme \<Rightarrow> int \<times> ('d, 'a) disk_scheme" where
  "find_cmdslot env port s =
     (let (sact, s) = pread env port P_sact s;
          (ci, s) = pread env port P_ci s
      in (slot_loop (sact OR ci) 0, s))"

section \<open>A command in memory\<close>

text \<open>An entry of the descriptor table: address, byte count (22 bits of the last word) and interrupt bit.\<close>

definition prdt_entry :: "u64 \<Rightarrow> u64 \<Rightarrow> u32 \<Rightarrow> bmem \<Rightarrow> bmem" where
  "prdt_entry e dba dbc m =
     (let m = stn 8 e dba m;
          m = stn 4 (e + 12) ((ldn 4 m (e + 12) AND NOT 0x3fffff) OR (ucast dbc AND 0x3fffff)) m;
          m = stn 4 (e + 12) ((ldn 4 m (e + 12) AND NOT 0x80000000) OR 0x80000000) m
      in m)"

lemma ldn2_bound: "unat (ldn 2 m a) < 65536"
proof -
  have "unat (take_bit 16 (ldn 2 m a)) < 2 ^ 16" by (simp only: unsigned_take_bit_eq take_bit_nat_less_exp)
  then show ?thesis using ldn_bound [of 2 m a] by simp
qed

text \<open>The loop over the full entries of 16 sectors; the number of entries is read from the command header each time.\<close>

function prdt_loop :: "u64 \<Rightarrow> u64 \<Rightarrow> nat \<Rightarrow> u64 \<Rightarrow> u32 \<Rightarrow> bmem \<Rightarrow> u64 \<times> u32 \<times> bmem" where
  "prdt_loop h tbl i buf count m =
     (if int i < int (unat (ldn 2 m (h + 2))) - 1
      then prdt_loop h tbl (i + 1) (buf + 4 * (4 * 1024)) (count - 16) (prdt_entry (tbl + 0x80 + 16 * of_nat i) buf (8 * 1024) m)
      else (buf, count, m))"
  by pat_completeness auto
termination
proof (relation "measure (\<lambda>(h, tbl, i, buf, count, m). 65536 - i)")
  fix h tbl i buf count m
  assume "int i < int (unat (ldn 2 m (h + 2))) - 1"
  then have "i < 65536" using ldn2_bound [of m "h + 2"] by linarith
  then show "((h, tbl, i + 1, buf + 4 * (4 * 1024), count - 16 :: u32, prdt_entry (tbl + 0x80 + 16 * of_nat i) buf (8 * 1024) m),
      h, tbl, i, buf, count, m) \<in> measure (\<lambda>(h, tbl, i, buf, count, m). 65536 - i)" by simp
qed simp

declare prdt_loop.simps [simp del]

text \<open>The command structure in the frame sent to the device.\<close>

definition command_fis :: "u64 \<Rightarrow> u8 \<Rightarrow> u32 \<Rightarrow> u32 \<Rightarrow> u32 \<Rightarrow> bmem \<Rightarrow> bmem" where
  "command_fis f command startl starth count m =
     (let m = m(f := 0x27);
          m = m(f + 1 := (m (f + 1) AND NOT 0x80) OR 0x80);
          m = m(f + 2 := command);
          m = m(f + 4 := ucast startl);
          m = m(f + 5 := ucast (drop_bit 8 startl));
          m = m(f + 6 := ucast (drop_bit 16 startl));
          m = m(f + 7 := push_bit 6 1);
          m = m(f + 8 := ucast (drop_bit 24 startl));
          m = m(f + 9 := ucast starth);
          m = m(f + 10 := ucast (drop_bit 8 starth));
          m = stn 2 (f + 12) (ucast (ucast count :: u8)) m
      in m)"

text \<open>The header of the slot, the cleared table, its entries and the frame: the first half of \<^verbatim>\<open>read_from_disk\<close> and of
  \<^verbatim>\<open>write_to_disk\<close>, which differ only in the command code.  After the loop the entry with the index of the outer
  variable \<^verbatim>\<open>i\<close>, which is still 0, is written.\<close>

definition build_command :: "u64 \<Rightarrow> u8 \<Rightarrow> u32 \<Rightarrow> u32 \<Rightarrow> u32 \<Rightarrow> u64 \<Rightarrow> bmem \<Rightarrow> bmem" where
  "build_command h command startl starth count buf m =
     (let m = m(h := (m h AND NOT 0x1f) OR (20 div 4));
          m = m(h := m h AND NOT 0x40);
          m = stn 2 (h + 2) (ucast (ucast (drop_bit 4 (count - 1)) + 1 :: u16)) m;
          tbl = ldn 8 m (h + 8);
          m = CString.memset m tbl 0 (256 + (int (unat (ldn 2 m (h + 2))) - 1) * 16);
          (buf, count, m) = prdt_loop h tbl 0 buf count m;
          m = prdt_entry (tbl + 0x80 + 16 * 0) buf (push_bit 9 count) m
      in command_fis tbl command startl starth count m)"

section \<open>Issuing a command\<close>

function spin_loop :: "'d hba \<Rightarrow> u64 \<Rightarrow> nat \<Rightarrow> ('d, 'a) disk_scheme \<Rightarrow> nat \<times> ('d, 'a) disk_scheme" where
  "spin_loop env port spin s =
     (let (tfd, s) = pread env port P_tfd s
      in if tfd AND (0x80 OR 0x08) \<noteq> 0 \<and> spin < 1000000 then spin_loop env port (spin + 1) s else (spin, s))"
  by pat_completeness auto
termination by (relation "measure (\<lambda>(env, port, spin, s). 1000000 - spin)") auto

declare spin_loop.simps [simp del]

text \<open>The wait for completion: \<open>True\<close> when the slot is free again, \<open>False\<close> after a task file error.\<close>

partial_function (option) wait_loop :: "'d hba \<Rightarrow> u64 \<Rightarrow> int \<Rightarrow> ('d, 'a) disk_scheme \<Rightarrow> (bool \<times> ('d, 'a) disk_scheme) option" where
  "wait_loop env port slot s =
     (let (ci, s) = pread env port P_ci s
      in if ci AND push_bit (nat slot) 1 = 0 then Some (True, s)
         else let (is, s) = pread env port P_is s
              in if is AND 0x40000000 \<noteq> 0 then Some (False, s) else wait_loop env port slot s)"

definition disk_msg :: "bool \<Rightarrow> string \<Rightarrow> ('d, 'a) disk_scheme \<Rightarrow> ('d, 'a) disk_scheme" where
  "disk_msg say msg s = (if say then kprintf (msg @ [CHR 0x0A]) [] s else s)"

definition issue_command :: "'d hba \<Rightarrow> bool \<Rightarrow> u64 \<Rightarrow> int \<Rightarrow> ('d, 'a) disk_scheme \<Rightarrow> (int \<times> ('d, 'a) disk_scheme) option" where
  "issue_command env say port slot s =
     (let (spin, s) = spin_loop env port 0 s
      in if spin = 1000000 then Some (0, disk_msg say ''Port is hung'' s)
         else do {
           let s = pwrite env port P_ci (push_bit (nat slot) 1) s;
           (done, s) \<leftarrow> wait_loop env port slot s;
           if \<not> done then Some (0, disk_msg say ''Read disk error'' s)
           else let (is, s) = pread env port P_is s
                in if is AND 0x40000000 \<noteq> 0 then Some (0, disk_msg say ''Read disk error'' s) else Some (1, s)
         })"

definition disk_command :: "'d hba \<Rightarrow> bool \<Rightarrow> u8 \<Rightarrow> u64 \<Rightarrow> u32 \<Rightarrow> u32 \<Rightarrow> u32 \<Rightarrow> u64 \<Rightarrow> ('d, 'a) disk_scheme \<Rightarrow> (int \<times> ('d, 'a) disk_scheme) option" where
  "disk_command env say command port startl starth count buf s =
     (let s = pwrite env port P_is (- 1) s;
          (slot, s) = find_cmdslot env port s
      in if slot = - 1 then Some (0, s)
         else let (clb, s) = pread env port P_clb s;
                  s = s\<lparr>ram := build_command (clb + 32 * word_of_int slot) command startl starth count buf (ram s)\<rparr>
              in issue_command env say port slot s)"

definition write_to_disk :: "'d hba \<Rightarrow> u64 \<Rightarrow> u32 \<Rightarrow> u32 \<Rightarrow> u32 \<Rightarrow> u64 \<Rightarrow> ('d, 'a) disk_scheme \<Rightarrow> (int \<times> ('d, 'a) disk_scheme) option" where
  "write_to_disk env port startl starth count buf s = disk_command env False 0x35 port startl starth count buf s"

definition read_from_disk :: "'d hba \<Rightarrow> u64 \<Rightarrow> u32 \<Rightarrow> u32 \<Rightarrow> u32 \<Rightarrow> u64 \<Rightarrow> ('d, 'a) disk_scheme \<Rightarrow> (int \<times> ('d, 'a) disk_scheme) option" where
  "read_from_disk env port startl starth count buf s = disk_command env True 0x25 port startl starth count buf s"

section \<open>Setting up a port\<close>

partial_function (option) cr_loop :: "'d hba \<Rightarrow> u64 \<Rightarrow> ('d, 'a) disk_scheme \<Rightarrow> ('d, 'a) disk_scheme option" where
  "cr_loop env port s =
     (let (cmd, s) = pread env port P_cmd s
      in if cmd AND 0x8000 \<noteq> 0 then cr_loop env port s else Some s)"

definition cmd_or :: "'d hba \<Rightarrow> u64 \<Rightarrow> u64 \<Rightarrow> ('d, 'a) disk_scheme \<Rightarrow> ('d, 'a) disk_scheme" where
  "cmd_or env port b s = (let (cmd, s) = pread env port P_cmd s in pwrite env port P_cmd (cmd OR b) s)"

definition cmd_clear :: "'d hba \<Rightarrow> u64 \<Rightarrow> u64 \<Rightarrow> ('d, 'a) disk_scheme \<Rightarrow> ('d, 'a) disk_scheme" where
  "cmd_clear env port b s = (let (cmd, s) = pread env port P_cmd s in pwrite env port P_cmd (cmd AND NOT b) s)"

definition start_cmd :: "'d hba \<Rightarrow> u64 \<Rightarrow> ('d, 'a) disk_scheme \<Rightarrow> ('d, 'a) disk_scheme option" where
  "start_cmd env port s = do {
     s \<leftarrow> cr_loop env port s;
     let s = cmd_or env port 0x10 s;
     Some (cmd_or env port 0x1 s)
   }"

partial_function (option) stop_loop :: "'d hba \<Rightarrow> u64 \<Rightarrow> ('d, 'a) disk_scheme \<Rightarrow> ('d, 'a) disk_scheme option" where
  "stop_loop env port s =
     (let (cmd, s) = pread env port P_cmd s
      in if cmd AND 0x4000 \<noteq> 0 then stop_loop env port s
         else let (cmd, s) = pread env port P_cmd s
              in if cmd AND 0x8000 \<noteq> 0 then stop_loop env port s else Some s)"

definition stop_cmd :: "'d hba \<Rightarrow> u64 \<Rightarrow> ('d, 'a) disk_scheme \<Rightarrow> ('d, 'a) disk_scheme option" where
  "stop_cmd env port s = do {
     let s = cmd_clear env port 0x1 s;
     let s = cmd_clear env port 0x10 s;
     s \<leftarrow> stop_loop env port s;
     Some (cmd_clear env port 0x10 s)
   }"

abbreviation AHCI_BASE :: u64 where
  "AHCI_BASE \<equiv> 0x400000"

definition header_init :: "u64 \<Rightarrow> u64 \<Rightarrow> nat \<Rightarrow> bmem \<Rightarrow> bmem" where
  "header_init clb portno i m =
     (let h = clb + 32 * of_nat i;
          m = stn 2 (h + 2) 8 m;
          m = stn 8 (h + 8) (AHCI_BASE + push_bit 10 40 + push_bit 13 portno + push_bit 8 (of_nat i)) m
      in CString.memset m (ldn 8 m (h + 8)) 0 256)"

definition port_rebase :: "'d hba \<Rightarrow> u64 \<Rightarrow> u64 \<Rightarrow> ('d, 'a) disk_scheme \<Rightarrow> ('d, 'a) disk_scheme option" where
  "port_rebase env port portno s = do {
     s \<leftarrow> stop_cmd env port s;
     let s = pwrite env port P_clb (AHCI_BASE + push_bit 10 portno) s;
     let (clb, s) = pread env port P_clb s;
     let s = s\<lparr>ram := CString.memset (ram s) clb 0 1024\<rparr>;
     let s = pwrite env port P_fb (AHCI_BASE + push_bit 10 32 + push_bit 8 portno) s;
     let (fb, s) = pread env port P_fb s;
     let s = s\<lparr>ram := CString.memset (ram s) fb 0 256\<rparr>;
     let (clb, s) = pread env port P_clb s;
     let s = s\<lparr>ram := fold (header_init clb portno) [0..<32] (ram s)\<rparr>;
     start_cmd env port s
   }"

text \<open>The kind of the device at a port.\<close>

definition check :: "'d hba \<Rightarrow> u64 \<Rightarrow> ('d, 'a) disk_scheme \<Rightarrow> int \<times> ('d, 'a) disk_scheme" where
  "check env port s =
     (let (sig, s) = pread env port P_sig s in if sig = 0xEB140101 then (1, s)
      else let (sig, s) = pread env port P_sig s in if sig = 0xC33C0101 then (2, s)
      else let (sig, s) = pread env port P_sig s in if sig = 0x96690101 then (3, s)
      else let (sig, s) = pread env port P_sig s in if sig = 0x101 then (4, s)
      else (0, s))"

section \<open>Free slots\<close>

lemma slot_loop_find:
  assumes "i \<le> 32"
  shows "slot_loop (drop_bit i v) i = (case find (\<lambda>j. \<not> bit v j) [i..<32] of Some j \<Rightarrow> int j | None \<Rightarrow> - 1)"
  using assms
proof (induction "32 - i" arbitrary: i)
  case 0
  then show ?case by (simp add: slot_loop.simps)
next
  case (Suc k)
  then have i: "i < 32" by simp
  have b: "drop_bit i v AND 1 = 0 \<longleftrightarrow> \<not> bit v i"
    by (simp add: and_one_eq even_drop_bit_iff_not_bit mod2_eq_if)
  have "slot_loop (drop_bit (Suc i) v) (Suc i) = (case find (\<lambda>j. \<not> bit v j) [Suc i..<32] of Some j \<Rightarrow> int j | None \<Rightarrow> - 1)"
    using Suc i by simp
  moreover have "drop_bit 1 (drop_bit i v) = drop_bit (Suc i) v" by simp
  ultimately show ?case
    using i b by (subst slot_loop.simps) (simp add: upt_conv_Cons del: drop_bit_drop_bit)
qed

lemma find_cmdslot_find:
  assumes "pread env port P_sact s = (a, s1)" "pread env port P_ci s1 = (c, s2)"
  shows "find_cmdslot env port s = (case find (\<lambda>j. \<not> bit a j \<and> \<not> bit c j) [0..<32] of Some j \<Rightarrow> int j | None \<Rightarrow> - 1, s2)"
  using assms slot_loop_find [of 0 "a OR c"] by (simp add: find_cmdslot_def bit_or_iff)

section \<open>Descriptor entries\<close>

text \<open>An entry as the controller reads it: address, byte count, interrupt bit.\<close>

definition prd_at :: "bmem \<Rightarrow> u64 \<Rightarrow> u64 \<times> u64 \<times> bool" where
  "prd_at m e = (ldn 8 m e, ldn 4 m (e + 12) AND 0x3fffff, bit (ldn 4 m (e + 12)) 31)"

lemma prd_at_cong: "(\<And>x. unat (x - e) < 16 \<Longrightarrow> m x = m' x) \<Longrightarrow> prd_at m e = prd_at m' e"
proof -
  assume a: "\<And>x. unat (x - e) < 16 \<Longrightarrow> m x = m' x"
  have "ldn 8 m e = ldn 8 m' e" using a by (intro ldn_cong) simp_all
  moreover have "ldn 4 m (e + 12) = ldn 4 m' (e + 12)"
    using a range_sub [of 12 4 _ e] by (intro ldn_cong) simp_all
  ultimately show ?thesis by (simp add: prd_at_def)
qed

lemma bit31_iff: "bit (0x80000000 :: u64) n \<longleftrightarrow> n = 31"
proof -
  have "(0x80000000 :: u64) = 2 ^ 31" by simp
  then show ?thesis by (simp only: bit_exp_iff) auto
qed

lemma count_bits_gen:
  fixes w c k :: u64
  assumes "\<And>n. bit k n \<longleftrightarrow> n = 31"
  shows "take_bit 32 ((take_bit 32 ((w AND NOT (mask 22)) OR (c AND mask 22)) AND NOT k) OR k) AND mask 22 = c AND mask 22"
    "bit (take_bit 32 ((take_bit 32 ((w AND NOT (mask 22)) OR (c AND mask 22)) AND NOT k) OR k)) 31"
  by (rule bit_word_eqI) (auto simp: bit_simps assms)

lemma prdt_entry_other:
  assumes "\<not> unat (x - e) < 16"
  shows "prdt_entry e b c m x = m x"
  using assms range_sub [of 12 4 x e] by (simp add: prdt_entry_def Let_def stn_apply)

lemma prdt_entry_at: "prd_at (prdt_entry e b c m) e = (b, ucast c AND 0x3fffff, True)"
proof -
  have M: "mask 22 = (0x3fffff :: u64)" by (simp add: mask_eq_exp_minus_1)
  let ?m1 = "stn 8 e b m"
  let ?m2 = "stn 4 (e + 12) ((ldn 4 ?m1 (e + 12) AND NOT 0x3fffff) OR (ucast c AND 0x3fffff)) ?m1"
  let ?v = "(take_bit 32 ((ldn 4 ?m1 (e + 12) AND NOT 0x3fffff) OR (ucast c AND 0x3fffff)) AND NOT 0x80000000) OR 0x80000000"
  have m: "prdt_entry e b c m = stn 4 (e + 12) ?v ?m2"
    by (simp add: prdt_entry_def Let_def ldn_stn)
  have d: "unat (x - e) < 8 \<Longrightarrow> \<not> unat (x - (e + 12)) < 4" for x using range_sub [of 12 4 x e] by simp
  have "ldn 8 (prdt_entry e b c m) e = b"
    unfolding m using d by (simp add: ldn_stn_other ldn_stn take_bit_word_eq_self)
  moreover have "ldn 4 (prdt_entry e b c m) (e + 12) = take_bit 32 ?v" unfolding m by (simp add: ldn_stn)
  moreover have "take_bit 32 ?v AND 0x3fffff = ucast c AND 0x3fffff" "bit (take_bit 32 ?v) 31"
    using count_bits_gen [OF bit31_iff, of "ldn 4 ?m1 (e + 12)" "ucast c"] unfolding M by simp_all
  ultimately show ?thesis by (simp add: prd_at_def)
qed

section \<open>The descriptor table\<close>

definition entry :: "u64 \<Rightarrow> nat \<Rightarrow> u64" where
  "entry tbl i = tbl + 0x80 + 16 * of_nat i"

lemma entry_range:
  assumes "i < 2 ^ 32"
  shows "unat (x - entry tbl i) < 16 \<longleftrightarrow> 128 + 16 * i \<le> unat (x - tbl) \<and> unat (x - tbl) < 144 + 16 * i"
proof -
  have "entry tbl i = tbl + of_nat (128 + 16 * i)" by (simp add: entry_def)
  then show ?thesis using range_sub [of "128 + 16 * i" 16 x tbl] assms by simp
qed

lemma entry_other:
  assumes "i < 2 ^ 32" "j < 2 ^ 32" "i \<noteq> j"
  shows "prd_at (prdt_entry (entry tbl i) b c m) (entry tbl j) = prd_at m (entry tbl j)"
proof (rule prd_at_cong)
  fix x
  assume "unat (x - entry tbl j) < 16"
  then have "\<not> unat (x - entry tbl i) < 16" using assms by (auto simp: entry_range)
  then show "prdt_entry (entry tbl i) b c m x = m x" by (rule prdt_entry_other)
qed

text \<open>The header lies outside the table.\<close>

definition apart :: "u64 \<Rightarrow> u64 \<Rightarrow> nat \<Rightarrow> bool" where
  "apart h tbl k \<longleftrightarrow> (\<forall>x. unat (x - h) < 32 \<longrightarrow> \<not> unat (x - tbl) < k)"

lemma prdtl_cong:
  assumes "\<And>x. unat (x - h) < 32 \<Longrightarrow> m x = m' x"
  shows "ldn 2 m (h + 2) = ldn 2 m' (h + 2)" "ldn 8 m (h + 8) = ldn 8 m' (h + 8)"
  using assms range_sub [of 2 2 _ h] range_sub [of 8 8 _ h] by (auto intro!: ldn_cong)

lemma prdt_loop_run:
  assumes "unat (ldn 2 m (h + 2)) = n" "0 < n" "i \<le> n - 1" "apart h tbl (128 + 16 * n)"
  shows "\<exists>m'. prdt_loop h tbl i buf count m = (buf + 16384 * of_nat (n - 1 - i), count - 16 * of_nat (n - 1 - i), m') \<and>
    (\<forall>j. i \<le> j \<and> j < n - 1 \<longrightarrow> prd_at m' (entry tbl j) = (buf + 16384 * of_nat (j - i), 8192, True)) \<and>
    (\<forall>x. \<not> (128 + 16 * i \<le> unat (x - tbl) \<and> unat (x - tbl) < 112 + 16 * n) \<longrightarrow> m' x = m x)"
  using assms
proof (induction "n - 1 - i" arbitrary: i buf count m)
  case 0
  then have "i = n - 1" by simp
  then show ?case using 0 by (subst prdt_loop.simps) auto
next
  case (Suc k)
  have n: "n < 65536" using ldn2_bound [of m "h + 2"] Suc.prems(1) by simp
  then have i: "i < n - 1" "i < 2 ^ 32" using Suc.hyps(2) Suc.prems(3) by simp_all
  let ?m = "prdt_entry (entry tbl i) buf (8 * 1024) m"
  have frame: "?m x = m x" if "\<not> (128 + 16 * i \<le> unat (x - tbl) \<and> unat (x - tbl) < 144 + 16 * i)" for x
    using that i(2) by (intro prdt_entry_other) (simp add: entry_range)
  have "?m x = m x" if "unat (x - h) < 32" for x
  proof (rule frame)
    have "\<not> unat (x - tbl) < 128 + 16 * n" using that Suc.prems(4) by (simp add: apart_def)
    then show "\<not> (128 + 16 * i \<le> unat (x - tbl) \<and> unat (x - tbl) < 144 + 16 * i)" using i(1) by linarith
  qed
  then have nn: "unat (ldn 2 ?m (h + 2)) = n" using prdtl_cong(1) [of h ?m m] Suc.prems(1) by simp
  have k: "k = n - 1 - (i + 1)" "i + 1 \<le> n - 1" using Suc.hyps(2) i(1) by simp_all
  obtain m' where m': "prdt_loop h tbl (i + 1) (buf + 16384) (count - 16) ?m =
      (buf + 16384 + 16384 * of_nat (n - 1 - (i + 1)), count - 16 - 16 * of_nat (n - 1 - (i + 1)), m')"
    "\<forall>j. i + 1 \<le> j \<and> j < n - 1 \<longrightarrow> prd_at m' (entry tbl j) = (buf + 16384 + 16384 * of_nat (j - (i + 1)), 8192, True)"
    "\<forall>x. \<not> (128 + 16 * (i + 1) \<le> unat (x - tbl) \<and> unat (x - tbl) < 112 + 16 * n) \<longrightarrow> m' x = ?m x"
    using Suc.hyps(1) [OF k(1) nn Suc.prems(2) k(2) Suc.prems(4), of "buf + 16384" "count - 16"] by blast
  have S: "n - 1 - i = Suc (n - 1 - (i + 1))" using i(1) by simp
  have "int i < int (unat (ldn 2 m (h + 2))) - 1" using i(1) Suc.prems(1) by linarith
  then have "prdt_loop h tbl i buf count m = prdt_loop h tbl (i + 1) (buf + 16384) (count - 16) ?m"
    by (subst prdt_loop.simps) (simp add: entry_def)
  then have run: "prdt_loop h tbl i buf count m =
      (buf + 16384 * of_nat (n - 1 - i), count - 16 * of_nat (n - 1 - i), m')"
    unfolding m'(1) S by (simp add: algebra_simps)
  have at_i: "prd_at m' (entry tbl i) = prd_at ?m (entry tbl i)"
    using m'(3) i(2) by (intro prd_at_cong) (simp add: entry_range)
  have "prd_at m' (entry tbl j) = (buf + 16384 * of_nat (j - i), 8192, True)" if "i \<le> j" "j < n - 1" for j
  proof (cases "j = i")
    case True
    then show ?thesis using at_i prdt_entry_at [of "entry tbl i" buf "8 * 1024" m] by simp
  next
    case False
    then have "j - i = Suc (j - (i + 1))" using that by simp
    then show ?thesis using m'(2) that False by (simp add: algebra_simps)
  qed
  moreover have "m' x = m x" if "\<not> (128 + 16 * i \<le> unat (x - tbl) \<and> unat (x - tbl) < 112 + 16 * n)" for x
    using m'(3) frame [of x] that i(1) by force
  ultimately show ?case using run by blast
qed

section \<open>The command that is built\<close>

text \<open>What the controller finds behind a command header: the number of entries, the table, its entries and the frame.\<close>

definition cmd_prds :: "bmem \<Rightarrow> u64 \<Rightarrow> (u64 \<times> u64 \<times> bool) list" where
  "cmd_prds m h = map (\<lambda>i. prd_at m (entry (ldn 8 m (h + 8)) i)) [0..<unat (ldn 2 m (h + 2))]"

definition cmd_fis :: "bmem \<Rightarrow> u64 \<Rightarrow> u8 list" where
  "cmd_fis m h = map (\<lambda>i. m (ldn 8 m (h + 8) + of_nat i)) [0..<20]"

definition fis_of :: "u8 \<Rightarrow> u32 \<Rightarrow> u32 \<Rightarrow> u32 \<Rightarrow> u8 list" where
  "fis_of command startl starth count =
     [0x27, 0x80, command, 0, ucast startl, ucast (drop_bit 8 startl), ucast (drop_bit 16 startl), 0x40,
      ucast (drop_bit 24 startl), ucast starth, ucast (drop_bit 8 starth), 0, ucast count, 0, 0, 0, 0, 0, 0, 0]"

lemma command_fis_bytes:
  assumes z: "\<And>x. unat (x - f) < 20 \<Longrightarrow> m x = 0"
  shows "map (\<lambda>i. command_fis f command startl starth count m (f + of_nat i)) [0..<20] = fis_of command startl starth count"
proof -
  have m: "m f = 0" "m (f + 1) = 0" "m (f + 3) = 0" "m (f + 11) = 0" "m (f + 14) = 0" "m (f + 15) = 0"
    "m (f + 16) = 0" "m (f + 17) = 0" "m (f + 18) = 0" "m (f + 19) = 0"
    by (simp_all add: z)
  have b: "ucast (drop_bit 8 (ucast (ucast count :: u8) :: u64)) = (0 :: u8)"
    "ucast (ucast (ucast count :: u8) :: u64) = (ucast count :: u8)"
    by (rule bit_word_eqI; auto simp: bit_simps dest: bit_imp_le_length)+
  have u: "[0..<20] = [0, 1, 2, 3, 4, 5, 6, 7, 8, 9, 10, 11, 12, 13, 14, 15, 16, 17, 18, 19]" by (simp add: upt_rec)
  show ?thesis unfolding u by (simp add: command_fis_def fis_of_def Let_def stn_apply m b unsigned_minus_1_eq_mask mask_eq_exp_minus_1)
qed

lemma command_fis_other:
  assumes "20 \<le> unat (x - f)"
  shows "command_fis f command startl starth count m x = m x"
proof -
  have ne: "x \<noteq> f + of_nat c" if "c < 20" for c
    using assms that range_off [of c f] by auto
  have "\<not> unat (x - (f + 12)) < 2" using assms range_sub [of 12 2 x f] by simp
  then show ?thesis
    using ne [of 0] ne [of 1] ne [of 2] ne [of 4] ne [of 5] ne [of 6] ne [of 7] ne [of 8] ne [of 9] ne [of 10]
    by (simp add: command_fis_def Let_def stn_apply)
qed

text \<open>The number of entries, and the header after the first three stores.\<close>

definition entries :: "u32 \<Rightarrow> nat" where
  "entries count = Suc (unat (drop_bit 4 (count - 1)))"

definition head :: "u64 \<Rightarrow> u32 \<Rightarrow> bmem \<Rightarrow> bmem" where
  "head h count m =
     stn 2 (h + 2) (ucast (ucast (drop_bit 4 (count - 1)) + 1 :: u16)) (m(h := ((m h AND NOT 0x1f) OR 5) AND NOT 0x40))"

lemma build_command_head:
  "build_command h command startl starth count buf m =
     (let m = head h count m;
          tbl = ldn 8 m (h + 8);
          m = CString.memset m tbl 0 (256 + (int (unat (ldn 2 m (h + 2))) - 1) * 16);
          (buf, count, m) = prdt_loop h tbl 0 buf count m;
          m = prdt_entry (entry tbl 0) buf (push_bit 9 count) m
      in command_fis tbl command startl starth count m)"
  by (simp add: build_command_def head_def entry_def Let_def)

lemma head_facts:
  assumes "entries count < 65536"
  shows "unat (ldn 2 (head h count m) (h + 2)) = entries count" "ldn 8 (head h count m) (h + 8) = ldn 8 m (h + 8)"
    "head h count m h = ((m h AND NOT 0x1f) OR 5) AND NOT 0x40" "4 \<le> unat (x - h) \<Longrightarrow> head h count m x = m x"
proof -
  let ?k = "drop_bit 4 (count - 1)"
  have k: "unat ?k < 65535" using assms by (simp add: entries_def)
  have u: "unat (ucast ?k :: u16) = unat ?k" using k by (simp add: unsigned_ucast_eq take_bit_nat_eq_self)
  have "unat (ucast ?k + 1 :: u16) = entries count"
    using k u unat_add_one [of "ucast ?k :: u16" "- 1"] by (simp add: entries_def word_less_nat_alt unsigned_minus_1_eq_mask mask_eq_exp_minus_1)
  moreover have "take_bit 16 (ucast (ucast ?k + 1 :: u16) :: u64) = ucast (ucast ?k + 1 :: u16)"
    by (rule bit_word_eqI) (auto simp: bit_simps dest: bit_imp_le_length)
  ultimately show "unat (ldn 2 (head h count m) (h + 2)) = entries count"
    using unat_lt2p [of "ucast ?k + 1 :: u16"] by (simp add: head_def ldn_stn unsigned_ucast_eq take_bit_nat_eq_self)
  have o: "head h count m x = m x" if "4 \<le> unat (x - h)" for x
  proof -
    have "x \<noteq> h" using that by auto
    moreover have "\<not> unat (x - (h + 2)) < 2" using that range_sub [of 2 2 x h] by simp
    ultimately show ?thesis by (simp add: head_def stn_apply)
  qed
  then show "4 \<le> unat (x - h) \<Longrightarrow> head h count m x = m x" .
  show "ldn 8 (head h count m) (h + 8) = ldn 8 m (h + 8)"
    using o range_sub [of 8 8 _ h] by (intro ldn_cong) simp_all
  show "head h count m h = ((m h AND NOT 0x1f) OR 5) AND NOT 0x40"
    by (simp add: head_def stn_apply)
qed

lemma head_byte:
  fixes w :: u8
  shows "(((w AND NOT 0x1f) OR 5) AND NOT 0x40) AND 0x1f = 5"
proof -
  have e: "(((w AND NOT M) OR v) AND NOT N) AND M = v AND NOT N AND M" for M N v :: u8
    by (rule bit_word_eqI) (auto simp: bit_simps)
  show ?thesis unfolding e by simp
qed

text \<open>The cleared table with the full entries, and then the last one at index 0.\<close>

lemma table_filled:
  assumes "unat (ldn 2 m (h + 2)) = n" "0 < n" "n < 65536" "apart h tbl (240 + 16 * n)"
    and "m0 = CString.memset m tbl 0 (256 + (int n - 1) * 16)"
    and "prdt_loop h tbl 0 buf count m0 = (buf', count', m1)"
    and "m2 = prdt_entry (entry tbl 0) buf' c m1"
  shows "buf' = buf + 16384 * of_nat (n - 1)" "count' = count - 16 * of_nat (n - 1)"
    "map (\<lambda>i. prd_at m2 (entry tbl i)) [0..<n] = (buf', ucast c AND 0x3fffff, True) #
       map (\<lambda>i. (buf + 16384 * of_nat i, 8192, True)) [1..<n - 1] @ (if n = 1 then [] else [(0, 0, False)])"
    "\<And>x. unat (x - tbl) < 20 \<Longrightarrow> m2 x = 0" "\<And>x. 240 + 16 * n \<le> unat (x - tbl) \<Longrightarrow> m2 x = m x"
proof -
  have sz: "256 + (int n - 1) * 16 = int (240 + 16 * n)" by simp
  have "memset m tbl 0 (int (240 + 16 * n)) = (\<lambda>a. if uint (a - tbl) < int (240 + 16 * n) then word_of_int 0 else m a)"
    using assms(3) by (intro memset_eq) simp_all
  then have ms: "m0 x = (if unat (x - tbl) < 240 + 16 * n then 0 else m x)" for x
    unfolding assms(5) sz unat_eq_nat_uint nat_less_iff [OF unsigned_greater_eq] by (simp only: word_of_int_0)
  have "m0 x = m x" if "unat (x - h) < 32" for x using that assms(4) ms [of x] by (simp add: apart_def)
  then have p: "unat (ldn 2 m0 (h + 2)) = n" using prdtl_cong(1) [of h m0 m] assms(1) by simp
  have "apart h tbl (128 + 16 * n)" using assms(4) by (auto simp: apart_def)
  note R = prdt_loop_run [OF p assms(2) le0 this, of buf count]
  then obtain mx where R: "prdt_loop h tbl 0 buf count m0 = (buf + 16384 * of_nat (n - 1 - 0), count - 16 * of_nat (n - 1 - 0), mx)"
    "\<forall>j. 0 \<le> j \<and> j < n - 1 \<longrightarrow> prd_at mx (entry tbl j) = (buf + 16384 * of_nat (j - 0), 8192, True)"
    "\<forall>x. \<not> (128 + 16 * 0 \<le> unat (x - tbl) \<and> unat (x - tbl) < 112 + 16 * n) \<longrightarrow> mx x = m0 x"
    by blast
  have r: "buf' = buf + 16384 * of_nat (n - 1)" "count' = count - 16 * of_nat (n - 1)" and mx: "mx = m1"
    using R(1) assms(6) by simp_all
  have e: "prd_at m1 (entry tbl j) = (buf + 16384 * of_nat j, 8192, True)" if "j < n - 1" for j
    using R(2) that unfolding mx by simp
  have o: "m1 x = m0 x" if "\<not> (128 \<le> unat (x - tbl) \<and> unat (x - tbl) < 112 + 16 * n)" for x
    using R(3) that unfolding mx by simp
  show "buf' = buf + 16384 * of_nat (n - 1)" "count' = count - 16 * of_nat (n - 1)" by (fact r)+
  have f: "m2 x = m1 x" if "\<not> (128 \<le> unat (x - tbl) \<and> unat (x - tbl) < 144)" for x
    using that entry_range [of 0 x tbl] by (simp add: assms(7) prdt_entry_other)
  show "m2 x = 0" if "unat (x - tbl) < 20" for x
  proof -
    have "m2 x = m1 x" using that by (intro f) simp
    also have "m1 x = m0 x" using that by (intro o) simp
    finally show ?thesis using that ms [of x] by simp
  qed
  show "m2 x = m x" if "240 + 16 * n \<le> unat (x - tbl)" for x
  proof -
    have "m2 x = m1 x" using that by (intro f) simp
    also have "m1 x = m0 x" using that by (intro o) simp
    finally show ?thesis using that ms [of x] by simp
  qed
  have n0: "prd_at m2 (entry tbl 0) = (buf', ucast c AND 0x3fffff, True)" by (simp add: assms(7) prdt_entry_at)
  have mid: "prd_at m2 (entry tbl i) = prd_at m1 (entry tbl i)" if "0 < i" "i < n" for i
    unfolding assms(7) using that assms(3) by (intro entry_other) simp_all
  show "map (\<lambda>i. prd_at m2 (entry tbl i)) [0..<n] = (buf', ucast c AND 0x3fffff, True) #
       map (\<lambda>i. (buf + 16384 * of_nat i, 8192, True)) [1..<n - 1] @ (if n = 1 then [] else [(0, 0, False)])"
  proof (cases "n = 1")
    case False
    then obtain k where "n = Suc (Suc k)" using assms(2) by (metis One_nat_def not0_implies_Suc not_gr_zero)
    then have n: "[0..<n] = 0 # [1..<n - 1] @ [n - 1]" by (simp add: upt_conv_Cons)
    have n1: "n - 1 < 2 ^ 32" using assms(3) by simp
    have "prd_at m1 (entry tbl (n - 1)) = prd_at (\<lambda>x. 0) (entry tbl (n - 1))"
    proof (rule prd_at_cong)
      fix x
      assume "unat (x - entry tbl (n - 1)) < 16"
      then have "112 + 16 * n \<le> unat (x - tbl)" "unat (x - tbl) < 128 + 16 * n"
        using entry_range [of "n - 1" x tbl] assms(2,3) n1 by linarith+
      then show "m1 x = 0" using o [of x] ms [of x] by simp
    qed
    also have "\<dots> = (0, 0, False)" by (simp add: prd_at_def eval_nat_numeral)
    finally have l: "prd_at m2 (entry tbl (n - 1)) = (0, 0, False)" using mid [of "n - 1"] assms(2) False by simp
    have "map (\<lambda>i. prd_at m2 (entry tbl i)) [1..<n - 1] = map (\<lambda>i. (buf + 16384 * of_nat i, 8192, True)) [1..<n - 1]"
    proof (rule map_cong [OF refl])
      fix i
      assume "i \<in> set [1..<n - 1]"
      then have "0 < i" "i < n" "i < n - 1" by auto
      then show "prd_at m2 (entry tbl i) = (buf + 16384 * of_nat i, 8192, True)" using mid [of i] e [of i] by (simp only:)
    qed
    then show ?thesis using False unfolding n by (simp only: list.map map_append n0 l if_False)
  qed (use n0 in simp)
qed

text \<open>The command that the driver lays out in memory: one header that names as many entries as there are runs of 16
  sectors, without the write bit, and the frame of the drive with command code and sector number.  The entries after the
  first are \<^verbatim>\<open>8192\<close> bytes each, but 16384 bytes apart; the last piece is written over entry 0 and the last entry stays
  empty.  With at most 16 sectors the single entry is the whole buffer.\<close>

theorem build_command_layout:
  assumes n: "entries count < 65536" and a: "apart h (ldn 8 m (h + 8)) (240 + 16 * entries count)"
  shows "let m' = build_command h command startl starth count buf m; k = entries count - 1 in
    cmd_prds m' h = (buf + 16384 * of_nat k, ucast (push_bit 9 (count - 16 * of_nat k)) AND 0x3fffff, True) #
      map (\<lambda>i. (buf + 16384 * of_nat i, 8192, True)) [1..<k] @ (if k = 0 then [] else [(0, 0, False)]) \<and>
    cmd_fis m' h = fis_of command startl starth (count - 16 * of_nat k) \<and> m' h AND 0x1f = 5 \<and> \<not> bit (m' h) 6 \<and>
    unat (ldn 2 m' (h + 2)) = entries count \<and> ldn 8 m' (h + 8) = ldn 8 m (h + 8) \<and>
    (\<forall>x. 4 \<le> unat (x - h) \<and> 240 + 16 * entries count \<le> unat (x - ldn 8 m (h + 8)) \<longrightarrow> m' x = m x)"
proof -
  define m' where "m' = build_command h command startl starth count buf m"
  let ?n = "entries count" and ?t = "ldn 8 m (h + 8)"
  let ?m0 = "head h count m"
  note H = head_facts [OF n, where h = h and m = m]
  define m1 where "m1 = CString.memset ?m0 ?t 0 (256 + (int ?n - 1) * 16)"
  obtain buf' count' m2 where loop: "prdt_loop h ?t 0 buf count m1 = (buf', count', m2)" by (cases "prdt_loop h ?t 0 buf count m1")
  define m3 where "m3 = prdt_entry (entry ?t 0) buf' (push_bit 9 count') m2"
  have m': "m' = command_fis ?t command startl starth count' m3"
    using loop unfolding m'_def build_command_head Let_def H(1,2) m1_def m3_def by simp
  have "0 < ?n" by (simp add: entries_def)
  note T = table_filled [OF H(1) this n a m1_def loop m3_def]
  have f: "m' x = m3 x" if "20 \<le> unat (x - ?t)" for x using that by (simp add: m' command_fis_other)
  have hd: "m' x = ?m0 x" if "unat (x - h) < 32" for x
  proof -
    have "240 + 16 * ?n \<le> unat (x - ?t)" using a that by (auto simp: apart_def)
    then show ?thesis using f T(5) by simp
  qed
  note P = prdtl_cong [of h m' ?m0, OF hd]
  have "prd_at m' (entry ?t i) = prd_at m3 (entry ?t i)" if "i < ?n" for i
    using f entry_range [of i _ ?t] that n by (intro prd_at_cong) simp
  then have "cmd_prds m' h = map (\<lambda>i. prd_at m3 (entry ?t i)) [0..<?n]"
    by (simp add: cmd_prds_def P H(1,2))
  moreover have "cmd_fis m' h = map (\<lambda>i. m' (?t + of_nat i)) [0..<20]"
    by (simp only: cmd_fis_def P(2) H(2))
  then have "cmd_fis m' h = fis_of command startl starth count'"
    using command_fis_bytes [of ?t m3 command startl starth count', OF T(4)] unfolding m' by simp
  moreover have "\<not> bit (m' h) 6" using hd [of h] H(3) by (simp add: bit_and_iff bit_not_iff)
  moreover have "m' h = ?m0 h" by (rule hd) simp
  then have "m' h AND 0x1f = 5" unfolding H(3) by (simp only: head_byte)
  moreover have "unat (ldn 2 m' (h + 2)) = ?n" "ldn 8 m' (h + 8) = ?t" by (simp_all only: P H(1,2))
  moreover have "m' x = m x" if "4 \<le> unat (x - h)" "240 + 16 * ?n \<le> unat (x - ?t)" for x
    using that f T(5) H(4) by simp
  moreover have "?n - 1 = 0 \<longleftrightarrow> ?n = 1" by (simp add: entries_def)
  ultimately show ?thesis using T(1-3) unfolding m'_def [symmetric] Let_def by simp
qed

section \<open>What the controller finds\<close>

text \<open>The sector number in a frame.\<close>

definition fis_lba :: "u8 list \<Rightarrow> nat" where
  "fis_lba f = unat (f ! 4) + 2 ^ 8 * unat (f ! 5) + 2 ^ 16 * unat (f ! 6) + 2 ^ 24 * unat (f ! 8) +
     2 ^ 32 * unat (f ! 9) + 2 ^ 40 * unat (f ! 10)"

lemma byte_digits:
  fixes n :: nat
  shows "n mod 2 ^ 8 + 2 ^ 8 * (n div 2 ^ 8 mod 2 ^ 8) = n mod 2 ^ 16"
    "n mod 2 ^ 16 + 2 ^ 16 * (n div 2 ^ 16 mod 2 ^ 8) = n mod 2 ^ 24"
    "n mod 2 ^ 24 + 2 ^ 24 * (n div 2 ^ 24 mod 2 ^ 8) = n mod 2 ^ 32"
  using mod_mult2_eq [of n "2 ^ 8" "2 ^ 8"] mod_mult2_eq [of n "2 ^ 16" "2 ^ 8"] mod_mult2_eq [of n "2 ^ 24" "2 ^ 8"] by simp_all

lemma fis_lba_of:
  "fis_lba (fis_of command startl starth count) = unat startl + 2 ^ 32 * (unat starth mod 2 ^ 16)"
proof -
  have d: "unat (drop_bit k w) = unat w div 2 ^ k" for k and w :: u32
  proof -
    have "unat (drop_bit k w) = drop_bit k (take_bit 32 (unat w))" by (subst unsigned_drop_bit_eq) simp
    then show ?thesis using unat_lt2p [of w] by (simp only: take_bit_nat_eq_self len_num0 drop_bit_eq_div) (simp add: take_bit_nat_eq_self)
  qed
  have u: "unat (ucast w :: u8) = unat w mod 2 ^ 8" for w :: u32 by (simp add: unsigned_ucast_eq take_bit_eq_mod)
  have "unat startl mod 2 ^ 32 = unat startl" using unat_lt2p [of startl] by simp
  then show ?thesis using byte_digits [of "unat startl"] byte_digits(1) [of "unat starth"]
    by (simp add: fis_lba_def fis_of_def u d)
qed

lemma cmd_cong:
  assumes "\<And>x. unat (x - h) < 32 \<Longrightarrow> m' x = m x"
    and "\<And>x. unat (x - ldn 8 m (h + 8)) < 128 + 16 * unat (ldn 2 m (h + 2)) \<Longrightarrow> m' x = m x"
  shows "cmd_prds m' h = cmd_prds m h" "cmd_fis m' h = cmd_fis m h"
proof -
  note P = prdtl_cong [of h m' m, OF assms(1)]
  let ?t = "ldn 8 m (h + 8)"
  have "prd_at m' (entry ?t i) = prd_at m (entry ?t i)" if "i < unat (ldn 2 m (h + 2))" for i
  proof (rule prd_at_cong)
    fix x
    assume x: "unat (x - entry ?t i) < 16"
    have "i < 2 ^ 32" using that ldn2_bound [of m "h + 2"] by simp
    then have "unat (x - ?t) < 144 + 16 * i" using x entry_range by blast
    then show "m' x = m x" using that by (intro assms(2)) simp
  qed
  then show "cmd_prds m' h = cmd_prds m h" by (simp add: cmd_prds_def P)
  have "m' (?t + of_nat i) = m (?t + of_nat i)" if "i < 20" for i
    using that range_off [of i ?t] by (intro assms(2)) simp
  then show "cmd_fis m' h = cmd_fis m h" by (simp add: cmd_fis_def P)
qed

section \<open>The contract of a controller\<close>

text \<open>What a controller shows of itself: the bases of the command list and of the area for received frames, the commands that
  were issued to it, each with its slot and the memory at the time of issue, and the command it works on: the number of
  polls until it is done, the slot, and whether it will succeed.\<close>

record hview =
  hv_clb :: u64
  hv_fb :: u64
  hv_log :: "(nat \<times> bmem) list"
  hv_cmd :: "(nat \<times> nat \<times> bool) option"

text \<open>While it is idle the controller writes at most received frames.\<close>

definition frames_only :: "u64 \<Rightarrow> bmem \<Rightarrow> bmem \<Rightarrow> bool" where
  "frames_only fb m m' \<longleftrightarrow> (\<forall>x. 256 \<le> unat (x - fb) \<longrightarrow> m' x = m x)"

definition answers :: "'d hba \<Rightarrow> u64 \<Rightarrow> preg \<Rightarrow> 'd \<Rightarrow> bmem \<Rightarrow> (u64 \<Rightarrow> 'd \<Rightarrow> bmem \<Rightarrow> bool) \<Rightarrow> bool" where
  "answers env port r d m Q \<longleftrightarrow> (case reg_read env (port + preg_off r) d m of (v, d', m') \<Rightarrow> Q (preg_val r v) d' m')"

definition takes :: "'d hba \<Rightarrow> u64 \<Rightarrow> preg \<Rightarrow> u64 \<Rightarrow> 'd \<Rightarrow> bmem \<Rightarrow> ('d \<Rightarrow> bmem \<Rightarrow> bool) \<Rightarrow> bool" where
  "takes env port r v d m Q \<longleftrightarrow> (case reg_write env (port + preg_off r) (preg_val r v) d m of (d', m') \<Rightarrow> Q d' m')"

text \<open>An idle port has no slot in use, is not busy and reports no error; writing the issue register starts the command of that
  slot with the memory as it is.  Nothing is said of what the controller then does to the memory: it transfers, counts the
  bytes in the header and stores received frames.  It ends the command by clearing the bit of the slot, or by reporting a
  task file error.\<close>

definition idle_law :: "'d hba \<Rightarrow> u64 \<Rightarrow> ('d \<Rightarrow> hview) \<Rightarrow> bool" where
  "idle_law env port view \<longleftrightarrow> (\<forall>d m. hv_cmd (view d) = None \<longrightarrow>
     answers env port P_clb d m (\<lambda>v d' m'. v = hv_clb (view d) \<and> view d' = view d \<and> frames_only (hv_fb (view d)) m m') \<and>
     answers env port P_sact d m (\<lambda>v d' m'. v = 0 \<and> view d' = view d \<and> frames_only (hv_fb (view d)) m m') \<and>
     answers env port P_ci d m (\<lambda>v d' m'. v = 0 \<and> view d' = view d \<and> frames_only (hv_fb (view d)) m m') \<and>
     answers env port P_tfd d m (\<lambda>v d' m'. v AND 0x88 = 0 \<and> view d' = view d \<and> frames_only (hv_fb (view d)) m m') \<and>
     answers env port P_is d m (\<lambda>v d' m'. v AND 0x40000000 = 0 \<and> view d' = view d \<and> frames_only (hv_fb (view d)) m m') \<and>
     takes env port P_is (- 1) d m (\<lambda>d' m'. view d' = view d \<and> frames_only (hv_fb (view d)) m m') \<and>
     (\<forall>slot < 32. takes env port P_ci (push_bit slot 1) d m
        (\<lambda>d' m'. \<exists>n ok. view d' = (view d)\<lparr>hv_log := hv_log (view d) @ [(slot, m)], hv_cmd := Some (n, slot, ok)\<rparr>)))"

definition busy_law :: "'d hba \<Rightarrow> u64 \<Rightarrow> ('d \<Rightarrow> hview) \<Rightarrow> bool" where
  "busy_law env port view \<longleftrightarrow> (\<forall>d m n slot ok. hv_cmd (view d) = Some (n, slot, ok) \<and> slot < 32 \<longrightarrow>
     answers env port P_is d m (\<lambda>v d' m'. (v AND 0x40000000 \<noteq> 0) = (n = 0 \<and> \<not> ok) \<and> view d' = view d) \<and>
     answers env port P_ci d m (\<lambda>v d' m'.
       if n = 0 \<and> ok then v AND push_bit slot 1 = 0 \<and> view d' = (view d)\<lparr>hv_cmd := None\<rparr>
       else v AND push_bit slot 1 \<noteq> 0 \<and> view d' = (view d)\<lparr>hv_cmd := Some (n - 1, slot, ok)\<rparr>))"

definition accepts :: "'d hba \<Rightarrow> u64 \<Rightarrow> ('d \<Rightarrow> hview) \<Rightarrow> bool" where
  "accepts env port view \<longleftrightarrow> idle_law env port view \<and> busy_law env port view"

lemma pread_answers:
  assumes "answers env port r (ctl s) (ram s) Q"
  obtains v s' where "pread env port r s = (v, s')" "Q v (ctl s') (ram s')"
proof -
  obtain v d m where r: "reg_read env (port + preg_off r) (ctl s) (ram s) = (v, d, m)"
    by (cases "reg_read env (port + preg_off r) (ctl s) (ram s)")
  show thesis
    by (rule that [of "preg_val r v" "s\<lparr>ram := m, ctl := d\<rparr>"]) (use r assms in \<open>simp_all add: pread_def answers_def\<close>)
qed

lemma pwrite_takes: "takes env port r v (ctl s) (ram s) Q \<Longrightarrow> Q (ctl (pwrite env port r v s)) (ram (pwrite env port r v s))"
  by (simp add: takes_def pwrite_def split: prod.splits)

lemma idle_lawD:
  assumes "accepts env port view" "hv_cmd (view d) = None"
  shows "answers env port P_clb d m (\<lambda>v d' m'. v = hv_clb (view d) \<and> view d' = view d \<and> frames_only (hv_fb (view d)) m m')"
    "answers env port P_sact d m (\<lambda>v d' m'. v = 0 \<and> view d' = view d \<and> frames_only (hv_fb (view d)) m m')"
    "answers env port P_ci d m (\<lambda>v d' m'. v = 0 \<and> view d' = view d \<and> frames_only (hv_fb (view d)) m m')"
    "answers env port P_tfd d m (\<lambda>v d' m'. v AND 0x88 = 0 \<and> view d' = view d \<and> frames_only (hv_fb (view d)) m m')"
    "answers env port P_is d m (\<lambda>v d' m'. v AND 0x40000000 = 0 \<and> view d' = view d \<and> frames_only (hv_fb (view d)) m m')"
    "takes env port P_is (- 1) d m (\<lambda>d' m'. view d' = view d \<and> frames_only (hv_fb (view d)) m m')"
    "slot < 32 \<Longrightarrow> takes env port P_ci (push_bit slot 1) d m
       (\<lambda>d' m'. \<exists>n ok. view d' = (view d)\<lparr>hv_log := hv_log (view d) @ [(slot, m)], hv_cmd := Some (n, slot, ok)\<rparr>)"
  using assms unfolding accepts_def idle_law_def by blast+

lemma busy_lawD:
  assumes "accepts env port view" "hv_cmd (view d) = Some (n, slot, ok)" "slot < 32"
  shows "answers env port P_is d m (\<lambda>v d' m'. (v AND 0x40000000 \<noteq> 0) = (n = 0 \<and> \<not> ok) \<and> view d' = view d)"
    "answers env port P_ci d m (\<lambda>v d' m'.
       if n = 0 \<and> ok then v AND push_bit slot 1 = 0 \<and> view d' = (view d)\<lparr>hv_cmd := None\<rparr>
       else v AND push_bit slot 1 \<noteq> 0 \<and> view d' = (view d)\<lparr>hv_cmd := Some (n - 1, slot, ok)\<rparr>)"
  using assms(1) [unfolded accepts_def busy_law_def, THEN conjunct2, THEN spec, THEN spec [of _ m], THEN spec, THEN spec, THEN spec, THEN mp, OF conjI, OF assms(2,3)]
  by (rule conjunct1, rule conjunct2)

lemma frames_trans: "frames_only fb m m1 \<Longrightarrow> frames_only fb m1 m2 \<Longrightarrow> frames_only fb m m2"
  by (simp add: frames_only_def)

text \<open>From the idle state the driver finds slot 0 free.\<close>

lemma idle_slot:
  assumes "accepts env port view" "hv_cmd (view (ctl s)) = None"
  obtains s' where "find_cmdslot env port s = (0, s')" "view (ctl s') = view (ctl s)" "frames_only (hv_fb (view (ctl s))) (ram s) (ram s')"
proof -
  let ?fb = "hv_fb (view (ctl s))"
  obtain v1 s1 where s1: "pread env port P_sact s = (v1, s1)" "v1 = 0 \<and> view (ctl s1) = view (ctl s) \<and> frames_only ?fb (ram s) (ram s1)"
    using pread_answers [OF idle_lawD(2) [OF assms]] .
  then have i: "hv_cmd (view (ctl s1)) = None" using assms(2) by simp
  obtain v2 s2 where s2: "pread env port P_ci s1 = (v2, s2)"
      "v2 = 0 \<and> view (ctl s2) = view (ctl s1) \<and> frames_only (hv_fb (view (ctl s1))) (ram s1) (ram s2)"
    using pread_answers [OF idle_lawD(3) [OF assms(1) i]] .
  have "find_cmdslot env port s = (0, s2)"
    using find_cmdslot_find [OF s1(1) s2(1)] s1(2) s2(2) by (simp add: upt_conv_Cons)
  then show thesis using that s1(2) s2(2) frames_trans [of ?fb "ram s" "ram s1" "ram s2"] by simp
qed

text \<open>Once it has issued a command the wait ends, in the way the controller ends the command.\<close>

lemma wait_done:
  assumes "accepts env port view" "slot < 32" "hv_cmd (view (ctl s)) = Some (n, slot, ok)"
  shows "\<exists>s'. wait_loop env port (int slot) s = Some (ok, s') \<and>
    view (ctl s') = (view (ctl s))\<lparr>hv_cmd := if ok then None else Some (0, slot, False)\<rparr>"
  using assms(3)
proof (induction n arbitrary: s)
  case 0
  show ?case
  proof (cases ok)
    case True
    obtain v s1 where "pread env port P_ci s = (v, s1)" "v AND push_bit slot 1 = 0 \<and> view (ctl s1) = (view (ctl s))\<lparr>hv_cmd := None\<rparr>"
      using pread_answers [OF busy_lawD(2) [OF assms(1) 0 assms(2)]] True by auto
    then show ?thesis using True by (subst wait_loop.simps) simp
  next
    case False
    obtain v s1 where s1: "pread env port P_ci s = (v, s1)"
        "v AND push_bit slot 1 \<noteq> 0 \<and> view (ctl s1) = (view (ctl s))\<lparr>hv_cmd := Some (0, slot, False)\<rparr>"
      using pread_answers [OF busy_lawD(2) [OF assms(1) 0 assms(2)]] False by auto
    then have i: "hv_cmd (view (ctl s1)) = Some (0, slot, False)" by simp
    obtain w s2 where "pread env port P_is s1 = (w, s2)" "(w AND 0x40000000 \<noteq> 0) = ((0 :: nat) = 0 \<and> \<not> False) \<and> view (ctl s2) = view (ctl s1)"
      using pread_answers [OF busy_lawD(1) [OF assms(1) i assms(2)]] .
    then show ?thesis using s1 False by (subst wait_loop.simps) simp
  qed
next
  case (Suc n)
  obtain v s1 where s1: "pread env port P_ci s = (v, s1)"
      "v AND push_bit slot 1 \<noteq> 0 \<and> view (ctl s1) = (view (ctl s))\<lparr>hv_cmd := Some (n, slot, ok)\<rparr>"
    using pread_answers [OF busy_lawD(2) [OF assms(1) Suc.prems assms(2)]] by auto
  then have i: "hv_cmd (view (ctl s1)) = Some (n, slot, ok)" by simp
  obtain w s2 where s2: "pread env port P_is s1 = (w, s2)" "(w AND 0x40000000 \<noteq> 0) = (n = 0 \<and> \<not> ok) \<and> view (ctl s2) = view (ctl s1)"
    using pread_answers [OF busy_lawD(1) [OF assms(1) i assms(2)]] .
  show ?case
  proof (cases "n = 0 \<and> \<not> ok")
    case True
    then show ?thesis using s1 s2 by (subst wait_loop.simps) simp
  next
    case False
    then have "wait_loop env port (int slot) s = wait_loop env port (int slot) s2"
      using s1 s2 by (subst wait_loop.simps) auto
    moreover have "view (ctl s2) = (view (ctl s))\<lparr>hv_cmd := Some (n, slot, ok)\<rparr>" using s1(2) s2(2) by simp
    ultimately show ?thesis using Suc.IH [of s2] by simp
  qed
qed

section \<open>Reading from the drive\<close>

text \<open>The area for received frames lies outside the header and the table.\<close>

definition frames_apart :: "u64 \<Rightarrow> u64 \<Rightarrow> u64 \<Rightarrow> nat \<Rightarrow> bool" where
  "frames_apart fb h tbl k \<longleftrightarrow> (\<forall>x. unat (x - fb) < 256 \<longrightarrow> 32 \<le> unat (x - h) \<and> k \<le> unat (x - tbl))"

lemma disk_msg_sel [simp]: "ctl (disk_msg say msg s) = ctl s" "ram (disk_msg say msg s) = ram s"
proof -
  have "console.more (disk_msg say msg s) = console.more s" by (simp add: disk_msg_def kframe)
  then show "ctl (disk_msg say msg s) = ctl s" "ram (disk_msg say msg s) = ram s"
    by (cases "disk_msg say msg s"; cases s; simp)+
qed

text \<open>What is in memory when the command is issued.\<close>

lemma command_issued:
  fixes h tbl buf :: u64
  assumes n: "entries count < 65536" and a: "apart h tbl (240 + 16 * entries count)"
    and f: "frames_apart fb h tbl (240 + 16 * entries count)" "tbl = ldn 8 m0 (h + 8)"
    and m: "frames_only fb m0 m1" "frames_only fb (build_command h command startl starth count buf m1) m"
  shows "let k = entries count - 1 in m h AND 0x1f = 5 \<and> \<not> bit (m h) 6 \<and> ldn 8 m (h + 8) = tbl \<and>
    cmd_prds m h = (buf + 16384 * of_nat k, ucast (push_bit 9 (count - 16 * of_nat k)) AND 0x3fffff, True) #
      map (\<lambda>i. (buf + 16384 * of_nat i, 8192, True)) [1..<k] @ (if k = 0 then [] else [(0, 0, False)]) \<and>
    cmd_fis m h = fis_of command startl starth (count - 16 * of_nat k) \<and>
    (\<forall>x. 4 \<le> unat (x - h) \<and> 240 + 16 * entries count \<le> unat (x - tbl) \<and> 256 \<le> unat (x - fb) \<longrightarrow> m x = m0 x)"
proof -
  let ?m = "build_command h command startl starth count buf m1" and ?K = "240 + 16 * entries count"
  have hd: "unat (x - h) < 32 \<Longrightarrow> 256 \<le> unat (x - fb)" and tb: "unat (x - tbl) < ?K \<Longrightarrow> 256 \<le> unat (x - fb)" for x
    using f(1) unfolding frames_apart_def by (meson not_le)+
  have t1: "ldn 8 m1 (h + 8) = tbl" unfolding f(2)
    by (rule prdtl_cong(2)) (use m(1) hd in \<open>auto simp: frames_only_def\<close>)
  have "apart h (ldn 8 m1 (h + 8)) ?K" using a t1 by simp
  note L = build_command_layout [OF n this, of command startl starth buf, unfolded Let_def t1]
  have u: "unat (ldn 2 ?m (h + 2)) = entries count" "ldn 8 ?m (h + 8) = tbl" using L by blast+
  have keep: "m x = ?m x" if "256 \<le> unat (x - fb)" for x using m(2) that by (simp add: frames_only_def)
  have kh: "m x = ?m x" if "unat (x - h) < 32" for x by (rule keep [OF hd [OF that]])
  have kt: "m x = ?m x" if "unat (x - ldn 8 ?m (h + 8)) < 128 + 16 * unat (ldn 2 ?m (h + 2))" for x
    using that u by (intro keep tb) simp
  have C: "cmd_prds m h = cmd_prds ?m h" "cmd_fis m h = cmd_fis ?m h"
    by (rule cmd_cong(1), erule kh, erule kt) (rule cmd_cong(2), erule kh, erule kt)
  have b: "m h = ?m h" by (rule kh) simp
  have t: "ldn 8 m (h + 8) = tbl" using prdtl_cong(2) [of h m ?m, OF kh] u(2) by simp
  have frame: "m x = m0 x" if "4 \<le> unat (x - h)" "?K \<le> unat (x - tbl)" "256 \<le> unat (x - fb)" for x
  proof -
    have "?m x = m1 x" using L that(1,2) by blast
    then show ?thesis using keep [OF that(3)] m(1) that(3) by (simp add: frames_only_def)
  qed
  show ?thesis unfolding Let_def C b t using L frame by blast
qed

text \<open>Issuing the command in slot 0 ends, in the way the controller ends the command.\<close>

lemma issue_ok:
  assumes d: "accepts env port view" "hv_cmd (view (ctl s)) = None"
  shows "\<exists>s' m ok. issue_command env say port 0 s = Some (if ok then 1 else 0, s') \<and>
    view (ctl s') = (view (ctl s))\<lparr>hv_log := hv_log (view (ctl s)) @ [(0, m)], hv_cmd := if ok then None else Some (0, 0, False)\<rparr> \<and>
    frames_only (hv_fb (view (ctl s))) (ram s) m"
proof -
  let ?v = "view (ctl s)"
  obtain w s5 where s5: "pread env port P_tfd s = (w, s5)" "w AND 0x88 = 0 \<and> view (ctl s5) = ?v \<and> frames_only (hv_fb ?v) (ram s) (ram s5)"
    using pread_answers [OF idle_lawD(4) [OF d]] .
  then have i5: "hv_cmd (view (ctl s5)) = None" using d(2) by simp
  have spin: "spin_loop env port 0 s = (0, s5)" using s5 by (subst spin_loop.simps) simp
  define s6 where "s6 = pwrite env port P_ci (push_bit 0 1) s5"
  obtain n ok where s6: "view (ctl s6) = ?v\<lparr>hv_log := hv_log ?v @ [(0, ram s5)], hv_cmd := Some (n, 0, ok)\<rparr>"
    using pwrite_takes [OF idle_lawD(7) [OF d(1) i5, of 0]] s5(2) unfolding s6_def by auto
  then have i6: "hv_cmd (view (ctl s6)) = Some (n, 0, ok)" by simp
  obtain s7 where s7: "wait_loop env port (int 0) s6 = Some (ok, s7)"
    "view (ctl s7) = (view (ctl s6))\<lparr>hv_cmd := if ok then None else Some (0, 0, False)\<rparr>"
    using wait_done [OF d(1) _ i6] by auto
  then have e: "view (ctl s7) = ?v\<lparr>hv_log := hv_log ?v @ [(0, ram s5)], hv_cmd := if ok then None else Some (0, 0, False)\<rparr>"
    using s6 by simp
  have "\<exists>s'. issue_command env say port 0 s = Some (if ok then 1 else 0, s') \<and> view (ctl s') = view (ctl s7)"
  proof (cases ok)
    case True
    then have i7: "hv_cmd (view (ctl s7)) = None" using e by simp
    obtain u s8 where "pread env port P_is s7 = (u, s8)"
        "u AND 0x40000000 = 0 \<and> view (ctl s8) = view (ctl s7) \<and> frames_only (hv_fb (view (ctl s7))) (ram s7) (ram s8)"
      using pread_answers [OF idle_lawD(5) [OF d(1) i7]] .
    then show ?thesis using s7(1) True by (simp add: issue_command_def spin Let_def s6_def)
  qed (use s7(1) in \<open>simp add: issue_command_def spin Let_def s6_def\<close>)
  then show ?thesis using e s5(2) by (metis (no_types))
qed


section \<open>A controller\<close>

text \<open>A controller at address 0 that works on a command for two polls.  When it is done it counts the bytes in the header and
  stores a received frame, and whenever it is asked whether it is busy it stores one as well.\<close>

definition sim_hba :: "hview hba" where
  "sim_hba = \<lparr>reg_read = (\<lambda>a d m.
       if a = preg_off P_ci
       then case hv_cmd d of None \<Rightarrow> (0, d, m)
            | Some (n, slot, ok) \<Rightarrow>
                if n = 0 \<and> ok
                then (0, d\<lparr>hv_cmd := None\<rparr>, stn 4 (hv_clb d + 32 * of_nat slot + 4) 512 (m(hv_fb d + 0x40 := 0x34)))
                else (push_bit slot 1, d\<lparr>hv_cmd := Some (n - 1, slot, ok)\<rparr>, m)
       else if a = preg_off P_clb then (hv_clb d, d, m)
       else if a = preg_off P_is then ((case hv_cmd d of Some (n, slot, ok) \<Rightarrow> if n = 0 \<and> \<not> ok then 0x40000000 else 0 | None \<Rightarrow> 0), d, m)
       else (0, d, m(hv_fb d := 0xA1))),
     reg_write = (\<lambda>a v d m.
       if a = preg_off P_ci
       then (let slot = (case find (bit v) [0..<32] of Some i \<Rightarrow> i | None \<Rightarrow> 0)
             in d\<lparr>hv_log := hv_log d @ [(slot, m)], hv_cmd := Some (2, slot, True)\<rparr>, m)
       else (d, m))\<rparr>"

lemma slot_bit:
  assumes "slot < 32"
  shows "preg_val P_ci (push_bit slot 1) = push_bit slot 1" "find (bit (push_bit slot 1 :: u64)) [0..<32] = Some slot"
    "push_bit slot (1 :: u64) AND push_bit slot 1 \<noteq> 0"
proof -
  have b: "bit (push_bit slot 1 :: u64) i \<longleftrightarrow> i = slot" if "i < 64" for i
    using that assms by (auto simp: bit_simps)
  show "preg_val P_ci (push_bit slot 1) = push_bit slot 1"
    using assms by (auto simp: preg_val_def intro!: bit_word_eqI simp: bit_simps)
  show "find (bit (push_bit slot 1 :: u64)) [0..<32] = Some slot"
    unfolding find_Some_iff using assms b by (intro exI [of _ slot]) auto
  have "bit (push_bit slot (1 :: u64) AND push_bit slot 1) slot" using assms b [of slot] by (simp add: bit_and_iff)
  then show "push_bit slot (1 :: u64) AND push_bit slot 1 \<noteq> 0" by (metis bit_0_eq bot_apply bot_bool_def)
qed

lemma sim_accepts: "accepts sim_hba 0 id"
  unfolding accepts_def
proof
  show "idle_law sim_hba 0 id"
    using slot_bit by (auto simp: idle_law_def answers_def takes_def sim_hba_def preg_val_def frames_only_def)
  show "busy_law sim_hba 0 id"
    using slot_bit by (auto simp: busy_law_def answers_def sim_hba_def preg_val_def)
qed

definition sim_disk :: "hview disk" where
  "sim_disk = console_init (\<lambda>_. 0) \<lparr>ram = \<lambda>_. 0, ctl = \<lparr>hv_clb = 0x1000, hv_fb = 0x2000, hv_log = [], hv_cmd = None\<rparr>\<rparr>"

lemma sim_disk_sel [simp]:
  "ram sim_disk = (\<lambda>_. 0)" "ctl sim_disk = \<lparr>hv_clb = 0x1000, hv_fb = 0x2000, hv_log = [], hv_cmd = None\<rparr>"
  by (simp_all add: sim_disk_def console_init_def)

lemma ldn_zero [simp]: "ldn n (\<lambda>_. 0) a = 0"
  by (induction n arbitrary: a) simp_all

lemma apart_zero: "k \<le> 4096 \<Longrightarrow> apart 0x1000 0 k"
  using range_sub [of "0x1000" 32 _ 0] by (simp add: apart_def)

lemma frames_apart_zero: "k \<le> 4096 \<Longrightarrow> frames_apart 0x2000 0x1000 0 k"
  using range_sub [of "0x2000" 256 _ 0] range_sub [of "0x1000" 32 _ 0] by (fastforce simp: frames_apart_def not_less [symmetric])

theorem build_command_layout_witness:
  "cmd_prds (build_command 0x1000 0x35 7 0 17 0x8000 (\<lambda>_. 0)) 0x1000 = [(0xC000, 512, True), (0, 0, False)]"
proof -
  have e: "entries 17 = 2" by (simp add: entries_def)
  show ?thesis
    using build_command_layout [of 17 "0x1000" "\<lambda>_. 0" "0x35" 7 0 "0x8000"] apart_zero [of 272] by (simp add: e Let_def)
qed


end
