(* ===== verification/AhciPort.thy ===== *)
theory AhciPort
  imports Ahci
begin

text \<open>
  The set-up of a port, \<^verbatim>\<open>port_rebase\<close>: the driver stops the port, gives it a command list, an area for received frames and
  32 command tables, and starts it again.  The laws assumed of the controller are those of its start and stop bits.
\<close>

section \<open>The areas of a port\<close>

text \<open>The command list, the area for received frames, and the command tables of a port.\<close>

definition list_base :: "nat \<Rightarrow> nat" where "list_base p = 0x400000 + 1024 * p"
definition frame_base :: "nat \<Rightarrow> nat" where "frame_base p = 0x408000 + 256 * p"
definition table_base :: "nat \<Rightarrow> nat" where "table_base p = 0x40A000 + 8192 * p"

definition port_areas :: "nat \<Rightarrow> nat set" where
  "port_areas p = {list_base p..<list_base p + 1024} \<union> {frame_base p..<frame_base p + 256} \<union> {table_base p..<table_base p + 8192}"

lemma port_areas_disjoint: "p < 32 \<Longrightarrow> q < 32 \<Longrightarrow> p \<noteq> q \<Longrightarrow> port_areas p \<inter> port_areas q = {}"
  by (auto simp: port_areas_def list_base_def frame_base_def table_base_def)

lemma bases:
  assumes "p < 32"
  shows "AHCI_BASE + push_bit 10 (of_nat p) = of_nat (list_base p)"
    "AHCI_BASE + push_bit 10 32 + push_bit 8 (of_nat p) = of_nat (frame_base p)"
    "AHCI_BASE + push_bit 10 40 + push_bit 13 (of_nat p) + push_bit 8 (of_nat i) = of_nat (table_base p + 256 * i)"
  by (simp_all add: list_base_def frame_base_def table_base_def push_bit_eq_mult)

lemma in_range0:
  fixes x :: u64
  shows "c + n \<le> 2 ^ 64 \<Longrightarrow> unat (x - of_nat c) < n \<longleftrightarrow> c \<le> unat x \<and> unat x < c + n"
  using range_sub [of c n x 0] by simp

lemma memset_zero:
  assumes "0 < n" "c + n \<le> 2 ^ 64"
  shows "CString.memset m (of_nat c) 0 (int n) x = (if c \<le> unat x \<and> unat x < c + n then 0 else m x)"
proof -
  have "memset m (of_nat c) 0 (int n) = (\<lambda>a. if uint (a - of_nat c) < int n then word_of_int 0 else m a)"
    using assms by (intro memset_eq) simp_all
  moreover have "uint (x - of_nat c) < int n \<longleftrightarrow> unat (x - of_nat c) < n"
    unfolding unat_eq_nat_uint by (rule nat_less_iff [OF unsigned_greater_eq, symmetric])
  ultimately show ?thesis using in_range0 [OF assms(2), of x] by simp
qed

text \<open>One header and its table.\<close>

lemma header_init_facts:
  assumes "p < 32" "i < 32"
  defines "h \<equiv> list_base p + 32 * i" and "t \<equiv> table_base p + 256 * i"
  shows "ldn 2 (header_init (of_nat (list_base p)) (of_nat p) i m) (of_nat (h + 2)) = 8"
    "ldn 8 (header_init (of_nat (list_base p)) (of_nat p) i m) (of_nat (h + 8)) = of_nat t"
    "t \<le> unat x \<and> unat x < t + 256 \<Longrightarrow> header_init (of_nat (list_base p)) (of_nat p) i m x = 0"
    "\<not> (h \<le> unat x \<and> unat x < h + 32) \<Longrightarrow> \<not> (t \<le> unat x \<and> unat x < t + 256) \<Longrightarrow> header_init (of_nat (list_base p)) (of_nat p) i m x = m x"
proof -
  let ?m1 = "stn 2 (of_nat (h + 2)) 8 m" and ?m' = "header_init (of_nat (list_base p)) (of_nat p) i m"
  let ?m2 = "stn 8 (of_nat (h + 8)) (of_nat t) ?m1"
  have ht: "h + 32 \<le> t" "t + 256 < 2 ^ 32"
    using assms(1,2) by (simp_all add: h_def t_def list_base_def table_base_def)
  have a: "of_nat (list_base p) + 32 * of_nat i + 2 = (of_nat (h + 2) :: u64)"
    "of_nat (list_base p) + 32 * of_nat i + 8 = (of_nat (h + 8) :: u64)"
    by (simp_all add: h_def)
  have "?m' = CString.memset ?m2 (ldn 8 ?m2 (of_nat (h + 8))) 0 256"
    by (simp only: header_init_def Let_def a bases(3) [OF assms(1)] t_def)
  then have m': "?m' = CString.memset ?m2 (of_nat t) 0 (int 256)" by (simp add: ldn_stn take_bit_word_eq_self)
  have z: "?m' x = (if t \<le> unat x \<and> unat x < t + 256 then 0 else ?m2 x)" for x
    unfolding m' using ht(2) by (intro memset_zero) simp_all
  have r2: "unat (x - of_nat (h + 2)) < 2 \<longleftrightarrow> h + 2 \<le> unat x \<and> unat x < h + 4" for x :: u64
  proof -
    have "h + 2 + 2 \<le> 2 ^ 64" "h + 2 + 2 = h + 4" using ht by simp_all
    then show ?thesis using in_range0 [of "h + 2" 2 x] by (simp only:)
  qed
  have r8: "unat (x - of_nat (h + 8)) < 8 \<longleftrightarrow> h + 8 \<le> unat x \<and> unat x < h + 16" for x :: u64
    using in_range0 [of "h + 8" 8 x] ht by (simp add: add.commute)
  show "?m' x = 0" if "t \<le> unat x \<and> unat x < t + 256" using that z by simp
  show "?m' x = m x" if "\<not> (h \<le> unat x \<and> unat x < h + 32)" "\<not> (t \<le> unat x \<and> unat x < t + 256)"
    using that z [of x] r2 [of x] r8 [of x] by (simp add: stn_apply) linarith
  have o: "?m' x = ?m2 x" if "unat x < h + 32" for x using that z ht by simp
  have "ldn 2 ?m' (of_nat (h + 2)) = ldn 2 ?m2 (of_nat (h + 2))"
    using o r2 by (intro ldn_cong) simp_all
  also have "\<dots> = ldn 2 ?m1 (of_nat (h + 2))"
  proof (rule ldn_stn_other)
    fix x :: u64
    assume "unat (x - of_nat (h + 2)) < 2"
    then show "\<not> unat (x - of_nat (h + 8)) < 8" unfolding r2 r8 by linarith
  qed simp_all
  finally show "ldn 2 ?m' (of_nat (h + 2)) = 8" by (simp add: ldn_stn)
  have "ldn 8 ?m' (of_nat (h + 8)) = ldn 8 ?m2 (of_nat (h + 8))"
    using o r8 by (intro ldn_cong) simp_all
  then show "ldn 8 ?m' (of_nat (h + 8)) = of_nat t" by (simp add: ldn_stn take_bit_word_eq_self)
qed

definition headers_ok :: "nat \<Rightarrow> nat \<Rightarrow> bmem \<Rightarrow> bool" where
  "headers_ok p k m \<longleftrightarrow> (\<forall>i < k. ldn 2 m (of_nat (list_base p + 32 * i + 2)) = 8 \<and>
     ldn 8 m (of_nat (list_base p + 32 * i + 8)) = of_nat (table_base p + 256 * i)) \<and>
     (\<forall>x. table_base p \<le> unat x \<and> unat x < table_base p + 256 * k \<longrightarrow> m x = 0)"

lemma headers_init:
  assumes "p < 32" "k \<le> 32"
  shows "headers_ok p k (fold (header_init (of_nat (list_base p)) (of_nat p)) [0..<k] m) \<and>
    (\<forall>x. unat x \<notin> port_areas p \<longrightarrow> fold (header_init (of_nat (list_base p)) (of_nat p)) [0..<k] m x = m x)"
  using assms(2)
proof (induction k)
  case (Suc k)
  let ?m = "fold (header_init (of_nat (list_base p)) (of_nat p)) [0..<k] m"
  let ?m' = "header_init (of_nat (list_base p)) (of_nat p) k ?m"
  have IH: "headers_ok p k ?m" "\<And>x. unat x \<notin> port_areas p \<Longrightarrow> ?m x = m x" using Suc by auto
  have k: "k < 32" using Suc.prems by simp
  note F = header_init_facts [OF assms(1) k, where m = ?m]
  have b: "list_base p + 1024 \<le> table_base p" using assms(1) by (simp add: list_base_def table_base_def)
  have o: "ldn n ?m' (of_nat (list_base p + 32 * i + j)) = ldn n ?m (of_nat (list_base p + 32 * i + j))"
    if "i < k" "j + n \<le> 32" for i j n
  proof (rule ldn_cong)
    fix x :: u64
    assume "unat (x - of_nat (list_base p + 32 * i + j)) < n"
    then have "list_base p + 32 * i + j \<le> unat x" "unat x < list_base p + 32 * i + j + n"
      using in_range0 [of "list_base p + 32 * i + j" n x] that k assms(1) by (simp_all add: list_base_def)
    then show "?m' x = ?m x" using that k b by (intro F(4)) auto
  qed (use that in simp)
  have "ldn 2 ?m' (of_nat (list_base p + 32 * i + 2)) = 8 \<and>
      ldn 8 ?m' (of_nat (list_base p + 32 * i + 8)) = of_nat (table_base p + 256 * i)" if "i < Suc k" for i
    using that F(1,2) o [of i 2 2] o [of i 8 8] IH(1) unfolding headers_ok_def by (cases "i = k") simp_all
  moreover have "?m' x = 0" if "table_base p \<le> unat x" "unat x < table_base p + 256 * Suc k" for x
  proof (cases "unat x < table_base p + 256 * k")
    case True
    then have "?m' x = ?m x" using that b k by (intro F(4)) auto
    then show ?thesis using True that IH(1) by (simp add: headers_ok_def)
  qed (use that in \<open>intro F(3), simp\<close>)
  moreover have "?m' x = m x" if "unat x \<notin> port_areas p" for x
  proof -
    have "?m' x = ?m x" using that k by (intro F(4)) (auto simp: port_areas_def)
    then show ?thesis using IH(2) that by simp
  qed
  ultimately show ?case by (simp add: headers_ok_def)
qed (auto simp: headers_ok_def)

section \<open>Starting and stopping\<close>

text \<open>What a port shows: its two base addresses, the start bits as last written, and for how many more reads the bits that
  report a running engine stay set after both start bits are cleared.\<close>

record pview =
  pv_clb :: u64
  pv_fb :: u64
  pv_on :: u64
  pv_fr :: nat
  pv_cr :: nat

definition calm :: "pview \<Rightarrow> bool" where
  "calm v \<longleftrightarrow> pv_on v = 0 \<and> pv_fr v = 0 \<and> pv_cr v = 0"

text \<open>A stopped port leaves memory alone, and a port that only receives frames writes to their area alone.\<close>

definition outside_frame :: "u64 \<Rightarrow> bmem \<Rightarrow> bmem \<Rightarrow> bool" where
  "outside_frame f m m' \<longleftrightarrow> (\<forall>x. \<not> unat (x - f) < 256 \<longrightarrow> m' x = m x)"

definition base_law :: "'d hba \<Rightarrow> u64 \<Rightarrow> ('d \<Rightarrow> pview) \<Rightarrow> bool" where
  "base_law env port view \<longleftrightarrow> (\<forall>d m. calm (view d) \<longrightarrow>
     answers env port P_clb d m (\<lambda>v d' m'. v = pv_clb (view d) \<and> view d' = view d \<and> m' = m) \<and>
     answers env port P_fb d m (\<lambda>v d' m'. v = pv_fb (view d) \<and> view d' = view d \<and> m' = m) \<and>
     (\<forall>x. takes env port P_clb x d m (\<lambda>d' m'. view d' = (view d)\<lparr>pv_clb := x\<rparr> \<and> m' = m)) \<and>
     (\<forall>x. takes env port P_fb x d m (\<lambda>d' m'. view d' = (view d)\<lparr>pv_fb := x\<rparr> \<and> m' = m)))"

definition cmd_law :: "'d hba \<Rightarrow> u64 \<Rightarrow> ('d \<Rightarrow> pview) \<Rightarrow> bool" where
  "cmd_law env port view \<longleftrightarrow> (\<forall>d m.
     answers env port P_cmd d m (\<lambda>v d' m'. v AND 0x11 = pv_on (view d) \<and>
       view d' = (view d)\<lparr>pv_fr := pv_fr (view d) - 1, pv_cr := pv_cr (view d) - 1\<rparr> \<and>
       (pv_on (view d) = 0 \<longrightarrow> (v AND 0x4000 = 0 \<longleftrightarrow> pv_fr (view d) = 0) \<and> (v AND 0x8000 = 0 \<longleftrightarrow> pv_cr (view d) = 0)) \<and>
       (calm (view d) \<or> pv_on (view d) = 0x10 \<longrightarrow> outside_frame (pv_fb (view d)) m m')) \<and>
     (\<forall>x. takes env port P_cmd x d m (\<lambda>d' m'.
       (\<exists>i j. view d' = (view d)\<lparr>pv_on := x AND 0x11, pv_fr := i, pv_cr := j\<rparr>) \<and>
       (calm (view d) \<and> x AND 0x11 = 0 \<longrightarrow> calm (view d')) \<and>
       (calm (view d) \<or> pv_on (view d) = 0x10 \<longrightarrow> outside_frame (pv_fb (view d)) m m'))))"

definition controls :: "'d hba \<Rightarrow> u64 \<Rightarrow> ('d \<Rightarrow> pview) \<Rightarrow> bool" where
  "controls env port view \<longleftrightarrow> base_law env port view \<and> cmd_law env port view"

lemma outside_frame_trans: "outside_frame f m m' \<Longrightarrow> outside_frame f m' m'' \<Longrightarrow> outside_frame f m m''"
  by (simp add: outside_frame_def)

lemma cmd_read:
  assumes "controls env port view"
  obtains v s' where "pread env port P_cmd s = (v, s')" "v AND 0x11 = pv_on (view (ctl s))"
    "view (ctl s') = (view (ctl s))\<lparr>pv_fr := pv_fr (view (ctl s)) - 1, pv_cr := pv_cr (view (ctl s)) - 1\<rparr>"
    "pv_on (view (ctl s)) = 0 \<Longrightarrow> v AND 0x4000 = 0 \<longleftrightarrow> pv_fr (view (ctl s)) = 0"
    "pv_on (view (ctl s)) = 0 \<Longrightarrow> v AND 0x8000 = 0 \<longleftrightarrow> pv_cr (view (ctl s)) = 0"
    "calm (view (ctl s)) \<or> pv_on (view (ctl s)) = 0x10 \<Longrightarrow> outside_frame (pv_fb (view (ctl s))) (ram s) (ram s')"
proof -
  note L = assms [unfolded controls_def cmd_law_def, THEN conjunct2, THEN spec [of _ "ctl s"], THEN spec [of _ "ram s"], THEN conjunct1]
  show thesis by (rule pread_answers [OF L]) (rule that, blast+)
qed

lemma cmd_write:
  assumes "controls env port view"
  obtains i j where "view (ctl (pwrite env port P_cmd x s)) = (view (ctl s))\<lparr>pv_on := x AND 0x11, pv_fr := i, pv_cr := j\<rparr>"
    "calm (view (ctl s)) \<Longrightarrow> x AND 0x11 = 0 \<Longrightarrow> calm (view (ctl (pwrite env port P_cmd x s)))"
    "calm (view (ctl s)) \<or> pv_on (view (ctl s)) = 0x10 \<Longrightarrow> outside_frame (pv_fb (view (ctl s))) (ram s) (ram (pwrite env port P_cmd x s))"
proof -
  note L = assms [unfolded controls_def cmd_law_def, THEN conjunct2, THEN spec [of _ "ctl s"], THEN spec [of _ "ram s"], THEN conjunct2, THEN spec [of _ x]]
  show thesis using pwrite_takes [OF L] that by blast
qed

text \<open>Setting and clearing start bits.\<close>

lemma and_11:
  fixes v :: u64
  shows "(v AND NOT b) AND 0x11 = (v AND 0x11) AND NOT b" "(v OR b) AND 0x11 = (v AND 0x11) OR (b AND 0x11)"
  by (simp_all add: bit.conj_disj_distrib2 ac_simps)

lemma cmd_clear_view:
  assumes "controls env port view"
  obtains i j where "view (ctl (cmd_clear env port b s)) = (view (ctl s))\<lparr>pv_on := pv_on (view (ctl s)) AND NOT b, pv_fr := i, pv_cr := j\<rparr>"
    "calm (view (ctl s)) \<Longrightarrow> calm (view (ctl (cmd_clear env port b s))) \<and> outside_frame (pv_fb (view (ctl s))) (ram s) (ram (cmd_clear env port b s))"
proof -
  obtain v s1 where s1: "pread env port P_cmd s = (v, s1)" "v AND 0x11 = pv_on (view (ctl s))"
    "view (ctl s1) = (view (ctl s))\<lparr>pv_fr := pv_fr (view (ctl s)) - 1, pv_cr := pv_cr (view (ctl s)) - 1\<rparr>"
    "calm (view (ctl s)) \<or> pv_on (view (ctl s)) = 0x10 \<Longrightarrow> outside_frame (pv_fb (view (ctl s))) (ram s) (ram s1)"
    by (rule cmd_read [OF assms]) (rule that)
  have x: "(v AND NOT b) AND 0x11 = pv_on (view (ctl s)) AND NOT b" by (simp add: and_11 s1(2))
  have c: "cmd_clear env port b s = pwrite env port P_cmd (v AND NOT b) s1" by (simp add: cmd_clear_def s1(1))
  have calm1: "calm (view (ctl s)) \<Longrightarrow> view (ctl s1) = view (ctl s)" using s1(3) by (simp add: calm_def)
  show thesis
    by (rule cmd_write [OF assms, of "v AND NOT b" s1], rule that)
      (use s1(3,4) calm1 outside_frame_trans in \<open>auto simp: x c calm_def\<close>)
qed

lemma cmd_or_view:
  assumes "controls env port view" "calm (view (ctl s)) \<or> pv_on (view (ctl s)) = 0x10"
  obtains i j where "view (ctl (cmd_or env port b s)) = (view (ctl s))\<lparr>pv_on := pv_on (view (ctl s)) OR (b AND 0x11), pv_fr := i, pv_cr := j\<rparr>"
    "outside_frame (pv_fb (view (ctl s))) (ram s) (ram (cmd_or env port b s))"
proof -
  obtain v s1 where s1: "pread env port P_cmd s = (v, s1)" "v AND 0x11 = pv_on (view (ctl s))"
    "view (ctl s1) = (view (ctl s))\<lparr>pv_fr := pv_fr (view (ctl s)) - 1, pv_cr := pv_cr (view (ctl s)) - 1\<rparr>"
    "outside_frame (pv_fb (view (ctl s))) (ram s) (ram s1)"
    using cmd_read [OF assms(1)] assms(2) by metis
  have x: "(v OR b) AND 0x11 = pv_on (view (ctl s)) OR (b AND 0x11)" by (simp add: and_11 s1(2))
  have c: "cmd_or env port b s = pwrite env port P_cmd (v OR b) s1" by (simp add: cmd_or_def s1(1))
  have r: "calm (view (ctl s1)) \<or> pv_on (view (ctl s1)) = 0x10" using s1(3) assms(2) by (auto simp: calm_def)
  show thesis
    by (rule cmd_write [OF assms(1), of "v OR b" s1], rule that)
      (use s1(3,4) r outside_frame_trans in \<open>auto simp: x c\<close>)
qed

lemma stop_loop_calm:
  assumes "controls env port view" "pv_on (view (ctl s)) = 0"
  shows "\<exists>s'. stop_loop env port s = Some s' \<and> calm (view (ctl s'))"
  using assms(2)
proof (induction "pv_fr (view (ctl s)) + pv_cr (view (ctl s))" arbitrary: s rule: less_induct)
  case less
  obtain v s1 where s1: "pread env port P_cmd s = (v, s1)"
    "view (ctl s1) = (view (ctl s))\<lparr>pv_fr := pv_fr (view (ctl s)) - 1, pv_cr := pv_cr (view (ctl s)) - 1\<rparr>"
    "v AND 0x4000 = 0 \<longleftrightarrow> pv_fr (view (ctl s)) = 0"
    using cmd_read [OF assms(1)] less.prems by metis
  have on1: "pv_on (view (ctl s1)) = 0" using s1(2) less.prems by simp
  obtain w s2 where s2: "pread env port P_cmd s1 = (w, s2)"
    "view (ctl s2) = (view (ctl s1))\<lparr>pv_fr := pv_fr (view (ctl s1)) - 1, pv_cr := pv_cr (view (ctl s1)) - 1\<rparr>"
    "w AND 0x8000 = 0 \<longleftrightarrow> pv_cr (view (ctl s1)) = 0"
    using cmd_read [OF assms(1), of s1] on1 by metis
  consider "pv_fr (view (ctl s)) \<noteq> 0" | "pv_fr (view (ctl s)) = 0" "pv_cr (view (ctl s1)) \<noteq> 0"
    | "pv_fr (view (ctl s)) = 0" "pv_cr (view (ctl s1)) = 0" by blast
  then show ?case
  proof cases
    case 1
    have "stop_loop env port s = stop_loop env port s1" using s1 1 by (subst stop_loop.simps) simp
    then show ?thesis using less.hyps [of s1] s1(2) on1 1 by simp
  next
    case 2
    have "stop_loop env port s = stop_loop env port s2" using s1 s2 2 by (subst stop_loop.simps) simp
    moreover have "pv_on (view (ctl s2)) = 0" using s1(2) s2(2) less.prems by simp
    ultimately show ?thesis using less.hyps [of s2] s1(2) s2(2) 2 by simp
  next
    case 3
    have "stop_loop env port s = Some s2" using s1 s2 3 by (subst stop_loop.simps) simp
    then show ?thesis using s1(2) s2(2) 3 less.prems by (simp add: calm_def)
  qed
qed

lemma stop_cmd_calm:
  assumes "controls env port view" "pv_on (view (ctl s)) AND NOT 0x11 = 0"
  obtains s' where "stop_cmd env port s = Some s'" "calm (view (ctl s'))"
proof -
  define s1 where "s1 = cmd_clear env port 0x1 s"
  define s2 where "s2 = cmd_clear env port 0x10 s1"
  obtain i j where v1: "view (ctl s1) = (view (ctl s))\<lparr>pv_on := pv_on (view (ctl s)) AND NOT 0x1, pv_fr := i, pv_cr := j\<rparr>"
    using cmd_clear_view [OF assms(1), where b = 1 and s = s, folded s1_def] by blast
  obtain i j where v2: "view (ctl s2) = (view (ctl s1))\<lparr>pv_on := pv_on (view (ctl s1)) AND NOT 0x10, pv_fr := i, pv_cr := j\<rparr>"
    using cmd_clear_view [OF assms(1), where b = "0x10" and s = s1, folded s2_def] by blast
  have n: "NOT 0x1 AND NOT 0x10 = (NOT 0x11 :: u64)" by simp
  have "pv_on (view (ctl s2)) = 0" unfolding v2 v1 using assms(2) by (simp add: and.assoc)
  then obtain s3 where s3: "stop_loop env port s2 = Some s3" "calm (view (ctl s3))"
    using stop_loop_calm [OF assms(1)] by blast
  have "calm (view (ctl (cmd_clear env port 0x10 s3)))" by (rule cmd_clear_view [OF assms(1)]) (use s3(2) in blast)
  moreover have "stop_cmd env port s = Some (cmd_clear env port 0x10 s3)"
    using s3(1) by (simp add: stop_cmd_def s1_def s2_def Let_def)
  ultimately show thesis using that by blast
qed

lemma start_cmd_on:
  assumes "controls env port view" "calm (view (ctl s))"
  obtains s' where "start_cmd env port s = Some s'" "pv_on (view (ctl s')) = 0x11" "pv_clb (view (ctl s')) = pv_clb (view (ctl s))"
    "pv_fb (view (ctl s')) = pv_fb (view (ctl s))" "outside_frame (pv_fb (view (ctl s))) (ram s) (ram s')"
proof -
  have on: "pv_on (view (ctl s)) = 0" "pv_cr (view (ctl s)) = 0" using assms(2) by (simp_all add: calm_def)
  obtain v s1 where s1: "pread env port P_cmd s = (v, s1)" "v AND 0x8000 = 0"
    "view (ctl s1) = (view (ctl s))\<lparr>pv_fr := pv_fr (view (ctl s)) - 1, pv_cr := pv_cr (view (ctl s)) - 1\<rparr>"
    "outside_frame (pv_fb (view (ctl s))) (ram s) (ram s1)"
    using cmd_read [OF assms(1)] on assms(2) by metis
  then have v1: "view (ctl s1) = view (ctl s)" using assms(2) by (simp add: calm_def)
  define s2 where "s2 = cmd_or env port 0x10 s1"
  define s3 where "s3 = cmd_or env port 0x1 s2"
  have c1: "calm (view (ctl s1)) \<or> pv_on (view (ctl s1)) = 0x10" using v1 assms(2) by simp
  obtain i j where w2: "view (ctl s2) = (view (ctl s1))\<lparr>pv_on := pv_on (view (ctl s1)) OR (0x10 AND 0x11), pv_fr := i, pv_cr := j\<rparr>"
    and o2: "outside_frame (pv_fb (view (ctl s1))) (ram s1) (ram s2)"
    using cmd_or_view [OF assms(1) c1, where b = "0x10", folded s2_def] by blast
  have v2: "pv_on (view (ctl s2)) = 0x10" "pv_clb (view (ctl s2)) = pv_clb (view (ctl s))" "pv_fb (view (ctl s2)) = pv_fb (view (ctl s))"
    using w2 v1 on by simp_all
  then have c2: "calm (view (ctl s2)) \<or> pv_on (view (ctl s2)) = 0x10" by simp
  obtain i j where w3: "view (ctl s3) = (view (ctl s2))\<lparr>pv_on := pv_on (view (ctl s2)) OR (0x1 AND 0x11), pv_fr := i, pv_cr := j\<rparr>"
    and o3: "outside_frame (pv_fb (view (ctl s2))) (ram s2) (ram s3)"
    using cmd_or_view [OF assms(1) c2, where b = "0x1", folded s3_def] by blast
  have v3: "pv_on (view (ctl s3)) = 0x11" "pv_clb (view (ctl s3)) = pv_clb (view (ctl s))" "pv_fb (view (ctl s3)) = pv_fb (view (ctl s))"
    using w3 v2 by simp_all
  have o: "outside_frame (pv_fb (view (ctl s))) (ram s) (ram s3)"
    using outside_frame_trans [OF s1(4) outside_frame_trans] o2 o3 v1 v2(3) by simp
  have "cr_loop env port s = Some s1" using s1 by (subst cr_loop.simps) simp
  then have "start_cmd env port s = Some s3" by (simp add: start_cmd_def s2_def s3_def Let_def)
  then show thesis by (rule that [OF _ v3 o])
qed

section \<open>Giving a port its areas\<close>

lemma base_lawD:
  assumes "controls env port view" "calm (view d)"
  shows "answers env port P_clb d m (\<lambda>v d' m'. v = pv_clb (view d) \<and> view d' = view d \<and> m' = m)"
    "answers env port P_fb d m (\<lambda>v d' m'. v = pv_fb (view d) \<and> view d' = view d \<and> m' = m)"
    "takes env port P_clb x d m (\<lambda>d' m'. view d' = (view d)\<lparr>pv_clb := x\<rparr> \<and> m' = m)"
    "takes env port P_fb x d m (\<lambda>d' m'. view d' = (view d)\<lparr>pv_fb := x\<rparr> \<and> m' = m)"
  using assms unfolding controls_def base_law_def by blast+

lemma calm_upd [simp]: "calm (v\<lparr>pv_clb := x\<rparr>) = calm v" "calm (v\<lparr>pv_fb := x\<rparr>) = calm v"
  by (simp_all add: calm_def)

lemma headers_ok_frame:
  assumes "headers_ok p 32 m" "outside_frame (of_nat (frame_base p)) m m'" "p < 32"
  shows "headers_ok p 32 m'"
proof -
  have o: "m' x = m x" if "unat x < frame_base p \<or> frame_base p + 256 \<le> unat x" for x
    using assms(2,3) that in_range0 [of "frame_base p" 256 x] by (auto simp: outside_frame_def frame_base_def)
  have b: "list_base p + 1024 \<le> frame_base p" "frame_base p + 256 \<le> table_base p" "frame_base p < 2 ^ 32"
    using assms(3) by (simp_all add: list_base_def frame_base_def table_base_def)
  have l: "ldn n m' (of_nat (list_base p + 32 * i + j)) = ldn n m (of_nat (list_base p + 32 * i + j))"
    if "i < 32" "j + n \<le> 32" for n i j
  proof (rule ldn_cong)
    fix x :: u64
    assume "unat (x - of_nat (list_base p + 32 * i + j)) < n"
    then have "unat x < list_base p + 32 * i + j + n"
      using in_range0 [of "list_base p + 32 * i + j" n x] that b by simp
    then show "m' x = m x" using that b by (intro o) linarith
  qed (use that in simp)
  show ?thesis using assms(1) l [of _ 2 2] l [of _ 8 8] o b(2) unfolding headers_ok_def by simp
qed

text \<open>C32. \<^verbatim>\<open>port_rebase\<close> ends: the port is stopped, gets the three areas of its number, and runs again.  Each of the 32 headers
  then names eight entries and a cleared table of its own, and memory outside the areas of the port is what it was when
  the port had stopped; areas of different ports are disjoint.\<close>

theorem port_rebase_layout:
  assumes "controls env port view" "p < 32"
  shows "\<exists>s0 s'. stop_cmd env port s = Some s0 \<and> port_rebase env port (of_nat p) s = Some s' \<and>
    pv_clb (view (ctl s')) = of_nat (list_base p) \<and> pv_fb (view (ctl s')) = of_nat (frame_base p) \<and> pv_on (view (ctl s')) = 0x11 \<and>
    headers_ok p 32 (ram s') \<and> (\<forall>x. unat x \<notin> port_areas p \<longrightarrow> ram s' x = ram s0 x) \<and>
    (\<forall>q < 32. p \<noteq> q \<longrightarrow> port_areas p \<inter> port_areas q = {})"
proof -
  let ?L = "of_nat (list_base p) :: u64" and ?F = "of_nat (frame_base p) :: u64"
  obtain v where "v AND 0x11 = pv_on (view (ctl s))" by (rule cmd_read [OF assms(1)])
  moreover have "(v AND 0x11) AND NOT 0x11 = 0" by (simp add: and.assoc)
  ultimately have "pv_on (view (ctl s)) AND NOT 0x11 = 0" by (simp only:)
  then obtain s0 where s0: "stop_cmd env port s = Some s0" "calm (view (ctl s0))" using stop_cmd_calm [OF assms(1)] by metis
  define s1 where "s1 = pwrite env port P_clb ?L s0"
  have s1: "view (ctl s1) = (view (ctl s0))\<lparr>pv_clb := ?L\<rparr>" "ram s1 = ram s0"
    using pwrite_takes [OF base_lawD(3) [OF assms(1) s0(2), of ?L]] unfolding s1_def by blast+
  have c1: "calm (view (ctl s1))" using s1 s0 by simp
  obtain v2 s2 where s2: "pread env port P_clb s1 = (v2, s2)" "v2 = pv_clb (view (ctl s1)) \<and> view (ctl s2) = view (ctl s1) \<and> ram s2 = ram s1"
    using pread_answers [OF base_lawD(1) [OF assms(1) c1]] .
  define s3 where "s3 = s2\<lparr>ram := CString.memset (ram s2) ?L 0 1024\<rparr>"
  define s4 where "s4 = pwrite env port P_fb ?F s3"
  have c3: "calm (view (ctl s3))" using s2 c1 by (simp add: s3_def)
  have s4: "view (ctl s4) = (view (ctl s3))\<lparr>pv_fb := ?F\<rparr>" "ram s4 = ram s3"
    using pwrite_takes [OF base_lawD(4) [OF assms(1) c3, of ?F]] unfolding s4_def by blast+
  have c4: "calm (view (ctl s4))" using s4 c3 by simp
  obtain v5 s5 where s5: "pread env port P_fb s4 = (v5, s5)" "v5 = pv_fb (view (ctl s4)) \<and> view (ctl s5) = view (ctl s4) \<and> ram s5 = ram s4"
    using pread_answers [OF base_lawD(2) [OF assms(1) c4]] .
  define s6 where "s6 = s5\<lparr>ram := CString.memset (ram s5) ?F 0 256\<rparr>"
  have c6: "calm (view (ctl s6))" using s5 c4 by (simp add: s6_def)
  obtain v7 s7 where s7: "pread env port P_clb s6 = (v7, s7)" "v7 = pv_clb (view (ctl s6)) \<and> view (ctl s7) = view (ctl s6) \<and> ram s7 = ram s6"
    using pread_answers [OF base_lawD(1) [OF assms(1) c6]] .
  define s8 where "s8 = s7\<lparr>ram := fold (header_init ?L (of_nat p)) [0..<32] (ram s7)\<rparr>"
  have v8: "pv_clb (view (ctl s8)) = ?L" "pv_fb (view (ctl s8)) = ?F" "calm (view (ctl s8))" "pv_clb (view (ctl s6)) = ?L"
    using s7 s5 s4 s2 s1 c6 by (simp_all add: s8_def s6_def s3_def)
  obtain s9 where s9: "start_cmd env port s8 = Some s9" "pv_on (view (ctl s9)) = 0x11" "pv_clb (view (ctl s9)) = ?L"
    "pv_fb (view (ctl s9)) = ?F" "outside_frame ?F (ram s8) (ram s9)"
    using start_cmd_on [OF assms(1) v8(3)] v8(1,2) by metis
  have r: "pread env port P_clb s1 = (?L, s2)" "pread env port P_fb s4 = (?F, s5)" "pread env port P_clb s6 = (?L, s7)"
    using s2 s5 s7 s1(1) s4(1) v8(4) by simp_all
  have "port_rebase env port (of_nat p) s = Some s9"
    unfolding port_rebase_def s0(1) Option.bind.bind_lunit Let_def bases(1,2) [OF assms(2)] s1_def [symmetric] r(1) prod.case
      s3_def [symmetric] s4_def [symmetric] r(2) s6_def [symmetric] r(3) s8_def [symmetric] by (rule s9(1))
  moreover have H: "headers_ok p 32 (ram s8)" "\<And>x. unat x \<notin> port_areas p \<Longrightarrow> ram s8 x = ram s6 x"
    using headers_init [OF assms(2), of 32 "ram s7"] s7(2) by (simp_all add: s8_def)
  moreover have "headers_ok p 32 (ram s9)" by (rule headers_ok_frame [OF H(1) s9(5) assms(2)])
  moreover have "ram s9 x = ram s0 x" if "unat x \<notin> port_areas p" for x
  proof -
    have x: "\<not> (frame_base p \<le> unat x \<and> unat x < frame_base p + 256)" "\<not> (list_base p \<le> unat x \<and> unat x < list_base p + 1024)"
      using that by (auto simp: port_areas_def)
    have bb: "frame_base p + 256 \<le> 2 ^ 64" "list_base p + 1024 \<le> 2 ^ 64"
      using assms(2) by (simp_all add: frame_base_def list_base_def)
    have "ram s9 x = ram s8 x"
      using s9(5) x(1) in_range0 [OF bb(1), of x] by (auto simp: outside_frame_def)
    also have "\<dots> = ram s6 x" using H(2) that .
    also have "\<dots> = ram s4 x"
      using memset_zero [of 256 "frame_base p" "ram s5" x] x(1) bb s5(2) by (auto simp: s6_def)
    also have "\<dots> = ram s0 x"
      using memset_zero [of 1024 "list_base p" "ram s2" x] x(2) bb s4(2) s2(2) s1(2) by (auto simp: s3_def)
    finally show ?thesis .
  qed
  ultimately show ?thesis using s0(1) s9 port_areas_disjoint [OF assms(2)] by blast
qed

section \<open>A port\<close>

text \<open>A port at address 0 whose engines stop two and three reads after the start bits are cleared.\<close>

definition on_bits :: "pview \<Rightarrow> u64" where
  "on_bits d = pv_on d AND 0x11"

definition run_bits :: "pview \<Rightarrow> u64" where
  "run_bits d = (if on_bits d = 0
     then (if pv_fr d = 0 then 0 else 0x4000) OR (if pv_cr d = 0 then 0 else 0x8000) else 0xC000)"

definition sim_port :: "pview hba" where
  "sim_port = \<lparr>reg_read = (\<lambda>a d m.
       if a = preg_off P_cmd then (on_bits d OR run_bits d, d\<lparr>pv_fr := pv_fr d - 1, pv_cr := pv_cr d - 1\<rparr>, m)
       else if a = preg_off P_clb then (pv_clb d, d, m)
       else if a = preg_off P_fb then (pv_fb d, d, m)
       else (0, d, m)),
     reg_write = (\<lambda>a v d m.
       if a = preg_off P_cmd
       then if on_bits d = 0 \<and> pv_fr d = 0 \<and> pv_cr d = 0 \<and> v AND 0x11 = 0
            then (d\<lparr>pv_on := v\<rparr>, m) else (d\<lparr>pv_on := v, pv_fr := 2, pv_cr := 3\<rparr>, m)
       else if a = preg_off P_clb then (d\<lparr>pv_clb := v\<rparr>, m)
       else if a = preg_off P_fb then (d\<lparr>pv_fb := v\<rparr>, m)
       else (d, m))\<rparr>"

definition shown :: "pview \<Rightarrow> pview" where
  "shown d = d\<lparr>pv_on := on_bits d\<rparr>"

lemma cmd_word:
  "preg_val P_cmd (on_bits d OR run_bits d) AND 0x11 = on_bits d"
  "on_bits d = 0 \<Longrightarrow> preg_val P_cmd (on_bits d OR run_bits d) AND 0x4000 = 0 \<longleftrightarrow> pv_fr d = 0"
  "on_bits d = 0 \<Longrightarrow> preg_val P_cmd (on_bits d OR run_bits d) AND 0x8000 = 0 \<longleftrightarrow> pv_cr d = 0"
proof -
  have m: "take_bit 32 a AND 0x11 = (a :: u64) AND 0x11" for a
    by (simp add: take_bit_eq_mask ac_simps mask_eq_exp_minus_1)
  have "run_bits d AND 0x11 = 0" by (simp add: run_bits_def)
  then show "preg_val P_cmd (on_bits d OR run_bits d) AND 0x11 = on_bits d"
    by (simp add: preg_val_def m bit.conj_disj_distrib2 on_bits_def and.assoc)
qed (simp_all add: preg_val_def run_bits_def)

lemma preg_val_11: "preg_val P_cmd x AND 0x11 = x AND 0x11"
  by (simp add: preg_val_def take_bit_eq_mask ac_simps mask_eq_exp_minus_1)

lemma pv_ex:
  "\<exists>i j. d\<lparr>pv_on := x\<rparr> = d\<lparr>pv_on := x, pv_fr := i, pv_cr := j\<rparr>"
  "\<exists>i j. d\<lparr>pv_fr := a, pv_cr := b, pv_on := x\<rparr> = d\<lparr>pv_on := x, pv_fr := i, pv_cr := j\<rparr>"
  by (cases d, simp)+

lemma sim_controls: "controls sim_port 0 shown"
  unfolding controls_def
proof
  show "base_law sim_port 0 shown"
    by (auto simp: base_law_def answers_def takes_def sim_port_def preg_val_def shown_def on_bits_def)
  show "cmd_law sim_port 0 shown"
    using cmd_word preg_val_11
    by (auto simp: pv_ex cmd_law_def answers_def takes_def sim_port_def shown_def on_bits_def calm_def outside_frame_def)
qed

definition sim_machine :: "pview disk" where
  "sim_machine = console_init (\<lambda>_. 0)
     \<lparr>ram = \<lambda>_. 7, ctl = \<lparr>pv_clb = 0, pv_fb = 0, pv_on = 0x11, pv_fr = 0, pv_cr = 0\<rparr>\<rparr>"

theorem port_rebase_layout_witness:
  "\<exists>s'. port_rebase sim_port 0 (of_nat 1) sim_machine = Some s' \<and> ldn 8 (ram s') 0x400468 = 0x40C300"
proof -
  obtain s' where s': "port_rebase sim_port 0 (of_nat 1) sim_machine = Some s'" "headers_ok 1 32 (ram s')"
    using port_rebase_layout [OF sim_controls, of 1 sim_machine] by auto
  have "ldn 8 (ram s') (of_nat (list_base 1 + 32 * 3 + 8)) = of_nat (table_base 1 + 256 * 3)"
    by (rule s'(2) [unfolded headers_ok_def, THEN conjunct1, rule_format, THEN conjunct2]) simp
  then show ?thesis using s'(1) by (simp add: list_base_def table_base_def)
qed

end
