(* ===== verification/Pci.thy ===== *)
theory Pci
  imports AhciPort
begin

text \<open>
  The scan of the PCI bus and the probe of the disk controller, the rest of \<^verbatim>\<open>sys/enumpci.c\<close>, with the 32-bit port accesses of
  \<^verbatim>\<open>sys/common.c\<close>.  The configuration mechanism behind the ports \<^verbatim>\<open>0xcf8\<close> and \<^verbatim>\<open>0xcfc\<close> is the parameter \<open>io\<close>.
\<close>

record 'd pci =
  io_out :: "u16 \<Rightarrow> u32 \<Rightarrow> 'd \<Rightarrow> 'd"
  io_in :: "u16 \<Rightarrow> 'd \<Rightarrow> u32 \<times> 'd"

definition outl :: "'d pci \<Rightarrow> u16 \<Rightarrow> u32 \<Rightarrow> ('d, 'a) disk_scheme \<Rightarrow> ('d, 'a) disk_scheme" where
  "outl io port v s = s\<lparr>ctl := io_out io port v (ctl s)\<rparr>"

definition inl :: "'d pci \<Rightarrow> u16 \<Rightarrow> ('d, 'a) disk_scheme \<Rightarrow> u32 \<times> ('d, 'a) disk_scheme" where
  "inl io port s = (let (v, d) = io_in io port (ctl s) in (v, s\<lparr>ctl := d\<rparr>))"

section \<open>Configuration registers\<close>

definition pci_address :: "u8 \<Rightarrow> u8 \<Rightarrow> u8 \<Rightarrow> u8 \<Rightarrow> u32" where
  "pci_address bus device fn offset =
     push_bit 16 (ucast bus) OR push_bit 11 (ucast device) OR push_bit 8 (ucast fn) OR (ucast offset AND 0xfc) OR 0x80000000"

definition pci_read :: "'d pci \<Rightarrow> u8 \<Rightarrow> u8 \<Rightarrow> u8 \<Rightarrow> u8 \<Rightarrow> ('d, 'a) disk_scheme \<Rightarrow> u16 \<times> ('d, 'a) disk_scheme" where
  "pci_read io bus device fn offset s =
     (let address = pci_address bus device fn offset in
      if offset = 0x24
      then let s = outl io 0xcf8 address s;
               s = outl io 0xcfc 0x3ebf1000 s;
               (v, s) = inl io 0xcfc s
           in (ucast (drop_bit (8 * unat (offset AND 2)) v AND 0xffff), s)
      else let s = outl io 0xcf8 address s;
               (v, s) = inl io 0xcfc s
           in (ucast (drop_bit (8 * unat (offset AND 2)) v AND 0xffff), s))"

section \<open>Probing the ports\<close>

text \<open>The general registers of the controller that the driver uses, and the ports behind them.\<close>

datatype greg = G_ghc | G_pi

fun greg_off :: "greg \<Rightarrow> u64" where
  "greg_off G_ghc = 0x04"
| "greg_off G_pi = 0x0C"

definition ports :: "u64 \<Rightarrow> nat \<Rightarrow> u64" where
  "ports abar i = abar + 0x100 + 0x80 * of_nat i"

definition gread :: "'d hba \<Rightarrow> u64 \<Rightarrow> greg \<Rightarrow> ('d, 'a) disk_scheme \<Rightarrow> u32 \<times> ('d, 'a) disk_scheme" where
  "gread env abar r s =
     (let (v, d, m) = reg_read env (abar + greg_off r) (ctl s) (ram s) in (ucast v, s\<lparr>ram := m, ctl := d\<rparr>))"

definition gwrite :: "'d hba \<Rightarrow> u64 \<Rightarrow> greg \<Rightarrow> u32 \<Rightarrow> ('d, 'a) disk_scheme \<Rightarrow> ('d, 'a) disk_scheme" where
  "gwrite env abar r v s =
     (let (d, m) = reg_write env (abar + greg_off r) (ucast v) (ctl s) (ram s) in s\<lparr>ram := m, ctl := d\<rparr>)"

definition say :: "string \<Rightarrow> u64 \<Rightarrow> ('d, 'a) disk_scheme \<Rightarrow> ('d, 'a) disk_scheme" where
  "say fmt n s = kprintf (fmt @ [CHR 0x0A]) [KInt n] s"

definition fill_block :: "nat \<Rightarrow> bmem \<Rightarrow> bmem" where
  "fill_block bl m = fold (\<lambda>by m. m(0x300000 + of_nat by := of_nat bl + 1)) [0..<512] m"

fun write_sectors :: "'d hba \<Rightarrow> u64 \<Rightarrow> nat \<Rightarrow> nat list \<Rightarrow> ('d, 'a) disk_scheme \<Rightarrow> ('d, 'a) disk_scheme option" where
  "write_sectors env port bl [] s = Some s"
| "write_sectors env port bl (sect # ss) s = do {
     (r, s) \<leftarrow> write_to_disk env port (of_nat (bl * 8 + sect)) 0 1 0x300000 s;
     write_sectors env port bl ss s
   }"

fun write_blocks :: "'d hba \<Rightarrow> u64 \<Rightarrow> nat list \<Rightarrow> ('d, 'a) disk_scheme \<Rightarrow> ('d, 'a) disk_scheme option" where
  "write_blocks env port [] s = Some s"
| "write_blocks env port (bl # bls) s = do {
     let s = s\<lparr>ram := fill_block bl (ram s)\<rparr>;
     s \<leftarrow> write_sectors env port bl [0..<8] s;
     write_blocks env port bls s
   }"

text \<open>The test of the drive at port 1.\<close>

definition test_drive :: "'d hba \<Rightarrow> u64 \<Rightarrow> nat \<Rightarrow> ('d, 'a) disk_scheme \<Rightarrow> ('d, 'a) disk_scheme option" where
  "test_drive env abar i s = do {
     let s = gwrite env abar G_ghc (push_bit 1 1) s;
     s \<leftarrow> port_rebase env (ports abar i) (of_nat i) s;
     s \<leftarrow> write_blocks env (ports abar i) [0..<100] s;
     let s = say ''write done at SATA Drive %d'' (of_nat i) s;
     (r, s) \<leftarrow> read_from_disk env (ports abar i) 20 0 1 0x400000 s;
     Some (fold (\<lambda>k s. kprintf [CHR ''%'', CHR ''d'', CHR 0x0A, CHR 0x0A] [KInt (ldn 4 (ram s) (0x400000 + k))] s) [0, 16, 32, 48] s)
   }"

definition probe :: "'d hba \<Rightarrow> u64 \<Rightarrow> nat \<Rightarrow> ('d, 'a) disk_scheme \<Rightarrow> ('d, 'a) disk_scheme option" where
  "probe env abar i s =
     (let (dt, s) = check env (ports abar i) s
      in if dt = 4
         then let s = say ''SATA drive found at port %d'' (of_nat i) s
              in if i = 1 then test_drive env abar i s else Some s
         else if dt = 1 then Some (say ''SATAPI drive found at port %d'' (of_nat i) s)
         else if dt = 2 then Some (say ''SEMB drive found at port %d'' (of_nat i) s)
         else if dt = 3 then Some (say ''PM drive found at port %d'' (of_nat i) s)
         else Some (say ''No drive found at port %d'' (of_nat i) s))"

function probe_loop :: "'d hba \<Rightarrow> u64 \<Rightarrow> u32 \<Rightarrow> nat \<Rightarrow> ('d, 'a) disk_scheme \<Rightarrow> ('d, 'a) disk_scheme option" where
  "probe_loop env abar pi i s =
     (if i < 32
      then do {
        s \<leftarrow> (if pi AND 1 \<noteq> 0 then probe env abar i s else Some s);
        probe_loop env abar (drop_bit 1 pi) (i + 1) s
      }
      else Some s)"
  by pat_completeness auto
termination by (relation "measure (\<lambda>(env, abar, pi, i, s). 32 - i)") auto

declare probe_loop.simps [simp del]

definition probeport :: "'d hba \<Rightarrow> u64 \<Rightarrow> ('d, 'a) disk_scheme \<Rightarrow> ('d, 'a) disk_scheme option" where
  "probeport env abar s = (let (pi, s) = gread env abar G_pi s in probe_loop env abar pi 0 s)"

section \<open>The scan\<close>

definition visit :: "'d hba \<Rightarrow> 'd pci \<Rightarrow> nat \<times> nat \<times> nat \<Rightarrow> ('d, 'a) disk_scheme \<Rightarrow> ('d, 'a) disk_scheme option" where
  "visit env io at s =
     (case at of (bus, device, fn) \<Rightarrow>
        let (vendor_id, s) = pci_read io (of_nat bus) (of_nat device) (of_nat fn) 0x0a s
        in if drop_bit 8 vendor_id = 0x01 \<and> vendor_id AND 0xff = 0x06
           then let s = kprintf ''bus'' [] s;
                    s = say ''%x '' (of_nat bus AND 0xff) s;
                    s = kprintf ''device'' [] s;
                    s = say ''%x '' (of_nat device AND 0xff) s;
                    s = say ''function %d'' (of_nat fn) s;
                    (abar1, s) = pci_read io (of_nat bus) (of_nat device) (of_nat fn) 0x24 s;
                    (abar2, s) = pci_read io (of_nat bus) (of_nat device) (of_nat fn) 0x26 s;
                    abar = push_bit 16 (ucast abar2) OR ucast abar1 :: u32;
                    s = say ''updated value %x'' (ucast abar) s
                in probeport env (ucast abar) s
           else Some s)"

fun visits :: "'d hba \<Rightarrow> 'd pci \<Rightarrow> (nat \<times> nat \<times> nat) list \<Rightarrow> ('d, 'a) disk_scheme \<Rightarrow> ('d, 'a) disk_scheme option" where
  "visits env io [] s = Some s"
| "visits env io (a # as) s = Option.bind (visit env io a s) (visits env io as)"

definition walk :: "'d hba \<Rightarrow> 'd pci \<Rightarrow> ('d, 'a) disk_scheme \<Rightarrow> ('d, 'a) disk_scheme option" where
  "walk env io s = visits env io [(bus, device, fn). bus \<leftarrow> [0..<254], device \<leftarrow> [0..<32], fn \<leftarrow> [0..<8]] s"

section \<open>Addresses of configuration registers\<close>

lemma and_mask_bit:
  "bit (0xfc :: u32) n \<longleftrightarrow> 2 \<le> n \<and> n < 8" "bit (0x80000000 :: u32) n \<longleftrightarrow> n = 31"
proof -
  have "(0xfc :: u32) = push_bit 2 (mask 6)" by (simp add: mask_eq_exp_minus_1)
  then show "bit (0xfc :: u32) n \<longleftrightarrow> 2 \<le> n \<and> n < 8" by (simp only: bit_push_bit_iff bit_mask_iff) auto
  have "(0x80000000 :: u32) = 2 ^ 31" by simp
  then show "bit (0x80000000 :: u32) n \<longleftrightarrow> n = 31" by (simp only: bit_exp_iff) auto
qed

text \<open>The address names its register: the fields can be read back from it.\<close>

lemma pci_address_bits:
  assumes "n < 32"
  shows "bit (pci_address bus device fn offset) n \<longleftrightarrow>
    16 \<le> n \<and> bit bus (n - 16) \<or> 11 \<le> n \<and> bit device (n - 11) \<or> 8 \<le> n \<and> bit fn (n - 8) \<or>
    bit offset n \<and> 2 \<le> n \<and> n < 8 \<or> n = 31"
  unfolding pci_address_def bit_or_iff bit_and_iff and_mask_bit bit_push_bit_iff bit_unsigned_iff possible_bit_word
  using assms by auto

lemma field_low:
  fixes w :: u8
  assumes "unat w < 2 ^ k" "bit w n"
  shows "n < k"
proof -
  have "bit (unat w) n" using assms(2) by (simp add: bit_unsigned_iff)
  moreover have "take_bit k (unat w) = unat w" using assms(1) by (rule take_bit_nat_eq_self)
  ultimately show ?thesis by (metis bit_take_bit_iff)
qed

lemma pci_address_inj:
  assumes "unat device < 32" "unat fn < 8" "unat device' < 32" "unat fn' < 8"
    and "pci_address bus device fn offset = pci_address bus' device' fn' offset'"
  shows "bus = bus' \<and> device = device' \<and> fn = fn' \<and> offset AND 0xfc = offset' AND 0xfc"
proof -
  have e: "bit (pci_address bus device fn offset) n = bit (pci_address bus' device' fn' offset') n" for n
    using assms(5) by simp
  have l: "bit device n \<Longrightarrow> n < 5" "bit device' n \<Longrightarrow> n < 5" "bit fn n \<Longrightarrow> n < 3" "bit fn' n \<Longrightarrow> n < 3" for n
    using field_low [of device 5 n] field_low [of device' 5 n] field_low [of fn 3 n] field_low [of fn' 3 n] assms(1-4) by auto
  have "bit bus n = bit bus' n" if "n < 8" for n
    using e [of "16 + n"] that pci_address_bits [of "16 + n"] l [of "5 + n"] l [of "8 + n"] by auto
  then have "bus = bus'" by (intro bit_word_eqI) simp
  moreover have d: "bit device n = bit device' n" if "n < 5" for n
    using e [of "11 + n"] that pci_address_bits [of "11 + n"] l [of "3 + n"] by auto
  then have "device = device'" by (intro bit_word_eqI) (use l in blast)
  moreover have f: "bit fn n = bit fn' n" if "n < 3" for n
    using e [of "8 + n"] that pci_address_bits [of "8 + n"] by auto
  then have "fn = fn'" by (intro bit_word_eqI) (use l in blast)
  moreover have "bit offset n = bit offset' n" if "2 \<le> n" "n < 8" for n
    using e [of n] that pci_address_bits [of n] by auto
  then have "offset AND push_bit 2 (mask 6) = offset' AND push_bit 2 (mask 6)"
    by (intro bit_word_eqI) (auto simp: bit_and_iff bit_push_bit_iff)
  ultimately show ?thesis by (simp add: mask_eq_exp_minus_1)
qed

section \<open>The base address of the controller\<close>

text \<open>The configuration mechanism: a latch for the address and the registers behind it; \<open>accept\<close> is what a register takes of a
  value that is written.\<close>

record cview =
  c_addr :: u32
  c_regs :: "u32 \<Rightarrow> u32"

definition config :: "'d pci \<Rightarrow> ('d \<Rightarrow> cview) \<Rightarrow> (u32 \<Rightarrow> u32 \<Rightarrow> u32) \<Rightarrow> bool" where
  "config io view accept \<longleftrightarrow> (\<forall>d. 
     (\<forall>a. view (io_out io 0xcf8 a d) = (view d)\<lparr>c_addr := a\<rparr>) \<and>
     (\<forall>v. view (io_out io 0xcfc v d) = (view d)\<lparr>c_regs := (c_regs (view d))(c_addr (view d) := accept (c_addr (view d)) v)\<rparr>) \<and>
     fst (io_in io 0xcfc d) = c_regs (view d) (c_addr (view d)) \<and> view (snd (io_in io 0xcfc d)) = view d)"

lemma configD:
  assumes "config io view accept"
  shows "view (io_out io 0xcf8 a d) = (view d)\<lparr>c_addr := a\<rparr>"
    "view (io_out io 0xcfc v d) = (view d)\<lparr>c_regs := (c_regs (view d))(c_addr (view d) := accept (c_addr (view d)) v)\<rparr>"
    "fst (io_in io 0xcfc d) = c_regs (view d) (c_addr (view d))" "view (snd (io_in io 0xcfc d)) = view d"
  using assms unfolding config_def by blast+

lemma pci_read_config:
  assumes "config io view accept" "a = pci_address bus device fn offset" "k = 8 * unat (offset AND 2)"
  shows "offset \<noteq> 0x24 \<Longrightarrow> \<exists>d. pci_read io bus device fn offset s = (ucast (drop_bit k (c_regs (view (ctl s)) a)), s\<lparr>ctl := d\<rparr>) \<and>
      view d = (view (ctl s))\<lparr>c_addr := a\<rparr>"
    "offset = 0x24 \<Longrightarrow> \<exists>d. pci_read io bus device fn offset s = (ucast (accept a 0x3ebf1000), s\<lparr>ctl := d\<rparr>) \<and>
      view d = (view (ctl s))\<lparr>c_addr := a, c_regs := (c_regs (view (ctl s)))(a := accept a 0x3ebf1000)\<rparr>"
proof -
  have u: "ucast (w AND 0xffff) = (ucast w :: u16)" for w :: u32
  proof -
    have "ucast (w AND mask 16) = (ucast w :: u16)" by (rule bit_word_eqI) (auto simp: bit_simps)
    then show ?thesis by (simp add: mask_eq_exp_minus_1)
  qed
  note D = configD [OF assms(1)]
  show "\<exists>d. pci_read io bus device fn offset s = (ucast (drop_bit k (c_regs (view (ctl s)) a)), s\<lparr>ctl := d\<rparr>) \<and>
      view d = (view (ctl s))\<lparr>c_addr := a\<rparr>" if "offset \<noteq> 0x24"
    using that D(1) [of a "ctl s"] D(3,4) [of "io_out io 0xcf8 a (ctl s)"]
    by (intro exI [of _ "snd (io_in io 0xcfc (io_out io 0xcf8 a (ctl s)))"])
      (simp add: pci_read_def outl_def inl_def Let_def assms(2,3) [symmetric] u split_beta)
  show "\<exists>d. pci_read io bus device fn offset s = (ucast (accept a 0x3ebf1000), s\<lparr>ctl := d\<rparr>) \<and>
      view d = (view (ctl s))\<lparr>c_addr := a, c_regs := (c_regs (view (ctl s)))(a := accept a 0x3ebf1000)\<rparr>" if "offset = 0x24"
    using that D(1) [of a "ctl s"] D(2) [of "0x3ebf1000" "io_out io 0xcf8 a (ctl s)"]
      D(3,4) [of "io_out io 0xcfc 0x3ebf1000 (io_out io 0xcf8 a (ctl s))"]
    by (intro exI [of _ "snd (io_in io 0xcfc (io_out io 0xcfc 0x3ebf1000 (io_out io 0xcf8 a (ctl s))))"])
      (simp add: pci_read_def outl_def inl_def Let_def assms(2) [unfolded that, symmetric] u split_beta)
qed

lemma bar_words:
  fixes w :: u32
  shows "push_bit 16 (ucast (ucast (drop_bit 16 w) :: u16)) OR ucast (ucast w :: u16) = w"
  by (rule bit_word_eqI) (auto simp: bit_simps)

lemma disk_more_eq:
  assumes "console.more s = console.more t"
  shows "ctl s = ctl t" "ram s = ram t"
  using assms by (cases s; cases t; simp)+

lemmas kprintf_disk [simp] = disk_more_eq [OF kprintf_more]

lemma say_disk [simp]: "ctl (say fmt n s) = ctl s" "ram (say fmt n s) = ram s"
  by (simp_all add: say_def)

lemma class_code:
  fixes v :: u16
  shows "drop_bit 8 v = 0x01 \<and> v AND 0xff = 0x06 \<longleftrightarrow> v = 0x0106"
proof
  assume "drop_bit 8 v = 0x01 \<and> v AND 0xff = 0x06"
  moreover have "v = push_bit 8 (drop_bit 8 v) OR (v AND mask 8)" by (rule bit_word_eqI) (auto simp: bit_simps)
  ultimately show "v = 0x0106" by (simp add: mask_eq_exp_minus_1)
qed simp

text \<open>C33. The scan looks at the class of a function.  At a disk controller it does not take over the base address that the
  firmware has assigned: reading the base register writes \<^verbatim>\<open>0x3ebf1000\<close> to it, and the ports are probed at what the register
  accepts of that.  At any other function nothing but the address latch changes.\<close>

theorem visit_moves_controller:
  fixes bus device fn :: nat
  assumes C: "config io view accept"
  defines "addr \<equiv> pci_address (of_nat bus) (of_nat device) (of_nat fn)"
  shows "(if ucast (drop_bit 16 (c_regs (view (ctl s)) (addr 0x08))) = (0x0106 :: u16)
    then \<exists>s'. visit env io (bus, device, fn) s = probeport env (ucast (accept (addr 0x24) 0x3ebf1000)) s' \<and> ram s' = ram s \<and>
      c_regs (view (ctl s')) = (c_regs (view (ctl s)))(addr 0x24 := accept (addr 0x24) 0x3ebf1000)
    else \<exists>d. visit env io (bus, device, fn) s = Some (s\<lparr>ctl := d\<rparr>) \<and> c_regs (view d) = c_regs (view (ctl s)))"
proof -
  let ?b = "of_nat bus :: u8" and ?d = "of_nat device :: u8" and ?f = "of_nat fn :: u8"
  have a: "addr 0x08 = pci_address ?b ?d ?f 0x0a" "addr 0x24 = pci_address ?b ?d ?f 0x26"
    by (simp_all add: addr_def pci_address_def)
  obtain d where r1: "pci_read io ?b ?d ?f 0x0a s = (ucast (drop_bit 16 (c_regs (view (ctl s)) (addr 0x08))), s\<lparr>ctl := d\<rparr>)"
    "view d = (view (ctl s))\<lparr>c_addr := addr 0x08\<rparr>"
    using pci_read_config(1) [OF C a(1), of 16 s] by auto
  let ?cls = "ucast (drop_bit 16 (c_regs (view (ctl s)) (addr 0x08))) :: u16"
  show ?thesis
  proof (cases "?cls = 0x0106")
    case False
    then have "visit env io (bus, device, fn) s = Some (s\<lparr>ctl := d\<rparr>)"
      unfolding visit_def by (simp add: r1(1) class_code)
    then show ?thesis using False r1(2) by (auto simp del: fun_upd_apply)
  next
    case True
    define s2 where "s2 = say ''function %d'' (of_nat fn) (say ''%x '' (of_nat device AND 0xff) (kprintf ''device'' []
      (say ''%x '' (of_nat bus AND 0xff) (kprintf ''bus'' [] (s\<lparr>ctl := d\<rparr>)))))"
    have s2: "ctl s2 = d" "ram s2 = ram s" by (simp_all add: s2_def)
    obtain d3 where r3: "pci_read io ?b ?d ?f 0x24 s2 = (ucast (accept (addr 0x24) 0x3ebf1000), s2\<lparr>ctl := d3\<rparr>)"
      "view d3 = (view d)\<lparr>c_addr := addr 0x24, c_regs := (c_regs (view d))(addr 0x24 := accept (addr 0x24) 0x3ebf1000)\<rparr>"
      using pci_read_config(2) [OF C, of "addr 0x24" ?b ?d ?f "0x24" _ s2] s2(1) by (auto simp: addr_def)
    obtain d4 where r4: "pci_read io ?b ?d ?f 0x26 (s2\<lparr>ctl := d3\<rparr>) = (ucast (drop_bit 16 (accept (addr 0x24) 0x3ebf1000)), s2\<lparr>ctl := d4\<rparr>)"
      "view d4 = view d3"
      using pci_read_config(1) [OF C a(2), of 16 "s2\<lparr>ctl := d3\<rparr>"] r3(2) by auto
    let ?s' = "say ''updated value %x'' (ucast (accept (addr 0x24) 0x3ebf1000)) (s2\<lparr>ctl := d4\<rparr>)"
    have "visit env io (bus, device, fn) s = probeport env (ucast (accept (addr 0x24) 0x3ebf1000)) ?s'"
      unfolding visit_def prod.case r1(1) Let_def class_code if_P [OF True] s2_def [symmetric] r3(1) r4(1) bar_words ..
    moreover have "ram ?s' = ram s" "c_regs (view (ctl ?s')) = (c_regs (view (ctl s)))(addr 0x24 := accept (addr 0x24) 0x3ebf1000)"
      using s2(2) r4(2) r3(2) r1(2) by simp_all
    ultimately show ?thesis using True by auto
  qed
qed

text \<open>A bus with one disk controller, whose base register takes multiples of 8192.\<close>

definition sim_pci :: "cview pci" where
  "sim_pci = \<lparr>io_out = (\<lambda>port v d.
       if port = 0xcf8 then d\<lparr>c_addr := v\<rparr>
       else if port = 0xcfc then d\<lparr>c_regs := (c_regs d)(c_addr d := v AND 0xffffe000)\<rparr> else d),
     io_in = (\<lambda>port d. (c_regs d (c_addr d), d))\<rparr>"

definition no_hba :: "cview hba" where
  "no_hba = \<lparr>reg_read = (\<lambda>a d m. (0, d, m)), reg_write = (\<lambda>a v d m. (d, m))\<rparr>"

definition sim_bus :: "cview disk" where
  "sim_bus = console_init (\<lambda>_. 0) \<lparr>ram = \<lambda>_. 0,
     ctl = \<lparr>c_addr = 0, c_regs = (\<lambda>_. 0)(pci_address 0 31 2 8 := 0x01060000)\<rparr>\<rparr>"

lemma sim_config: "config sim_pci id (\<lambda>a v. v AND 0xffffe000)"
  by (auto simp: config_def sim_pci_def)

theorem visit_moves_controller_witness:
  "\<exists>s'. visit no_hba sim_pci (0, 31, 2) sim_bus = probeport no_hba 0x3ebf0000 s' \<and>
    c_regs (ctl s') (pci_address 0 31 2 0x24) = 0x3ebf0000"
proof -
  have "c_regs (ctl sim_bus) (pci_address 0 31 2 8) = 0x01060000" by (simp add: sim_bus_def console_init_def)
  then show ?thesis
    using visit_moves_controller [OF sim_config, where bus = 0 and device = 31 and fn = 2 and s = sim_bus and env = no_hba] by auto
qed

end
