(* ===== verification/PageAlloc.thy ===== *)
theory PageAlloc
  imports Console
begin

text \<open>
  The physical page allocator of \<^verbatim>\<open>sys/page.c\<close> (lines 10 to 80).

  \<^verbatim>\<open>pageMap\<close> is an array of page numbers threaded as a free list: a free page holds the number
  of the next free page, an allocated page holds 0, and the entry of \<^verbatim>\<open>lastPage\<close> is the
  terminator \<^verbatim>\<open>-1\<close>.  The array is a total function here: the code never checks an index.
  \<^verbatim>\<open>pageMap_ptr\<close> is the address of the array, which \<^verbatim>\<open>init_pageTable\<close> places right after the
  kernel image.

  The abstract allocator is the set \<open>free_pages\<close>; the interface \<open>page_allocator\<close> states
  what its clients rely on, and its interpretation discharges the laws for the free list.
\<close>

record palloc = console +
  pageMap :: "u64 \<Rightarrow> u64"
  pageMap_ptr :: u64
  firstFreepage :: u64
  lastPage :: u64

abbreviation PAGE_SIZE :: u64 where
  "PAGE_SIZE \<equiv> 0x1000"

section \<open>The code\<close>

function init_page_loop :: "(u64 \<Rightarrow> u64) \<Rightarrow> u64 \<Rightarrow> u64 \<Rightarrow> (u64 \<Rightarrow> u64)" where
  "init_page_loop m start n =
     (if start \<noteq> n then init_page_loop (m(start := start + 1)) (start + 1) n else m)"
  by pat_completeness auto
termination
proof (relation "measure (\<lambda>(m, start, n). unat (n - start))", goal_cases)
  case 1
  show ?case by simp
next
  case (2 m start n)
  then have "n - start \<noteq> 0" by simp
  then have "unat (n - start - 1) < unat (n - start)"
    by (simp add: unat_minus_one unat_gt_0)
  then show ?case by (simp add: algebra_simps)
qed

definition init_page :: "u64 \<Rightarrow> 'a palloc_scheme \<Rightarrow> u64 \<times> 'a palloc_scheme" where
  "init_page n s =
     (let s = s\<lparr>pageMap := init_page_loop (pageMap s) 0 n\<rparr>;
          startPage = pageMap_ptr s + 8 * n;
          s = kprintf (''SP %x'' @ [CHR 0x0A]) [KInt startPage] s;
          s = s\<lparr>pageMap := (pageMap s)(n := - 1)\<rparr>
      in (startPage, s))"

definition unsetPage :: "'a palloc_scheme \<Rightarrow> u64 \<times> 'a palloc_scheme" where
  "unsetPage s =
     (if pageMap s (firstFreepage s) = - 1 then (- 1, s)
      else let l = firstFreepage s;
               s = s\<lparr>firstFreepage := pageMap s l\<rparr>;
               s = s\<lparr>pageMap := (pageMap s)(l := 0)\<rparr>
           in (l, s))"

definition allocatePage :: "'a palloc_scheme \<Rightarrow> u64 \<times> 'a palloc_scheme" where
  "allocatePage s =
     (let (a, s) = unsetPage s in if a = - 1 then (0, s) else (a * PAGE_SIZE, s))"

partial_function (option) setPage_loop :: "(u64 \<Rightarrow> u64) \<Rightarrow> u64 \<Rightarrow> u64 \<Rightarrow> u64 option" where
  "setPage_loop m a index =
     (if m a < index then setPage_loop m (a + 1) index else Some a)"

definition setPage :: "u64 \<Rightarrow> 'a palloc_scheme \<Rightarrow> 'a palloc_scheme option" where
  "setPage index s =
     (if index < firstFreepage s
      then Some (s\<lparr>pageMap := (pageMap s)(index := firstFreepage s), firstFreepage := index\<rparr>)
      else if index > firstFreepage s
      then do {
        a \<leftarrow> setPage_loop (pageMap s) (firstFreepage s) index;
        let b = pageMap s a;
        let s = s\<lparr>pageMap := (pageMap s)(a := index)\<rparr>;
        Some (s\<lparr>pageMap := (pageMap s)(index := b)\<rparr>)
      }
      else Some s)"

definition deallocatePage :: "u64 \<Rightarrow> 'a palloc_scheme \<Rightarrow> 'a palloc_scheme option" where
  "deallocatePage address s = setPage (address div PAGE_SIZE) s"

text \<open>The two counting loops of \<^verbatim>\<open>init_pageTable\<close>.\<close>

function unset_loop :: "u64 \<Rightarrow> u64 \<Rightarrow> 'a palloc_scheme \<Rightarrow> 'a palloc_scheme" where
  "unset_loop i n s = (if i < n then unset_loop (i + 1) n (snd (unsetPage s)) else s)"
  by pat_completeness auto
termination
  by (relation "measure (\<lambda>(i, n, s). unat (n - i))") (auto simp: unat_diff_add_one)

function set_loop :: "u64 \<Rightarrow> u64 \<Rightarrow> 'a palloc_scheme \<Rightarrow> 'a palloc_scheme option" where
  "set_loop i n s =
     (if i < n then (case setPage i s of None \<Rightarrow> None | Some s \<Rightarrow> set_loop (i + 1) n s)
      else Some s)"
  by pat_completeness auto
termination
  by (relation "measure (\<lambda>(i, n, s). unat (n - i))") (auto simp: unat_diff_add_one)

definition init_pageTable ::
  "u64 \<Rightarrow> u64 \<Rightarrow> u64 \<Rightarrow> u64 \<Rightarrow> 'a palloc_scheme \<Rightarrow> (u64 \<times> 'a palloc_scheme) option" where
  "init_pageTable physbase physfree base max_length s =
     (let s = s\<lparr>lastPage := max_length div PAGE_SIZE\<rparr>;
          s = s\<lparr>pageMap_ptr := physfree\<rparr>;
          (physfree, s) = init_page (lastPage s) s;
          physfree = (physfree div 0x1000 + 1) * 0x1000;
          s = s\<lparr>firstFreepage := 0\<rparr>;
          s = unset_loop 0 (physfree div PAGE_SIZE) s;
          s = kprintf ''%d'' [KInt (physfree div PAGE_SIZE)] s
      in do {
        s \<leftarrow> set_loop (base div PAGE_SIZE) (physbase div PAGE_SIZE) s;
        Some (physfree, s)
      })"

declare init_page_loop.simps [simp del] unset_loop.simps [simp del] set_loop.simps [simp del]

section \<open>The free list\<close>

definition next_free :: "(u64 \<Rightarrow> u64) \<Rightarrow> u64 \<Rightarrow> u64 \<Rightarrow> u64 \<Rightarrow> bool" where
  "next_free m n i j \<longleftrightarrow> i < j \<and> j \<le> n \<and> m j \<noteq> 0 \<and> (\<forall>k. i < k \<and> k < j \<longrightarrow> m k = 0)"

definition fl_inv :: "(u64 \<Rightarrow> u64) \<Rightarrow> u64 \<Rightarrow> u64 \<Rightarrow> bool" where
  "fl_inv m f n \<longleftrightarrow> n < - 1 \<and> m n = - 1 \<and> f \<le> n \<and> m f \<noteq> 0 \<and> (\<forall>k<f. m k = 0) \<and>
     (\<forall>i<n. m i \<noteq> 0 \<longrightarrow> next_free m n i (m i))"

definition pa_inv :: "'a palloc_scheme \<Rightarrow> bool" where
  "pa_inv s \<longleftrightarrow> fl_inv (pageMap s) (firstFreepage s) (lastPage s) \<and> lastPage s \<le> 2 ^ 52"

definition free_pages :: "'a palloc_scheme \<Rightarrow> u64 set" where
  "free_pages s = {i. i < lastPage s \<and> pageMap s i \<noteq> 0}"

lemma next_freeI:
  "i < j \<Longrightarrow> j \<le> n \<Longrightarrow> m j \<noteq> 0 \<Longrightarrow> (\<And>k. i < k \<Longrightarrow> k < j \<Longrightarrow> m k = 0) \<Longrightarrow> next_free m n i j"
  by (simp add: next_free_def)

lemma next_freeD:
  assumes "next_free m n i j"
  shows "i < j" "j \<le> n" "m j \<noteq> 0" "\<And>k. i < k \<Longrightarrow> k < j \<Longrightarrow> m k = 0"
  using assms unfolding next_free_def by blast+

lemma fl_invI:
  "n < - 1 \<Longrightarrow> m n = - 1 \<Longrightarrow> f \<le> n \<Longrightarrow> m f \<noteq> 0 \<Longrightarrow> (\<And>k. k < f \<Longrightarrow> m k = 0) \<Longrightarrow>
   (\<And>i. i < n \<Longrightarrow> m i \<noteq> 0 \<Longrightarrow> next_free m n i (m i)) \<Longrightarrow> fl_inv m f n"
  unfolding fl_inv_def by blast

lemma fl_invD:
  assumes "fl_inv m f n"
  shows "n < - 1" "m n = - 1" "f \<le> n" "m f \<noteq> 0" "\<And>k. k < f \<Longrightarrow> m k = 0"
    "\<And>i. i < n \<Longrightarrow> m i \<noteq> 0 \<Longrightarrow> next_free m n i (m i)"
  using assms unfolding fl_inv_def by blast+

lemma fl_first_min: "fl_inv m f n \<Longrightarrow> m k \<noteq> 0 \<Longrightarrow> f \<le> k"
  using fl_invD(5) by (meson linorder_not_le)

lemma fl_next_not_end:
  assumes "fl_inv m f n" "i < n"
  shows "m i \<noteq> - 1"
proof
  assume e: "m i = - 1"
  then have "m i \<le> n" using fl_invD(6) [OF assms] next_freeD(2) by force
  then show False using e fl_invD(1) [OF assms(1)] by (simp add: linorder_not_le [symmetric])
qed

lemma fl_unset:
  assumes inv: "fl_inv m f n" and f: "f < n"
  shows "fl_inv (m(f := 0)) (m f) n"
proof (rule fl_invI)
  note nf = fl_invD(6) [OF inv f fl_invD(4) [OF inv]]
  show "n < - 1" by (rule fl_invD(1) [OF inv])
  show "(m(f := 0)) n = - 1" using fl_invD(2) [OF inv] f by simp
  show "m f \<le> n" by (rule next_freeD(2) [OF nf])
  show "(m(f := 0)) (m f) \<noteq> 0" using next_freeD(1,3) [OF nf] by simp
  show "(m(f := 0)) k = 0" if "k < m f" for k
    using fl_invD(5) [OF inv, of k] next_freeD(4) [OF nf _ that] by (cases k f rule: linorder_cases) simp_all
  fix i
  assume i: "i < n" "(m(f := 0)) i \<noteq> 0"
  then have i': "i \<noteq> f" "m i \<noteq> 0" by (simp_all split: if_splits)
  then have fi: "f < i" using fl_first_min [OF inv, of i] by simp
  note ni = fl_invD(6) [OF inv i(1) i'(2)]
  have "next_free (m(f := 0)) n i (m i)"
  proof (rule next_freeI)
    show "i < m i" "m i \<le> n" using next_freeD(1,2) [OF ni] .
    then show "(m(f := 0)) (m i) \<noteq> 0" using next_freeD(3) [OF ni] fi by simp
    show "(m(f := 0)) k = 0" if "i < k" "k < m i" for k using next_freeD(4) [OF ni that] by simp
  qed
  then show "next_free (m(f := 0)) n i ((m(f := 0)) i)" using i'(1) by simp
qed

lemma fl_set_below:
  assumes inv: "fl_inv m f n" and i: "i < f"
  shows "fl_inv (m(i := f)) i n"
proof (rule fl_invI)
  note D = fl_invD [OF inv]
  show "n < - 1" by (rule D(1))
  show "(m(i := f)) n = - 1" using D(2,3) i by auto
  show "i \<le> n" using D(3) i by simp
  show "(m(i := f)) i \<noteq> 0" using i by (metis fun_upd_same word_not_simps(1))
  show "(m(i := f)) k = 0" if "k < i" for k using D(5) [of k] that i by auto
  fix j
  assume j: "j < n" "(m(i := f)) j \<noteq> 0"
  show "next_free (m(i := f)) n j ((m(i := f)) j)"
  proof (cases "j = i")
    case True
    have "next_free (m(i := f)) n i f"
      using i D(3,4) D(5) by (intro next_freeI) auto
    then show ?thesis using True by simp
  next
    case False
    then have mj: "m j \<noteq> 0" using j(2) by simp
    note nj = D(6) [OF j(1) mj]
    have fj: "i < j" using fl_first_min [OF inv mj] i by simp
    then have "next_free (m(i := f)) n j (m j)"
      using next_freeD [OF nj] by (intro next_freeI) auto
    then show ?thesis using False by simp
  qed
qed

text \<open>The free page before a given one, where \<^verbatim>\<open>setPage\<close> stops.\<close>

lemma fl_pred:
  assumes inv: "fl_inv m f n" and "f < i" "i < n" "m i = 0"
  obtains p where "f \<le> p" "p < i" "m p \<noteq> 0" "i < m p" "\<And>k. k < p \<Longrightarrow> m k < i"
proof -
  let ?S = "{k. k < i \<and> m k \<noteq> 0}"
  define p where "p = Max ?S"
  have "f \<in> ?S" using fl_invD(4) [OF inv] assms(2) by simp
  then have "p \<in> ?S" unfolding p_def by (intro Max_in) auto
  then have p: "p < i" "m p \<noteq> 0" by simp_all
  have above: "m k = 0" if "p < k" "k < i" for k
  proof (rule ccontr)
    assume "m k \<noteq> 0"
    then have "k \<le> p" using that by (auto simp: p_def intro!: Max_ge)
    then show False using that by simp
  qed
  have np: "next_free m n p (m p)" using p assms(3) fl_invD(6) [OF inv] by simp
  have "\<not> m p < i" using next_freeD(1,3) [OF np] above [of "m p"] by blast
  moreover have "m p \<noteq> i" using next_freeD(3) [OF np] assms(4) by metis
  ultimately have ip: "i < m p" by simp
  have "m k < i" if "k < p" for k
  proof (cases "m k = 0")
    case True
    then show ?thesis using assms(2) by (metis word_gt_0 word_not_simps(1))
  next
    case False
    then have "next_free m n k (m k)" using that p assms(3) fl_invD(6) [OF inv, of k] by simp
    then have "\<not> p < m k" using that p(2) next_freeD(4) by blast
    then show ?thesis using p(1) by simp
  qed
  then show thesis using that p ip fl_first_min [OF inv p(2)] by blast
qed

lemma setPage_loop_stop:
  assumes "a \<le> p" "\<And>k. a \<le> k \<Longrightarrow> k < p \<Longrightarrow> m k < i" "i \<le> m p"
  shows "setPage_loop m a i = Some p"
  using assms(1,2)
proof (induction "unat (p - a)" arbitrary: a rule: less_induct)
  case less
  show ?case
  proof (cases "a = p")
    case True
    then have "\<not> m a < i" using assms(3) by simp
    then show ?thesis using True by (subst setPage_loop.simps) simp
  next
    case False
    then have lt: "a < p" using less.prems(1) by simp
    have "setPage_loop m (a + 1) i = Some p"
    proof (rule less.hyps)
      show "unat (p - (a + 1)) < unat (p - a)" using lt by (rule unat_diff_add_one)
      show "a + 1 \<le> p" using lt by (rule inc_le)
      show "m k < i" if "a + 1 \<le> k" "k < p" for k
        using less.prems(2) [of k] that lt word_less_add_one_iff [OF lt, of a]
        by (meson order.trans word_le_less_eq less_imp_le order_less_le_trans)
    qed
    then show ?thesis using less.prems(2) [of a] lt by (subst setPage_loop.simps) simp
  qed
qed

lemma fl_set_above:
  assumes inv: "fl_inv m f n" and i: "i < n" "m i = 0" and p: "p < i" "m p \<noteq> 0" "i < m p"
  shows "fl_inv (m(p := i, i := m p)) f n" (is "fl_inv ?m f n")
proof (rule fl_invI)
  note D = fl_invD [OF inv]
  have pn: "p < n" using p(1) i(1) by simp
  note np = D(6) [OF pn p(2)]
  have fp: "f \<le> p" by (rule fl_first_min [OF inv p(2)])
  show "n < - 1" "f \<le> n" by (rule D)+
  show "?m n = - 1" using D(2) i pn by auto
  have i0: "i \<noteq> 0" using p(1) by auto
  then show "?m f \<noteq> 0" using D(4) p(2) by simp
  show "?m k = 0" if "k < f" for k using D(5) [OF that] that fp p(1) by auto
  fix j
  assume j: "j < n" "?m j \<noteq> 0"
  consider "j = i" | "j = p" | "j \<noteq> i" "j \<noteq> p" "m j \<noteq> 0" using j by (auto split: if_splits)
  then show "next_free ?m n j (?m j)"
  proof cases
    case 1
    have "next_free ?m n i (m p)" using p next_freeD [OF np] by (intro next_freeI) auto
    then show ?thesis using 1 by simp
  next
    case 2
    have "next_free ?m n p i" using p i next_freeD [OF np] by (intro next_freeI) auto
    then show ?thesis using 2 p(1) by auto
  next
    case 3
    note nj = D(6) [OF j(1) 3(3)]
    have mj: "m j \<noteq> i" using next_freeD(3) [OF nj] i(2) by metis
    have gap: "\<not> (j < i \<and> i < m j)"
    proof
      assume g: "j < i \<and> i < m j"
      then have "\<not> j < p" using next_freeD(4) [OF nj, of p] p by (meson order.strict_trans)
      then have "p < j" using 3(2) by simp
      then show False using next_freeD(4) [OF np, of j] g p(3) 3(3) by (meson order.strict_trans)
    qed
    have "next_free ?m n j (m j)"
    proof (rule next_freeI)
      show "j < m j" "m j \<le> n" using next_freeD(1,2) [OF nj] .
      show "?m (m j) \<noteq> 0" using next_freeD(3) [OF nj] mj i0 by simp
      show "?m k = 0" if "j < k" "k < m j" for k
        using next_freeD(4) [OF nj that] gap that p(2) by auto
    qed
    then show ?thesis using 3 by simp
  qed
qed

section \<open>The operations on the free list\<close>

lemma free_pages_empty: "pa_inv s \<Longrightarrow> free_pages s = {} \<longleftrightarrow> firstFreepage s = lastPage s"
proof
  assume inv: "pa_inv s" and "free_pages s = {}"
  then have "\<not> firstFreepage s < lastPage s" using fl_invD(4) by (auto simp: free_pages_def pa_inv_def)
  then show "firstFreepage s = lastPage s" using inv fl_invD(3) by (force simp: pa_inv_def)
next
  assume "pa_inv s" "firstFreepage s = lastPage s"
  then show "free_pages s = {}" using fl_invD(5) by (fastforce simp: free_pages_def pa_inv_def)
qed

lemma free_pages_first:
  assumes "pa_inv s" "free_pages s \<noteq> {}"
  shows "firstFreepage s \<in> free_pages s" "\<And>p. p \<in> free_pages s \<Longrightarrow> firstFreepage s \<le> p"
proof -
  have inv: "fl_inv (pageMap s) (firstFreepage s) (lastPage s)" using assms(1) by (simp add: pa_inv_def)
  have "firstFreepage s < lastPage s"
    using free_pages_empty [OF assms(1)] assms(2) fl_invD(3) [OF inv] by simp
  then show "firstFreepage s \<in> free_pages s" using fl_invD(4) [OF inv] by (simp add: free_pages_def)
  show "firstFreepage s \<le> p" if "p \<in> free_pages s" for p
    using that fl_first_min [OF inv] by (simp add: free_pages_def)
qed

lemma unsetPage_empty:
  assumes "pa_inv s" "free_pages s = {}"
  shows "unsetPage s = (- 1, s)"
proof -
  have "pageMap s (lastPage s) = - 1" using assms(1) fl_invD(2) by (auto simp: pa_inv_def)
  then show ?thesis using free_pages_empty [OF assms(1)] assms(2) by (simp add: unsetPage_def)
qed

lemma unsetPage_some:
  assumes "pa_inv s" "free_pages s \<noteq> {}"
  obtains s' where "unsetPage s = (firstFreepage s, s')" "pa_inv s'"
    "free_pages s' = free_pages s - {firstFreepage s}" "firstFreepage s \<noteq> - 1"
proof -
  have inv: "fl_inv (pageMap s) (firstFreepage s) (lastPage s)" "lastPage s \<le> 2 ^ 52"
    using assms(1) by (simp_all add: pa_inv_def)
  have f: "firstFreepage s < lastPage s"
    using free_pages_first(1) [OF assms] by (simp add: free_pages_def)
  have ne: "pageMap s (firstFreepage s) \<noteq> - 1" by (rule fl_next_not_end [OF inv(1) f])
  have f1: "firstFreepage s \<noteq> - 1" using f word_n1_ge [of "lastPage s"] by auto
  let ?s = "s\<lparr>firstFreepage := pageMap s (firstFreepage s), pageMap := (pageMap s)(firstFreepage s := 0)\<rparr>"
  have "unsetPage s = (firstFreepage s, ?s)" using ne by (simp add: unsetPage_def Let_def)
  moreover have "pa_inv ?s" using fl_unset [OF inv(1) f] inv(2) by (simp add: pa_inv_def)
  moreover have "free_pages ?s = free_pages s - {firstFreepage s}" by (auto simp: free_pages_def)
  ultimately show thesis using that f1 by blast
qed

lemma setPage_free:
  assumes "pa_inv s" "i < lastPage s" "i \<notin> free_pages s"
  obtains s' where "setPage i s = Some s'" "pa_inv s'" "free_pages s' = insert i (free_pages s)"
    "palloc.more s' = palloc.more s" "lastPage s' = lastPage s"
proof -
  let ?m = "pageMap s" and ?f = "firstFreepage s" and ?n = "lastPage s"
  have inv: "fl_inv ?m ?f ?n" "?n \<le> 2 ^ 52" using assms(1) by (simp_all add: pa_inv_def)
  have mi: "?m i = 0" using assms(2,3) by (simp add: free_pages_def)
  then have "i \<noteq> ?f" using fl_invD(4) [OF inv(1)] by auto
  then consider "i < ?f" | "?f < i" by (metis linorder_neqE)
  then show thesis
  proof cases
    case 1
    let ?s = "s\<lparr>pageMap := ?m(i := ?f), firstFreepage := i\<rparr>"
    have "?f \<noteq> 0" using 1 by auto
    then have "setPage i s = Some ?s" "pa_inv ?s" "free_pages ?s = insert i (free_pages s)"
      using 1 fl_set_below [OF inv(1) 1] inv(2) assms(2)
      by (auto simp: setPage_def pa_inv_def free_pages_def)
    then show thesis using that by simp
  next
    case 2
    obtain p where p: "?f \<le> p" "p < i" "?m p \<noteq> 0" "i < ?m p" "\<And>k. k < p \<Longrightarrow> ?m k < i"
      using fl_pred [OF inv(1) 2 assms(2) mi] by blast
    have loop: "setPage_loop ?m ?f i = Some p" using p by (intro setPage_loop_stop) simp_all
    let ?s = "s\<lparr>pageMap := ?m(p := i, i := ?m p)\<rparr>"
    have "setPage i s = Some ?s" using 2 loop by (simp add: setPage_def Let_def)
    moreover have "pa_inv ?s"
      using fl_set_above [OF inv(1) assms(2) mi p(2-4)] inv(2) by (simp add: pa_inv_def)
    moreover have "i \<noteq> 0" using 2 by auto
    then have "free_pages ?s = insert i (free_pages s)"
      using p(2-4) assms(2) by (auto simp: free_pages_def split: if_splits)
    ultimately show thesis using that by simp
  qed
qed

section \<open>The interface\<close>

text \<open>What the kernel relies on: a page handed out is free before and not after, an exhausted
  allocator returns the null address and changes nothing, a page given back is free again.
  \<open>rest\<close> is the part of the state the allocator does not own.\<close>

locale page_allocator =
  fixes inv :: "'s \<Rightarrow> bool"
    and free :: "'s \<Rightarrow> u64 set"
    and pages :: "'s \<Rightarrow> u64 set"
    and alloc :: "'s \<Rightarrow> u64 \<times> 's"
    and dealloc :: "u64 \<Rightarrow> 's \<Rightarrow> 's option"
    and rest :: "'s \<Rightarrow> 'r"
  assumes alloc_none: "inv s \<Longrightarrow> free s = {} \<Longrightarrow> alloc s = (0, s)"
    and alloc_some: "inv s \<Longrightarrow> free s \<noteq> {} \<Longrightarrow>
      \<exists>p s'. alloc s = (p * PAGE_SIZE, s') \<and> p = Min (free s) \<and> inv s' \<and> free s' = free s - {p} \<and>
        pages s' = pages s"
    and dealloc_some: "inv s \<Longrightarrow> p \<in> pages s \<Longrightarrow> p \<notin> free s \<Longrightarrow>
      \<exists>s'. dealloc (p * PAGE_SIZE) s = Some s' \<and> inv s' \<and> free s' = insert p (free s) \<and>
        pages s' = pages s \<and> rest s' = rest s"
    and free_pages_sub: "inv s \<Longrightarrow> free s \<subseteq> pages s"
    and pages_bound: "inv s \<Longrightarrow> p \<in> pages s \<Longrightarrow> p < 2 ^ 52"
    and alloc_rest: "rest (snd (alloc s)) = rest s"

text \<open>A run of allocations.\<close>

fun allocs :: "('s \<Rightarrow> u64 \<times> 's) \<Rightarrow> nat \<Rightarrow> 's \<Rightarrow> u64 list \<times> 's" where
  "allocs alloc 0 s = ([], s)"
| "allocs alloc (Suc n) s =
     (let (a, s) = alloc s; (as, s) = allocs alloc n s in (a # as, s))"

lemma page_addr_inj:
  fixes p q :: u64
  assumes "p < 2 ^ 52" "q < 2 ^ 52" "p * PAGE_SIZE = q * PAGE_SIZE"
  shows "p = q"
proof -
  have "unat p < 2 ^ 52" "unat q < 2 ^ 52" using assms(1,2) by (simp_all add: word_less_nat_alt)
  then have "unat (p * PAGE_SIZE) = unat p * 4096" "unat (q * PAGE_SIZE) = unat q * 4096"
    by (subst unat_mult_lem [THEN iffD1]; simp)+
  then show ?thesis using assms(3) by (metis mult_cancel2 word_unat_eq_iff zero_neq_numeral)
qed

context page_allocator
begin

lemma alloc_page:
  assumes "inv s" "free s \<noteq> {}"
  obtains p s' where "alloc s = (p * PAGE_SIZE, s')" "p \<in> free s" "p < 2 ^ 52" "inv s'"
    "free s' = free s - {p}" "pages s' = pages s" "rest s' = rest s"
proof -
  obtain p s' where a: "alloc s = (p * PAGE_SIZE, s')" "p = Min (free s)" "inv s'"
    "free s' = free s - {p}" "pages s' = pages s" using alloc_some [OF assms] by blast
  have "p \<in> free s" unfolding a(2) using assms(2) by (intro Min_in) simp_all
  moreover from this have "p < 2 ^ 52" using free_pages_sub pages_bound assms(1) by blast
  moreover have "rest s' = rest s" using alloc_rest [of s] a(1) by simp
  ultimately show thesis using a that by blast
qed

lemma allocs_fresh:
  assumes "inv s" "n \<le> card (free s)" "allocs alloc n s = (as, s')"
  shows "distinct as \<and> length as = n \<and> set as \<subseteq> (\<lambda>p. p * PAGE_SIZE) ` free s \<and> inv s' \<and>
    free s' = free s - {p. p * PAGE_SIZE \<in> set as \<and> p \<in> free s} \<and> rest s' = rest s"
  using assms
proof (induction n arbitrary: s as)
  case 0
  then show ?case by simp
next
  case (Suc n)
  then have "free s \<noteq> {}" by auto
  then obtain p t where p: "alloc s = (p * PAGE_SIZE, t)" "p \<in> free s" "p < 2 ^ 52" "inv t"
    "free t = free s - {p}" "rest t = rest s" using alloc_page [OF Suc.prems(1)] by metis
  obtain bs where bs: "allocs alloc n t = (bs, s')" "as = p * PAGE_SIZE # bs"
    using Suc.prems(3) p(1) by (auto simp: Let_def split: prod.splits)
  have "n \<le> card (free t)" using Suc.prems(2) p(2,5) by (simp add: card_Diff_singleton)
  note IH = Suc.IH [OF p(4) this bs(1)]
  have lt: "q < 2 ^ 52" if "q \<in> free s" for q
    using that free_pages_sub pages_bound Suc.prems(1) by blast
  have inj: "p * PAGE_SIZE \<noteq> q * PAGE_SIZE" if "q \<in> free t" for q
    using page_addr_inj [OF p(3) lt [of q]] that p(5) by auto
  have "p * PAGE_SIZE \<notin> set bs" using IH inj by fastforce
  moreover have "{q. q * PAGE_SIZE \<in> set as \<and> q \<in> free s} =
      insert p {q. q * PAGE_SIZE \<in> set bs \<and> q \<in> free t}"
    using bs(2) p(2,5) inj by (auto simp: eq_commute [of "p * PAGE_SIZE"] \<open>p * PAGE_SIZE \<notin> set bs\<close>)
  ultimately show ?case using IH bs(2) p(2,5,6) by auto
qed

lemma alloc_dealloc:
  assumes "inv s" "free s \<noteq> {}" "alloc s = (a, s')"
  shows "\<exists>s''. dealloc a s' = Some s'' \<and> inv s'' \<and> free s'' = free s \<and> alloc s'' = (a, snd (alloc s''))"
proof -
  obtain p t where p: "alloc s = (p * PAGE_SIZE, t)" "p = Min (free s)" "inv t"
    "free t = free s - {p}" "pages t = pages s" using alloc_some [OF assms(1,2)] by blast
  have pf: "p \<in> free s" unfolding p(2) using assms(2) by (intro Min_in) simp_all
  then have "p \<in> pages t" using free_pages_sub [OF assms(1)] p(5) by auto
  then obtain u where u: "dealloc (p * PAGE_SIZE) t = Some u" "inv u" "free u = insert p (free t)"
    using dealloc_some [OF p(3)] p(4) by blast
  then have fu: "free u = free s" using p(4) pf by auto
  then obtain q v where "alloc u = (q * PAGE_SIZE, v)" "q = Min (free u)"
    using alloc_some [OF u(2)] assms(2) by metis
  then show ?thesis using u p assms(3) fu by auto
qed

end

lemma page_addr_div:
  fixes p :: u64
  assumes "p < 2 ^ 52"
  shows "p * PAGE_SIZE div PAGE_SIZE = p"
proof (rule word_div_mult)
  have "unat p < 2 ^ 52" using assms by (simp add: word_less_nat_alt)
  then show "unat p * unat PAGE_SIZE < 2 ^ LENGTH(64)" by simp
qed simp

interpretation kpages: page_allocator pa_inv free_pages "\<lambda>s. {i. i < lastPage s}" allocatePage
  deallocatePage palloc.more
proof
  fix s :: "'a palloc_scheme"
  show "pa_inv s \<Longrightarrow> free_pages s = {} \<Longrightarrow> allocatePage s = (0, s)"
    by (simp add: allocatePage_def unsetPage_empty)
  show "palloc.more (snd (allocatePage s)) = palloc.more s"
    by (simp add: allocatePage_def unsetPage_def Let_def split: if_splits)
  show "pa_inv s \<Longrightarrow> free_pages s \<subseteq> {i. i < lastPage s}" by (auto simp: free_pages_def)
  fix p
  show bound: "pa_inv s \<Longrightarrow> p \<in> {i. i < lastPage s} \<Longrightarrow> p < 2 ^ 52" for p
    by (auto simp: pa_inv_def)
  {
    assume s: "pa_inv s" "free_pages s \<noteq> {}"
    have m: "Min (free_pages s) = firstFreepage s"
      using free_pages_first [OF s] by (intro Min_eqI) auto
    obtain s' where s': "unsetPage s = (firstFreepage s, s')" "pa_inv s'"
      "free_pages s' = free_pages s - {firstFreepage s}" "firstFreepage s \<noteq> - 1"
      using unsetPage_some [OF s] by blast
    have "lastPage s' = lastPage s" using s'(1) by (auto simp: unsetPage_def Let_def split: if_splits)
    then show "\<exists>p s'. allocatePage s = (p * PAGE_SIZE, s') \<and> p = Min (free_pages s) \<and> pa_inv s' \<and>
        free_pages s' = free_pages s - {p} \<and> {i. i < lastPage s'} = {i. i < lastPage s}"
      using s' m by (simp add: allocatePage_def)
  }
  assume "pa_inv s" "p \<in> {i. i < lastPage s}" "p \<notin> free_pages s"
  then show "\<exists>s'. deallocatePage (p * PAGE_SIZE) s = Some s' \<and> pa_inv s' \<and>
      free_pages s' = insert p (free_pages s) \<and> {i. i < lastPage s'} = {i. i < lastPage s} \<and>
      palloc.more s' = palloc.more s"
    using page_addr_div [OF bound] by (auto simp: deallocatePage_def elim: setPage_free)
qed

section \<open>Boot: building the free list\<close>

lemma palloc_more_eq:
  assumes "console.more s = console.more (t :: 'a palloc_scheme)"
  shows "pageMap s = pageMap t" "pageMap_ptr s = pageMap_ptr t" "firstFreepage s = firstFreepage t"
    "lastPage s = lastPage t" "palloc.more s = palloc.more t"
  using assms by (cases s; cases t; simp)+

lemmas kprintf_palloc [simp] = palloc_more_eq [OF kprintf_more]

lemma kprintf_pa_inv [simp]: "pa_inv (kprintf fmt args s) \<longleftrightarrow> pa_inv s"
  by (simp add: pa_inv_def)

lemma kprintf_free_pages [simp]: "free_pages (kprintf fmt args s) = free_pages s"
  by (simp add: free_pages_def)

lemma init_page_loop_eq:
  "start \<le> n \<Longrightarrow> init_page_loop m start n = (\<lambda>i. if start \<le> i \<and> i < n then i + 1 else m i)"
proof (induction m start n rule: init_page_loop.induct)
  case (1 m start n)
  show ?case
  proof (cases "start = n")
    case True
    then show ?thesis by (subst init_page_loop.simps) (auto simp: fun_eq_iff)
  next
    case False
    then have lt: "start < n" using "1.prems" by simp
    have "init_page_loop m start n = init_page_loop (m(start := start + 1)) (start + 1) n"
      using False by (subst init_page_loop.simps) simp
    also have "\<dots> = (\<lambda>i. if start < i \<and> i < n then i + 1 else (m(start := start + 1)) i)"
      using "1.IH" [OF False inc_le [OF lt]] by (simp add: inc_le_iff [OF lt] fun_upd_def)
    finally show ?thesis using lt by (auto simp: fun_eq_iff)
  qed
qed

definition boot_map :: "u64 \<Rightarrow> (u64 \<Rightarrow> u64) \<Rightarrow> u64 \<Rightarrow> u64" where
  "boot_map n m i = (if i < n then i + 1 else if i = n then - 1 else m i)"

lemma init_page_state:
  assumes "init_page n s = (a, s')"
  shows "a = pageMap_ptr s + 8 * n" "pageMap s' = boot_map n (pageMap s)" "lastPage s' = lastPage s"
    "palloc.more s' = palloc.more s"
proof -
  have m: "(init_page_loop (pageMap s) 0 n)(n := - 1) = boot_map n (pageMap s)"
    by (auto simp: init_page_loop_eq boot_map_def fun_eq_iff)
  show "a = pageMap_ptr s + 8 * n" "pageMap s' = boot_map n (pageMap s)" "lastPage s' = lastPage s"
    "palloc.more s' = palloc.more s"
    using assms m by (auto simp: init_page_def Let_def)
qed

lemma boot_map_inv:
  assumes "n < - 1"
  shows "fl_inv (boot_map n m) 0 n"
proof (rule fl_invI)
  show "n < - 1" "boot_map n m n = - 1" "0 \<le> n" using assms by (simp_all add: boot_map_def)
  have step: "i + 1 \<noteq> 0" "i < i + 1" "i + 1 \<le> n" if "i < n" for i
  proof -
    show "i + 1 \<le> n" using that by (rule inc_le)
    have "unat (i + 1) = Suc (unat i)" using that by (rule unat_add_one)
    then show "i + 1 \<noteq> 0" "i < i + 1" by (auto simp: word_less_nat_alt)
  qed
  have nz: "boot_map n m i \<noteq> 0" if "i \<le> n" for i
    using that step(1) [of i] by (auto simp: boot_map_def)
  then show "boot_map n m 0 \<noteq> 0" by simp
  show "boot_map n m k = 0" if "k < 0" for k using that by simp
  fix i
  assume i: "i < n"
  have "next_free (boot_map n m) n i (i + 1)"
    using step [OF i] nz word_less_add_one_iff [OF i] by (intro next_freeI) (auto simp: linorder_not_less)
  then show "next_free (boot_map n m) n i (boot_map n m i)" using i by (simp add: boot_map_def)
qed

lemma boot_free:
  assumes "pageMap s = boot_map n m" "lastPage s = n"
  shows "free_pages s = {j. 0 \<le> j \<and> j < n}"
proof -
  have "i + 1 \<noteq> 0" if "i < n" for i using unat_add_one [OF that] by (metis nat.distinct(1) unat_0)
  then show ?thesis using assms by (auto simp: free_pages_def boot_map_def)
qed

lemma unset_loop_free:
  assumes "pa_inv s" "free_pages s = {j. i \<le> j \<and> j < lastPage s}" "i \<le> k"
  shows "pa_inv (unset_loop i k s) \<and> free_pages (unset_loop i k s) = {j. k \<le> j \<and> j < lastPage s} \<and>
    lastPage (unset_loop i k s) = lastPage s \<and> palloc.more (unset_loop i k s) = palloc.more s"
  using assms
proof (induction i k s rule: unset_loop.induct)
  case (1 i k s)
  show ?case
  proof (cases "i < k")
    case False
    then have "unset_loop i k s = s" by (subst unset_loop.simps) simp
    then show ?thesis using "1.prems" False by simp
  next
    case True
    let ?t = "snd (unsetPage s)"
    have fr: "lastPage ?t = lastPage s" "palloc.more ?t = palloc.more s"
      by (simp_all add: unsetPage_def Let_def)
    have "pa_inv ?t \<and> free_pages ?t = {j. i + 1 \<le> j \<and> j < lastPage s}"
    proof (cases "free_pages s = {}")
      case empty: True
      then have "{j. i + 1 \<le> j \<and> j < lastPage s} = {}"
        using "1.prems"(2) by (auto simp: inc_le_iff [OF True] dest: less_imp_le)
      then show ?thesis using unsetPage_empty [OF "1.prems"(1) empty] empty "1.prems"(1) by simp
    next
      case False
      then obtain j where "i \<le> j" "j < lastPage s" using "1.prems"(2) by blast
      then have il: "i < lastPage s" by (rule order.strict_trans1)
      have f: "firstFreepage s = i"
        using free_pages_first [OF "1.prems"(1) False] "1.prems"(2) il by (auto intro!: antisym)
      obtain s' where s': "unsetPage s = (firstFreepage s, s')" "pa_inv s'"
        "free_pages s' = free_pages s - {firstFreepage s}"
        using unsetPage_some [OF "1.prems"(1) False] by blast
      have "free_pages s' = {j. i + 1 \<le> j \<and> j < lastPage s}"
        unfolding s'(3) f "1.prems"(2) inc_le_iff [OF True] by auto
      then show ?thesis using s'(1,2) by simp
    qed
    moreover have "unset_loop i k s = unset_loop (i + 1) k ?t" using True by (subst unset_loop.simps) simp
    ultimately show ?thesis using "1.IH" [OF True] fr inc_le [OF True] by simp
  qed
qed

lemma set_loop_free:
  assumes "pa_inv s" "n \<le> lastPage s" "\<And>j. i \<le> j \<Longrightarrow> j < n \<Longrightarrow> j \<notin> free_pages s"
  shows "\<exists>s'. set_loop i n s = Some s' \<and> pa_inv s' \<and> free_pages s' = {j. i \<le> j \<and> j < n} \<union> free_pages s \<and>
    palloc.more s' = palloc.more s \<and> lastPage s' = lastPage s"
  using assms
proof (induction i n s rule: set_loop.induct)
  case (1 i n s)
  show ?case
  proof (cases "i < n")
    case False
    then show ?thesis using "1.prems"(1) by (subst set_loop.simps) auto
  next
    case True
    then obtain t where t: "setPage i s = Some t" "pa_inv t" "free_pages t = insert i (free_pages s)"
      "palloc.more t = palloc.more s" "lastPage t = lastPage s"
      using setPage_free [OF "1.prems"(1), of i] "1.prems"(2,3) by (metis order.strict_trans2 order_refl)
    note ii = inc_le_iff [OF True]
    have "\<exists>s'. set_loop (i + 1) n t = Some s' \<and> pa_inv s' \<and>
        free_pages s' = {j. i + 1 \<le> j \<and> j < n} \<union> free_pages t \<and> palloc.more s' = palloc.more t \<and>
        lastPage s' = lastPage t"
      using "1.IH" [OF True t(1) t(2)] "1.prems"(2,3) t ii by (simp add: less_imp_le)
    moreover have "{j. i + 1 \<le> j \<and> j < n} \<union> insert i (free_pages s) = {j. i \<le> j \<and> j < n} \<union> free_pages s"
      using True ii by (auto simp: le_less)
    ultimately show ?thesis using True t by (subst set_loop.simps) simp
  qed
qed

text \<open>The address arithmetic of the rounding: the kernel's page map ends below the new
  \<^verbatim>\<open>physfree\<close>.\<close>

lemma unat_mod8: "(x :: u64) mod 8 = 0 \<Longrightarrow> unat x mod 8 = 0"
  using unat_mod [of x 8] by simp

lemma page_round_up:
  fixes x :: u64
  assumes x: "x < 2 ^ 49" "x mod 8 = 0"
  defines "r \<equiv> (x div 0x1000 + 1) * 0x1000"
  shows "x + 8 \<le> r" "r div PAGE_SIZE = x div PAGE_SIZE + 1" "r mod PAGE_SIZE = 0"
    "x \<le> r"
proof -
  have ux: "unat x < 2 ^ 49" "unat x mod 8 = 0"
    using x unat_mod8 by (simp_all add: word_less_nat_alt)
  have q: "unat (x div 0x1000 + 1) = unat x div 4096 + 1"
    using ux(1) by (subst unat_add_lem [THEN iffD1]) (simp_all add: unat_div)
  have ur: "unat r = (unat x div 4096 + 1) * 4096"
    using ux(1) unfolding r_def by (subst unat_mult_lem [THEN iffD1]) (simp_all add: q)
  have u8: "unat (x + 8) = unat x + 8" using ux(1) by (subst unat_add_lem [THEN iffD1]) simp_all
  obtain k where k: "unat x = 8 * k" using ux(2) by (auto simp: mod_eq_0_iff_dvd elim: dvdE)
  have "k < 512 + k div 512 * 512" by (rule dividend_less_div_times) simp
  moreover have "unat x div 4096 = k div 512" using k div_mult_mult1 [of 8 k 512] by simp
  ultimately have "unat x + 8 \<le> (unat x div 4096 + 1) * 4096" using k by simp
  then show "x + 8 \<le> r" "x \<le> r" by (simp_all add: word_le_nat_alt u8 ur)
  show "r div PAGE_SIZE = x div PAGE_SIZE + 1" by (rule word_unat_eq_iff [THEN iffD2]) (simp add: unat_div ur q)
  show "r mod PAGE_SIZE = 0" by (rule word_unat_eq_iff [THEN iffD2]) (simp add: unat_mod ur)
qed

lemma page_map_end:
  fixes a n :: u64
  assumes "a < 2 ^ 48" "n < 2 ^ 36" "a mod 8 = 0"
  shows "a + 8 * n < 2 ^ 49" "(a + 8 * n) mod 8 = 0" "a \<le> a + 8 * n"
proof -
  have u: "unat a < 2 ^ 48" "unat n < 2 ^ 36" "unat a mod 8 = 0"
    using assms unat_mod8 by (simp_all add: word_less_nat_alt)
  have m: "unat (8 * n) = 8 * unat n" using u by (subst unat_mult_lem [THEN iffD1]) simp_all
  have s: "unat (a + 8 * n) = unat a + 8 * unat n"
    using u by (subst unat_add_lem [THEN iffD1]) (simp_all add: m)
  show "a + 8 * n < 2 ^ 49" "a \<le> a + 8 * n" using u by (simp_all add: word_less_nat_alt word_le_nat_alt s)
  show "(a + 8 * n) mod 8 = 0"
    using u(3) by (intro word_unat_eq_iff [THEN iffD2]) (simp add: unat_mod s mod_eq_0_iff_dvd)
qed

lemma page_div_mono: "(a :: u64) \<le> b \<Longrightarrow> a div PAGE_SIZE \<le> b div PAGE_SIZE"
  by (simp add: word_le_nat_alt unat_div div_le_mono)

lemma page_div_less: "(a :: u64) < 2 ^ 48 \<Longrightarrow> a div PAGE_SIZE < 2 ^ 36"
  by (simp add: word_less_nat_alt unat_div)

lemma init_pageTable_free:
  assumes "physbase \<le> physfree" "physbase \<le> max_length" "physfree < 2 ^ 48" "max_length < 2 ^ 48"
    "physfree mod 8 = 0"
  shows "\<exists>pf s'. init_pageTable physbase physfree base max_length s = Some (pf, s') \<and> pa_inv s' \<and>
    pf mod PAGE_SIZE = 0 \<and> physfree + 8 * (max_length div PAGE_SIZE) + 8 \<le> pf \<and>
    free_pages s' = {i. base div PAGE_SIZE \<le> i \<and> i < physbase div PAGE_SIZE} \<union>
                    {i. pf div PAGE_SIZE \<le> i \<and> i < max_length div PAGE_SIZE} \<and>
    lastPage s' = max_length div PAGE_SIZE \<and> pf = ((physfree + 8 * (max_length div PAGE_SIZE)) div PAGE_SIZE + 1) * PAGE_SIZE"
proof -
  define n where "n = max_length div PAGE_SIZE"
  define x where "x = physfree + 8 * n"
  define pf where "pf = (x div 0x1000 + 1) * 0x1000"
  have n: "n < 2 ^ 36" unfolding n_def by (rule page_div_less [OF assms(4)])
  note pe = page_map_end [OF assms(3) n assms(5), folded x_def]
  note ru = page_round_up [OF pe(1,2), folded pf_def]
  let ?s = "s\<lparr>lastPage := n, pageMap_ptr := physfree\<rparr>"
  obtain s1 where s1: "init_page n ?s = (x, s1)" "pageMap s1 = boot_map n (pageMap s)" "lastPage s1 = n"
    using init_page_state [of n ?s] by (cases "init_page n ?s") (auto simp: x_def)
  let ?t = "s1\<lparr>firstFreepage := 0\<rparr>"
  have "n < - 1" by (rule order.strict_trans2 [OF n word_n1_ge])
  moreover have "n \<le> 2 ^ 52" using n by (simp add: word_less_nat_alt word_le_nat_alt)
  ultimately have inv: "pa_inv ?t" using boot_map_inv s1 by (simp add: pa_inv_def)
  have "free_pages ?t = {j. 0 \<le> j \<and> j < lastPage ?t}" using boot_free [of ?t] s1 by simp
  note un = unset_loop_free [OF inv this, of "pf div PAGE_SIZE"]
  let ?u = "unset_loop 0 (pf div PAGE_SIZE) ?t"
  let ?v = "kprintf ''%d'' [KInt (pf div PAGE_SIZE)] ?u"
  have v: "pa_inv ?v" "free_pages ?v = {j. pf div PAGE_SIZE \<le> j \<and> j < n}" "lastPage ?v = n"
    using un s1(3) by simp_all
  have le: "physbase div PAGE_SIZE \<le> pf div PAGE_SIZE"
  proof (rule page_div_mono)
    show "physbase \<le> pf" using assms(1) pe(3) ru(4) by simp
  qed
  have lb: "physbase div PAGE_SIZE \<le> lastPage ?v" using page_div_mono [OF assms(2)] v(3) by (simp add: n_def)
  have out: "j \<notin> free_pages ?v" if j: "base div PAGE_SIZE \<le> j" "j < physbase div PAGE_SIZE" for j
    unfolding v(2) using order.strict_trans2 [OF j(2) le] by (simp add: linorder_not_le)
  obtain w where "set_loop (base div PAGE_SIZE) (physbase div PAGE_SIZE) ?v = Some w" "pa_inv w"
    "free_pages w = {j. base div PAGE_SIZE \<le> j \<and> j < physbase div PAGE_SIZE} \<union> free_pages ?v" "lastPage w = lastPage ?v"
    using set_loop_free [OF v(1) lb out] by blast
  moreover have "init_pageTable physbase physfree base max_length s =
      map_option (Pair pf) (set_loop (base div PAGE_SIZE) (physbase div PAGE_SIZE) ?v)"
    using s1(1) by (simp add: init_pageTable_def Let_def n_def [symmetric] pf_def map_conv_bind_option comp_def)
  ultimately show ?thesis using ru(1,3) v(2,3) by (simp add: x_def n_def pf_def)
qed

section \<open>Properties\<close>

text \<open>C2. Boot.  For a kernel image at or below its end, inside usable memory of at most 256
  terabytes, \<^verbatim>\<open>init_pageTable\<close> terminates in a well-formed free list whose free pages are
  exactly the usable pages below the kernel and those above the page map: the kernel image and the
  page map itself (its \<open>lastPage + 1\<close> entries end at or below the returned page-aligned
  address) are never handed out.\<close>

theorem init_pageTable_correct:
  assumes "physbase \<le> physfree" "physbase \<le> max_length" "physfree < 2 ^ 48" "max_length < 2 ^ 48"
    "physfree mod 8 = 0"
  shows "\<exists>pf s'. init_pageTable physbase physfree base max_length s = Some (pf, s') \<and> pa_inv s' \<and>
    pf mod PAGE_SIZE = 0 \<and> physfree + 8 * (max_length div PAGE_SIZE) + 8 \<le> pf \<and>
    free_pages s' = {i. base div PAGE_SIZE \<le> i \<and> i < physbase div PAGE_SIZE} \<union>
                    {i. pf div PAGE_SIZE \<le> i \<and> i < max_length div PAGE_SIZE}"
  using init_pageTable_free [OF assms, of base s] by (elim exE conjE) (intro exI conjI)

theorem init_pageTable_correct_witness:
  "\<exists>pf s'. init_pageTable 0x200000 0x220000 0x100000 0x7ffe000
      (console_init (\<lambda>_. 0) \<lparr>pageMap = (\<lambda>_. 0), pageMap_ptr = 0, firstFreepage = 0, lastPage = 0\<rparr>) = Some (pf, s') \<and> pa_inv s' \<and>
    pf mod PAGE_SIZE = 0 \<and> 0x220000 + 8 * (0x7ffe000 div PAGE_SIZE) + 8 \<le> pf \<and>
    free_pages s' = {i. 0x100000 div PAGE_SIZE \<le> i \<and> i < 0x200000 div PAGE_SIZE} \<union>
                    {i. pf div PAGE_SIZE \<le> i \<and> i < 0x7ffe000 div PAGE_SIZE}"
  by (rule init_pageTable_correct) simp_all

text \<open>A small free list for the witnesses: pages 0 to 3 with page 1 allocated.\<close>

definition small_palloc :: "unit palloc_scheme" where
  "small_palloc = console_init (\<lambda>_. 0)
     \<lparr>pageMap = (\<lambda>i. if i = 0 then 2 else if i = 2 then 3 else if i = 3 then - 1 else 0),
      pageMap_ptr = 0, firstFreepage = 0, lastPage = 3\<rparr>"

lemma u64_less_3: "(i :: u64) < 3 \<longleftrightarrow> i = 0 \<or> i = 1 \<or> i = 2"
proof -
  have "unat i < 3 \<longleftrightarrow> unat i = 0 \<or> unat i = 1 \<or> unat i = 2" by arith
  then show ?thesis by (simp add: word_less_nat_alt word_unat_eq_iff)
qed

lemma small_palloc_inv: "pa_inv small_palloc"
proof -
  have "k = 1" if k: "0 < k" "k < 2" for k :: u64
  proof -
    have "k < 3" by (rule order.strict_trans [OF k(2)]) simp
    then show ?thesis using k by (auto simp: u64_less_3)
  qed
  then show ?thesis by (auto simp: pa_inv_def fl_inv_def next_free_def small_palloc_def console_init_def u64_less_3)
qed

lemma small_palloc_free: "free_pages small_palloc = {0, 2}"
  by (auto simp: free_pages_def small_palloc_def console_init_def u64_less_3)

text \<open>C3. Allocation.  On a well-formed free list \<^verbatim>\<open>allocatePage\<close> returns the address of the
  smallest free page and takes exactly that page out of the free set; with no page left it returns
  the null address and changes nothing; the well-formedness is kept, and nothing outside
  the allocator and the console changes.\<close>

theorem allocatePage_min:
  assumes "pa_inv s" "allocatePage s = (a, s')"
  shows "(if free_pages s = {} then a = 0 \<and> s' = s
          else a = Min (free_pages s) * PAGE_SIZE \<and> free_pages s' = free_pages s - {Min (free_pages s)}) \<and>
    pa_inv s' \<and> lastPage s' = lastPage s \<and> palloc.more s' = palloc.more s"
proof -
  have "lastPage s' = lastPage s"
    using assms(2) by (auto simp: allocatePage_def unsetPage_def Let_def split: if_splits)
  moreover have "palloc.more s' = palloc.more s" using kpages.alloc_rest [of s] assms(2) by simp
  ultimately show ?thesis using kpages.alloc_none [OF assms(1)] kpages.alloc_some [OF assms(1)] assms by auto
qed

theorem allocatePage_min_witness:
  "pa_inv small_palloc \<and> fst (allocatePage small_palloc) = Min {0, 2} * PAGE_SIZE \<and>
   free_pages (snd (allocatePage small_palloc)) = {0, 2} - {Min {0, 2}}"
  using allocatePage_min [OF small_palloc_inv prod.collapse [symmetric]]
  by (simp add: small_palloc_inv small_palloc_free)

text \<open>C4. Deallocation.  Giving back an allocated page below \<^verbatim>\<open>lastPage\<close> terminates (the scan
  of \<^verbatim>\<open>setPage\<close> finds its predecessor), keeps the list well-formed and adds exactly that page
  to the free set.\<close>

theorem deallocatePage_insert:
  assumes "pa_inv s" "p < lastPage s" "p \<notin> free_pages s"
  shows "\<exists>s'. deallocatePage (p * PAGE_SIZE) s = Some s' \<and> pa_inv s' \<and>
    free_pages s' = insert p (free_pages s) \<and> palloc.more s' = palloc.more s"
  using kpages.dealloc_some [of s p] assms by auto

theorem deallocatePage_insert_witness:
  "\<exists>s'. deallocatePage (1 * PAGE_SIZE) small_palloc = Some s' \<and> pa_inv s' \<and>
    free_pages s' = insert 1 (free_pages small_palloc) \<and> palloc.more s' = palloc.more small_palloc"
  by (rule deallocatePage_insert)
     (simp_all add: small_palloc_inv small_palloc_free, simp add: small_palloc_def console_init_def)

text \<open>A run of allocations that does not exhaust memory returns pairwise distinct page
  addresses, all of them free before and none of them free after.\<close>

theorem allocatePage_fresh:
  assumes "pa_inv s" "n \<le> card (free_pages s)" "allocs allocatePage n s = (as, s')"
  shows "distinct as \<and> length as = n \<and> set as \<subseteq> (\<lambda>p. p * PAGE_SIZE) ` free_pages s \<and> pa_inv s' \<and>
    free_pages s' = free_pages s - {p. p * PAGE_SIZE \<in> set as \<and> p \<in> free_pages s}"
  using kpages.allocs_fresh [OF assms] by blast

theorem allocatePage_fresh_witness:
  "distinct (fst (allocs allocatePage 2 small_palloc)) \<and>
   length (fst (allocs allocatePage 2 small_palloc)) = 2"
  using allocatePage_fresh [OF small_palloc_inv _ prod.collapse [symmetric], of 2]
  by (simp add: small_palloc_free)

text \<open>A page that is allocated and given back leaves the free set as it was, and is the next
  page allocated.\<close>

theorem allocate_deallocate:
  assumes "pa_inv s" "free_pages s \<noteq> {}" "allocatePage s = (a, s')"
  shows "\<exists>s''. deallocatePage a s' = Some s'' \<and> pa_inv s'' \<and> free_pages s'' = free_pages s \<and>
    fst (allocatePage s'') = a"
  using kpages.alloc_dealloc [OF assms] by (metis fst_conv)

theorem allocate_deallocate_witness:
  "\<exists>s''. deallocatePage (fst (allocatePage small_palloc)) (snd (allocatePage small_palloc)) = Some s'' \<and>
    pa_inv s'' \<and> free_pages s'' = free_pages small_palloc \<and>
    fst (allocatePage s'') = fst (allocatePage small_palloc)"
  by (rule allocate_deallocate [OF small_palloc_inv]) (simp_all add: small_palloc_free)

text \<open>Giving a page back twice corrupts the list.  When the second free page is given back,
  its entry becomes a link to itself: the next three allocations hand it out twice.\<close>

theorem double_free_twice:
  assumes "pa_inv s" "p = pageMap s (firstFreepage s)" "p \<in> free_pages s"
  shows "\<exists>s'. setPage p s = Some s' \<and> pageMap s' p = p \<and>
    fst (allocs unsetPage 3 s') = [firstFreepage s, p, p]"
proof -
  let ?m = "pageMap s" and ?f = "firstFreepage s" and ?n = "lastPage s"
  have inv: "fl_inv ?m ?f ?n" using assms(1) by (simp add: pa_inv_def)
  have p: "p < ?n" using assms(3) by (simp add: free_pages_def)
  have fn: "?f < ?n"
    using free_pages_first(1) [OF assms(1)] assms(3) by (auto simp: free_pages_def)
  note nf = fl_invD(6) [OF inv fn fl_invD(4) [OF inv], folded assms(2)]
  have fp: "?f < p" by (rule next_freeD(1) [OF nf])
  have "setPage_loop ?m ?f p = Some ?f" using assms(2) by (subst setPage_loop.simps) simp
  then have set: "setPage p s = Some (s\<lparr>pageMap := ?m(p := p)\<rparr>)"
    using fp assms(2) by (simp add: setPage_def Let_def fun_upd_idem)
  have "p \<noteq> - 1" using p word_n1_ge [of ?n] by auto
  then show ?thesis using set fp assms(2) [symmetric]
    by (auto simp: numeral_3_eq_3 unsetPage_def Let_def)
qed

theorem double_free_twice_witness:
  "\<exists>s'. setPage 2 small_palloc = Some s' \<and> pageMap s' 2 = 2 \<and> fst (allocs unsetPage 3 s') = [0, 2, 2]"
  using double_free_twice [OF small_palloc_inv, of 2]
  by (simp add: small_palloc_free) (simp add: small_palloc_def console_init_def)

end
