(* ===== verification/Paging.thy ===== *)
theory Paging
  imports PageAlloc
begin

unbundle bit_operations_syntax

text \<open>
  The page tables of \<^verbatim>\<open>sys/mmu.c\<close>.

  Physical memory is seen by page frames: \<open>frames s p i\<close> is the 64-bit word at index
  \<open>i\<close> of the frame whose physical address is \<open>p\<close>, the \<^verbatim>\<open>entries[i]\<close> of a
  \<^verbatim>\<open>struct PML4E/PDPE/PDE/PTE\<close> placed there.  Every table pointer of the code is a page address, as
  it comes from \<^verbatim>\<open>allocatePage\<close>, from CR3 or from an entry masked with
  \<^verbatim>\<open>0xFFFFFFFFFFFFF000\<close>; it is resolved with \<^const>\<open>phys\<close>, so that the pointers of the higher-half
  window and the low pointers used before \<^verbatim>\<open>loadCR3\<close> reach the same memory.  Only \<^verbatim>\<open>kfree\<close> uses low pointers
  afterwards; they are looked up in the current tables, and where they are not mapped the kernel faults.  \<^verbatim>\<open>CR3\<close> is the
  control register; \<^verbatim>\<open>pml4e\<close> and \<^verbatim>\<open>cr3\<close> are the globals of the file.

  The code never checks the result of \<^verbatim>\<open>allocatePage\<close>; neither do the definitions.

  The abstract view of an address space is the function \<open>pt_lookup\<close> from virtual addresses to page
  table entries, and the interface \<open>vm_mapping\<close> states what mapping a page promises.
\<close>

record vm = palloc +
  frames :: "u64 \<Rightarrow> u64 \<Rightarrow> u64"
  CR3 :: u64
  pml4e :: u64
  cr3 :: u64

abbreviation P_BIT :: u64 where "P_BIT \<equiv> 0x1"
abbreviation W_BIT :: u64 where "W_BIT \<equiv> 0x2"
abbreviation U_BIT :: u64 where "U_BIT \<equiv> 0x4"
abbreviation COW_BIT :: u64 where "COW_BIT \<equiv> 0x100"
abbreviation FRAME_MASK :: u64 where "FRAME_MASK \<equiv> 0xFFFFFFFFFFFFF000"

section \<open>The code\<close>

definition getIndex :: "u64 \<Rightarrow> nat \<Rightarrow> u64" where
  "getIndex address shift = drop_bit shift address AND 0x1FF"

definition loadCR3 :: "u64 \<Rightarrow> 'a vm_scheme \<Rightarrow> 'a vm_scheme" where
  "loadCR3 c s = s\<lparr>CR3 := c\<rparr>"

definition getCR3 :: "'a vm_scheme \<Rightarrow> u64" where
  "getCR3 s = CR3 s"

text \<open>\<^verbatim>\<open>t->entries[i]\<close> read and written, and \<^verbatim>\<open>memset(t,0,PAGE_SIZE)\<close> of a whole frame.\<close>

definition entries :: "'a vm_scheme \<Rightarrow> u64 \<Rightarrow> u64 \<Rightarrow> u64" where
  "entries s t i = frames s (phys t) i"

definition set_entry :: "u64 \<Rightarrow> u64 \<Rightarrow> u64 \<Rightarrow> 'a vm_scheme \<Rightarrow> 'a vm_scheme" where
  "set_entry t i e s = s\<lparr>frames := (frames s)(phys t := (frames s (phys t))(i := e))\<rparr>"

definition zero_page :: "u64 \<Rightarrow> 'a vm_scheme \<Rightarrow> 'a vm_scheme" where
  "zero_page t s = s\<lparr>frames := (frames s)(phys t := (\<lambda>_. 0))\<rparr>"

definition pdpeAlloc :: "u64 \<Rightarrow> u64 \<Rightarrow> char \<Rightarrow> 'a vm_scheme \<Rightarrow> u64 \<times> 'a vm_scheme" where
  "pdpeAlloc pml4e_p pml4e_i from s =
     (let (pdpe, s) = allocatePage s;
          p_pdpe = pdpe;
          pdpe = (if from = CHR ''V'' then pdpe OR KERNBASE else pdpe);
          s = zero_page pdpe s;
          pdpe_entry = p_pdpe;
          pdpe_entry = (if from = CHR ''V'' then pdpe_entry OR U_BIT else pdpe_entry);
          pdpe_entry = pdpe_entry OR (P_BIT OR W_BIT)
      in (pdpe, set_entry pml4e_p pml4e_i pdpe_entry s))"

definition pdeAlloc :: "u64 \<Rightarrow> u64 \<Rightarrow> char \<Rightarrow> 'a vm_scheme \<Rightarrow> u64 \<times> 'a vm_scheme" where
  "pdeAlloc pdpe pdpe_i from s =
     (let (pde, s) = allocatePage s;
          p_pde = pde;
          pde = (if from = CHR ''V'' then pde OR KERNBASE else pde);
          s = zero_page pde s;
          pde_entry = p_pde;
          pde_entry = (if from = CHR ''V'' then pde_entry OR U_BIT else pde_entry);
          pde_entry = pde_entry OR (P_BIT OR W_BIT)
      in (pde, set_entry pdpe pdpe_i pde_entry s))"

definition pteAlloc :: "u64 \<Rightarrow> u64 \<Rightarrow> char \<Rightarrow> 'a vm_scheme \<Rightarrow> u64 \<times> 'a vm_scheme" where
  "pteAlloc pde pde_i from s =
     (let (pte, s) = allocatePage s;
          p_pte = pte;
          pte = (if from = CHR ''V'' then pte OR KERNBASE else pte);
          s = zero_page pte s;
          pte_entry = p_pte;
          pte_entry = (if from = CHR ''V'' then pte_entry OR U_BIT else pte_entry);
          pte_entry = pte_entry OR (P_BIT OR W_BIT)
      in (pte, set_entry pde pde_i pte_entry s))"

definition map_v_p :: "u64 \<Rightarrow> u64 \<Rightarrow> 'a vm_scheme \<Rightarrow> 'a vm_scheme" where
  "map_v_p virtual_address physical_address s =
     (let pml4e_i = getIndex virtual_address 39;
          pdpe_i = getIndex virtual_address 30;
          pde_i = getIndex virtual_address 21;
          pte_i = getIndex virtual_address 12;
          pml4e_entry = entries s (pml4e s) pml4e_i;
          (pdpe, s) = (if pml4e_entry AND P_BIT \<noteq> 0 then (pml4e_entry AND FRAME_MASK, s)
                       else pdpeAlloc (pml4e s) pml4e_i CHR ''P'' s);
          pdpe_entry = entries s pdpe pdpe_i;
          (pde, s) = (if pdpe_entry AND P_BIT \<noteq> 0 then (pdpe_entry AND FRAME_MASK, s)
                      else pdeAlloc pdpe pdpe_i CHR ''P'' s);
          pde_entry = entries s pde pde_i;
          (pte, s) = (if pde_entry AND P_BIT \<noteq> 0 then (pde_entry AND FRAME_MASK, s)
                      else pteAlloc pde pde_i CHR ''P'' s);
          entry = physical_address;
          entry = entry OR (P_BIT OR W_BIT)
      in set_entry pte pte_i entry s)"

definition map_v_p2 :: "u64 \<Rightarrow> u64 \<Rightarrow> 'a vm_scheme \<Rightarrow> 'a vm_scheme" where
  "map_v_p2 virtual_address physical_address s =
     (let pml4e_i = getIndex virtual_address 39;
          pdpe_i = getIndex virtual_address 30;
          pde_i = getIndex virtual_address 21;
          pte_i = getIndex virtual_address 12;
          pml4e = KERNBASE OR getCR3 s;
          pml4e_entry = entries s pml4e pml4e_i;
          (pdpe, s) = (if pml4e_entry AND P_BIT \<noteq> 0 then ((pml4e_entry AND FRAME_MASK) OR KERNBASE, s)
                       else pdpeAlloc pml4e pml4e_i CHR ''V'' s);
          pdpe_entry = entries s pdpe pdpe_i;
          (pde, s) = (if pdpe_entry AND P_BIT \<noteq> 0 then ((pdpe_entry AND FRAME_MASK) OR KERNBASE, s)
                      else pdeAlloc pdpe pdpe_i CHR ''V'' s);
          pde_entry = entries s pde pde_i;
          (pte, s) = (if pde_entry AND P_BIT \<noteq> 0 then ((pde_entry AND FRAME_MASK) OR KERNBASE, s)
                      else pteAlloc pde pde_i CHR ''V'' s);
          entry = physical_address;
          entry = entry OR (P_BIT OR U_BIT OR W_BIT)
      in set_entry pte pte_i entry s)"

text \<open>The loop of \<^verbatim>\<open>kernmemMap\<close>, with the linker symbol \<^verbatim>\<open>kernmem\<close> as its start address.\<close>

partial_function (option) kernmem_loop ::
  "u64 \<Rightarrow> u64 \<Rightarrow> u64 \<Rightarrow> u64 \<Rightarrow> 'a vm_scheme \<Rightarrow> 'a vm_scheme option" where
  "kernmem_loop pte virtual_address physbase physfree s =
     (if physbase < physfree
      then kernmem_loop pte (virtual_address + 0x1000) (physbase + 0x1000) physfree
             (set_entry pte (getIndex virtual_address 12) (physbase OR (P_BIT OR W_BIT)) s)
      else Some s)"

definition kernmemMap :: "u64 \<Rightarrow> u64 \<Rightarrow> u64 \<Rightarrow> 'a vm_scheme \<Rightarrow> 'a vm_scheme option" where
  "kernmemMap kernmem physbase physfree s =
     (let virtual_address = kernmem;
          pml4e_i = getIndex virtual_address 39;
          pdpe_i = getIndex virtual_address 30;
          pde_i = getIndex virtual_address 21;
          (p, s) = allocatePage s;
          s = s\<lparr>pml4e := p\<rparr>;
          s = zero_page (pml4e s) s;
          s = s\<lparr>cr3 := pml4e s\<rparr>;
          (pdpe, s) = pdpeAlloc (pml4e s) pml4e_i CHR ''P'' s;
          (pde, s) = pdeAlloc pdpe pdpe_i CHR ''P'' s;
          (pte, s) = pteAlloc pde pde_i CHR ''P'' s
      in kernmem_loop pte virtual_address physbase physfree s)"

partial_function (option) phy2vir_loop ::
  "u64 \<Rightarrow> u64 \<Rightarrow> u64 \<Rightarrow> 'a vm_scheme \<Rightarrow> 'a vm_scheme option" where
  "phy2vir_loop virtual_address phy_address limit s =
     (if phy_address \<le> limit
      then phy2vir_loop (virtual_address + 0x1000) (phy_address + 0x1000) limit
             (map_v_p virtual_address phy_address s)
      else Some s)"

definition phy2vir :: "u64 \<Rightarrow> 'a vm_scheme \<Rightarrow> 'a vm_scheme option" where
  "phy2vir limit s = do {
     s \<leftarrow> phy2vir_loop 0xffffffff80000000 0 limit s;
     let s = map_v_p 0xffffffff800b8000 0xb8000 s;
     let s = s\<lparr>pageMap_ptr := KERNBASE OR pageMap_ptr s\<rparr>;
     let s = s\<lparr>video := KERNBASE OR video s\<rparr>;
     Some (loadCR3 (cr3 s) s)
   }"

definition setUserSpace :: "'a vm_scheme \<Rightarrow> u64 \<times> 'a vm_scheme" where
  "setUserSpace s =
     (let (newPML4E, s) = allocatePage s;
          curPML4E = getCR3 s;
          curPML4E = curPML4E OR KERNBASE;
          s = set_entry (newPML4E OR KERNBASE) 511 (entries s curPML4E 511) s
      in (newPML4E, s))"

definition kmalloc :: "'a vm_scheme \<Rightarrow> u64 \<times> 'a vm_scheme" where
  "kmalloc s =
     (let (p_newPage, s) = allocatePage s;
          v_newPage = p_newPage OR KERNBASE;
          s = map_v_p2 v_newPage p_newPage s;
          s = zero_page v_newPage s
      in (v_newPage, s))"

text \<open>A table pointer that stays \<^verbatim>\<open>NULL\<close> and is dereferenced ends in \<open>None\<close>.\<close>

definition next_table :: "'a vm_scheme \<Rightarrow> u64 \<Rightarrow> u64 \<Rightarrow> u64 option" where
  "next_table s t i =
     (if entries s t i AND P_BIT \<noteq> 0 then Some (entries s t i AND FRAME_MASK) else None)"


definition physicalAddress :: "u64 \<Rightarrow> 'a vm_scheme \<Rightarrow> u64 option" where
  "physicalAddress virtual_address s = do {
     pdpe \<leftarrow> next_table s (KERNBASE OR getCR3 s) (getIndex virtual_address 39);
     pde \<leftarrow> next_table s (pdpe OR KERNBASE) (getIndex virtual_address 30);
     case next_table s (pde OR KERNBASE) (getIndex virtual_address 21) of
       None \<Rightarrow> Some 0
     | Some pte \<Rightarrow> Some (entries s (pte OR KERNBASE) (getIndex virtual_address 12))
   }"

text \<open>The four nested loops of \<^verbatim>\<open>deletePagetable\<close>.\<close>

definition delete_ptes :: "u64 \<Rightarrow> u64 \<Rightarrow> 'a vm_scheme \<Rightarrow> 'a vm_scheme" where
  "delete_ptes pte pde_entry s = fold (\<lambda>pte_i. set_entry pte (of_nat pte_i) pde_entry) [0..<512] s"

definition delete_pdes :: "u64 \<Rightarrow> 'a vm_scheme \<Rightarrow> 'a vm_scheme" where
  "delete_pdes pde s =
     fold (\<lambda>pde_i s. let pde_entry = entries s pde (of_nat pde_i) in
             if pde_entry AND P_BIT \<noteq> 0 then delete_ptes (pde_entry AND FRAME_MASK) pde_entry s else s)
       [0..<512] s"

definition delete_pdpes :: "u64 \<Rightarrow> 'a vm_scheme \<Rightarrow> 'a vm_scheme" where
  "delete_pdpes pdpe s =
     fold (\<lambda>pdpe_i s. let pdpe_entry = entries s pdpe (of_nat pdpe_i) in
             if pdpe_entry AND P_BIT \<noteq> 0 then delete_pdes (pdpe_entry AND FRAME_MASK) s else s)
       [0..<512] s"

definition deletePagetable :: "u64 \<Rightarrow> 'a vm_scheme \<Rightarrow> 'a vm_scheme" where
  "deletePagetable pml4e_p s =
     fold (\<lambda>pml4e_i s. let pml4e_entry = entries s pml4e_p (of_nat pml4e_i) in
             if pml4e_entry AND P_BIT \<noteq> 0 then delete_pdpes (pml4e_entry AND FRAME_MASK) s else s)
       [0..<510] s"

section \<open>Walking a table tree\<close>

abbreviation tbl :: "u64 \<Rightarrow> u64" where
  "tbl e \<equiv> e AND FRAME_MASK"

abbreviation present :: "u64 \<Rightarrow> bool" where
  "present e \<equiv> e AND P_BIT \<noteq> 0"

text \<open>The table reached from \<open>t\<close> along a list of indices.\<close>

fun walk :: "(u64 \<Rightarrow> u64 \<Rightarrow> u64) \<Rightarrow> u64 \<Rightarrow> u64 list \<Rightarrow> u64 option" where
  "walk fr t [] = Some t"
| "walk fr t (i # is) = (if present (fr t i) then walk fr (tbl (fr t i)) is else None)"

text \<open>The indices of a virtual address in the three upper levels, and the entry of its page; a
  missing table reads as the entry 0.\<close>

definition vidx :: "u64 \<Rightarrow> u64 list" where
  "vidx v = [getIndex v 39, getIndex v 30, getIndex v 21]"

definition pt_lookup :: "(u64 \<Rightarrow> u64 \<Rightarrow> u64) \<Rightarrow> u64 \<Rightarrow> u64 \<Rightarrow> u64" where
  "pt_lookup fr root v = (case walk fr root (vidx v) of None \<Rightarrow> 0 | Some t \<Rightarrow> fr t (getIndex v 12))"

text \<open>
  \<^verbatim>\<open>kfree\<close> uses the low addresses of the tables as pointers, which go through the page tables of the current address
  space like any other address; \<open>None\<close> is a fault in the kernel.  A table pointer that stays \<^verbatim>\<open>NULL\<close> is the address 0.
\<close>

definition low_entry :: "u64 \<Rightarrow> u64 \<Rightarrow> 'a vm_scheme \<Rightarrow> u64 option" where
  "low_entry t i s =
     (let v = t + 8 * i; e = pt_lookup (frames s) (CR3 s) v
      in if present e then Some (frames s (tbl e) (drop_bit 3 (v AND 0xFFF))) else None)"

definition low_table :: "u64 \<Rightarrow> u64 \<Rightarrow> 'a vm_scheme \<Rightarrow> u64 option" where
  "low_table t i s = map_option (\<lambda>e. if e AND P_BIT \<noteq> 0 then e AND FRAME_MASK else 0) (low_entry t i s)"

definition kfree :: "u64 \<Rightarrow> 'a vm_scheme \<Rightarrow> 'a vm_scheme option" where
  "kfree virtual_address s = do {
     pdpe \<leftarrow> low_table (getCR3 s) (getIndex virtual_address 39) s;
     pde \<leftarrow> low_table pdpe (getIndex virtual_address 30) s;
     pte \<leftarrow> low_table pde (getIndex virtual_address 21) s;
     if pte \<noteq> 0
     then Option.bind (low_entry pte (getIndex virtual_address 12) s) (\<lambda>physical_address. deallocatePage physical_address s)
     else Some s
   }"

definition idx :: "u64 list \<Rightarrow> bool" where
  "idx xs \<longleftrightarrow> length xs \<le> 3 \<and> (\<forall>i\<in>set xs. i < 512)"

text \<open>The tables form a tree inside the set \<open>U\<close> of frames in use.\<close>

definition pt_tree :: "(u64 \<Rightarrow> u64 \<Rightarrow> u64) \<Rightarrow> u64 \<Rightarrow> u64 set \<Rightarrow> bool" where
  "pt_tree fr root U \<longleftrightarrow>
     (\<forall>xs a. idx xs \<longrightarrow> walk fr root xs = Some a \<longrightarrow> a \<in> U) \<and>
     (\<forall>xs ys a. idx xs \<longrightarrow> idx ys \<longrightarrow> walk fr root xs = Some a \<longrightarrow> walk fr root ys = Some a \<longrightarrow> xs = ys)"

lemma pt_treeD:
  assumes "pt_tree fr root U"
  shows "idx xs \<Longrightarrow> walk fr root xs = Some a \<Longrightarrow> a \<in> U"
    "idx xs \<Longrightarrow> idx ys \<Longrightarrow> walk fr root xs = Some a \<Longrightarrow> walk fr root ys = Some a \<Longrightarrow> xs = ys"
  using assms unfolding pt_tree_def by blast+

lemma pt_tree_mono: "pt_tree fr root U \<Longrightarrow> U \<subseteq> V \<Longrightarrow> pt_tree fr root V"
  unfolding pt_tree_def by blast

lemma walk_append: "walk fr t (xs @ ys) = Option.bind (walk fr t xs) (\<lambda>b. walk fr b ys)"
  by (induction xs arbitrary: t) auto

lemma walk_snoc:
  "walk fr t (xs @ [i]) = (case walk fr t xs of None \<Rightarrow> None
     | Some b \<Rightarrow> if present (fr b i) then Some (tbl (fr b i)) else None)"
  by (simp add: walk_append split: option.splits)

lemma idx_snoc: "idx (xs @ [i]) \<Longrightarrow> idx xs"
  by (auto simp: idx_def)

lemma getIndex_less: "getIndex v n < 512"
proof -
  have "getIndex v n = take_bit 9 (drop_bit n v)"
    by (simp add: getIndex_def take_bit_eq_mask mask_eq_exp_minus_1)
  then have "unat (getIndex v n) < 2 ^ 9" by (simp only: unsigned_take_bit_eq take_bit_nat_less_exp)
  then show ?thesis by (simp add: word_less_nat_alt)
qed

lemma idx_vidx: "idx (vidx v)" and length_vidx: "length (vidx v) = 3"
  by (simp_all add: idx_def vidx_def getIndex_less)

text \<open>A new zeroed table under a missing entry: only the paths through that entry change.\<close>

lemma walk_add_table:
  assumes tree: "pt_tree fr root U" and xs: "idx (xs @ [i])" "walk fr root xs = Some t"
    and new: "\<not> present (fr t i)" "a \<notin> U" "present e" "tbl e = a"
  defines "fr' \<equiv> (fr(a := (\<lambda>_. 0)))(t := (fr t)(i := e))"
  shows "idx ys \<Longrightarrow> walk fr' root ys =
    (if take (length xs + 1) ys = xs @ [i] then (if ys = xs @ [i] then Some a else None) else walk fr root ys)"
proof (induction ys rule: rev_induct)
  case Nil
  then show ?case by simp
next
  case (snoc j ys)
  note ix = idx_snoc [OF snoc.prems] and IH = snoc.IH [OF idx_snoc [OF snoc.prems]]
  have ta: "t \<noteq> a" using pt_treeD(1) [OF tree idx_snoc [OF xs(1)] xs(2)] new(2) by auto
  have fr': "fr' a k = 0" "fr' t k = (if k = i then e else fr t k)"
    "b \<noteq> a \<Longrightarrow> b \<noteq> t \<Longrightarrow> fr' b k = fr b k" for b k using ta by (simp_all add: fr'_def)
  show ?case
  proof (cases "take (length xs + 1) ys = xs @ [i]")
    case True
    then have l: "length xs + 1 \<le> length ys" by (metis length_append_singleton length_take min.absorb_iff2 Suc_eq_plus1)
    then have ne: "ys @ [j] \<noteq> xs @ [i]" by auto
    have "walk fr' root (ys @ [j]) = None"
      using IH True fr'(1) by (simp add: walk_snoc)
    then show ?thesis using True l ne by simp
  next
    case False
    then have w: "walk fr' root ys = walk fr root ys" using IH by simp
    have pre: "take (length xs + 1) (ys @ [j]) = xs @ [i] \<longleftrightarrow> ys = xs \<and> j = i"
      using False by (cases "length xs + 1 \<le> length ys") (auto dest: arg_cong [of _ _ length])
    show ?thesis
    proof (cases "walk fr root ys")
      case None
      then have "ys \<noteq> xs" using xs(2) by auto
      then show ?thesis using None w pre by (simp add: walk_snoc)
    next
      case (Some b)
      have ba: "b \<noteq> a" using pt_treeD(1) [OF tree ix Some] new(2) by auto
      show ?thesis
      proof (cases "b = t")
        case True
        then have "ys = xs" using pt_treeD(2) [OF tree ix idx_snoc [OF xs(1)]] Some xs(2) by simp
        then show ?thesis using True Some w pre new(3,4) fr'(2) by (auto simp: walk_snoc)
      next
        case False
        then have "ys \<noteq> xs" using Some xs(2) by auto
        then show ?thesis using False Some w pre fr'(3) [OF ba] by (auto simp: walk_snoc)
      qed
    qed
  qed
qed

lemma pt_tree_add_table:
  assumes tree: "pt_tree fr root U" and xs: "idx (xs @ [i])" "walk fr root xs = Some t"
    and new: "\<not> present (fr t i)" "a \<notin> U" "present e" "tbl e = a"
  defines "fr' \<equiv> (fr(a := (\<lambda>_. 0)))(t := (fr t)(i := e))"
  shows "pt_tree fr' root (insert a U)" "walk fr' root (xs @ [i]) = Some a"
    "pt_lookup fr' root = pt_lookup fr root"
    "\<And>ys. idx ys \<Longrightarrow> walk fr' root ys = None \<longleftrightarrow> walk fr root ys = None \<and> ys \<noteq> xs @ [i]"
    "\<And>ys b. idx ys \<Longrightarrow> walk fr' root ys = Some b \<Longrightarrow> walk fr root ys = Some b \<or> b = a"
proof -
  note W = walk_add_table [OF tree xs new, folded fr'_def]
  have pre: "walk fr root ys = None" if "take (length xs + 1) ys = xs @ [i]" for ys
  proof -
    have "walk fr root (xs @ [i]) = None" using xs(2) new(1) by (simp add: walk_snoc)
    then show ?thesis using that walk_append [of fr root "xs @ [i]" "drop (length xs + 1) ys"]
      by (metis append_take_drop_id bind_eq_None_conv)
  qed
  show "walk fr' root (xs @ [i]) = Some a" using W [OF xs(1)] by simp
  show "walk fr' root ys = None \<longleftrightarrow> walk fr root ys = None \<and> ys \<noteq> xs @ [i]" if "idx ys" for ys
    using W [OF that] pre [of ys] by auto
  have S: "walk fr' root ys = Some b \<Longrightarrow> ys = xs @ [i] \<and> b = a \<or> walk fr root ys = Some b \<and> b \<in> U" if "idx ys" for ys b
    using W [OF that] pt_treeD(1) [OF tree that] by (auto split: if_splits)
  then show "walk fr root ys = Some b \<or> b = a" if "idx ys" "walk fr' root ys = Some b" for ys b using that by blast
  show "pt_tree fr' root (insert a U)"
    unfolding pt_tree_def
  proof (intro conjI allI impI)
    fix ys b
    assume "idx ys" "walk fr' root ys = Some b"
    then show "b \<in> insert a U" using S by blast
  next
    fix ys zs b
    assume h: "idx ys" "idx zs" "walk fr' root ys = Some b" "walk fr' root zs = Some b"
    then show "ys = zs" using S [OF h(1,3)] S [OF h(2,4)] pt_treeD(2) [OF tree h(1,2)] new(2) by auto
  qed
  show "pt_lookup fr' root = pt_lookup fr root"
  proof
    fix v
    have lx: "vidx v \<noteq> xs" using xs(1) length_vidx [of v] by (auto simp: idx_def)
    have ta: "t \<in> U" using pt_treeD(1) [OF tree idx_snoc [OF xs(1)] xs(2)] .
    have other: "fr' b k = fr b k" if "walk fr root (vidx v) = Some b" for b k
    proof -
      have "b \<noteq> a" using pt_treeD(1) [OF tree idx_vidx that] new(2) by auto
      moreover have "b \<noteq> t"
        using pt_treeD(2) [OF tree idx_vidx idx_snoc [OF xs(1)] that] xs(2) lx by auto
      ultimately show ?thesis by (simp add: fr'_def)
    qed
    have "fr' a k = 0" for k using ta new(2) by (auto simp: fr'_def)
    then show "pt_lookup fr' root v = pt_lookup fr root v"
      using W [OF idx_vidx, of v] pre [of "vidx v"] other
      by (auto simp: pt_lookup_def split: option.splits if_splits)
  qed
qed

text \<open>Writing an entry of a last-level table.\<close>

lemma pt_tree_set_entry:
  fixes e i :: u64
  assumes tree: "pt_tree fr root U" and zs: "idx zs" "length zs = 3" and t: "walk fr root zs = Some t"
  defines "fr' \<equiv> fr(t := (fr t)(i := e))"
  shows "pt_tree fr' root U" "\<And>ys. idx ys \<Longrightarrow> walk fr' root ys = walk fr root ys"
    "pt_lookup fr' root v' = (if vidx v' = zs \<and> getIndex v' 12 = i then e else pt_lookup fr root v')"
proof -
  show W: "walk fr' root ys = walk fr root ys" if "idx ys" for ys
    using that
  proof (induction ys rule: rev_induct)
    case Nil
    show ?case by simp
  next
    case (snoc j ys)
    note ix = idx_snoc [OF snoc.prems]
    have "length ys < 3" using snoc.prems by (simp add: idx_def)
    then have "ys \<noteq> zs" using zs(2) by auto
    then have "fr' b = fr b" if "walk fr root ys = Some b" for b
      using pt_treeD(2) [OF tree ix zs(1) that] t by (auto simp: fr'_def)
    then show ?case using snoc.IH [OF ix] by (auto simp: walk_snoc split: option.splits)
  qed
  then show "pt_tree fr' root U" using tree unfolding pt_tree_def by metis
  show "pt_lookup fr' root v' = (if vidx v' = zs \<and> getIndex v' 12 = i then e else pt_lookup fr root v')"
  proof (cases "vidx v' = zs")
    case True
    then show ?thesis using t W [OF zs(1)] by (simp add: pt_lookup_def fr'_def)
  next
    case False
    then have "fr' b = fr b" if "walk fr root (vidx v') = Some b" for b
      using pt_treeD(2) [OF tree idx_vidx zs(1) that] t by (auto simp: fr'_def)
    then show ?thesis using False W [OF idx_vidx] by (auto simp: pt_lookup_def split: option.splits)
  qed
qed

lemmas pt_tree_set_pte = pt_tree_set_entry [OF _ idx_vidx length_vidx]

section \<open>Frames in use\<close>

definition used :: "'a palloc_scheme \<Rightarrow> u64 set" where
  "used s = (\<lambda>p. p * PAGE_SIZE) ` {p. p < lastPage s \<and> p \<notin> free_pages s}"

text \<open>A well-formed address space: the allocator's list is well-formed, the physical memory fits in
  the two-gigabyte window, and the tables under \<open>root\<close> form a tree of frames in use.\<close>

definition vm_inv :: "u64 \<Rightarrow> 'a vm_scheme \<Rightarrow> bool" where
  "vm_inv root s \<longleftrightarrow> pa_inv s \<and> lastPage s \<le> 2 ^ 19 \<and> pt_tree (frames s) root (used s)"

text \<open>What the page-table code may change of the state.\<close>

definition vm_frame :: "'a vm_scheme \<Rightarrow> 'a vm_scheme \<Rightarrow> bool" where
  "vm_frame s s' \<longleftrightarrow>
     s' = s\<lparr>pageMap := pageMap s', firstFreepage := firstFreepage s', frames := frames s'\<rparr>"

lemma vm_frame_refl [simp]: "vm_frame s s"
  by (simp add: vm_frame_def)

lemma vm_frame_trans [trans]: "vm_frame s t \<Longrightarrow> vm_frame t u \<Longrightarrow> vm_frame s u"
  by (cases s; cases t; cases u) (simp add: vm_frame_def)

lemma vm_frameD:
  assumes "vm_frame s s'"
  shows "CR3 s' = CR3 s" "pml4e s' = pml4e s" "cr3 s' = cr3 s" "lastPage s' = lastPage s"
    "vm.more s' = vm.more s"
  by (subst assms [unfolded vm_frame_def], simp)+

text \<open>The tables of an address space; growing it only adds fresh frames and only writes to tables.\<close>

definition tables :: "(u64 \<Rightarrow> u64 \<Rightarrow> u64) \<Rightarrow> u64 \<Rightarrow> u64 set" where
  "tables fr root = {a. \<exists>xs. idx xs \<and> walk fr root xs = Some a}"

definition vm_keeps :: "u64 \<Rightarrow> 'a vm_scheme \<Rightarrow> 'a vm_scheme \<Rightarrow> bool" where
  "vm_keeps root s s' \<longleftrightarrow> vm_frame s s' \<and> used s \<subseteq> used s' \<and>
     tables (frames s') root \<inter> used s \<subseteq> tables (frames s) root \<and>
     (\<forall>q \<in> used s - tables (frames s) root. frames s' q = frames s q)"

lemma vm_keeps_refl [simp]: "vm_keeps root s s"
  by (simp add: vm_keeps_def)

lemma vm_keepsD:
  assumes "vm_keeps root s s'"
  shows "vm_frame s s'" "q \<in> used s \<Longrightarrow> q \<in> used s'"
    "q \<in> tables (frames s') root \<Longrightarrow> q \<in> used s \<Longrightarrow> q \<in> tables (frames s) root"
    "q \<in> used s \<Longrightarrow> q \<notin> tables (frames s) root \<Longrightarrow> frames s' q = frames s q"
  using assms unfolding vm_keeps_def by auto

lemma vm_keeps_trans [trans]:
  assumes st: "vm_keeps root s t" and tu: "vm_keeps root t u"
  shows "vm_keeps root s u"
  unfolding vm_keeps_def
proof (intro conjI ballI subsetI)
  show "vm_frame s u" by (rule vm_frame_trans [OF vm_keepsD(1) [OF st] vm_keepsD(1) [OF tu]])
  show "q \<in> used u" if "q \<in> used s" for q using vm_keepsD(2) [OF tu] vm_keepsD(2) [OF st] that by blast
  have tab: "q \<in> tables (frames s) root" if "q \<in> tables (frames t) root" "q \<in> used s" for q
    by (rule vm_keepsD(3) [OF st that])
  show "q \<in> tables (frames s) root" if "q \<in> tables (frames u) root \<inter> used s" for q
    using tab vm_keepsD(3) [OF tu] vm_keepsD(2) [OF st] that by blast
  fix q
  assume q: "q \<in> used s - tables (frames s) root"
  then have "q \<notin> tables (frames t) root" using tab by blast
  then have "frames u q = frames t q" using vm_keepsD(4) [OF tu] vm_keepsD(2) [OF st] q by blast
  then show "frames u q = frames s q" using vm_keepsD(4) [OF st] q by simp
qed

lemma page_addr_small:
  fixes p :: u64
  assumes "p \<le> 2 ^ 19"
  shows "unat (p * PAGE_SIZE) = unat p * 4096"
proof -
  have "unat p \<le> 2 ^ 19" using assms by (simp add: word_le_nat_alt)
  then show ?thesis by (subst unat_mult_lem [THEN iffD1]) simp_all
qed

lemma used_addr:
  assumes "a \<in> used s" "lastPage s \<le> 2 ^ 19"
  shows "unat a < 2 ^ 31" "\<And>n. bit a n \<Longrightarrow> 12 \<le> n"
proof -
  obtain p where p: "a = p * PAGE_SIZE" "p < lastPage s" using assms(1) by (auto simp: used_def)
  have "p < 2 ^ 19" using p(2) assms(2) by (rule order.strict_trans2)
  then have "unat p < 2 ^ 19" "p \<le> 2 ^ 19" by (simp_all add: word_less_nat_alt word_le_nat_alt)
  then show "unat a < 2 ^ 31" using page_addr_small p(1) by simp
  show "\<And>n. bit a n \<Longrightarrow> 12 \<le> n" using p(1) page_bits by metis
qed

text \<open>Allocating a page moves one frame from the free set to the frames in use.\<close>

lemma allocatePage_used:
  assumes "pa_inv s" "lastPage s \<le> 2 ^ 19" "free_pages s \<noteq> {}" "allocatePage s = (a, s')"
  shows "pa_inv s'" "a \<notin> used s" "used s' = insert a (used s)" "card (free_pages s') + 1 = card (free_pages s)"
    "s' = s\<lparr>pageMap := pageMap s', firstFreepage := firstFreepage s'\<rparr>" "a = Min (free_pages s) * PAGE_SIZE"
    "lastPage s' = lastPage s" "free_pages s' \<subseteq> free_pages s"
proof -
  let ?p = "Min (free_pages s)"
  obtain t where t: "allocatePage s = (?p * PAGE_SIZE, t)" "pa_inv t" "free_pages t = free_pages s - {?p}"
    using kpages.alloc_some [OF assms(1,3)] by blast
  have st: "s' = t" "a = ?p * PAGE_SIZE" using t(1) assms(4) by simp_all
  have pf: "?p \<in> free_pages s" using assms(3) by (intro Min_in) simp_all
  then have pl: "?p < lastPage s" by (simp add: free_pages_def)
  show "pa_inv s'" "a = ?p * PAGE_SIZE" using st t(2) by simp_all
  show eq: "s' = s\<lparr>pageMap := pageMap s', firstFreepage := firstFreepage s'\<rparr>"
    using assms(4) by (auto simp: allocatePage_def unsetPage_def Let_def split: if_splits)
  show lp: "lastPage s' = lastPage s" by (subst eq) simp
  have inj: "q = ?p" if "q * PAGE_SIZE = ?p * PAGE_SIZE" "q < lastPage s" for q
    using page_addr_inj [of q ?p] that pl assms(2) kpages.pages_bound [OF assms(1)] by simp
  show "a \<notin> used s" using inj pf st(2) by (auto simp: used_def)
  show "used s' = insert a (used s)" using t(3) st pl lp by (auto simp: used_def)
  show "card (free_pages s') + 1 = card (free_pages s)"
    using t(3) st pf assms(3) by (simp add: card_Diff_singleton card_gt_0_iff)
  show "free_pages s' \<subseteq> free_pages s" using t(3) st by auto
qed

section \<open>One level of a mapping\<close>

text \<open>The two ways the code reaches a table: by its physical address with kernel entries
  (\<^verbatim>\<open>map_v_p\<close>), or through the window with user entries (\<^verbatim>\<open>map_v_p2\<close>).\<close>

definition variant :: "char \<Rightarrow> (u64 \<Rightarrow> u64) \<Rightarrow> u64 \<Rightarrow> bool" where
  "variant from c fl \<longleftrightarrow>
     (from = CHR ''P'' \<and> c = (\<lambda>a. a) \<and> fl = 3) \<or> (from = CHR ''V'' \<and> c = (\<lambda>a. a OR KERNBASE) \<and> fl = 7)"

definition table_step :: "char \<Rightarrow> (u64 \<Rightarrow> u64) \<Rightarrow> u64 \<Rightarrow> u64 \<Rightarrow> 'a vm_scheme \<Rightarrow> u64 \<times> 'a vm_scheme" where
  "table_step from c t i s =
     (if present (entries s t i) then (c (tbl (entries s t i)), s) else pdpeAlloc t i from s)"

lemma pdeAlloc_pdpeAlloc: "pdeAlloc = pdpeAlloc" "pteAlloc = pdpeAlloc"
  by (simp_all add: fun_eq_iff pdeAlloc_def pteAlloc_def pdpeAlloc_def)

lemma variant_phys: "variant from c fl \<Longrightarrow> unat a < 2 ^ 31 \<Longrightarrow> phys (c a) = a"
  by (auto simp: variant_def phys_or)

lemma pdpeAlloc_eq:
  assumes "variant from c fl" "unat t < 2 ^ 31" "allocatePage s = (a, s1)" "unat a < 2 ^ 31" "t \<noteq> a"
  shows "pdpeAlloc (c t) i from s =
    (c a, s1\<lparr>frames := ((frames s1)(a := (\<lambda>_. 0)))(t := (frames s1 t)(i := a OR fl))\<rparr>)"
proof -
  have ph: "phys (c t) = t" "phys (c a) = a" using variant_phys [OF assms(1)] assms(2,4) by simp_all
  have fl: "(if from = CHR ''V'' then a OR U_BIT else a) OR (P_BIT OR W_BIT) = a OR fl"
    "(if from = CHR ''V'' then a OR KERNBASE else a) = c a"
    using assms(1) by (auto simp: variant_def or.assoc)
  show ?thesis
    unfolding pdpeAlloc_def assms(3) Let_def prod.case fl zero_page_def set_entry_def ph using assms(5) by simp
qed

lemma vm_invD:
  assumes "vm_inv root s"
  shows "pa_inv s" "lastPage s \<le> 2 ^ 19" "pt_tree (frames s) root (used s)"
  using assms by (simp_all add: vm_inv_def)

lemma present_or: "variant from c fl \<Longrightarrow> present (a OR fl)"
proof -
  assume "variant from c fl"
  then have "bit fl 0" by (auto simp: variant_def)
  then have b: "bit ((a OR fl) AND 1) 0" by (simp add: bit_simps)
  show ?thesis
  proof
    assume "(a OR fl) AND 1 = 0"
    then have "bit (0 :: u64) 0" using b by metis
    then show False by simp
  qed
qed

text \<open>One level: the table exists afterwards, and nothing else of the address space changes.\<close>

lemma table_step_ok:
  assumes var: "variant from c fl" and inv: "vm_inv root s"
    and xs: "idx (xs @ [i])" "walk (frames s) root xs = Some t"
    and room: "walk (frames s) root (xs @ [i]) = None \<Longrightarrow> free_pages s \<noteq> {}"
  obtains b s' where "table_step from c (c t) i s = (c b, s')" "vm_inv root s'"
    "walk (frames s') root (xs @ [i]) = Some b" "pt_lookup (frames s') root = pt_lookup (frames s) root"
    "\<And>ys. idx ys \<Longrightarrow> walk (frames s') root ys = None \<longleftrightarrow> walk (frames s) root ys = None \<and> ys \<noteq> xs @ [i]"
    "card (free_pages s') + (if walk (frames s) root (xs @ [i]) = None then 1 else 0) = card (free_pages s)"
    "vm_keeps root s s'"
proof -
  note I = vm_invD [OF inv]
  have tU: "t \<in> used s" by (rule pt_treeD(1) [OF I(3) idx_snoc [OF xs(1)] xs(2)])
  note t31 = used_addr(1) [OF tU I(2)]
  have ent: "entries s (c t) i = frames s t i" using variant_phys [OF var t31] by (simp add: entries_def)
  show thesis
  proof (cases "present (frames s t i)")
    case True
    then have st: "table_step from c (c t) i s = (c (tbl (frames s t i)), s)" by (simp add: table_step_def ent)
    have w: "walk (frames s) root (xs @ [i]) = Some (tbl (frames s t i))" using xs(2) True by (simp add: walk_snoc)
    have "walk (frames s) root ys = None \<longleftrightarrow> walk (frames s) root ys = None \<and> ys \<noteq> xs @ [i]" for ys
      using w by auto
    then show thesis using st w inv by (intro that [of "tbl (frames s t i)" s]) simp_all
  next
    case False
    then have w: "walk (frames s) root (xs @ [i]) = None" using xs(2) by (simp add: walk_snoc)
    obtain a s1 where a: "allocatePage s = (a, s1)" by force
    note A = allocatePage_used [OF I(1,2) room [OF w] a]
    have aU: "a \<in> used s1" using A(3) by simp
    have l1: "lastPage s1 \<le> 2 ^ 19" using A(7) I(2) by simp
    note a31 = used_addr(1) [OF aU l1]
    have ta: "t \<noteq> a" using tU A(2) by auto
    have fr1: "frames s1 = frames s" by (subst A(5)) simp
    let ?f = "((frames s)(a := (\<lambda>_. 0)))(t := (frames s t)(i := a OR fl))"
    let ?s = "s1\<lparr>frames := ?f\<rparr>"
    have st: "table_step from c (c t) i s = (c a, ?s)"
      using False pdpeAlloc_eq [OF var t31 a a31 ta, of i] fr1 by (simp add: table_step_def ent)
    have fl: "unat fl < 2 ^ 12" using var by (auto simp: variant_def)
    note T = pt_tree_add_table [OF I(3) xs False A(2) present_or [OF var]
        frame_mask_or [OF used_addr(2) [OF aU l1] fl]]
    have us: "used ?s = insert a (used s)" "free_pages ?s = free_pages s1"
      using A(3) by (simp_all add: used_def free_pages_def)
    have "vm_inv root ?s" using T(1) A(1) l1 us(1) by (simp add: vm_inv_def pa_inv_def)
    moreover have "card (free_pages ?s) + 1 = card (free_pages s)" using A(4) us(2) by simp
    moreover have "vm_keeps root s ?s"
      unfolding vm_keeps_def
    proof (intro conjI ballI)
      show "vm_frame s ?s" unfolding vm_frame_def by (subst A(5)) simp
      show "used s \<subseteq> used ?s" using us(1) by auto
      show "tables (frames ?s) root \<inter> used s \<subseteq> tables (frames s) root"
        using T(5) A(2) unfolding tables_def by fastforce
      have "t \<in> tables (frames s) root" using xs(2) idx_snoc [OF xs(1)] unfolding tables_def by blast
      then show "frames ?s q = frames s q" if "q \<in> used s - tables (frames s) root" for q using that A(2) by auto
    qed
    ultimately show thesis using that [of a ?s] st T(2-4) w by simp
  qed
qed

section \<open>Mapping a page\<close>

text \<open>The paths of the three tables a virtual address needs, and those that do not exist yet for a set
  of addresses: as many pages are taken from the allocator.\<close>

definition paths :: "u64 \<Rightarrow> u64 list list" where
  "paths v = [take 1 (vidx v), take 2 (vidx v), vidx v]"

definition missing :: "(u64 \<Rightarrow> u64 \<Rightarrow> u64) \<Rightarrow> u64 \<Rightarrow> u64 set \<Rightarrow> u64 list set" where
  "missing fr root V = {xs \<in> (\<Union>v\<in>V. set (paths v)). walk fr root xs = None}"

definition vpage :: "u64 \<Rightarrow> u64" where
  "vpage v = drop_bit 12 (take_bit 48 v)"

definition map_with :: "char \<Rightarrow> (u64 \<Rightarrow> u64) \<Rightarrow> u64 \<Rightarrow> u64 \<Rightarrow> u64 \<Rightarrow> u64 \<Rightarrow> 'a vm_scheme \<Rightarrow> 'a vm_scheme" where
  "map_with from c fl root v p s =
     (let (t3, s) = table_step from c (c root) (getIndex v 39) s;
          (t2, s) = table_step from c t3 (getIndex v 30) s;
          (t1, s) = table_step from c t2 (getIndex v 21) s
      in set_entry t1 (getIndex v 12) (p OR fl) s)"

lemma flag_bits: "P_BIT OR W_BIT = 3" "P_BIT OR U_BIT OR W_BIT = 7"
  by simp_all

lemma map_v_p_with: "map_v_p v p s = map_with CHR ''P'' (\<lambda>a. a) 3 (pml4e s) v p s"
  unfolding map_v_p_def map_with_def table_step_def Let_def pdeAlloc_pdpeAlloc flag_bits ..

lemma map_v_p2_with: "map_v_p2 v p s = map_with CHR ''V'' (\<lambda>a. a OR KERNBASE) 7 (CR3 s) v p s"
  unfolding map_v_p2_def map_with_def table_step_def Let_def pdeAlloc_pdpeAlloc flag_bits getCR3_def
    or.commute [of KERNBASE] ..

lemma bit_getIndex: "bit (getIndex v k) n \<longleftrightarrow> n < 9 \<and> bit v (k + n)"
proof -
  have "getIndex v k = take_bit 9 (drop_bit k v)"
    by (simp add: getIndex_def take_bit_eq_mask mask_eq_exp_minus_1)
  then show ?thesis by (auto simp: bit_simps)
qed

lemma vpage_eq_iff: "vpage v' = vpage v \<longleftrightarrow> vidx v' = vidx v \<and> getIndex v' 12 = getIndex v 12"
proof
  assume e: "vpage v' = vpage v"
  have b: "bit v' n = bit v n" if "12 \<le> n" "n < 48" for n
  proof -
    have "bit (vpage w) (n - 12) = bit w n" for w using that by (simp add: vpage_def bit_simps)
    then show ?thesis using e by metis
  qed
  have "getIndex v' k = getIndex v k" if "12 \<le> k" "k \<le> 39" for k
    using b that by (intro bit_eqI) (auto simp: bit_getIndex)
  then show "vidx v' = vidx v \<and> getIndex v' 12 = getIndex v 12" by (simp add: vidx_def)
next
  assume "vidx v' = vidx v \<and> getIndex v' 12 = getIndex v 12"
  then have e: "getIndex v' k = getIndex v k" if "k \<in> {12, 21, 30, 39}" for k using that by (auto simp: vidx_def)
  have b: "bit v' (k + n) = bit v (k + n)" if "k \<in> {12, 21, 30, 39}" "n < 9" for k n
    using bit_getIndex [of v' k n] bit_getIndex [of v k n] e [OF that(1)] that(2) by simp
  show "vpage v' = vpage v"
  proof (rule bit_eqI)
    fix n
    show "bit (vpage v') n \<longleftrightarrow> bit (vpage v) n"
    proof (cases "n < 36")
      case False
      then show ?thesis by (simp add: vpage_def bit_simps)
    next
      case True
      then consider "n < 9" | "9 \<le> n" "n < 18" | "18 \<le> n" "n < 27" | "27 \<le> n" "n < 36" by linarith
      then have "bit v' (12 + n) = bit v (12 + n)"
        by cases (use b [of 12 n] b [of 21 "n - 9"] b [of 30 "n - 18"] b [of 39 "n - 27"] in simp_all)
      then show ?thesis by (simp add: vpage_def bit_simps)
    qed
  qed
qed

lemma missing_single: "missing fr root {v} = set (filter (\<lambda>xs. walk fr root xs = None) (paths v))"
  by (auto simp: missing_def)

lemma card_missing_single:
  "card (missing fr root {v}) =
     (if walk fr root (take 1 (vidx v)) = None then 1 else 0) +
     (if walk fr root (take 2 (vidx v)) = None then 1 else 0) +
     (if walk fr root (vidx v) = None then 1 else 0)"
proof -
  have "distinct (paths v)" by (simp add: paths_def vidx_def numeral_2_eq_2)
  then have "card (missing fr root {v}) = length (filter (\<lambda>xs. walk fr root xs = None) (paths v))"
    unfolding missing_single by (intro distinct_card) simp
  then show ?thesis by (simp add: paths_def)
qed

text \<open>The effect of one level on the address space.\<close>

definition adds_table :: "u64 \<Rightarrow> u64 list \<Rightarrow> 'a vm_scheme \<Rightarrow> 'a vm_scheme \<Rightarrow> bool" where
  "adds_table root zs s s' \<longleftrightarrow> vm_inv root s' \<and> walk (frames s') root zs \<noteq> None \<and>
     pt_lookup (frames s') root = pt_lookup (frames s) root \<and>
     (\<forall>ys. idx ys \<longrightarrow> walk (frames s') root ys = None \<longleftrightarrow> walk (frames s) root ys = None \<and> ys \<noteq> zs) \<and>
     card (free_pages s') + (if walk (frames s) root zs = None then 1 else 0) = card (free_pages s) \<and>
     vm_keeps root s s'"

lemma adds_tableD:
  assumes "adds_table root zs s s'"
  shows "vm_inv root s'" "pt_lookup (frames s') root = pt_lookup (frames s) root"
    "idx ys \<Longrightarrow> walk (frames s') root ys = None \<longleftrightarrow> walk (frames s) root ys = None \<and> ys \<noteq> zs"
    "card (free_pages s') + (if walk (frames s) root zs = None then 1 else 0) = card (free_pages s)"
    "vm_keeps root s s'"
  using assms unfolding adds_table_def by blast+

lemma table_step_adds:
  assumes var: "variant from c fl" and inv: "vm_inv root s"
    and xs: "idx zs" "zs = xs @ [i]" "walk (frames s) root xs = Some t"
    and room: "walk (frames s) root zs = None \<Longrightarrow> free_pages s \<noteq> {}"
  obtains b s' where "table_step from c (c t) i s = (c b, s')" "adds_table root zs s s'"
    "walk (frames s') root zs = Some b"
proof (rule table_step_ok [OF var inv _ xs(3), of i])
  show "idx (xs @ [i])" "walk (frames s) root (xs @ [i]) = None \<Longrightarrow> free_pages s \<noteq> {}"
    using xs(1,2) room by simp_all
qed (rule that, simp_all add: adds_table_def xs(2))

lemma map_with_ok:
  fixes p :: u64
  assumes var: "variant from c fl" and inv: "vm_inv root s"
    and room: "card (missing (frames s) root {v}) \<le> card (free_pages s)"
  defines "s' \<equiv> map_with from c fl root v p s"
  shows "vm_inv root s'"
    "pt_lookup (frames s') root v' = (if vpage v' = vpage v then p OR fl else pt_lookup (frames s) root v')"
    "\<And>ys. idx ys \<Longrightarrow> walk (frames s') root ys = None \<longleftrightarrow> walk (frames s) root ys = None \<and> ys \<notin> set (paths v)"
    "card (free_pages s') + card (missing (frames s) root {v}) = card (free_pages s)"
    "vm_keeps root s s'"
proof -
  let ?i4 = "getIndex v 39" and ?i3 = "getIndex v 30" and ?i2 = "getIndex v 21"
  have ix: "idx [?i4]" "idx [?i4, ?i3]" "idx [?i4, ?i3, ?i2]" by (simp_all add: idx_def getIndex_less)
  have pv: "take 1 (vidx v) = [?i4]" "take 2 (vidx v) = [?i4, ?i3]" "vidx v = [?i4, ?i3, ?i2]"
    by (simp_all add: vidx_def)
  have r0: "walk (frames s) root [?i4] = None \<Longrightarrow> free_pages s \<noteq> {}"
    using room by (auto simp: card_missing_single pv split: if_splits)
  obtain t3 s1 where 1: "table_step from c (c root) ?i4 s = (c t3, s1)" "adds_table root [?i4] s s1"
    "walk (frames s1) root [?i4] = Some t3"
    by (rule table_step_adds [OF var inv ix(1), of "[]" ?i4 root, OF _ _ r0]) simp_all
  note A1 = adds_tableD [OF 1(2)]
  have n2: "walk (frames s1) root [?i4, ?i3] = None \<longleftrightarrow> walk (frames s) root [?i4, ?i3] = None"
    using A1(3) [OF ix(2)] by simp
  have r1: "walk (frames s1) root [?i4, ?i3] = None \<Longrightarrow> free_pages s1 \<noteq> {}"
    using n2 room A1(4) by (auto simp: card_missing_single pv split: if_splits)
  obtain t2 s2 where 2: "table_step from c (c t3) ?i3 s1 = (c t2, s2)" "adds_table root [?i4, ?i3] s1 s2"
    "walk (frames s2) root [?i4, ?i3] = Some t2"
    by (rule table_step_adds [OF var A1(1) ix(2), of "[?i4]" ?i3 t3, OF _ 1(3) r1]) simp_all
  note A2 = adds_tableD [OF 2(2)]
  have n3: "walk (frames s2) root [?i4, ?i3, ?i2] = None \<longleftrightarrow> walk (frames s) root [?i4, ?i3, ?i2] = None"
    using A2(3) [OF ix(3)] A1(3) [OF ix(3)] by simp
  have r2: "walk (frames s2) root [?i4, ?i3, ?i2] = None \<Longrightarrow> free_pages s2 \<noteq> {}"
    using n2 n3 room A1(4) A2(4) by (auto simp: card_missing_single pv split: if_splits)
  obtain t1 s3 where 3: "table_step from c (c t2) ?i2 s2 = (c t1, s3)" "adds_table root [?i4, ?i3, ?i2] s2 s3"
    "walk (frames s3) root [?i4, ?i3, ?i2] = Some t1"
    by (rule table_step_adds [OF var A2(1) ix(3), of "[?i4, ?i3]" ?i2 t2, OF _ 2(3) r2]) simp_all
  note A3 = adds_tableD [OF 3(2)]
  note I3 = vm_invD [OF A3(1)]
  have w3: "walk (frames s3) root (vidx v) = Some t1" using 3(3) pv(3) by simp
  have "unat t1 < 2 ^ 31" by (rule used_addr(1) [OF pt_treeD(1) [OF I3(3) idx_vidx w3] I3(2)])
  then have ph: "phys (c t1) = t1" by (rule variant_phys [OF var])
  have s': "s' = s3\<lparr>frames := (frames s3)(t1 := (frames s3 t1)(getIndex v 12 := p OR fl))\<rparr>"
    unfolding s'_def map_with_def Let_def 1(1) 2(1) 3(1) prod.case set_entry_def ph ..
  note T = pt_tree_set_pte [OF I3(3) w3, where e = "p OR fl" and i = "getIndex v 12"]
  have us: "used s' = used s3" "free_pages s' = free_pages s3" by (simp_all add: s' used_def free_pages_def)
  show "vm_inv root s'" using T(1) I3 us unfolding vm_inv_def s' by (simp add: pa_inv_def)
  show "pt_lookup (frames s') root v' = (if vpage v' = vpage v then p OR fl else pt_lookup (frames s) root v')"
    using T(3) [of v'] A1(2) A2(2) A3(2) by (simp add: s' vpage_eq_iff)
  show "walk (frames s') root ys = None \<longleftrightarrow> walk (frames s) root ys = None \<and> ys \<notin> set (paths v)" if "idx ys" for ys
    using T(2) [OF that] A1(3) [OF that] A2(3) [OF that] A3(3) [OF that] by (auto simp: s' paths_def pv)
  show "card (free_pages s') + card (missing (frames s) root {v}) = card (free_pages s)"
    using us(2) A1(4) A2(4) A3(4) n2 n3 by (simp add: card_missing_single pv)
  have tb: "tables (frames s') root = tables (frames s3) root"
    using T(2) by (auto simp: s' tables_def)
  have "t1 \<in> tables (frames s3) root" using w3 idx_vidx unfolding tables_def by blast
  then have "vm_keeps root s3 s'" using us(1) tb by (auto simp: s' vm_keeps_def vm_frame_def)
  then show "vm_keeps root s s'" using A1(5) A2(5) A3(5) by (blast intro: vm_keeps_trans)
qed

section \<open>The interface of an address space\<close>

text \<open>Mapping a page changes the entry of that page and no other, and takes one page from the
  allocator for every table that does not exist yet.\<close>

definition map_pages :: "(u64 \<Rightarrow> u64 \<Rightarrow> 's \<Rightarrow> 's) \<Rightarrow> (u64 \<times> u64) list \<Rightarrow> 's \<Rightarrow> 's" where
  "map_pages mp vps = fold (\<lambda>(v, p). mp v p) vps"

locale vm_mapping =
  fixes inv :: "'s \<Rightarrow> bool"
    and look :: "'s \<Rightarrow> u64 \<Rightarrow> u64"
    and need :: "'s \<Rightarrow> u64 set \<Rightarrow> u64 list set"
    and room :: "'s \<Rightarrow> nat"
    and mp :: "u64 \<Rightarrow> u64 \<Rightarrow> 's \<Rightarrow> 's"
    and fl :: u64
  assumes map_inv: "inv s \<Longrightarrow> card (need s {v}) \<le> room s \<Longrightarrow> inv (mp v p s)"
    and map_look: "inv s \<Longrightarrow> card (need s {v}) \<le> room s \<Longrightarrow>
      look (mp v p s) v' = (if vpage v' = vpage v then p OR fl else look s v')"
    and map_need: "inv s \<Longrightarrow> card (need s {v}) \<le> room s \<Longrightarrow> need (mp v p s) V = need s V - need s {v}"
    and map_room: "inv s \<Longrightarrow> card (need s {v}) \<le> room s \<Longrightarrow> room (mp v p s) + card (need s {v}) = room s"
    and need_empty: "need s {} = {}"
    and need_insert: "need s (insert v V) = need s {v} \<union> need s V"
    and need_single: "finite (need s {v})"
begin

lemma need_finite: "finite V \<Longrightarrow> finite (need s V)"
proof (induction V rule: finite_induct)
  case empty
  show ?case by (simp add: need_empty)
next
  case (insert v V)
  then show ?case by (subst need_insert) (simp add: need_single)
qed

text \<open>A sequence of mappings: the last one of a page wins, and the pages taken are the tables
  that the whole set of addresses lacks.\<close>

lemma map_pages_all:
  assumes "inv s" "card (need s (fst ` set vps)) \<le> room s"
  shows "inv (map_pages mp vps s) \<and> (\<forall>v'. look (map_pages mp vps s) v' =
       (case map_of (rev (map (\<lambda>(v, p). (vpage v, p OR fl)) vps)) (vpage v') of None \<Rightarrow> look s v' | Some e \<Rightarrow> e)) \<and>
     room (map_pages mp vps s) + card (need s (fst ` set vps)) = room s"
  using assms
proof (induction vps arbitrary: s)
  case Nil
  then show ?case by (simp add: map_pages_def need_empty)
next
  case (Cons vp vps)
  obtain v p where vp: "vp = (v, p)" by force
  let ?W = "fst ` set vps" and ?s = "mp v p s"
  have V: "need s (fst ` set (vp # vps)) = need s {v} \<union> need s ?W" using vp need_insert [of s v ?W] by simp
  have fin: "finite (need s {v})" "finite (need s ?W)" by (simp_all add: need_single need_finite)
  have c: "card (need s {v} \<union> need s ?W) = card (need s {v}) + card (need s ?W - need s {v})"
    using fin card_Un_disjoint [of "need s {v}" "need s ?W - need s {v}"] by (simp add: Un_Diff_cancel)
  then have le: "card (need s {v}) \<le> room s" using Cons.prems(2) V by simp
  note M = map_inv [OF Cons.prems(1) le, of p] map_look [OF Cons.prems(1) le, of p]
    map_need [OF Cons.prems(1) le, of p ?W] map_room [OF Cons.prems(1) le, of p]
  have "card (need ?s ?W) \<le> room ?s" using M(3,4) c Cons.prems(2) V by simp
  note IH = Cons.IH [OF M(1) this]
  have "map_pages mp (vp # vps) s = map_pages mp vps ?s" by (simp add: map_pages_def vp)
  then show ?case using IH M c V vp by (auto split: option.splits)
qed

lemmas map_pages_inv = map_pages_all [THEN conjunct1]
  and map_pages_look = map_pages_all [THEN conjunct2, THEN conjunct1, rule_format]
  and map_pages_room = map_pages_all [THEN conjunct2, THEN conjunct2]

end

lemma missing_laws:
  "missing fr root {} = {}" "missing fr root (insert v V) = missing fr root {v} \<union> missing fr root V"
  "finite (missing fr root {v})"
  by (auto simp: missing_def)

lemma paths_idx: "xs \<in> set (paths v) \<Longrightarrow> idx xs"
  using idx_vidx [of v] by (auto simp: paths_def idx_def dest: in_set_takeD)

lemma missing_step:
  assumes "\<And>ys. idx ys \<Longrightarrow> walk fr' root ys = None \<longleftrightarrow> walk fr root ys = None \<and> ys \<notin> set (paths v)"
  shows "missing fr' root V = missing fr root V - missing fr root {v}"
  using assms paths_idx unfolding missing_def by blast

lemma variants: "variant CHR ''P'' (\<lambda>a. a) 3" "variant CHR ''V'' (\<lambda>a. a OR KERNBASE) 7"
  by (simp_all add: variant_def)

lemmas map_v_p_ok = map_with_ok [OF variants(1), of "pml4e s" s for s, folded map_v_p_with]
  and map_v_p2_ok = map_with_ok [OF variants(2), of "CR3 s" s for s, folded map_v_p2_with]

lemma map_v_p_frame:
  assumes "vm_inv (pml4e s) s" "card (missing (frames s) (pml4e s) {v}) \<le> card (free_pages s)"
  shows "pml4e (map_v_p v p s) = pml4e s"
  using vm_keepsD(1) [OF map_v_p_ok(5) [OF assms]] by (rule vm_frameD)

lemma map_v_p2_frame:
  assumes "vm_inv (CR3 s) s" "card (missing (frames s) (CR3 s) {v}) \<le> card (free_pages s)"
  shows "CR3 (map_v_p2 v p s) = CR3 s"
  using vm_keepsD(1) [OF map_v_p2_ok(5) [OF assms]] by (rule vm_frameD)

text \<open>Both mapping functions of the kernel implement the interface.\<close>

interpretation kmap: vm_mapping "\<lambda>s. vm_inv (pml4e s) s" "\<lambda>s. pt_lookup (frames s) (pml4e s)"
  "\<lambda>s. missing (frames s) (pml4e s)" "\<lambda>s. card (free_pages s)" map_v_p 3
proof (unfold_locales, goal_cases)
  case (1 s v p)
  then show ?case using map_v_p_ok(1) [OF 1] map_v_p_frame [OF 1] by simp
next
  case (2 s v p v')
  then show ?case using map_v_p_ok(2) [OF 2] map_v_p_frame [OF 2] by simp
next
  case (3 s v p V)
  then show ?case unfolding map_v_p_frame [OF 3] by (intro missing_step map_v_p_ok(3) [OF 3])
next
  case (4 s v p)
  then show ?case by (rule map_v_p_ok(4))
next
  case (5 s)
  show ?case by (rule missing_laws)
next
  case (6 s v V)
  show ?case by (rule missing_laws)
next
  case (7 s v)
  show ?case by (rule missing_laws)
qed

interpretation umap: vm_mapping "\<lambda>s. vm_inv (CR3 s) s" "\<lambda>s. pt_lookup (frames s) (CR3 s)"
  "\<lambda>s. missing (frames s) (CR3 s)" "\<lambda>s. card (free_pages s)" map_v_p2 7
proof (unfold_locales, goal_cases)
  case (1 s v p)
  then show ?case using map_v_p2_ok(1) [OF 1] map_v_p2_frame [OF 1] by simp
next
  case (2 s v p v')
  then show ?case using map_v_p2_ok(2) [OF 2] map_v_p2_frame [OF 2] by simp
next
  case (3 s v p V)
  then show ?case unfolding map_v_p2_frame [OF 3] by (intro missing_step map_v_p2_ok(3) [OF 3])
next
  case (4 s v p)
  then show ?case by (rule map_v_p2_ok(4))
next
  case (5 s)
  show ?case by (rule missing_laws)
next
  case (6 s v V)
  show ?case by (rule missing_laws)
next
  case (7 s v)
  show ?case by (rule missing_laws)
qed

section \<open>The higher-half window\<close>

abbreviation page_at :: "nat \<Rightarrow> u64" where
  "page_at k \<equiv> of_nat (k * 4096)"

text \<open>The mappings that \<^verbatim>\<open>phy2vir\<close> makes, in order.\<close>

definition window_pages :: "u64 \<Rightarrow> (u64 \<times> u64) list" where
  "window_pages limit = map (\<lambda>k. (KERNBASE + page_at k, page_at k)) [0..<unat limit div 4096 + 1]"

lemma phy2vir_loop_eq:
  fixes s :: "'a vm_scheme"
  assumes "unat limit < 2 ^ 31" "k \<le> unat limit div 4096 + 1"
  shows "phy2vir_loop (KERNBASE + page_at k) (page_at k) limit s =
    Some (map_pages map_v_p (map (\<lambda>k. (KERNBASE + page_at k, page_at k)) [k..<unat limit div 4096 + 1]) s)"
  using assms(2)
proof (induction "unat limit div 4096 + 1 - k" arbitrary: k s)
  case 0
  then have "k = unat limit div 4096 + 1" by simp
  moreover from this have "unat limit < k * 4096" by simp
  then have "\<not> page_at k \<le> limit" using assms(1) \<open>k = _\<close> unfolding word_le_nat_alt
    by (subst unat_of_nat_eq) simp_all
  ultimately show ?case by (subst phy2vir_loop.simps) (simp add: map_pages_def)
next
  case (Suc n)
  then have k: "k \<le> unat limit div 4096" by simp
  then have "k * 4096 \<le> unat limit" using div_times_less_eq_dividend [of "unat limit" 4096]
    by (meson mult_le_mono1 order.trans)
  then have "page_at k \<le> limit" using assms(1) unfolding word_le_nat_alt
    by (subst unat_of_nat_eq) simp_all
  moreover have "[k..<unat limit div 4096 + 1] = k # [Suc k..<unat limit div 4096 + 1]"
    using k by (simp add: upt_conv_Cons)
  moreover have "phy2vir_loop (KERNBASE + page_at (Suc k)) (page_at (Suc k)) limit t =
      Some (map_pages map_v_p (map (\<lambda>k. (KERNBASE + page_at k, page_at k)) [Suc k..<unat limit div 4096 + 1]) t)"
    for t :: "'a vm_scheme"
    by (rule Suc.hyps(1)) (use Suc.hyps(2) k in simp_all)
  moreover have "page_at k + 0x1000 = page_at (Suc k)" "KERNBASE + page_at k + 0x1000 = KERNBASE + page_at (Suc k)"
    by (simp_all only: mult_Suc of_nat_add of_nat_numeral ac_simps)
  ultimately show ?case by (subst phy2vir_loop.simps) (simp only: if_True list.map map_pages_def fold_Cons prod.case o_apply)
qed

lemma bit_window:
  assumes "unat a < 2 ^ 31"
  shows "bit (a OR KERNBASE) n \<longleftrightarrow> bit a n \<or> 31 \<le> n \<and> n < 64"
  unfolding KERNBASE_eq by (auto simp: bit_simps dest: low_bits [OF assms])

lemma bit_vpage: "bit (vpage w) n \<longleftrightarrow> n < 36 \<and> bit w (12 + n)"
  by (auto simp: vpage_def bit_simps)

lemma vpage_window:
  assumes a: "unat a < 2 ^ 31" and b: "unat b < 2 ^ 31"
  shows "vpage (a OR KERNBASE) = vpage (b OR KERNBASE) \<longleftrightarrow> a AND FRAME_MASK = b AND FRAME_MASK"
proof
  assume e: "vpage (a OR KERNBASE) = vpage (b OR KERNBASE)"
  have "bit a n = bit b n" if "12 \<le> n" "n < 31" for n
  proof -
    have "bit (vpage w) (n - 12) = bit w n" for w using that by (simp add: vpage_def bit_simps)
    then have "bit (a OR KERNBASE) n = bit (b OR KERNBASE) n" using e by metis
    then show ?thesis using that unfolding bit_window [OF a] bit_window [OF b] by simp
  qed
  then have "bit a n = bit b n" if "12 \<le> n" for n
    using that low_bits [OF a, of n] low_bits [OF b, of n] by blast
  then show "a AND FRAME_MASK = b AND FRAME_MASK"
    unfolding FRAME_MASK_eq by (intro bit_eqI) (auto simp: bit_simps)
next
  assume "a AND FRAME_MASK = b AND FRAME_MASK"
  then have e: "bit (a AND NOT (mask 12)) n = bit (b AND NOT (mask 12)) n" for n by (simp only: FRAME_MASK_eq)
  have "bit a n = bit b n" if "12 \<le> n" "n < 64" for n using e [of n] that by (simp add: bit_simps)
  then have "bit (a OR KERNBASE) n = bit (b OR KERNBASE) n" if "12 \<le> n" for n
    using that low_bits [OF a, of n] low_bits [OF b, of n] unfolding bit_window [OF a] bit_window [OF b]
    by (cases "n < 64") auto
  then show "vpage (a OR KERNBASE) = vpage (b OR KERNBASE)"
    by (intro bit_eqI) (simp only: bit_vpage le_add1)
qed

lemma frame_of_page:
  assumes "unat a < 2 ^ 31"
  shows "a AND FRAME_MASK = page_at (unat a div 4096)"
proof -
  have "a AND FRAME_MASK = push_bit 12 (drop_bit 12 a)"
    unfolding FRAME_MASK_eq by (rule bit_eqI) (auto simp: bit_simps)
  also have "\<dots> = of_nat (unat (push_bit 12 (drop_bit 12 a)))" by simp
  also have "unat (push_bit 12 (drop_bit 12 a)) = unat a div 4096 * 4096"
  proof -
    have p: "push_bit 12 (drop_bit 12 a) = a div 4096 * PAGE_SIZE" by (simp add: push_bit_eq_mult drop_bit_eq_div)
    have "unat (a div 4096) \<le> 2 ^ 19" using assms by (simp add: unat_div)
    then have "a div 4096 \<le> 2 ^ 19" by (simp add: word_le_nat_alt)
    then show ?thesis using page_addr_small [of "a div 4096"] unfolding p by (simp add: unat_div)
  qed
  finally show ?thesis .
qed

lemma window_page:
  assumes "k < 2 ^ 19"
  shows "unat (page_at k) = k * 4096" "unat (page_at k) < 2 ^ 31" "KERNBASE + page_at k = page_at k OR KERNBASE"
    "page_at k AND FRAME_MASK = page_at k"
proof -
  show u: "unat (page_at k) = k * 4096" using assms by (intro unat_of_nat_eq) simp
  then show l: "unat (page_at k) < 2 ^ 31" using assms by simp
  show "KERNBASE + page_at k = page_at k OR KERNBASE" using kernbase_or [OF l] by (simp only: add.commute)
  show "page_at k AND FRAME_MASK = page_at k" unfolding frame_of_page [OF l] u by simp
qed

text \<open>The page of an address below the limit is among the pages mapped, once.\<close>

lemma window_lookup:
  assumes limit: "unat limit < 2 ^ 31" and a: "unat a < 2 ^ 31"
  shows "map_of (rev (map (\<lambda>(v, p). (vpage v, p OR 3)) (window_pages limit))) (vpage (a OR KERNBASE)) =
    (if unat a div 4096 \<le> unat limit div 4096 then Some ((a AND FRAME_MASK) OR 3) else None)"
proof -
  let ?n = "unat limit div 4096 + 1" and ?ka = "unat a div 4096"
  let ?f = "\<lambda>k. (vpage (KERNBASE + page_at k), page_at k OR 3)"
  have "unat limit div 4096 < 2 ^ 19" using limit by (simp add: div_less_iff_less_mult)
  then have n19: "k < 2 ^ 19" if "k < ?n" for k using that by simp
  have ka: "?ka < 2 ^ 19" using a by (simp add: div_less_iff_less_mult)
  have vp: "vpage (KERNBASE + page_at k) = vpage (a OR KERNBASE) \<longleftrightarrow> k = ?ka" if "k < 2 ^ 19" for k
  proof -
    have "vpage (KERNBASE + page_at k) = vpage (a OR KERNBASE) \<longleftrightarrow> page_at k = page_at ?ka"
      unfolding window_page(3) [OF that] vpage_window [OF window_page(2) [OF that] a] window_page(4) [OF that]
        frame_of_page [OF a] ..
    also have "\<dots> \<longleftrightarrow> k = ?ka"
      using window_page(1) [OF that] window_page(1) [OF ka] by (metis mult_cancel2 zero_neq_numeral)
    finally show ?thesis .
  qed
  have l: "map (\<lambda>(v, p). (vpage v, p OR 3)) (window_pages limit) = map ?f [0..<?n]" by (simp add: window_pages_def)
  have "map_of (rev (map ?f [0..<m])) (vpage (a OR KERNBASE)) =
      (if ?ka < m then Some (page_at ?ka OR 3) else None)" if "m \<le> ?n" for m
    using that
  proof (induction m)
    case 0
    show ?case by simp
  next
    case (Suc m)
    then have "vpage (KERNBASE + page_at m) = vpage (a OR KERNBASE) \<longleftrightarrow> m = ?ka" using vp n19 by simp
    then show ?case using Suc by (auto simp: less_Suc_eq simp del: of_nat_mult)
  qed
  from this [of ?n] show ?thesis unfolding l frame_of_page [OF a] by (simp only: less_Suc_eq_le Suc_eq_plus1 [symmetric] order_refl)
qed

definition window_maps :: "u64 \<Rightarrow> (u64 \<times> u64) list" where
  "window_maps limit = window_pages limit @ [(0xffffffff800b8000, 0xb8000)]"

lemma phy2vir_eq:
  assumes "unat limit < 2 ^ 31"
  shows "phy2vir limit s = (let s = map_pages map_v_p (window_maps limit) s in
    Some (s\<lparr>pageMap_ptr := KERNBASE OR pageMap_ptr s, video := KERNBASE OR video s, CR3 := cr3 s\<rparr>))"
  using phy2vir_loop_eq [OF assms, of 0 s]
  by (simp add: phy2vir_def window_pages_def window_maps_def map_pages_def loadCR3_def Let_def)

lemma window_maps_lookup:
  assumes limit: "unat limit < 2 ^ 31" and a: "unat a < 2 ^ 31"
    and le: "unat a div 4096 \<le> unat limit div 4096 \<or> a AND FRAME_MASK = 0xb8000"
  shows "map_of (rev (map (\<lambda>(v, p). (vpage v, p OR 3)) (window_maps limit))) (vpage (a OR KERNBASE)) =
    Some ((a AND FRAME_MASK) OR 3)"
proof -
  have e: "0xffffffff800b8000 = (0xb8000 :: u64) OR KERNBASE" and b: "unat (0xb8000 :: u64) < 2 ^ 31"
    and m: "(0xb8000 :: u64) AND FRAME_MASK = 0xb8000" by simp_all
  have "vpage 0xffffffff800b8000 = vpage (a OR KERNBASE) \<longleftrightarrow> a AND FRAME_MASK = 0xb8000"
    unfolding e vpage_window [OF b a] m by auto
  moreover have "map_of (rev (map (\<lambda>(v, p). (vpage v, p OR 3)) (window_maps limit))) x =
      (if x = vpage 0xffffffff800b8000 then Some (0xb8000 OR 3)
       else map_of (rev (map (\<lambda>(v, p). (vpage v, p OR 3)) (window_pages limit))) x)" for x
    by (simp add: window_maps_def)
  ultimately show ?thesis using le window_lookup [OF limit a] by metis
qed

lemma vm_inv_regs [simp]:
  "vm_inv root (s\<lparr>pageMap_ptr := x\<rparr>) = vm_inv root s" "vm_inv root (s\<lparr>video := y\<rparr>) = vm_inv root s"
  "vm_inv root (s\<lparr>CR3 := z\<rparr>) = vm_inv root s"
  by (simp_all add: vm_inv_def pa_inv_def used_def free_pages_def)

section \<open>Reading the tables\<close>

lemma table_phys:
  assumes "vm_inv root s" "idx xs" "walk (frames s) root xs = Some t"
  shows "phys (KERNBASE OR t) = t" "phys (t OR KERNBASE) = t" "phys t = t"
  using phys_or [OF used_addr(1) [OF pt_treeD(1) [OF vm_invD(3) [OF assms(1)] assms(2,3)] vm_invD(2) [OF assms(1)]]]
  by simp_all

lemma physicalAddress_lookup:
  assumes inv: "vm_inv (CR3 s) s"
  shows "physicalAddress v s =
    (if walk (frames s) (CR3 s) (take 2 (vidx v)) = None then None else Some (pt_lookup (frames s) (CR3 s) v))"
proof -
  let ?i4 = "getIndex v 39" and ?i3 = "getIndex v 30" and ?i2 = "getIndex v 21"
  have ix: "idx []" "idx [?i4]" "idx [?i4, ?i3]" "idx [?i4, ?i3, ?i2]" by (simp_all add: idx_def getIndex_less)
  have r: "entries s (KERNBASE OR getCR3 s) i = frames s (CR3 s) i" for i
    using table_phys [OF inv ix(1)] by (simp add: entries_def getCR3_def)
  have l: "entries s (t OR KERNBASE) i = frames s t i" if "idx xs" "walk (frames s) (CR3 s) xs = Some t" for xs t i
    using table_phys(2) [OF inv that] by (simp add: entries_def)
  show ?thesis
    using l [OF ix(2)] l [OF ix(3)] l [OF ix(4)] r
    by (auto simp: physicalAddress_def next_table_def vidx_def pt_lookup_def split: if_splits)
qed

lemma walk_nontable:
  assumes "q \<notin> tables fr root" "idx ys"
  shows "walk (fr(q := f)) root ys = walk fr root ys"
  using assms(2)
proof (induction ys rule: rev_induct)
  case Nil
  show ?case by simp
next
  case (snoc j ys)
  note ix = idx_snoc [OF snoc.prems]
  have "b \<noteq> q" if "walk fr root ys = Some b" for b using that ix assms(1) by (auto simp: tables_def)
  then show ?case using snoc.IH [OF ix] by (auto simp: walk_snoc split: option.splits)
qed

lemma pt_nontable:
  assumes "q \<notin> tables fr root"
  shows "pt_tree (fr(q := f)) root U = pt_tree fr root U" "pt_lookup (fr(q := f)) root = pt_lookup fr root"
    "tables (fr(q := f)) root = tables fr root"
proof -
  note W = walk_nontable [OF assms]
  show "pt_tree (fr(q := f)) root U = pt_tree fr root U" by (simp add: pt_tree_def W cong: imp_cong)
  have "b \<noteq> q" if "walk fr root (vidx v) = Some b" for b v using that idx_vidx assms by (auto simp: tables_def)
  then show "pt_lookup (fr(q := f)) root = pt_lookup fr root"
    using W [OF idx_vidx] by (auto simp: fun_eq_iff pt_lookup_def split: option.splits)
  show "tables (fr(q := f)) root = tables fr root" using W by (auto simp: tables_def)
qed

lemma tables_used: "vm_inv root s \<Longrightarrow> tables (frames s) root \<subseteq> used s"
  using pt_treeD(1) by (auto simp: vm_inv_def tables_def)

lemma kmalloc_fresh:
  assumes inv: "vm_inv (CR3 s) s"
    and room: "card (missing (frames s) (CR3 s) {Min (free_pages s) * PAGE_SIZE OR KERNBASE}) < card (free_pages s)"
  defines "a \<equiv> Min (free_pages s) * PAGE_SIZE"
  obtains s' where "kmalloc s = (a OR KERNBASE, s')" "vm_inv (CR3 s) s'" "a \<notin> used s" "a \<in> used s'"
    "a \<notin> tables (frames s') (CR3 s)" "frames s' a = (\<lambda>_. 0)" "vm_keeps (CR3 s) s s'"
    "\<And>v. pt_lookup (frames s') (CR3 s) v = (if vpage v = vpage (a OR KERNBASE) then a OR 7 else pt_lookup (frames s) (CR3 s) v)"
    "card (free_pages s') + card (missing (frames s) (CR3 s) {a OR KERNBASE}) + 1 = card (free_pages s)"
proof -
  note I = vm_invD [OF inv]
  let ?r = "CR3 s"
  have ne: "free_pages s \<noteq> {}" using room by auto
  obtain s1 where al: "allocatePage s = (a, s1)"
    using kpages.alloc_some [OF I(1) ne] by (auto simp: a_def)
  note A = allocatePage_used [OF I(1,2) ne al]
  have fr: "frames s1 = frames s" "CR3 s1 = CR3 s" by (subst A(5), simp)+
  have tU: "tables (frames s) ?r \<subseteq> used s" by (rule tables_used [OF inv])
  have inv1: "vm_inv ?r s1" using pt_tree_mono [OF I(3), of "used s1"] A(1,3,7) I(2) fr by (auto simp: vm_inv_def)
  have k1: "vm_keeps ?r s s1" unfolding vm_keeps_def using fr A(3)
    by (auto simp: vm_frame_def) (subst A(5), simp)
  have c1: "card (missing (frames s1) (CR3 s1) {a OR KERNBASE}) \<le> card (free_pages s1)"
    using room A(4) fr by (simp add: a_def)
  define s2 where "s2 = map_v_p2 (a OR KERNBASE) a s1"
  note M = map_v_p2_ok [OF inv1 [folded fr(2)] c1, where p = a, folded s2_def, unfolded fr]
  have aU: "a \<in> used s1" "a \<notin> tables (frames s1) ?r" using A(2,3) tU fr by auto
  have a2: "a \<in> used s2" "a \<notin> tables (frames s2) ?r"
    using vm_keepsD(2,3) [OF M(5)] aU by blast+
  have a31: "unat a < 2 ^ 31" using used_addr(1) [OF aU(1)] A(7) I(2) by simp
  let ?s = "s2\<lparr>frames := (frames s2)(a := (\<lambda>_. 0))\<rparr>"
  have eq: "kmalloc s = (a OR KERNBASE, ?s)"
    unfolding kmalloc_def al Let_def prod.case s2_def [symmetric] zero_page_def phys_or(1) [OF a31] ..
  have us: "used ?s = used s2" "free_pages ?s = free_pages s2" by (simp_all add: used_def free_pages_def)
  have inv2: "vm_inv ?r ?s" using M(1) pt_nontable(1) [OF a2(2)] us by (simp add: vm_inv_def pa_inv_def)
  have k2: "vm_keeps ?r s s2" by (rule vm_keeps_trans [OF k1 M(5)])
  have keeps: "vm_keeps ?r s ?s"
    unfolding vm_keeps_def
  proof (intro conjI ballI)
    have "vm_frame s2 ?s" by (simp add: vm_frame_def)
    then show "vm_frame s ?s" using vm_keepsD(1) [OF k2] by (rule vm_frame_trans [rotated])
    show "used s \<subseteq> used ?s" using vm_keepsD(2) [OF k2] us(1) by auto
    show "tables (frames ?s) ?r \<inter> used s \<subseteq> tables (frames s) ?r"
      using vm_keepsD(3) [OF k2] pt_nontable(3) [OF a2(2)] by auto
    show "frames ?s q = frames s q" if "q \<in> used s - tables (frames s) ?r" for q
      using vm_keepsD(4) [OF k2] that A(2) by auto
  qed
  have look: "pt_lookup (frames ?s) ?r v =
      (if vpage v = vpage (a OR KERNBASE) then a OR 7 else pt_lookup (frames s) ?r v)" for v
    using M(2) [of v] pt_nontable(2) [OF a2(2)] by simp
  show thesis
  proof (rule that [OF eq inv2 A(2) _ _ _ keeps look])
    show "a \<in> used ?s" "frames ?s a = (\<lambda>_. 0)" using a2(1) us by simp_all
    show "a \<notin> tables (frames ?s) ?r" using pt_nontable(3) [OF a2(2)] a2(2) by simp
    show "card (free_pages ?s) + card (missing (frames s) ?r {a OR KERNBASE}) + 1 = card (free_pages s)"
      using M(4) A(4) us(2) by simp
  qed
qed

section \<open>A new address space\<close>

lemma setUserSpace_eq:
  assumes inv: "vm_inv (CR3 s) s" and ne: "free_pages s \<noteq> {}"
  defines "a \<equiv> Min (free_pages s) * PAGE_SIZE"
  obtains s1 where "allocatePage s = (a, s1)" "a \<notin> used s" "unat a < 2 ^ 31"
    "setUserSpace s = (a, s1\<lparr>frames := (frames s)(a := (frames s a)(511 := frames s (CR3 s) 511))\<rparr>)"
    "used s1 = insert a (used s)" "CR3 s1 = CR3 s"
proof -
  note I = vm_invD [OF inv]
  obtain s1 where al: "allocatePage s = (a, s1)"
    using kpages.alloc_some [OF I(1) ne] by (auto simp: a_def)
  note A = allocatePage_used [OF I(1,2) ne al]
  have fr: "frames s1 = frames s" "CR3 s1 = CR3 s" by (subst A(5), simp)+
  have aU: "a \<in> used s1" using A(3) by simp
  have a31: "unat a < 2 ^ 31" using used_addr(1) [OF aU] A(7) I(2) by simp
  have r: "phys (CR3 s OR KERNBASE) = CR3 s" using table_phys(2) [OF inv, of "[]"] by (simp add: idx_def)
  have "setUserSpace s = (a, s1\<lparr>frames := (frames s)(a := (frames s a)(511 := frames s (CR3 s) 511))\<rparr>)"
    unfolding setUserSpace_def al Let_def prod.case getCR3_def set_entry_def entries_def fr phys_or(1) [OF a31] r ..
  then show thesis using that al A(2,3) a31 fr(2) by blast
qed

text \<open>C7. A new user address space shares the kernel half: every virtual address whose top-level index
  is 511 has in the new table the entry it has in the current one, and the tables of the current
  address space are untouched.\<close>

theorem setUserSpace_kernel_half:
  assumes "vm_inv (CR3 s) s" "free_pages s \<noteq> {}" "setUserSpace s = (a, s')"
  shows "a \<notin> used s \<and> a \<in> used s' \<and> vm_inv (CR3 s) s' \<and> pt_lookup (frames s') (CR3 s) = pt_lookup (frames s) (CR3 s) \<and>
    (\<forall>v. getIndex v 39 = 511 \<longrightarrow> pt_lookup (frames s') a v = pt_lookup (frames s) (CR3 s) v)"
proof -
  let ?r = "CR3 s"
  note I = vm_invD [OF assms(1)]
  obtain s1 where s0: "allocatePage s = (Min (free_pages s) * PAGE_SIZE, s1)" "Min (free_pages s) * PAGE_SIZE \<notin> used s"
    "setUserSpace s = (Min (free_pages s) * PAGE_SIZE, s1\<lparr>frames := (frames s)(Min (free_pages s) * PAGE_SIZE :=
       (frames s (Min (free_pages s) * PAGE_SIZE))(511 := frames s ?r 511))\<rparr>)"
    "used s1 = insert (Min (free_pages s) * PAGE_SIZE) (used s)" by (rule setUserSpace_eq [OF assms(1,2)])
  have a: "Min (free_pages s) * PAGE_SIZE = a" using s0(3) assms(3) by simp
  note s1 = s0(1,2,4) [unfolded a]
  have s': "s' = s1\<lparr>frames := (frames s)(a := (frames s a)(511 := frames s ?r 511))\<rparr>"
    using s0(3) assms(3) unfolding a by simp
  note A = allocatePage_used [OF I(1,2) assms(2) s1(1)]
  have at: "a \<notin> tables (frames s) ?r" using tables_used [OF assms(1)] s1(2) by auto
  note N = pt_nontable [OF at, of "(frames s a)(511 := frames s ?r 511)"]
  have us: "used s' = insert a (used s)" using s' s1(3) by (simp add: used_def free_pages_def)
  have "pt_tree (frames s') ?r (used s')" using pt_tree_mono [OF I(3), of "used s'"] N(1) us s' by auto
  then have "vm_inv ?r s'" using I(2) A(1,7) s' by (simp add: vm_inv_def pa_inv_def)
  moreover have "pt_lookup (frames s') a v = pt_lookup (frames s) ?r v" if "getIndex v 39 = 511" for v
  proof -
    let ?is = "[getIndex v 30, getIndex v 21]"
    have v: "vidx v = 511 # ?is" using that by (simp add: vidx_def)
    have "?r \<in> tables (frames s) ?r" unfolding tables_def idx_def by (auto intro!: exI [of _ "[]"])
    then have ra: "?r \<noteq> a" using at by auto
    have "walk (frames s') a (vidx v) = walk (frames s') ?r (vidx v)" using s' v ra by simp
    then have "pt_lookup (frames s') a v = pt_lookup (frames s') ?r v" by (simp add: pt_lookup_def)
    then show ?thesis using N(2) s' by simp
  qed
  ultimately show ?thesis using us s1(2) s' N(2) by simp
qed

section \<open>What the operations leave alone\<close>

text \<open>Whatever the state, the operations of this file change only the free list and the frames.\<close>

lemma allocatePage_frame [kframe]: "vm_frame s (snd (allocatePage s))"
  by (simp add: vm_frame_def allocatePage_def unsetPage_def Let_def)

lemma set_entry_frame [kframe]: "vm_frame s (set_entry t i e s)"
  by (simp add: vm_frame_def set_entry_def)

lemma zero_page_frame [kframe]: "vm_frame s (zero_page t s)"
  by (simp add: vm_frame_def zero_page_def)

lemma pdpeAlloc_frame [kframe]: "vm_frame s (snd (pdpeAlloc t i c s))"
  unfolding pdpeAlloc_def Let_def split_beta snd_conv
  by (rule vm_frame_trans [OF vm_frame_trans [OF allocatePage_frame zero_page_frame] set_entry_frame])

lemma table_step_frame [kframe]: "vm_frame s (snd (table_step c k t i s))"
  by (simp add: table_step_def pdpeAlloc_frame)

lemma map_with_frame [kframe]: "vm_frame s (map_with c k fl r v p s)"
  unfolding map_with_def Let_def split_beta
  by (rule vm_frame_trans [OF vm_frame_trans [OF vm_frame_trans [OF table_step_frame table_step_frame] table_step_frame] set_entry_frame])

lemma map_frames [kframe]: "vm_frame s (map_v_p v p s)" "vm_frame s (map_v_p2 v p s)"
  unfolding map_v_p_with map_v_p2_with by (rule map_with_frame)+

lemma kmalloc_frame [kframe]: "vm_frame s (snd (kmalloc s))"
  unfolding kmalloc_def Let_def split_beta snd_conv
  by (rule vm_frame_trans [OF vm_frame_trans [OF allocatePage_frame map_frames(2)] zero_page_frame])

lemma setUserSpace_frame [kframe]: "vm_frame s (snd (setUserSpace s))"
  unfolding setUserSpace_def Let_def split_beta snd_conv
  by (rule vm_frame_trans [OF allocatePage_frame set_entry_frame])

section \<open>Properties\<close>

text \<open>A machine for the witnesses: frames 0 and 1 are in use, frame 1 is an empty top-level table, frames 2
  to 7 are free.\<close>

definition small_vm :: "unit vm_scheme" where
  "small_vm = console_init (\<lambda>_. 0)
     \<lparr>pageMap = ((boot_map 8 (\<lambda>_. 0))(0 := 0))(1 := 0), pageMap_ptr = 0, firstFreepage = 2, lastPage = 8,
      frames = (\<lambda>_ _. 0), CR3 = 0x1000, pml4e = 0x1000, cr3 = 0x1000\<rparr>"

lemma small_vm_sel [simp]:
  "CR3 small_vm = 0x1000" "pml4e small_vm = 0x1000" "cr3 small_vm = 0x1000" "lastPage small_vm = 8"
  "frames small_vm = (\<lambda>_ _. 0)" "firstFreepage small_vm = 2"
  "pageMap small_vm = ((boot_map 8 (\<lambda>_. 0))(0 := 0))(1 := 0)"
  by (simp_all add: small_vm_def console_init_def)

lemma small_vm_pa: "pa_inv small_vm"
proof -
  have "(8 :: u64) < - 1" by (rule order.strict_trans2 [of _ 9]) (simp_all only: word_n1_ge, simp)
  then have 0: "fl_inv (boot_map 8 (\<lambda>_. 0)) 0 8" by (rule boot_map_inv)
  have 1: "fl_inv ((boot_map 8 (\<lambda>_. 0))(0 := 0)) 1 8" using fl_unset [OF 0] by (simp add: boot_map_def)
  have "fl_inv (((boot_map 8 (\<lambda>_. 0))(0 := 0))(1 := 0)) 2 8" using fl_unset [OF 1] by (simp add: boot_map_def)
  then show ?thesis by (simp add: pa_inv_def)
qed

lemma u64_less_8: "(i :: u64) < 8 \<longleftrightarrow> i \<in> {0, 1, 2, 3, 4, 5, 6, 7}"
proof -
  have "unat i < 8 \<longleftrightarrow> unat i \<in> {0, 1, 2, 3, 4, 5, 6, 7}" by auto
  then show ?thesis by (simp add: word_less_nat_alt word_unat_eq_iff)
qed

lemma small_vm_free: "free_pages small_vm = {2, 3, 4, 5, 6, 7}"
  by (auto simp: free_pages_def u64_less_8 boot_map_def)

lemma small_vm_inv: "vm_inv 0x1000 small_vm"
proof -
  have w: "walk (\<lambda>_ _. 0) 0x1000 xs = Some a \<longleftrightarrow> xs = [] \<and> a = 0x1000" for xs a
    by (cases xs) auto
  have "0x1000 \<in> used small_vm" unfolding used_def small_vm_free by (auto intro!: image_eqI [of _ _ 1])
  then have "pt_tree (frames small_vm) 0x1000 (used small_vm)" by (simp add: pt_tree_def w)
  then show ?thesis using small_vm_pa by (simp add: vm_inv_def)
qed

lemma missing_le_3: "card (missing fr root {v}) \<le> 3"
  by (simp add: card_missing_single)

lemma small_vm_card: "card (free_pages small_vm) = 6"
  by (simp add: small_vm_free)

text \<open>C1. Mapping a user page.  In a well-formed address space with room for the tables that are missing,
  \<^verbatim>\<open>map_v_p2\<close> sets the entry of the page of its address to the physical address with the present,
  writable and user bits, leaves the entry of every other page as it was, and keeps the address
  space well-formed.\<close>

theorem map_v_p2_updates:
  assumes "vm_inv (CR3 s) s" "card (missing (frames s) (CR3 s) {v}) \<le> card (free_pages s)"
  shows "vm_inv (CR3 s) (map_v_p2 v p s) \<and>
    pt_lookup (frames (map_v_p2 v p s)) (CR3 s) =
      (\<lambda>v'. if vpage v' = vpage v then p OR (P_BIT OR U_BIT OR W_BIT) else pt_lookup (frames s) (CR3 s) v') \<and>
    vm_keeps (CR3 s) s (map_v_p2 v p s)"
  using map_v_p2_ok(1,2,5) [OF assms] by (simp add: fun_eq_iff)

theorem map_v_p2_updates_witness:
  "pt_lookup (frames (map_v_p2 0x400123 0x7000 small_vm)) 0x1000 0x400fff = 0x7007 \<and>
   pt_lookup (frames (map_v_p2 0x400123 0x7000 small_vm)) 0x1000 0x401000 = 0"
proof -
  have "vpage 0x400fff = vpage 0x400123" "vpage 0x401000 \<noteq> vpage 0x400123" by (simp_all add: vpage_def)
  moreover have "pt_lookup (\<lambda>_ _. 0) 0x1000 0x401000 = 0" by (simp add: pt_lookup_def split: option.splits)
  ultimately show ?thesis
    using map_v_p2_updates [of small_vm "0x400123" "0x7000"] small_vm_inv missing_le_3 [of "\<lambda>_ _. 0" "0x1000" "0x400123"]
    by (simp add: small_vm_card)
qed

text \<open>C6. Mapping a run of kernel pages with \<^verbatim>\<open>map_v_p\<close>: the last mapping of a page wins, all other entries
  stay, and exactly one page is taken from the allocator for every table the whole run lacks.\<close>

theorem map_v_p_run:
  assumes "vm_inv (pml4e s) s" "card (missing (frames s) (pml4e s) (fst ` set vps)) \<le> card (free_pages s)"
  shows "pt_lookup (frames (map_pages map_v_p vps s)) (pml4e (map_pages map_v_p vps s)) v =
      (case map_of (rev (map (\<lambda>(v, p). (vpage v, p OR 3)) vps)) (vpage v) of
         None \<Rightarrow> pt_lookup (frames s) (pml4e s) v | Some e \<Rightarrow> e) \<and>
    vm_inv (pml4e (map_pages map_v_p vps s)) (map_pages map_v_p vps s) \<and>
    card (free_pages (map_pages map_v_p vps s)) + card (missing (frames s) (pml4e s) (fst ` set vps)) =
      card (free_pages s)"
  using kmap.map_pages_inv [OF assms] kmap.map_pages_look [OF assms, of v] kmap.map_pages_room [OF assms] by blast

lemma small_vm_two: "card (missing (\<lambda>_ _. 0) 0x1000 (fst ` set [(0x400000, 0x7000), (0x401000, 0x6000)])) \<le> 6"
proof -
  have "missing (\<lambda>_ _. 0) 0x1000 {0x400000, 0x401000} =
      missing (\<lambda>_ _. 0) 0x1000 {0x400000} \<union> missing (\<lambda>_ _. 0) 0x1000 {0x401000}" by (rule missing_laws)
  then show ?thesis
    using card_Un_le [of "missing (\<lambda>_ _. 0) 0x1000 {0x400000}" "missing (\<lambda>_ _. 0) 0x1000 {0x401000}"]
      missing_le_3 [of "\<lambda>_ _. 0" "0x1000" "0x400000"] missing_le_3 [of "\<lambda>_ _. 0" "0x1000" "0x401000"] by simp
qed

theorem map_v_p_run_witness:
  "vm_inv (pml4e (map_pages map_v_p [(0x400000, 0x7000), (0x401000, 0x6000)] small_vm))
     (map_pages map_v_p [(0x400000, 0x7000), (0x401000, 0x6000)] small_vm)"
  using map_v_p_run [of small_vm "[(0x400000, 0x7000), (0x401000, 0x6000)]"] small_vm_inv small_vm_two
  by (simp add: small_vm_card)

text \<open>\<^verbatim>\<open>physicalAddress\<close> reads back what was mapped: it returns the raw entry of the page, and
  dereferences a null table exactly when one of the two upper tables is missing.\<close>

theorem physicalAddress_reads:
  assumes "vm_inv (CR3 s) s"
  shows "physicalAddress v s =
    (if walk (frames s) (CR3 s) (take 2 (vidx v)) = None then None else Some (pt_lookup (frames s) (CR3 s) v))"
  using assms by (rule physicalAddress_lookup)

theorem physicalAddress_reads_witness: "physicalAddress 0x400000 small_vm = None"
  using physicalAddress_reads [of small_vm "0x400000"] small_vm_inv by (simp add: vidx_def)

text \<open>C5. \<^verbatim>\<open>kmalloc\<close> returns, through the window, a page that was free before: zeroed, mapped at its window
  address, not one of the page tables, and with the contents of every other page in use (page tables
  apart) unchanged.\<close>

theorem kmalloc_correct:
  assumes "vm_inv (CR3 s) s"
    "card (missing (frames s) (CR3 s) {Min (free_pages s) * PAGE_SIZE OR KERNBASE}) < card (free_pages s)"
  shows "\<exists>a s'. kmalloc s = (a OR KERNBASE, s') \<and> a = Min (free_pages s) * PAGE_SIZE \<and> a \<notin> used s \<and> a \<in> used s' \<and>
    a \<notin> tables (frames s') (CR3 s) \<and> frames s' a = (\<lambda>_. 0) \<and> vm_inv (CR3 s) s' \<and> vm_keeps (CR3 s) s s' \<and>
    (\<forall>v. pt_lookup (frames s') (CR3 s) v =
      (if vpage v = vpage (a OR KERNBASE) then a OR 7 else pt_lookup (frames s) (CR3 s) v))"
  by (rule kmalloc_fresh [OF assms]) blast

theorem kmalloc_correct_witness:
  "\<exists>a s'. kmalloc small_vm = (a OR KERNBASE, s') \<and> a = Min {2, 3, 4, 5, 6, 7} * PAGE_SIZE \<and> frames s' a = (\<lambda>_. 0)"
  using kmalloc_correct [of small_vm] small_vm_inv
    missing_le_3 [of "\<lambda>_ _. 0" "0x1000" "Min (free_pages small_vm) * PAGE_SIZE OR KERNBASE"]
  by (auto simp: small_vm_card small_vm_free)

theorem setUserSpace_kernel_half_witness:
  "fst (setUserSpace small_vm) \<notin> used small_vm \<and>
   pt_lookup (frames (snd (setUserSpace small_vm))) (fst (setUserSpace small_vm)) 0xffffffff80000000 =
     pt_lookup (frames small_vm) 0x1000 0xffffffff80000000"
proof -
  have "getIndex 0xffffffff80000000 39 = 511" by (simp add: getIndex_def)
  then show ?thesis
    using setUserSpace_kernel_half [of small_vm, OF _ _ prod.collapse [symmetric]] small_vm_inv
    by (simp add: small_vm_free)
qed

end
