(* ===== verification/Tarfs.thy ===== *)
theory Tarfs
  imports Paging "HOL-Library.Signed_Division"
begin

text \<open>
  The read-only file system of \<^verbatim>\<open>sys/tarfs.c\<close>: a USTAR archive linked into the kernel image.

  The archive is a byte memory (\<open>tar\<close>, addressed by the pointers the code computes) from
  \<^verbatim>\<open>_binary_tarfs_start\<close> on.  A header field is read as the C string at its offset in
  \<^verbatim>\<open>struct posix_header_ustar\<close> (name 0, size 124, typeflag 156, magic 257); \<^verbatim>\<open>typeflag\<close> is one
  character with no terminator of its own, so that the string read there runs into \<^verbatim>\<open>linkname\<close>.
  \<^verbatim>\<open>strcmp(a,b,0)\<close> on strings is equality (\<open>strcmp_eq\<close> in the theory of strings).

  The index \<^verbatim>\<open>root\<close> with its counter \<^verbatim>\<open>t_index\<close> holds one node per entry, each with the index of the
  node of its directory.  The slots of the array are the indices below 512, and a name fills at most 100 bytes with its
  terminator; the code checks neither bound, and where \<^verbatim>\<open>parse\<close> leaves one of its arrays the value is \<open>None\<close>.
\<close>

record fnode =
  f_name :: "u8 list"
  f_size :: u32
  f_typeflag :: u32
  f_start :: u64
  f_parent :: nat

record fs = vm +
  root :: "nat \<Rightarrow> fnode"
  t_index :: nat

abbreviation FILE :: "'a::len word" where "FILE \<equiv> 1"
abbreviation DIRECTORY :: "'a::len word" where "DIRECTORY \<equiv> 2"

abbreviation str :: "string \<Rightarrow> u8 list" where
  "str \<equiv> map of_char"

abbreviation slash :: u8 where
  "slash \<equiv> 47"

section \<open>The code\<close>

subsection \<open>Header fields\<close>

definition read_cstr :: "bmem \<Rightarrow> u64 \<Rightarrow> u8 list option" where
  "read_cstr m a = map_option (\<lambda>n. map (\<lambda>i. m (a + of_nat i)) [0..<n]) (strlen m a)"

definition strcmp0 :: "u8 list \<Rightarrow> u8 list \<Rightarrow> int" where
  "strcmp0 a b = (if a = b then 0 else - 1)"

text \<open>\<^verbatim>\<open>oct2bin\<close>: eleven characters, the last one first, in 32-bit arithmetic.\<close>

definition oct2bin :: "(nat \<Rightarrow> u8) \<Rightarrow> u32" where
  "oct2bin sz = fst (fold (\<lambda>j (x, k). (x + (scast (sz j) - 48) * k, k * 8)) (rev [0..<11]) (0, 1))"

definition hdr_size :: "bmem \<Rightarrow> u64 \<Rightarrow> int" where
  "hdr_size m a = sint (oct2bin (\<lambda>j. m (a + 124 + of_nat j)))"

definition round512 :: "int \<Rightarrow> int" where
  "round512 sz = (if sz smod 512 \<noteq> 0 then sz sdiv 512 * 512 + 512 else sz)"

subsection \<open>Searching the archive\<close>

text \<open>\<open>None\<close>: a header string is not terminated, or the chain of headers does not end.\<close>

partial_function (option) getFile_loop :: "bmem \<Rightarrow> u8 list \<Rightarrow> u64 \<Rightarrow> u64 option" where
  "getFile_loop m filename start =
     Option.bind (read_cstr m (start + 257)) (\<lambda>magic.
       if strcmp0 magic (str ''ustar'') = 0
       then Option.bind (read_cstr m start) (\<lambda>name.
              if strcmp0 name filename = 0 then Some (start + 512)
              else getFile_loop m filename (start + 512 + word_of_int (round512 (hdr_size m start))))
       else Some 0)"

definition getFile :: "bmem \<Rightarrow> u64 \<Rightarrow> u8 list \<Rightarrow> u64 option" where
  "getFile m tar_start filename = getFile_loop m filename tar_start"

partial_function (option) isType_loop :: "bmem \<Rightarrow> u8 list \<Rightarrow> u8 list \<Rightarrow> u64 \<Rightarrow> u64 option" where
  "isType_loop m flag filename start =
     Option.bind (read_cstr m (start + 257)) (\<lambda>magic.
       if strcmp0 magic (str ''ustar'') = 0
       then Option.bind (read_cstr m start) (\<lambda>name.
            Option.bind (if strcmp0 name filename = 0
                         then map_option (\<lambda>typeflag. strcmp0 typeflag flag = 0) (read_cstr m (start + 156))
                         else Some False) (\<lambda>found.
              if found then Some (start + 512)
              else isType_loop m flag filename (start + 512 + word_of_int (round512 (hdr_size m start)))))
       else Some 0)"

definition isFile :: "bmem \<Rightarrow> u64 \<Rightarrow> u8 list \<Rightarrow> u64 option" where
  "isFile m tar_start filename = isType_loop m (str ''0'') filename tar_start"

definition isDir :: "bmem \<Rightarrow> u64 \<Rightarrow> u8 list \<Rightarrow> u64 option" where
  "isDir m tar_start filename = isType_loop m (str ''5'') filename tar_start"

subsection \<open>Building the index\<close>

definition makeNode :: "nat \<Rightarrow> u8 list \<Rightarrow> u64 \<Rightarrow> u64 \<Rightarrow> u64 \<Rightarrow> fnode" where
  "makeNode parent name start sz type =
     \<lparr>f_name = name, f_size = ucast sz, f_typeflag = ucast type, f_start = start, f_parent = parent\<rparr>"

text \<open>The scan of \<^verbatim>\<open>parse\<close> for the last slash before the entry's own name: it stops at a slash, at the
  first character (a top-level entry), or runs out of the array to the left.\<close>

datatype scan = Slash nat | Top | Outside

function parse_scan :: "u8 list \<Rightarrow> int \<Rightarrow> scan" where
  "parse_scan name len =
     (if len < 0 then Outside
      else if (name @ [0]) ! nat len = slash then Slash (nat len)
      else if len - 1 = 0 then Top
      else parse_scan name (len - 1))"
  by pat_completeness auto
termination
  by (relation "measure (\<lambda>(name, len). nat (len + 1))") auto

text \<open>The search of \<^verbatim>\<open>parse\<close> for the directory: the first index from \<open>j\<close> on whose name matches, or the
  first one at or past the end of the index.\<close>

function parse_find :: "u8 list \<Rightarrow> 'a fs_scheme \<Rightarrow> nat \<Rightarrow> nat" where
  "parse_find name s j =
     (if strcmp0 name (f_name (root s j)) = - 1 \<and> j < t_index s then parse_find name s (j + 1) else j)"
  by pat_completeness auto
termination
  by (relation "measure (\<lambda>(name, s, j). t_index s - j)") auto

definition add_node :: "fnode \<Rightarrow> 'a fs_scheme \<Rightarrow> 'a fs_scheme" where
  "add_node nd s = s\<lparr>root := (root s)(t_index s := nd), t_index := t_index s + 1\<rparr>"

text \<open>
  \<^verbatim>\<open>parse\<close> copies the path into \<^verbatim>\<open>name[100]\<close>.  With a full index it stores behind the array, or compares with what is
  there when it finds no directory.
\<close>

abbreviation ROOT_SLOTS :: nat where "ROOT_SLOTS \<equiv> 512"
abbreviation NAME_SIZE :: nat where "NAME_SIZE \<equiv> 100"

definition parse :: "u8 list \<Rightarrow> u64 \<Rightarrow> u64 \<Rightarrow> u64 \<Rightarrow> 'a fs_scheme \<Rightarrow> 'a fs_scheme option" where
  "parse path type start sz s =
     (if NAME_SIZE \<le> length path \<or> ROOT_SLOTS \<le> t_index s then None
      else let len = int (length path);
          len = (if start = FILE then len - 1 else len - 2)
      in case parse_scan path len of
           Outside \<Rightarrow> None
         | Top \<Rightarrow> Some (add_node (makeNode 0 path start sz type) s)
         | Slash l \<Rightarrow>
             (let name = take (l + 1) path;
                  j = parse_find name s 1
              in if j < t_index s then Some (add_node (makeNode j path start sz type) s) else Some s))"

partial_function (option) init_tarfs_loop :: "bmem \<Rightarrow> u64 \<Rightarrow> 'a fs_scheme \<Rightarrow> 'a fs_scheme option" where
  "init_tarfs_loop m start s =
     Option.bind (read_cstr m (start + 257)) (\<lambda>magic.
       if strcmp0 magic (str ''ustar'') = 0
       then Option.bind (read_cstr m start) (\<lambda>name.
            Option.bind (read_cstr m (start + 156)) (\<lambda>typeflag.
            Option.bind (if strcmp0 typeflag (str ''5'') = 0 then parse name DIRECTORY start 0 s
                         else parse name FILE start (word_of_int (hdr_size m start)) s) (\<lambda>s.
              init_tarfs_loop m (start + 512 + word_of_int (round512 (hdr_size m start))) s)))
       else Some s)"

definition init_tarfs :: "bmem \<Rightarrow> u64 \<Rightarrow> 'a fs_scheme \<Rightarrow> 'a fs_scheme option" where
  "init_tarfs m tar_start s = init_tarfs_loop m tar_start s"

declare parse_scan.simps [simp del] parse_find.simps [simp del]

section \<open>The archive as a list of entries\<close>

record tarent =
  e_name :: "u8 list"
  e_flag :: "u8 list"
  e_size :: int

text \<open>A well-formed archive at an address: a chain of headers that ends at a block without the magic.\<close>

fun archive :: "bmem \<Rightarrow> u64 \<Rightarrow> tarent list \<Rightarrow> bool" where
  "archive m a [] \<longleftrightarrow> (\<exists>magic. read_cstr m (a + 257) = Some magic \<and> magic \<noteq> str ''ustar'')"
| "archive m a (e # es) \<longleftrightarrow> read_cstr m (a + 257) = Some (str ''ustar'') \<and> read_cstr m a = Some (e_name e) \<and>
     read_cstr m (a + 156) = Some (e_flag e) \<and> hdr_size m a = e_size e \<and>
     archive m (a + 512 + word_of_int (round512 (e_size e))) es"

text \<open>The contents of the first entry that satisfies a predicate, or the null pointer.\<close>

fun locate :: "(tarent \<Rightarrow> bool) \<Rightarrow> u64 \<Rightarrow> tarent list \<Rightarrow> u64" where
  "locate P a [] = 0"
| "locate P a (e # es) = (if P e then a + 512 else locate P (a + 512 + word_of_int (round512 (e_size e))) es)"

lemma strcmp0_simps [simp]: "strcmp0 a b = 0 \<longleftrightarrow> a = b" "strcmp0 a b = - 1 \<longleftrightarrow> a \<noteq> b"
  by (simp_all add: strcmp0_def)

lemma read_cstr_cstr: "cstr m a s \<Longrightarrow> read_cstr m a = Some s"
  by (auto simp: read_cstr_def strlen_cstr cstr_nth intro: nth_equalityI)

text \<open>\<open>strcmp0\<close> is the kernel's \<^verbatim>\<open>strcmp\<close> with a zero third argument.\<close>

lemma strcmp0_strcmp: "cstr m a s \<Longrightarrow> cstr m b t \<Longrightarrow> strcmp m a b 0 = Some (strcmp0 s t)"
  by (simp add: strcmp_eq strcmp0_def)

lemma getFile_loop_locate: "archive m a es \<Longrightarrow> getFile_loop m f a = Some (locate (\<lambda>e. e_name e = f) a es)"
proof (induction es arbitrary: a)
  case Nil
  then show ?case by (subst getFile_loop.simps) auto
next
  case (Cons e es)
  then show ?case by (subst getFile_loop.simps) auto
qed

lemma isType_loop_locate:
  "archive m a es \<Longrightarrow> isType_loop m fl f a = Some (locate (\<lambda>e. e_name e = f \<and> e_flag e = fl) a es)"
proof (induction es arbitrary: a)
  case Nil
  then show ?case by (subst isType_loop.simps) auto
next
  case (Cons e es)
  then show ?case by (subst isType_loop.simps) auto
qed

section \<open>Octal sizes\<close>

text \<open>The value of a list of octal digits, most significant first.\<close>

definition octal :: "nat list \<Rightarrow> nat" where
  "octal ds = foldl (\<lambda>v d. 8 * v + d) 0 ds"

lemma octal_snoc: "octal (ds @ [d]) = 8 * octal ds + d"
  by (simp add: octal_def)

lemma oct2bin_fold:
  assumes "\<forall>d\<in>set ds. d < 8" "\<And>j. j < length ds \<Longrightarrow> sz j = of_nat (48 + ds ! j)"
  shows "fold (\<lambda>j (x, k). (x + (scast (sz j :: u8) - 48) * k, k * 8)) (rev [0..<length ds]) (x, k :: u32) =
    (x + of_nat (octal ds) * k, k * 8 ^ length ds)"
  using assms
proof (induction ds arbitrary: x k rule: rev_induct)
  case Nil
  show ?case by (simp add: octal_def)
next
  case (snoc d ds)
  have d: "d < 8" using snoc.prems(1) by simp
  have "sz (length ds) = of_nat (48 + d)" using snoc.prems(2) [of "length ds"] by simp
  moreover have "scast (of_nat (48 + d) :: u8) = (of_nat (48 + d) :: u32)"
  proof -
    have "d \<in> {0, 1, 2, 3, 4, 5, 6, 7}" using d by auto
    then show ?thesis by auto
  qed
  ultimately have sd: "scast (sz (length ds)) - 48 = (of_nat d :: u32)" by simp
  have IH: "fold (\<lambda>j (x, k). (x + (scast (sz j) - 48) * k, k * 8)) (rev [0..<length ds]) (x, k) =
      (x + of_nat (octal ds) * k, k * 8 ^ length ds)" for x k :: u32
    using snoc.prems(1,2) by (intro snoc.IH) (auto simp: nth_append)
  have "fold (\<lambda>j (x, k). (x + (scast (sz j) - 48) * k, k * 8)) (rev [0..<length (ds @ [d])]) (x, k) =
      fold (\<lambda>j (x, k). (x + (scast (sz j) - 48) * k, k * 8)) (rev [0..<length ds]) (x + of_nat d * k, k * 8)"
    by (simp add: sd)
  also have "\<dots> = (x + of_nat d * k + of_nat (octal ds) * (k * 8), k * 8 * 8 ^ length ds)" by (rule IH)
  finally show ?case by (simp add: octal_snoc algebra_simps)
qed

lemma oct2bin_octal:
  assumes "length ds = 11" "\<forall>d\<in>set ds. d < 8" "\<And>j. j < 11 \<Longrightarrow> sz j = of_nat (48 + ds ! j)"
  shows "oct2bin sz = of_nat (octal ds)"
  using oct2bin_fold [of ds sz 0 1] assms by (simp add: oct2bin_def)

section \<open>The index\<close>

text \<open>The directory part of a path: the longest prefix that ends in a slash and leaves at least one
  character; a slash in the first place does not count.\<close>

definition dir_of :: "u8 list \<Rightarrow> u8 list" where
  "dir_of p = (let r = dropWhile (\<lambda>c. c \<noteq> slash) (rev (butlast p)) in if length r \<le> 1 then [] else rev r)"

lemma parse_scan_take:
  assumes "1 \<le> n" "n < length p"
  defines "r \<equiv> dropWhile (\<lambda>c. c \<noteq> slash) (rev (take (n + 1) p))"
  shows "parse_scan p (int n) = (if length r \<le> 1 then Top else Slash (length r - 1))"
  using assms(1,2) unfolding r_def
proof (induction n rule: nat_induct_at_least)
  case base
  have t2: "take (1 + 1) p = [p ! 0, p ! 1]" using base by (cases p; cases "tl p") auto
  have "(p @ [0]) ! 1 = p ! 1" using base by (simp add: nth_append)
  then show ?case unfolding t2 by (subst parse_scan.simps) (simp split: if_splits)
next
  case (Suc n)
  have tk: "take (Suc n + 1) p = take (n + 1) p @ [p ! Suc n]" using Suc.prems by (simp add: take_Suc_conv_app_nth)
  have pn: "(p @ [0]) ! nat (int (Suc n)) = p ! Suc n" using Suc.prems by (simp only: nat_int nth_append if_True)
  show ?case
  proof (cases "p ! Suc n = slash")
    case True
    then show ?thesis using pn Suc.prems unfolding tk by (subst parse_scan.simps) (simp del: of_nat_Suc)
  next
    case False
    have "parse_scan p (int (Suc n)) = parse_scan p (int n)"
      unfolding parse_scan.simps [of p "int (Suc n)"] using False pn Suc.hyps by simp
    then show ?thesis using Suc.IH Suc.prems False unfolding tk by simp
  qed
qed

lemma parse_scan_dir:
  assumes "3 \<le> length p"
  shows "parse_scan p (int (length p) - 2) = (if dir_of p = [] then Top else Slash (length (dir_of p) - 1))"
    "dir_of p \<noteq> [] \<Longrightarrow> take (length (dir_of p)) p = dir_of p \<and> length (dir_of p) < length p"
proof -
  define r where "r = dropWhile (\<lambda>c. c \<noteq> slash) (rev (butlast p))"
  have dr: "dir_of p = (if length r \<le> 1 then [] else rev r)" by (simp add: dir_of_def r_def Let_def)
  have "length p - 2 + 1 = length p - 1" using assms by simp
  then have b: "take (length p - 2 + 1) p = butlast p" by (simp only: butlast_conv_take)
  have i: "int (length p - 2) = int (length p) - 2" using assms by simp
  show "parse_scan p (int (length p) - 2) = (if dir_of p = [] then Top else Slash (length (dir_of p) - 1))"
    using parse_scan_take [of "length p - 2" p] assms unfolding b i r_def [symmetric] dr by auto
  assume ne: "dir_of p \<noteq> []"
  then have d: "dir_of p = rev r" by (auto simp: dr split: if_splits)
  obtain q where q: "rev (butlast p) = q @ r" unfolding r_def by (metis takeWhile_dropWhile_id)
  then have "butlast p = dir_of p @ rev q" using d by (metis rev_append rev_rev_ident)
  then have "p = dir_of p @ rev q @ [last p]" using assms
    by (metis append.assoc append_butlast_last_id le_zero_eq list.size(3) zero_neq_numeral)
  then show "take (length (dir_of p)) p = dir_of p \<and> length (dir_of p) < length p"
    by (metis append_eq_conv_conj length_append length_append_singleton less_add_Suc1 add_Suc_right)
qed

lemma parse_find_least:
  assumes "j \<le> t_index s"
  shows "parse_find d s j \<le> t_index s" "j \<le> parse_find d s j"
    "parse_find d s j < t_index s \<Longrightarrow> f_name (root s (parse_find d s j)) = d"
    "\<And>i. j \<le> i \<Longrightarrow> i < parse_find d s j \<Longrightarrow> f_name (root s i) \<noteq> d"
proof -
  have "parse_find d s j \<le> t_index s \<and> j \<le> parse_find d s j \<and>
    (parse_find d s j < t_index s \<longrightarrow> f_name (root s (parse_find d s j)) = d) \<and>
    (\<forall>i. j \<le> i \<longrightarrow> i < parse_find d s j \<longrightarrow> f_name (root s i) \<noteq> d)"
    using assms
  proof (induction "t_index s - j" arbitrary: j)
    case 0
    then show ?case by (subst (1 2 3 4 5) parse_find.simps) auto
  next
    case (Suc n)
    show ?case
    proof (cases "f_name (root s j) = d")
      case True
      then have "parse_find d s j = j" by (subst parse_find.simps) simp
      then show ?thesis using True Suc.prems by simp
    next
      case False
      then have "parse_find d s j = parse_find d s (j + 1)" using Suc.hyps(2) by (subst parse_find.simps) auto
      moreover have "n = t_index s - (j + 1)" "j + 1 \<le> t_index s" using Suc.hyps(2) by simp_all
      note Suc.hyps(1) [OF this]
      moreover have "f_name (root s i) \<noteq> d" if "j \<le> i" "\<not> j + 1 \<le> i" for i
        using that False by (metis Suc_eq_plus1 le_antisym not_less_eq_eq)
      ultimately show ?thesis by (metis add_leD1)
    qed
  qed
  then show "parse_find d s j \<le> t_index s" "j \<le> parse_find d s j"
    "parse_find d s j < t_index s \<Longrightarrow> f_name (root s (parse_find d s j)) = d"
    "\<And>i. j \<le> i \<Longrightarrow> i < parse_find d s j \<Longrightarrow> f_name (root s i) \<noteq> d" by blast+
qed

lemma parse_dir:
  assumes "3 \<le> length path" "length path < NAME_SIZE" "t_index s < ROOT_SLOTS" "start \<noteq> FILE"
  shows "parse path type start sz s =
    (if dir_of path = [] then Some (add_node (makeNode 0 path start sz type) s)
     else if parse_find (dir_of path) s 1 < t_index s
     then Some (add_node (makeNode (parse_find (dir_of path) s 1) path start sz type) s)
     else Some s)"
proof -
  have "take (length (dir_of path) - 1 + 1) path = dir_of path" if "dir_of path \<noteq> []"
    using parse_scan_dir(2) [OF assms(1) that] that by (cases "dir_of path") auto
  then show ?thesis using assms(2-4) parse_scan_dir(1) [OF assms(1)] by (simp add: parse_def Let_def)
qed

text \<open>Addresses of the headers of an archive.\<close>

fun hdr_addrs :: "u64 \<Rightarrow> tarent list \<Rightarrow> u64 list" where
  "hdr_addrs a [] = []"
| "hdr_addrs a (e # es) = a # hdr_addrs (a + 512 + word_of_int (round512 (e_size e))) es"

text \<open>
  What the index should be: a node for every entry, under the null index when its name has no directory part, and otherwise
  under the first node named by that part; an entry whose directory has no node is left out.
\<close>

definition entry_node :: "nat \<Rightarrow> u64 \<Rightarrow> tarent \<Rightarrow> fnode" where
  "entry_node j a e =
     (let d = (e_flag e = str ''5'')
      in \<lparr>f_name = e_name e, f_size = (if d then 0 else ucast (word_of_int (e_size e) :: u64)),
          f_typeflag = (if d then DIRECTORY else FILE), f_start = a, f_parent = j\<rparr>)"

definition insert_entry :: "u64 \<Rightarrow> tarent \<Rightarrow> fnode list \<Rightarrow> fnode list" where
  "insert_entry a e ns =
     (let d = dir_of (e_name e)
      in if d = [] then ns @ [entry_node 0 a e]
         else case find (\<lambda>j. f_name (ns ! j) = d) [0..<length ns] of
                None \<Rightarrow> ns | Some j \<Rightarrow> ns @ [entry_node (j + 1) a e])"

fun index_of :: "u64 \<Rightarrow> tarent list \<Rightarrow> fnode list \<Rightarrow> fnode list" where
  "index_of a [] ns = ns"
| "index_of a (e # es) ns = index_of (a + 512 + word_of_int (round512 (e_size e))) es (insert_entry a e ns)"

text \<open>The slots from 1 on hold the nodes \<open>ns\<close>.\<close>

definition holds :: "'a fs_scheme \<Rightarrow> fnode list \<Rightarrow> bool" where
  "holds s ns \<longleftrightarrow> t_index s = length ns + 1 \<and> (\<forall>i < length ns. root s (i + 1) = ns ! i)"

lemma holds_add: "holds s ns \<Longrightarrow> holds (add_node nd s) (ns @ [nd])"
  by (auto simp: holds_def add_node_def nth_append less_Suc_eq)

lemma parse_find_nodes:
  assumes "holds s ns"
  shows "parse_find d s 1 = (case find (\<lambda>j. f_name (ns ! j) = d) [0..<length ns] of None \<Rightarrow> length ns + 1 | Some j \<Rightarrow> j + 1)"
proof -
  have t: "t_index s = length ns + 1" and r: "\<And>i. i < length ns \<Longrightarrow> root s (i + 1) = ns ! i" using assms by (simp_all add: holds_def)
  have "1 \<le> t_index s" using t by simp
  note F = parse_find_least [OF this, where d = d]
  let ?k = "parse_find d s 1"
  have pre: "f_name (ns ! i) \<noteq> d" if "i + 1 < ?k" for i
    using F(4) [of "i + 1"] r [of i] F(1) t that by simp
  show ?thesis
  proof (cases "?k < t_index s")
    case True
    then have k: "f_name (ns ! (?k - 1)) = d" "?k - 1 < length ns" using F(2) F(3) r [of "?k - 1"] t by auto
    have "find (\<lambda>j. f_name (ns ! j) = d) [0..<length ns] = Some (?k - 1)"
      unfolding find_Some_iff using k pre by (intro exI [of _ "?k - 1"]) auto
    then show ?thesis using F(2) by simp
  next
    case False
    then have k: "?k = length ns + 1" using F(1) t by simp
    then have "find (\<lambda>j. f_name (ns ! j) = d) [0..<length ns] = None" unfolding find_None_iff using pre by auto
    then show ?thesis using k by simp
  qed
qed

lemma parse_entry:
  assumes "holds s ns" "3 \<le> length (e_name e)" "length (e_name e) < NAME_SIZE" "length ns + 1 < ROOT_SLOTS" "a \<noteq> FILE"
    and d: "d = (e_flag e = str ''5'')"
  obtains s' where "parse (e_name e) (if d then DIRECTORY else FILE) a (if d then 0 else word_of_int (e_size e)) s = Some s'"
    "holds s' (insert_entry a e ns)" "fs.more s' = fs.more s"
proof -
  have t: "t_index s = length ns + 1" using assms(1) by (simp add: holds_def)
  have mk: "makeNode j (e_name e) a (if d then 0 else word_of_int (e_size e)) (if d then DIRECTORY else FILE) = entry_node j a e" for j
    by (simp add: makeNode_def entry_node_def d)
  let ?d = "dir_of (e_name e)"
  have run: "parse (e_name e) (if d then DIRECTORY else FILE) a (if d then 0 else word_of_int (e_size e)) s =
      (if ?d = [] then Some (add_node (entry_node 0 a e) s)
       else case find (\<lambda>j. f_name (ns ! j) = ?d) [0..<length ns] of
              None \<Rightarrow> Some s | Some j \<Rightarrow> Some (add_node (entry_node (j + 1) a e) s))"
  proof (cases "find (\<lambda>j. f_name (ns ! j) = ?d) [0..<length ns]")
    case None
    then show ?thesis unfolding parse_dir [OF assms(2,3) assms(4) [folded t] assms(5)] mk parse_find_nodes [OF assms(1)] by (simp add: t)
  next
    case (Some j)
    then have "j < length ns" by (auto simp: find_Some_iff)
    then show ?thesis unfolding parse_dir [OF assms(2,3) assms(4) [folded t] assms(5)] mk parse_find_nodes [OF assms(1)] Some by (simp add: t)
  qed
  have m: "fs.more (add_node nd s) = fs.more s" for nd by (simp add: add_node_def)
  show thesis
  proof (cases "?d = []")
    case True
    then show thesis using that run holds_add [OF assms(1)] m by (simp add: insert_entry_def Let_def)
  next
    case False
    then show thesis using that run holds_add [OF assms(1)] m assms(1)
      by (cases "find (\<lambda>j. f_name (ns ! j) = ?d) [0..<length ns]") (simp_all add: insert_entry_def Let_def)
  qed
qed

lemma insert_length: "length (insert_entry a e ns) \<le> Suc (length ns)"
  by (simp add: insert_entry_def Let_def split: option.splits)

lemma init_tarfs_loop_index:
  assumes "archive m a es" "holds s ns" "\<forall>e\<in>set es. 3 \<le> length (e_name e) \<and> length (e_name e) < NAME_SIZE" "1 \<notin> set (hdr_addrs a es)"
    and "length ns + length es < ROOT_SLOTS"
  shows "\<exists>s'. init_tarfs_loop m a s = Some s' \<and> holds s' (index_of a es ns) \<and> fs.more s' = fs.more s"
  using assms
proof (induction es arbitrary: a s ns)
  case Nil
  then show ?case by (subst init_tarfs_loop.simps) auto
next
  case (Cons e es)
  then have a: "3 \<le> length (e_name e)" "length (e_name e) < NAME_SIZE" "length ns + 1 < ROOT_SLOTS" "a \<noteq> 1" by auto
  let ?d = "e_flag e = str ''5''"
  obtain s1 where s1: "parse (e_name e) (if ?d then DIRECTORY else FILE) a (if ?d then 0 else word_of_int (e_size e)) s = Some s1"
    "holds s1 (insert_entry a e ns)" "fs.more s1 = fs.more s"
    by (rule parse_entry [OF Cons.prems(2) a refl]) (rule that)
  have "init_tarfs_loop m a s = init_tarfs_loop m (a + 512 + word_of_int (round512 (e_size e))) s1"
    using Cons.prems(1) s1(1) by (subst init_tarfs_loop.simps) (auto split: if_splits)
  moreover have "length (insert_entry a e ns) + length es < ROOT_SLOTS" using insert_length [of a e ns] Cons.prems(5) by simp
  ultimately show ?case using Cons.IH [OF _ s1(2)] Cons.prems s1(3) by simp
qed

text \<open>The index as a tree, and as a complete list of the archive when every directory comes before what it contains.\<close>

definition tree :: "fnode list \<Rightarrow> bool" where
  "tree ns \<longleftrightarrow> (\<forall>i < length ns. let d = dir_of (f_name (ns ! i)); j = f_parent (ns ! i) in
     if d = [] then j = 0 else 1 \<le> j \<and> j \<le> i \<and> f_name (ns ! (j - 1)) = d \<and> (\<forall>k < j - 1. f_name (ns ! k) \<noteq> d))"

lemma tree_snoc:
  assumes "tree ns" "let d = dir_of (f_name nd); j = f_parent nd in
     if d = [] then j = 0 else 1 \<le> j \<and> j \<le> length ns \<and> f_name (ns ! (j - 1)) = d \<and> (\<forall>k < j - 1. f_name (ns ! k) \<noteq> d)"
  shows "tree (ns @ [nd])"
  using assms by (auto simp: tree_def nth_append Let_def less_Suc_eq split: if_splits)

lemma entry_node_sel [simp]: "f_name (entry_node j a e) = e_name e" "f_parent (entry_node j a e) = j"
  by (simp_all add: entry_node_def Let_def)

lemma insert_tree:
  assumes "tree ns"
  shows "tree (insert_entry a e ns)"
proof (cases "dir_of (e_name e) = []")
  case True
  then show ?thesis using tree_snoc [OF assms, of "entry_node 0 a e"] by (simp add: insert_entry_def Let_def)
next
  case False
  show ?thesis
  proof (cases "find (\<lambda>j. f_name (ns ! j) = dir_of (e_name e)) [0..<length ns]")
    case None
    then show ?thesis using assms False by (simp add: insert_entry_def Let_def)
  next
    case (Some j)
    then have "j < length ns" "f_name (ns ! j) = dir_of (e_name e)" "\<And>k. k < j \<Longrightarrow> f_name (ns ! k) \<noteq> dir_of (e_name e)"
      by (auto simp: find_Some_iff)
    then show ?thesis using tree_snoc [OF assms, of "entry_node (j + 1) a e"] Some False by (simp add: insert_entry_def Let_def)
  qed
qed

lemma index_tree: "tree ns \<Longrightarrow> tree (index_of a es ns)"
  by (induction es arbitrary: a ns) (simp_all add: insert_tree)

fun ordered :: "u8 list list \<Rightarrow> u8 list list \<Rightarrow> bool" where
  "ordered seen [] \<longleftrightarrow> True"
| "ordered seen (p # ps) \<longleftrightarrow> (dir_of p = [] \<or> dir_of p \<in> set seen) \<and> ordered (seen @ [p]) ps"

lemma index_names:
  "ordered (map f_name ns) (map e_name es) \<Longrightarrow> map f_name (index_of a es ns) = map f_name ns @ map e_name es"
proof (induction es arbitrary: a ns)
  case (Cons e es)
  have "map f_name (insert_entry a e ns) = map f_name ns @ [e_name e]"
  proof (cases "dir_of (e_name e) = []")
    case False
    then have "dir_of (e_name e) \<in> f_name ` set ns" using Cons.prems by simp
    then have "find (\<lambda>j. f_name (ns ! j) = dir_of (e_name e)) [0..<length ns] \<noteq> None"
      unfolding find_None_iff by (auto simp: in_set_conv_nth)
    then show ?thesis using False by (auto simp: insert_entry_def Let_def)
  qed (simp add: insert_entry_def Let_def)
  then show ?case using Cons.IH [of "insert_entry a e ns"] Cons.prems by simp
qed simp

section \<open>Properties\<close>

text \<open>An archive for the witnesses: one header at \<^verbatim>\<open>0x1000\<close> for the empty file \<^verbatim>\<open>bin/ls\<close>.\<close>

definition tiny_tar :: bmem where
  "tiny_tar a = (if a = 0x1000 then 98 else if a = 0x1001 then 105 else if a = 0x1002 then 110
     else if a = 0x1003 then 47 else if a = 0x1004 then 108 else if a = 0x1005 then 115
     else if 0x107c \<le> a \<and> a < 0x1087 then 48 else if a = 0x109c then 48
     else if a = 0x1101 then 117 else if a = 0x1102 then 115 else if a = 0x1103 then 116
     else if a = 0x1104 then 97 else if a = 0x1105 then 114 else 0)"

text \<open>\<^verbatim>\<open>oct2bin\<close> reads an eleven-digit octal size field: the 32-bit result is the value of the digits, exact for
  every size below two gigabytes.\<close>

theorem oct2bin_value:
  assumes "length ds = 11" "\<forall>d\<in>set ds. d < 8" "octal ds < 2 ^ 31"
  shows "sint (oct2bin (\<lambda>j. of_nat (48 + ds ! j))) = int (octal ds)"
proof -
  have "oct2bin (\<lambda>j. of_nat (48 + ds ! j)) = of_nat (octal ds)" using assms by (intro oct2bin_octal) simp_all
  then show ?thesis using assms(3) by (simp add: signed_of_nat signed_take_bit_int_eq_self)
qed

theorem oct2bin_value_witness: "sint (oct2bin (\<lambda>j. of_nat (48 + [0, 0, 0, 0, 0, 0, 0, 1, 7, 5, 0] ! j))) = 1000"
  using oct2bin_value [of "[0, 0, 0, 0, 0, 0, 0, 1, 7, 5, 0]"] by (simp add: octal_def)

lemma tiny_tar_strings:
  "read_cstr tiny_tar 0x1101 = Some (str ''ustar'')" "read_cstr tiny_tar 0x1000 = Some (str ''bin/ls'')"
  "read_cstr tiny_tar 0x109c = Some (str ''0'')" "read_cstr tiny_tar 0x1301 = Some []"
  by (rule read_cstr_cstr, simp add: cstr_Cons cstr_Nil tiny_tar_def)+

lemma tiny_tar_archive: "archive tiny_tar 0x1000 [\<lparr>e_name = str ''bin/ls'', e_flag = str ''0'', e_size = 0\<rparr>]"
proof -
  have "oct2bin (\<lambda>j. tiny_tar (0x107c + of_nat j)) = 0"
    by (simp add: oct2bin_def upt_rec tiny_tar_def)
  then have "hdr_size tiny_tar 0x1000 = 0" by (simp add: hdr_size_def)
  then show ?thesis by (simp add: tiny_tar_strings round512_def)
qed

text \<open>\<^verbatim>\<open>getFile\<close> on a well-formed archive terminates and returns the address of the contents of the first entry
  with that name, or the null pointer when there is none.\<close>

theorem getFile_first:
  assumes "archive m a es"
  shows "getFile m a f = Some (locate (\<lambda>e. e_name e = f) a es)"
  using getFile_loop_locate [OF assms] by (simp add: getFile_def)

theorem getFile_first_witness: "getFile tiny_tar 0x1000 (str ''bin/ls'') = Some 0x1200"
  using getFile_first [OF tiny_tar_archive, of "str ''bin/ls''"] by simp

text \<open>\<^verbatim>\<open>isFile\<close> and \<^verbatim>\<open>isDir\<close> return the contents of the first entry with that name and the type 0 or 5:
  a name that is only a file is not a directory, and conversely.\<close>

theorem isFile_isDir_first:
  assumes "archive m a es"
  shows "isFile m a f = Some (locate (\<lambda>e. e_name e = f \<and> e_flag e = str ''0'') a es) \<and>
    isDir m a f = Some (locate (\<lambda>e. e_name e = f \<and> e_flag e = str ''5'') a es)"
  using isType_loop_locate [OF assms] by (simp add: isFile_def isDir_def)

theorem isFile_isDir_first_witness:
  "isFile tiny_tar 0x1000 (str ''bin/ls'') = Some 0x1200 \<and> isDir tiny_tar 0x1000 (str ''bin/ls'') = Some 0"
  using isFile_isDir_first [OF tiny_tar_archive, of "str ''bin/ls''"] by simp

text \<open>C18. \<^verbatim>\<open>init_tarfs\<close> on a well-formed archive of at most 511 entries, with names of 3 to 99 characters, terminates without
  leaving its arrays.  The index then holds, from slot 1 on, one node per entry with its name, size, type, header and
  parent; it is a tree: a node with no directory part hangs under index 0, every other one under the first node named by
  its directory part, which comes before it.  When every directory comes before what it contains, no entry is missing.\<close>

theorem init_tarfs_tree:
  assumes "archive m a es" "\<forall>e\<in>set es. 3 \<le> length (e_name e) \<and> length (e_name e) < NAME_SIZE" "1 \<notin> set (hdr_addrs a es)"
    "t_index s = 1" "length es < ROOT_SLOTS"
  shows "\<exists>s' ns. init_tarfs m a s = Some s' \<and> fs.more s' = fs.more s \<and> ns = index_of a es [] \<and>
    t_index s' = length ns + 1 \<and> (\<forall>i < length ns. root s' (i + 1) = ns ! i) \<and> tree ns \<and>
    (ordered [] (map e_name es) \<longrightarrow> map f_name ns = map e_name es)"
proof -
  have "holds s []" using assms(4) by (simp add: holds_def)
  then show ?thesis
    using init_tarfs_loop_index [OF assms(1) _ assms(2,3), of s "[]"] assms(5) index_tree [of "[]" a es] index_names [of "[]" es a]
    by (auto simp: init_tarfs_def holds_def tree_def)
qed

definition small_fs :: "unit fs_scheme" where
  "small_fs = vm.extend (vm.truncate small_vm)
     \<lparr>root = (\<lambda>_. \<lparr>f_name = [], f_size = 0, f_typeflag = 0, f_start = 0, f_parent = 0\<rparr>), t_index = 1\<rparr>"

text \<open>Behind a header for the directory \<^verbatim>\<open>bin/\<close>, the header of the file.\<close>

definition two_tar :: bmem where
  "two_tar a = (if 0x1200 \<le> a then tiny_tar (a - 0x200) else if a = 0x1004 \<or> a = 0x1005 then 0 else if a = 0x109c then 53 else tiny_tar a)"

lemma two_tar_archive:
  "archive two_tar 0x1000 [\<lparr>e_name = str ''bin/'', e_flag = str ''5'', e_size = 0\<rparr>, \<lparr>e_name = str ''bin/ls'', e_flag = str ''0'', e_size = 0\<rparr>]"
proof -
  have "read_cstr two_tar 0x1101 = Some (str ''ustar'')" "read_cstr two_tar 0x1000 = Some (str ''bin/'')" "read_cstr two_tar 0x109c = Some (str ''5'')"
    "read_cstr two_tar 0x1301 = Some (str ''ustar'')" "read_cstr two_tar 0x1200 = Some (str ''bin/ls'')" "read_cstr two_tar 0x129c = Some (str ''0'')"
    "read_cstr two_tar 0x1501 = Some []"
    by (rule read_cstr_cstr, simp add: cstr_Cons cstr_Nil two_tar_def tiny_tar_def)+
  moreover have "oct2bin (\<lambda>j. two_tar (0x107c + of_nat j)) = 0" "oct2bin (\<lambda>j. two_tar (0x127c + of_nat j)) = 0"
    by (simp_all add: oct2bin_def upt_rec two_tar_def tiny_tar_def)
  then have "hdr_size two_tar 0x1000 = 0" "hdr_size two_tar 0x1200 = 0" by (simp_all add: hdr_size_def)
  ultimately show ?thesis by (simp add: round512_def)
qed

theorem init_tarfs_tree_witness:
  "\<exists>s'. init_tarfs two_tar 0x1000 small_fs = Some s' \<and> t_index s' = 3 \<and> f_name (root s' 2) = str ''bin/ls'' \<and> f_parent (root s' 2) = 1"
proof -
  let ?es = "[\<lparr>e_name = str ''bin/'', e_flag = str ''5'', e_size = 0\<rparr>, \<lparr>e_name = str ''bin/ls'', e_flag = str ''0'', e_size = 0\<rparr>] :: tarent list"
  have i: "index_of 0x1000 ?es [] = [entry_node 0 0x1000 (?es ! 0), entry_node 1 0x1200 (?es ! 1)]"
    by (simp add: insert_entry_def dir_of_def Let_def round512_def)
  obtain s' where s': "init_tarfs two_tar 0x1000 small_fs = Some s'" "t_index s' = length (index_of 0x1000 ?es []) + 1"
    "\<forall>i < length (index_of 0x1000 ?es []). root s' (i + 1) = index_of 0x1000 ?es [] ! i"
    using init_tarfs_tree [OF two_tar_archive, of small_fs] by (auto simp: small_fs_def vm.extend_def round512_def)
  show ?thesis using s'(1,2) s'(3) [rule_format, of 1] unfolding i by (simp add: numeral_2_eq_2)
qed

text \<open>\<^verbatim>\<open>parse\<close> of an entry whose directory is not in the index adds nothing: the entry is lost silently.  With its
  directory present it is appended under the first node of that name.\<close>

theorem parse_parent:
  assumes "3 \<le> length path" "length path < NAME_SIZE" "t_index s < ROOT_SLOTS" "start \<noteq> FILE" "dir_of path \<noteq> []" "1 \<le> t_index s"
  shows "\<exists>s'. parse path type start sz s = Some s' \<and>
    (if \<exists>j. 1 \<le> j \<and> j < t_index s \<and> f_name (root s j) = dir_of path
     then t_index s' = t_index s + 1 \<and> f_name (root s' (t_index s)) = path \<and>
          f_parent (root s' (t_index s)) = (LEAST j. 1 \<le> j \<and> f_name (root s j) = dir_of path)
     else s' = s)"
proof -
  let ?j = "parse_find (dir_of path) s 1"
  note F = parse_find_least [OF assms(6), where d = "dir_of path"]
  show ?thesis
  proof (cases "?j < t_index s")
    case True
    have "(LEAST j. 1 \<le> j \<and> f_name (root s j) = dir_of path) = ?j"
      using F(2) F(3) [OF True] F(4) by (intro Least_equality) (auto simp: linorder_not_less [symmetric])
    moreover have "\<exists>j. 1 \<le> j \<and> j < t_index s \<and> f_name (root s j) = dir_of path" using True F(2) F(3) [OF True] by blast
    ultimately show ?thesis using True assms(5) unfolding parse_dir [OF assms(1-4)]
      by (simp add: add_node_def makeNode_def)
  next
    case False
    then have "?j = t_index s" using F(1) by simp
    then have "\<not> (\<exists>j. 1 \<le> j \<and> j < t_index s \<and> f_name (root s j) = dir_of path)" using F(4) by metis
    then show ?thesis using False assms(5) unfolding parse_dir [OF assms(1-4)] by simp
  qed
qed

theorem parse_parent_witness: "\<exists>s'. parse (str ''bin/ls'') FILE 0x1000 0 small_fs = Some s' \<and> t_index s' = 1"
proof -
  have d: "dir_of [98, 105, 110, slash, 108, 115] \<noteq> []" by (simp add: dir_of_def)
  have "t_index small_fs = 1" by (simp add: small_fs_def vm.extend_def)
  then show ?thesis using parse_parent [of "str ''bin/ls''" small_fs "0x1000" FILE 0] by (simp add: d)
qed

end
