(* ===== verification/Keyboard.thy ===== *)
theory Keyboard
  imports Tarfs
begin

text \<open>
  The keyboard of \<^verbatim>\<open>sys/isr.c\<close>: the interrupt handler \<^verbatim>\<open>irq_handler1\<close> with its modifier flags and line buffer,
  and \<^verbatim>\<open>scanfstdin\<close>, which waits until Enter clears \<^verbatim>\<open>scanFlag\<close>.

  The port \<^verbatim>\<open>0x60\<close> is the argument \<open>scancode\<close> of the handler; the values written with \<^verbatim>\<open>outb\<close> are kept
  in order in \<open>out_log\<close>.  The code does not check \<^verbatim>\<open>index\<close> against the 512 bytes of \<^verbatim>\<open>buffer\<close>: where it stores
  outside the array the value is \<open>None\<close>.
\<close>

record kbd = fs +
  irq_i :: int
  capskey :: int
  controlkey :: int
  shiftkey :: int
  scanFlag :: int
  buffer :: "u8 list"
  index :: int
  localEcho :: int
  out_log :: "(u16 \<times> u8) list"

section \<open>The code\<close>

definition outb :: "u16 \<Rightarrow> u8 \<Rightarrow> 'a kbd_scheme \<Rightarrow> 'a kbd_scheme" where
  "outb port v s = s\<lparr>out_log := out_log s @ [(port, v)]\<rparr>"

definition kbdus :: "u8 list" where
  "kbdus = [0, 27] @ str ''1234567890-='' @ [8, 9] @ str ''qwertyuiop[]'' @ [10, 0] @ str ''asdfghjkl;'' @ [39, 96, 0, 92] @
     str ''zxcvbnm,./'' @ [0] @ str ''*'' @ [0, 32, 0] @ replicate 15 0 @ str ''-'' @ replicate 3 0 @ str ''+'' @ replicate 49 0"

text \<open>\<^verbatim>\<open>kbdus[scancode]\<close>; the value read past the end for a key release is never used.\<close>

definition kbdus_at :: "u8 \<Rightarrow> u8" where
  "kbdus_at scancode = (if unat scancode < 128 then kbdus ! unat scancode else 0)"

definition shift_char :: "int \<Rightarrow> u8 \<Rightarrow> u8" where
  "shift_char caps value =
     (if value = 49 then 33 else if value = 50 then 64 else if value = 51 then 35 else if value = 52 then 36
      else if value = 53 then 37 else if value = 54 then 94 else if value = 55 then 38 else if value = 56 then 42
      else if value = 57 then 40 else if value = 48 then 41 else if value = 45 then 95 else if value = 61 then 43
      else if value = 91 then 123 else if value = 93 then 125 else if value = 92 then 124 else if value = 59 then 58
      else if value = 39 then 34 else if value = 44 then 60 else if value = 46 then 62 else if value = 47 then 63
      else if value = 96 then 126
      else if value \<ge> 97 \<or> value \<le> 122 then (if caps = 0 then value - 32 else value)
      else 32)"

abbreviation BUF_SIZE :: nat where "BUF_SIZE \<equiv> 512"

definition put_buf :: "u8 \<Rightarrow> 'a kbd_scheme \<Rightarrow> 'a kbd_scheme option" where
  "put_buf c s =
     (if 0 \<le> index s \<and> index s < int BUF_SIZE then Some (s\<lparr>buffer := (buffer s)[nat (index s) := c]\<rparr>) else None)"

definition put_key :: "u8 \<Rightarrow> 'a kbd_scheme \<Rightarrow> 'a kbd_scheme option" where
  "put_key character s = do {
     s \<leftarrow> put_buf character s;
     let s = (if localEcho s = 1 then kprintf ''%c'' [KInt (ucast (buffer s ! nat (index s)))] s else s);
     Some (s\<lparr>index := index s + 1\<rparr>)
   }"

definition irq_handler1 :: "u8 \<Rightarrow> 'a kbd_scheme \<Rightarrow> 'a kbd_scheme option" where
  "irq_handler1 scancode s =
     (let s = s\<lparr>irq_i := irq_i s + 1\<rparr>;
          make = (scancode AND 0x80 \<noteq> 0x80);
          handled =
       (if scancode = 0x1d then Some (s\<lparr>controlkey := 1\<rparr>)
        else if scancode = 0x9d then Some (s\<lparr>controlkey := 0\<rparr>)
        else if controlkey s = 1 then Some s
        else if scancode = 0x2a \<or> scancode = 0x36 then Some (s\<lparr>shiftkey := 1\<rparr>)
        else if scancode = 0xaa \<or> scancode = 0xb6 then Some (s\<lparr>shiftkey := 0\<rparr>)
        else if scancode = 0x3a then
          Some (if capskey s = 0 then s\<lparr>capskey := 1\<rparr> else if capskey s = 1 then s\<lparr>capskey := 0\<rparr> else s)
        else if capskey s = 1 then
          Some (if make then kprintf ''%c'' [KInt (ucast (kbdus_at scancode) - 32)] s else s)
        else if shiftkey s = 1 then
          (if make then put_key (shift_char (capskey s) (kbdus_at scancode)) s else Some s)
        else if scancode = 0x0e then
          Some (if localEcho s = 1 \<and> index s > 0 then backspace (s\<lparr>index := index s - 1\<rparr>) else s)
        else if scancode = 0x0F then Some s
        else if scancode = 0x01 then Some s
        else if scancode = 0x53 then Some s
        else if scancode = 0x1C then Some (s\<lparr>scanFlag := 0\<rparr>)
        else if scancode = 0x48 then Some s
        else if scancode = 0x4B then Some s
        else if scancode = 0x50 then Some s
        else if scancode = 0x4D then Some s
        else if make \<and> shiftkey s \<noteq> 1 then put_key (kbdus_at scancode) s
        else Some s)
      in map_option (outb 0x20 0x20) handled)"

text \<open>\<^verbatim>\<open>scanfstdin\<close>: the interrupts that arrive while it waits are the list of scancodes; \<open>None\<close> when none of them
  ends the wait.  The result is the length, the bytes copied to the user's address, the scancodes
  left, and the state.\<close>

fun scan_wait :: "u8 list \<Rightarrow> 'a kbd_scheme \<Rightarrow> (u8 list \<times> 'a kbd_scheme) option" where
  "scan_wait [] s = (if scanFlag s \<noteq> 0 then None else Some ([], s))"
| "scan_wait (sc # scs) s =
     (if scanFlag s \<noteq> 0 then Option.bind (irq_handler1 sc (printCursor s)) (scan_wait scs) else Some (sc # scs, s))"

definition scanfstdin :: "u8 list \<Rightarrow> 'a kbd_scheme \<Rightarrow> (nat \<times> u8 list \<times> u8 list \<times> 'a kbd_scheme) option" where
  "scanfstdin keys s = do {
     let s = s\<lparr>scanFlag := 1, localEcho := 1\<rparr>;
     (keys, s) \<leftarrow> scan_wait keys s;
     let s = s\<lparr>localEcho := 0\<rparr>;
     s \<leftarrow> put_buf 0 s;
     let s = s\<lparr>index := index s + 1\<rparr>;
     let bytes = take (nat (index s)) (buffer s);
     let scanLength = nat (index s);
     Some (scanLength, bytes, keys, s\<lparr>index := 0\<rparr>)
   }"

text \<open>The programming of the two interrupt controllers in \<^verbatim>\<open>isr_install\<close>.\<close>

definition pic_init :: "'a kbd_scheme \<Rightarrow> 'a kbd_scheme" where
  "pic_init s = fold (\<lambda>(p, v). outb p v)
     [(0x20, 0x11), (0xA0, 0x11), (0x21, 0x20), (0xA1, 0x28), (0x21, 0x04), (0xA1, 0x02), (0x21, 0x01), (0xA1, 0x01),
      (0x21, 0x0), (0xA1, 0x0)] s"

section \<open>The line editor\<close>

text \<open>The abstract keyboard: whether a shift key is down, and the line typed so far.\<close>

definition line :: "'a kbd_scheme \<Rightarrow> u8 list" where
  "line s = take (nat (index s)) (buffer s)"

definition kbd_abs :: "'a kbd_scheme \<Rightarrow> bool \<times> u8 list" where
  "kbd_abs s = (shiftkey s = 1, line s)"

text \<open>Keys that neither type nor edit: escape, tab, delete, Enter, the arrows, and every key release.\<close>

definition silent :: "u8 \<Rightarrow> bool" where
  "silent sc \<longleftrightarrow> sc \<in> {0x01, 0x0F, 0x53, 0x1C, 0x48, 0x4B, 0x50, 0x4D} \<or> 0x80 \<le> sc"

definition key_step :: "u8 \<Rightarrow> bool \<times> u8 list \<Rightarrow> bool \<times> u8 list" where
  "key_step sc = (\<lambda>(shift, l).
     if sc \<in> {0x2a, 0x36} then (True, l)
     else if sc \<in> {0xaa, 0xb6} then (False, l)
     else if shift then (shift, if sc < 0x80 then l @ [shift_char 0 (kbdus_at sc)] else l)
     else if sc = 0x0e then (shift, butlast l)
     else if silent sc then (shift, l)
     else (shift, l @ [kbdus_at sc]))"

text \<open>The index is inside the array or just behind it.\<close>

definition buf_ok :: "'a kbd_scheme \<Rightarrow> bool" where
  "buf_ok s \<longleftrightarrow> length (buffer s) = BUF_SIZE \<and> 0 \<le> index s \<and> index s \<le> int BUF_SIZE"

text \<open>No control key, no caps lock, and the handler echoes.\<close>

definition editing :: "'a kbd_scheme \<Rightarrow> bool" where
  "editing s \<longleftrightarrow> controlkey s \<noteq> 1 \<and> capskey s = 0 \<and> localEcho s = 1 \<and> buf_ok s"

text \<open>A sequence of interrupts, and the sequences during which the line fits in the array.\<close>

fun key_run :: "u8 list \<Rightarrow> 'a kbd_scheme \<Rightarrow> 'a kbd_scheme option" where
  "key_run [] s = Some s"
| "key_run (sc # scs) s = Option.bind (irq_handler1 sc s) (key_run scs)"

fun fits_buffer :: "u8 list \<Rightarrow> bool \<times> u8 list \<Rightarrow> bool" where
  "fits_buffer [] st \<longleftrightarrow> True"
| "fits_buffer (sc # scs) st \<longleftrightarrow> length (snd (key_step sc st)) \<le> BUF_SIZE \<and> fits_buffer scs (key_step sc st)"

definition modifier :: "u8 \<Rightarrow> bool" where
  "modifier sc \<longleftrightarrow> sc \<in> {0x1d, 0x9d, 0x3a}"

lemma kbd_more_eq:
  assumes "console.more s = console.more (t :: 'a kbd_scheme)"
  shows "irq_i s = irq_i t" "capskey s = capskey t" "controlkey s = controlkey t" "shiftkey s = shiftkey t"
    "scanFlag s = scanFlag t" "buffer s = buffer t" "index s = index t" "localEcho s = localEcho t"
    "out_log s = out_log t" "kbd.more s = kbd.more t"
  using assms by (cases s; cases t; simp)+

lemmas kprintf_kbd [simp] = kbd_more_eq [OF kprintf_more]
lemmas backspace_kbd [simp] = kbd_more_eq [OF backspace_more]

lemma line_length: "buf_ok s \<Longrightarrow> length (line s) = nat (index s)"
  by (simp add: line_def buf_ok_def nat_le_iff)

lemma put_buf_ok:
  assumes "buf_ok s" "length (line s) < BUF_SIZE"
  shows "put_buf c s = Some (s\<lparr>buffer := (buffer s)[nat (index s) := c]\<rparr>)"
  using assms line_length [OF assms(1)] by (simp add: put_buf_def buf_ok_def)

text \<open>A character that is typed while there is room is appended to the line.\<close>

lemma put_key_ok:
  assumes "buf_ok s" "length (line s) < BUF_SIZE"
  obtains s' where "put_key c s = Some s'" "line s' = line s @ [c]" "buf_ok s'" "capskey s' = capskey s" "controlkey s' = controlkey s"
    "shiftkey s' = shiftkey s" "scanFlag s' = scanFlag s" "localEcho s' = localEcho s"
proof -
  have n: "nat (index s) < length (buffer s)" "nat (index s + 1) = Suc (nat (index s))"
    using assms line_length [OF assms(1)] by (auto simp: buf_ok_def)
  define t where "t = s\<lparr>buffer := (buffer s)[nat (index s) := c]\<rparr>"
  define u where "u = (if localEcho t = 1 then kprintf ''%c'' [KInt (ucast (buffer t ! nat (index t)))] t else t)"
  have f: "buffer u = (buffer s)[nat (index s) := c]" "index u = index s" "capskey u = capskey s" "controlkey u = controlkey s"
    "shiftkey u = shiftkey s" "scanFlag u = scanFlag s" "localEcho u = localEcho s"
    by (simp_all add: u_def t_def)
  have "put_key c s = Some (u\<lparr>index := index u + 1\<rparr>)" by (simp add: put_key_def put_buf_ok [OF assms] u_def t_def Let_def)
  then show thesis
    by (rule that) (use n assms(1) in \<open>simp_all add: f line_def buf_ok_def take_Suc_conv_app_nth\<close>)
qed

lemma outb_keys [simp]:
  "capskey (outb p v s) = capskey s" "controlkey (outb p v s) = controlkey s" "shiftkey (outb p v s) = shiftkey s"
  "scanFlag (outb p v s) = scanFlag s" "localEcho (outb p v s) = localEcho s" "line (outb p v s) = line s" "buf_ok (outb p v s) = buf_ok s"
  by (simp_all add: outb_def line_def buf_ok_def)

lemma high_bit: "(sc :: u8) AND 0x80 \<noteq> 0x80 \<longleftrightarrow> sc < 0x80"
proof -
  have b: "sc AND 0x80 = 0x80 \<longleftrightarrow> bit sc 7"
  proof
    assume "sc AND 0x80 = 0x80"
    then have "bit (sc AND 0x80) 7 = bit (0x80 :: u8) 7" by (rule arg_cong)
    then show "bit sc 7" by (simp add: bit_simps)
  next
    assume b7: "bit sc 7"
    have "bit (2 ^ 7 :: u8) n \<Longrightarrow> n = 7" for n unfolding bit_exp_iff by blast
    then have "bit (0x80 :: u8) n \<Longrightarrow> n = 7" for n by simp
    then show "sc AND 0x80 = 0x80" using b7 by (intro bit_eqI) (auto simp: bit_and_iff)
  qed
  have "bit sc 7 \<longleftrightarrow> odd (drop_bit 7 (unat sc))" by (simp add: bit_iff_odd_drop_bit [symmetric] bit_unsigned_iff)
  also have "\<dots> \<longleftrightarrow> odd (unat sc div 128)" by (simp add: drop_bit_eq_div)
  also have "\<dots> \<longleftrightarrow> 128 \<le> unat sc"
  proof -
    have "unat sc < 256" using unat_lt2p [of sc] by simp
    then have "unat sc div 128 = (if 128 \<le> unat sc then 1 else 0)" by auto
    then show ?thesis by simp
  qed
  finally show ?thesis using b by (simp add: word_less_nat_alt linorder_not_le)
qed

lemma line_upd [simp]:
  "line (s\<lparr>irq_i := i\<rparr>) = line s" "line (s\<lparr>shiftkey := i\<rparr>) = line s" "line (s\<lparr>scanFlag := i\<rparr>) = line s"
  "line (s\<lparr>localEcho := i\<rparr>) = line s"
  by (simp_all add: line_def)

lemma buf_ok_upd [simp]:
  "buf_ok (s\<lparr>irq_i := i\<rparr>) = buf_ok s" "buf_ok (s\<lparr>shiftkey := i\<rparr>) = buf_ok s" "buf_ok (s\<lparr>scanFlag := i\<rparr>) = buf_ok s"
  "buf_ok (s\<lparr>localEcho := i\<rparr>) = buf_ok s"
  by (simp_all add: buf_ok_def)

text \<open>Backspace: the last character goes, and an empty line stays as it is.\<close>

lemma backspace_line:
  assumes "buf_ok s"
  shows "line (if index s > 0 then backspace (s\<lparr>index := index s - 1\<rparr>) else s) = butlast (line s)"
    "buf_ok (if index s > 0 then backspace (s\<lparr>index := index s - 1\<rparr>) else s)"
proof -
  have "butlast (take (nat (index s)) (buffer s)) = take (nat (index s - 1)) (buffer s)" if "0 < index s"
    using assms that by (subst butlast_take) (auto simp: buf_ok_def nat_diff_distrib)
  then show "line (if index s > 0 then backspace (s\<lparr>index := index s - 1\<rparr>) else s) = butlast (line s)" by (simp add: line_def)
  show "buf_ok (if index s > 0 then backspace (s\<lparr>index := index s - 1\<rparr>) else s)" using assms by (simp add: buf_ok_def)
qed

text \<open>The handler implements the line editor, key by key, while the line fits.\<close>

lemma irq_handler1_step:
  assumes "editing s" "\<not> modifier sc" "length (snd (key_step sc (kbd_abs s))) \<le> BUF_SIZE"
  obtains s' where "irq_handler1 sc s = Some s'" "kbd_abs s' = key_step sc (kbd_abs s)" "editing s'"
    "scanFlag s' = (if sc = 0x1C \<and> shiftkey s \<noteq> 1 then 0 else scanFlag s)"
proof -
  note result = that
  define u where "u = s\<lparr>irq_i := irq_i s + 1\<rparr>"
  have u: "controlkey u \<noteq> 1" "capskey u = 0" "localEcho u = 1" "buf_ok u" "line u = line s" "shiftkey u = shiftkey s" "scanFlag u = scanFlag s"
    using assms(1) by (simp_all add: u_def editing_def)
  let ?bs = "if index u > 0 then backspace (u\<lparr>index := index u - 1\<rparr>) else u"
  have h: "irq_handler1 sc s = map_option (outb 0x20 0x20)
   (if sc = 0x2a \<or> sc = 0x36 then Some (u\<lparr>shiftkey := 1\<rparr>)
    else if sc = 0xaa \<or> sc = 0xb6 then Some (u\<lparr>shiftkey := 0\<rparr>)
    else if shiftkey u = 1 then (if sc < 0x80 then put_key (shift_char 0 (kbdus_at sc)) u else Some u)
    else if sc = 0x0e then Some ?bs
    else if sc = 0x1C then Some (u\<lparr>scanFlag := 0\<rparr>)
    else if silent sc then Some u else put_key (kbdus_at sc) u)"
    using u(1-3) assms(2) unfolding irq_handler1_def Let_def u_def [symmetric] high_bit
    by (auto simp: modifier_def silent_def)
  have typed: thesis
    if run: "irq_handler1 sc s = map_option (outb 0x20 0x20) (put_key c u)" and st: "key_step sc (kbd_abs s) = (shiftkey s = 1, line s @ [c])"
      and nf: "\<not> (sc = 0x1C \<and> shiftkey s \<noteq> 1)" for c
  proof -
    have "length (line u) < BUF_SIZE" using assms(3) st u(5) by simp
    then obtain v where "put_key c u = Some v" "line v = line u @ [c]" "buf_ok v" "capskey v = capskey u" "controlkey v = controlkey u"
      "shiftkey v = shiftkey u" "scanFlag v = scanFlag u" "localEcho v = localEcho u" by (rule put_key_ok [OF u(4)]) (rule that)
    then show thesis using result [of "outb 0x20 0x20 v"] run st nf u by (simp add: kbd_abs_def editing_def)
  qed
  have other: thesis
    if run: "irq_handler1 sc s = Some (outb 0x20 0x20 v)" and v: "kbd_abs v = key_step sc (kbd_abs s)" "buf_ok v" "capskey v = 0"
      "controlkey v \<noteq> 1" "localEcho v = 1" "scanFlag v = (if sc = 0x1C \<and> shiftkey s \<noteq> 1 then 0 else scanFlag s)" for v
    using result [of "outb 0x20 0x20 v"] run v by (simp add: kbd_abs_def editing_def)
  consider "sc = 0x2a \<or> sc = 0x36 \<or> sc = 0xaa \<or> sc = 0xb6" | "sc \<notin> {0x2a, 0x36, 0xaa, 0xb6}" "shiftkey s = 1"
    | "sc \<notin> {0x2a, 0x36, 0xaa, 0xb6}" "shiftkey s \<noteq> 1" by auto
  then show thesis
  proof cases
    case 1
    then show ?thesis
      using other [of "u\<lparr>shiftkey := if sc = 0x2a \<or> sc = 0x36 then 1 else 0\<rparr>"] u h by (auto simp: kbd_abs_def key_step_def)
  next
    case 2
    then show ?thesis
      using typed [of "shift_char 0 (kbdus_at sc)"] other [of u] u h by (cases "sc < 0x80") (auto simp: kbd_abs_def key_step_def)
  next
    case 3
    note b = backspace_line [OF u(4)]
    show ?thesis
    proof (cases "sc = 0x0e")
      case True
      then show ?thesis using 3 other [of ?bs] u(1-3,5-7) b h by (auto simp: kbd_abs_def key_step_def split: if_splits)
    next
      case False
      then show ?thesis
        using 3 typed [of "kbdus_at sc"] other [of "if sc = 0x1C then u\<lparr>scanFlag := 0\<rparr> else u"] u h
        by (cases "silent sc") (auto simp: kbd_abs_def key_step_def silent_def split: if_splits)
    qed
  qed
qed

lemma keys_run:
  assumes "editing s" "\<forall>sc\<in>set scs. \<not> modifier sc" "fits_buffer scs (kbd_abs s)"
  shows "\<exists>s'. key_run scs s = Some s' \<and> kbd_abs s' = fold key_step scs (kbd_abs s) \<and> editing s'"
  using assms
proof (induction scs arbitrary: s)
  case (Cons sc scs)
  then have m: "\<not> modifier sc" "length (snd (key_step sc (kbd_abs s))) \<le> BUF_SIZE" by simp_all
  obtain t where "irq_handler1 sc s = Some t" "kbd_abs t = key_step sc (kbd_abs s)" "editing t"
    by (rule irq_handler1_step [OF Cons.prems(1) m]) (rule that)
  then show ?case using Cons.IH [of t] Cons.prems by simp
qed simp

lemma editing_cursor: "editing (printCursor s) = editing s" "kbd_abs (printCursor s) = kbd_abs s" "scanFlag (printCursor s) = scanFlag s"
  "shiftkey (printCursor s) = shiftkey s"
  by (simp_all add: printCursor_def editing_def kbd_abs_def line_def buf_ok_def)

lemma scan_wait_line:
  assumes "editing s" "scanFlag s \<noteq> 0" "\<forall>sc\<in>set ws. \<not> modifier sc \<and> sc \<noteq> 0x1C"
    "fst (fold key_step ws (kbd_abs s)) = False" "fits_buffer ws (kbd_abs s)"
  shows "\<exists>s'. scan_wait (ws @ 0x1C # rest) s = Some (rest, s') \<and> editing s' \<and> line s' = snd (fold key_step ws (kbd_abs s))"
  using assms
proof (induction ws arbitrary: s)
  case Nil
  let ?s = "printCursor s"
  have m: "\<not> modifier 0x1C" by (simp add: modifier_def)
  have sh: "shiftkey s \<noteq> 1" using Nil(4) by (simp add: kbd_abs_def)
  then have k: "key_step 0x1C (kbd_abs s) = kbd_abs s" by (simp add: kbd_abs_def key_step_def silent_def)
  have "length (line s) \<le> BUF_SIZE" using line_length [of s] Nil(1) by (simp add: editing_def buf_ok_def nat_le_iff)
  then have "length (snd (key_step 0x1C (kbd_abs ?s))) \<le> BUF_SIZE" by (simp add: editing_cursor k) (simp add: kbd_abs_def)
  then obtain t where t: "irq_handler1 0x1C ?s = Some t" "kbd_abs t = kbd_abs s" "editing t" "scanFlag t = 0"
    by (rule irq_handler1_step [OF editing_cursor(1) [THEN iffD2, OF Nil(1)] m]) (use sh k in \<open>simp add: that editing_cursor\<close>)
  then have "scan_wait ([] @ 0x1C # rest) s = Some (rest, t)" using Nil(2) by (cases rest) simp_all
  then show ?case using t(2,3) by (simp add: kbd_abs_def)
next
  case (Cons w ws)
  have w: "\<not> modifier w" "w \<noteq> 0x1C" using Cons.prems(3) by auto
  obtain t where t: "irq_handler1 w (printCursor s) = Some t" "kbd_abs t = key_step w (kbd_abs s)" "editing t" "scanFlag t = scanFlag s"
    using irq_handler1_step [OF _ w(1), of "printCursor s"] Cons.prems(1,5) w(2) by (auto simp: editing_cursor)
  then obtain s' where "scan_wait (ws @ 0x1C # rest) t = Some (rest, s')" "editing s'" "line s' = snd (fold key_step ws (kbd_abs t))"
    using Cons.IH [of t] Cons.prems by auto
  then show ?case using Cons.prems(2) t(1,2) by simp
qed

section \<open>Properties\<close>

text \<open>C16. The keyboard handler refines a line editor: with neither control nor caps lock in play, any sequence of
  scancodes during which the line fits in the 512 bytes of the buffer is handled without leaving the array, and leaves in
  it the line that the editor computes (typed characters appended, shifted ones through the shift table, backspace
  removing the last one if there is one, everything else ignored), with the index inside its bounds.\<close>

theorem keyboard_refines_editor:
  assumes "editing s" "\<forall>sc\<in>set scs. \<not> modifier sc" "fits_buffer scs (kbd_abs s)"
  shows "\<exists>s'. key_run scs s = Some s' \<and> kbd_abs s' = fold key_step scs (kbd_abs s) \<and> editing s'"
  using assms by (rule keys_run)

definition small_kbd :: "unit kbd_scheme" where
  "small_kbd = fs.extend (fs.truncate small_fs)
     \<lparr>irq_i = 0, capskey = 0, controlkey = 0, shiftkey = 0, scanFlag = 0, buffer = replicate 512 0, index = 0, localEcho = 1, out_log = []\<rparr>"

lemma small_kbd_editing: "editing small_kbd" "kbd_abs small_kbd = (False, [])" "index small_kbd = 0"
    "capskey small_kbd = 0" "controlkey small_kbd = 0" "shiftkey small_kbd = 0"
  by (simp_all add: small_kbd_def fs.extend_def editing_def buf_ok_def kbd_abs_def line_def)

text \<open>Backspace on the empty line, shift, \<^verbatim>\<open>l\<close>, shift released, \<^verbatim>\<open>s\<close>, \<^verbatim>\<open>x\<close>, backspace.\<close>

theorem keyboard_refines_editor_witness:
  "\<exists>s'. key_run [0x0e, 0x2a, 0x26, 0xaa, 0x1f, 0x2d, 0x0e] small_kbd = Some s' \<and> kbd_abs s' = (False, [76, 115])"
proof -
  have f: "fold key_step [0x0e, 0x2a, 0x26, 0xaa, 0x1f, 0x2d, 0x0e] (False, []) = (False, [76, 115])"
    "fits_buffer [0x0e, 0x2a, 0x26, 0xaa, 0x1f, 0x2d, 0x0e] (False, [])"
    by (simp_all add: key_step_def silent_def kbdus_at_def kbdus_def shift_char_def)
  then show ?thesis
    using keyboard_refines_editor [OF small_kbd_editing(1), of "[0x0e, 0x2a, 0x26, 0xaa, 0x1f, 0x2d, 0x0e]"]
    unfolding small_kbd_editing(2) f(1) by (auto simp: modifier_def)
qed

text \<open>C17. \<^verbatim>\<open>scanfstdin\<close> returns: when Enter is pressed with the shift keys up, and the line has always fitted in the buffer and
  leaves a byte of it for the terminator, it hands out the edited line with its terminator and the length of both, without
  leaving the array, empties the buffer and leaves the keys typed after Enter to the next call.  The length asked for plays
  no part.\<close>

theorem scanfstdin_line:
  assumes "buf_ok s" "controlkey s \<noteq> 1" "capskey s = 0" "\<forall>sc\<in>set ws. \<not> modifier sc \<and> sc \<noteq> 0x1C"
    "fold key_step ws (kbd_abs s) = (False, l)" "fits_buffer ws (kbd_abs s)" "length l < BUF_SIZE"
  shows "\<exists>s'. scanfstdin (ws @ 0x1C # rest) s = Some (length l + 1, l @ [0], rest, s') \<and> buf_ok s' \<and> index s' = 0 \<and> localEcho s' = 0"
proof -
  let ?s = "s\<lparr>scanFlag := 1, localEcho := 1\<rparr>"
  have e: "editing ?s" "scanFlag ?s \<noteq> 0" "kbd_abs ?s = kbd_abs s" using assms(1-3) by (simp_all add: editing_def kbd_abs_def)
  obtain s' where s': "scan_wait (ws @ 0x1C # rest) ?s = Some (rest, s')" "editing s'" "line s' = l"
    using scan_wait_line [OF e(1,2) assms(4)] e(3) assms(5,6) by auto
  let ?t = "s'\<lparr>localEcho := 0\<rparr>"
  have t: "buf_ok ?t" "line ?t = l" "index ?t = int (length l)"
    using s'(2,3) line_length [of s'] by (auto simp: editing_def buf_ok_def)
  have "put_buf 0 ?t = Some (?t\<lparr>buffer := (buffer ?t)[length l := 0]\<rparr>)" using put_buf_ok [OF t(1)] t(2,3) assms(7) by simp
  moreover have "take (Suc (length l)) ((buffer ?t)[length l := 0]) = l @ [0]"
    using t assms(7) by (simp add: line_def buf_ok_def take_Suc_conv_app_nth)
  ultimately show ?thesis using s'(1) t(1,3) by (simp add: scanfstdin_def Let_def buf_ok_def nat_add_distrib)
qed

theorem scanfstdin_line_witness:
  "\<exists>s'. scanfstdin ([0x26, 0x1f] @ 0x1C # [0x39]) small_kbd = Some (3, [108, 115, 0], [0x39], s') \<and> index s' = 0"
proof -
  have f: "fold key_step [0x26, 0x1f] (kbd_abs small_kbd) = (False, [108, 115])" "fits_buffer [0x26, 0x1f] (kbd_abs small_kbd)"
    by (simp_all add: small_kbd_editing key_step_def silent_def kbdus_at_def kbdus_def)
  have "buf_ok small_kbd" using small_kbd_editing(1) by (simp add: editing_def)
  then show ?thesis using scanfstdin_line [OF _ _ _ _ f, of "[0x39]"]
    by (auto simp: small_kbd_editing modifier_def)
qed

text \<open>A key that would be stored behind the array.\<close>

theorem full_buffer_overruns:
  assumes "editing s" "length (line s) = BUF_SIZE" "shiftkey s \<noteq> 1" "sc \<in> {0x1e, 0x1f, 0x20, 0x21, 0x22, 0x23}"
  shows "irq_handler1 sc s = None"
proof -
  have "index s = int BUF_SIZE" using assms(1,2) line_length [of s] by (auto simp: editing_def buf_ok_def)
  then have p: "put_key c (s\<lparr>irq_i := i\<rparr>) = None" for c i by (simp add: put_key_def put_buf_def)
  show ?thesis using assms(1,3,4) by (auto simp: irq_handler1_def Let_def editing_def p)
qed

theorem full_buffer_overruns_witness:
  "irq_handler1 0x1e (small_kbd\<lparr>index := 512\<rparr>) = None"
  using full_buffer_overruns [of "small_kbd\<lparr>index := 512\<rparr>" "0x1e"] by (simp add: small_kbd_def fs.extend_def editing_def buf_ok_def line_def)

text \<open>With caps lock on, a typed letter is echoed but never reaches the line: the buffer and the index stay as they
  were.\<close>

theorem caps_lock_drops_keys:
  assumes "capskey s = 1" "controlkey s \<noteq> 1" "sc \<notin> {0x1d, 0x9d, 0x2a, 0x36, 0xaa, 0xb6, 0x3a}"
  shows "\<exists>s'. irq_handler1 sc s = Some s' \<and> line s' = line s \<and> scanFlag s' = scanFlag s"
  using assms by (auto simp: irq_handler1_def Let_def line_def outb_def)

theorem caps_lock_drops_keys_witness:
  "\<exists>s'. irq_handler1 0x1e (small_kbd\<lparr>capskey := 1\<rparr>) = Some s' \<and> line s' = line (small_kbd\<lparr>capskey := 1\<rparr>)"
  using caps_lock_drops_keys [of "small_kbd\<lparr>capskey := 1\<rparr>" "0x1e"] by (auto simp: small_kbd_editing)

text \<open>With a shift key held, Enter does not end the line: it stores the byte 234.\<close>

theorem shift_enter_types:
  assumes "editing s" "shiftkey s = 1" "length (line s) < BUF_SIZE"
  shows "\<exists>s'. irq_handler1 0x1C s = Some s' \<and> line s' = line s @ [234] \<and> scanFlag s' = scanFlag s"
proof -
  have m: "\<not> modifier 0x1C" by (simp add: modifier_def)
  have "shift_char 0 (kbdus_at 0x1C) = 234" by (simp add: kbdus_at_def kbdus_def shift_char_def)
  then have k: "key_step 0x1C (kbd_abs s) = (True, line s @ [234])" using assms(2) by (simp add: kbd_abs_def key_step_def)
  then show ?thesis using irq_handler1_step [OF assms(1) m] assms(2,3) by (auto simp: kbd_abs_def)
qed

theorem shift_enter_types_witness: "\<exists>s'. irq_handler1 0x1C (small_kbd\<lparr>shiftkey := 1\<rparr>) = Some s' \<and> line s' = [234]"
  using shift_enter_types [of "small_kbd\<lparr>shiftkey := 1\<rparr>"] small_kbd_editing by (auto simp: editing_def kbd_abs_def)

end
