(* ===== verification/Descriptors.thy ===== *)
theory Descriptors
  imports Keyboard
begin

text \<open>
  The descriptor tables of \<^verbatim>\<open>sys/gdt.c\<close> and \<^verbatim>\<open>sys/des_table.c\<close>.

  The packed bit fields of \<^verbatim>\<open>struct sys_segment_descriptor\<close> are written into the 128-bit value of the two table slots
  that hold the task state segment descriptor; a gate of the interrupt table is a record with the fields of
  \<^verbatim>\<open>struct idt_entry_struct\<close> at their widths.  The addresses of the assembly stubs and of the task state segment
  are arguments.  The specification is what the processor reads back from the packed forms.
\<close>

record idt_entry =
  base_lo :: u16
  sel :: u16
  always0 :: u8
  flags :: u8
  base_m :: u16
  base_hi :: u32
  zeros :: u32

record desc = kbd +
  gdt :: "nat \<Rightarrow> u64"
  tss_rsp0 :: u64
  gdtr_loaded :: "(u64 \<times> u64) option"
  task_reg :: u64
  idt :: "u8 \<Rightarrow> idt_entry"
  idt_limit :: u16
  idt_base :: u64

section \<open>The code\<close>

abbreviation GDT_CS :: u64 where "GDT_CS \<equiv> 0x00180000000000"
abbreviation GDT_DS :: u64 where "GDT_DS \<equiv> 0x00100000000000"
abbreviation DPL0 :: u64 where "DPL0 \<equiv> 0x00000000000000"
abbreviation DPL3 :: u64 where "DPL3 \<equiv> 0x00600000000000"
abbreviation SEG_P :: u64 where "SEG_P \<equiv> 0x00800000000000"
abbreviation SEG_L :: u64 where "SEG_L \<equiv> 0x20000000000000"
abbreviation SEG_W :: u64 where "SEG_W \<equiv> 0x00020000000000"

definition gdt_init :: "nat \<Rightarrow> u64" where
  "gdt_init i =
     (if i = 1 then GDT_CS OR SEG_P OR DPL0 OR SEG_L
      else if i = 2 then GDT_DS OR SEG_P OR SEG_W OR DPL0
      else if i = 4 then GDT_DS OR SEG_P OR SEG_W OR DPL3
      else if i = 5 then GDT_CS OR SEG_P OR DPL3 OR SEG_L
      else 0)"

text \<open>Storing into a bit field of width \<open>n\<close> at bit \<open>lo\<close>, and reading it.\<close>

definition set_field :: "nat \<Rightarrow> nat \<Rightarrow> u64 \<Rightarrow> 128 word \<Rightarrow> 128 word" where
  "set_field lo n v w = (w AND NOT (push_bit lo (mask n))) OR push_bit lo (take_bit n (ucast v))"

definition get_field :: "nat \<Rightarrow> nat \<Rightarrow> 128 word \<Rightarrow> u64" where
  "get_field lo n w = ucast (take_bit n (drop_bit lo w))"

definition tss_descriptor :: "u64 \<Rightarrow> 128 word \<Rightarrow> 128 word" where
  "tss_descriptor tss sd =
     (let sd = set_field 0 16 (104 - 1) sd;
          sd = set_field 16 24 tss sd;
          sd = set_field 40 5 9 sd;
          sd = set_field 45 2 0 sd;
          sd = set_field 47 1 1 sd;
          sd = set_field 48 4 0 sd;
          sd = set_field 55 1 0 sd
      in set_field 56 40 (drop_bit 24 tss) sd)"

definition init_gdt :: "u64 \<Rightarrow> 'a desc_scheme \<Rightarrow> 'a desc_scheme" where
  "init_gdt tss s =
     (let sd = tss_descriptor tss (push_bit 64 (ucast (gdt s 7)) OR ucast (gdt s 6));
          s = s\<lparr>gdt := (gdt s)(6 := ucast sd, 7 := ucast (drop_bit 64 sd))\<rparr>;
          s = s\<lparr>gdtr_loaded := Some (8, 16)\<rparr>
      in s\<lparr>task_reg := 0x30\<rparr>)"

definition set_tss_rsp :: "u64 \<Rightarrow> 'a desc_scheme \<Rightarrow> 'a desc_scheme" where
  "set_tss_rsp rsp s = s\<lparr>tss_rsp0 := rsp\<rparr>"

definition idt_gate :: "u8 \<Rightarrow> u64 \<Rightarrow> u16 \<Rightarrow> u16 \<Rightarrow> 'a desc_scheme \<Rightarrow> 'a desc_scheme" where
  "idt_gate i base selr typeAttribute s =
     s\<lparr>idt := (idt s)(i :=
         \<lparr>base_lo = ucast (base AND 0xFFFF), sel = selr, always0 = 0, flags = ucast typeAttribute,
          base_m = ucast (drop_bit 16 base AND 0xFFFF), base_hi = ucast (drop_bit 32 base AND 0xFFFFFFFF), zeros = 0\<rparr>)\<rparr>"

definition init_idt :: "u64 \<Rightarrow> u64 \<Rightarrow> u64 \<Rightarrow> u64 \<Rightarrow> u64 \<Rightarrow> 'a desc_scheme \<Rightarrow> 'a desc_scheme" where
  "init_idt idt_addr isr14 timer_routine keyboard_routine syscall_routine s =
     (let s = s\<lparr>idt_limit := 16 * 256 - 1, idt_base := idt_addr\<rparr>;
          s = idt_gate 14 isr14 0x08 0x8E s;
          s = idt_gate 32 timer_routine 0x08 0x8E s;
          s = idt_gate 33 keyboard_routine 0x08 0x8E s
      in idt_gate 128 syscall_routine 0x08 0xEE s)"

definition isr_install :: "u64 \<Rightarrow> u64 \<Rightarrow> u64 \<Rightarrow> u64 \<Rightarrow> u64 \<Rightarrow> 'a desc_scheme \<Rightarrow> 'a desc_scheme" where
  "isr_install idt_addr isr14 timer_routine keyboard_routine syscall_routine s =
     init_idt idt_addr isr14 timer_routine keyboard_routine syscall_routine (pic_init s)"

section \<open>What the processor reads back\<close>

lemma bit_set_field:
  "bit (set_field lo n v w) i \<longleftrightarrow> i < 128 \<and> (if lo \<le> i \<and> i < lo + n then i - lo < 64 \<and> bit v (i - lo) else bit w i)"
  by (auto simp: set_field_def bit_simps dest: bit_imp_le_length)

lemma bit_get_field: "bit (get_field lo n w) i \<longleftrightarrow> i < 64 \<and> i < n \<and> bit w (lo + i)"
  by (auto simp: get_field_def bit_simps)

text \<open>A field that is stored is read back, truncated to its width; a disjoint field is untouched.\<close>

lemma get_set_field:
  assumes "lo + n \<le> 128" "n \<le> 64"
  shows "get_field lo n (set_field lo n v w) = take_bit n v"
  using assms by (intro bit_eqI) (auto simp: bit_get_field bit_set_field bit_simps)

lemma get_set_other:
  assumes "lo' + n' \<le> lo \<or> lo + n \<le> lo'" "lo' + n' \<le> 128"
  shows "get_field lo' n' (set_field lo n v w) = get_field lo' n' w"
  using assms by (intro bit_eqI) (auto simp: bit_get_field bit_set_field)

text \<open>The base and limit of a system segment descriptor, and the entry point of a gate, as the processor assembles
  them.\<close>

definition seg_base :: "128 word \<Rightarrow> u64" where
  "seg_base d = get_field 16 24 d OR push_bit 24 (get_field 56 40 d)"

definition seg_limit :: "128 word \<Rightarrow> u64" where
  "seg_limit d = get_field 0 16 d OR push_bit 16 (get_field 48 4 d)"

definition gate_entry :: "idt_entry \<Rightarrow> u64" where
  "gate_entry g = ucast (base_lo g) OR push_bit 16 (ucast (base_m g)) OR push_bit 32 (ucast (base_hi g))"

lemma tss_fields:
  "get_field 0 16 (tss_descriptor tss sd) = 103" "get_field 16 24 (tss_descriptor tss sd) = take_bit 24 tss"
  "get_field 40 5 (tss_descriptor tss sd) = 9" "get_field 47 1 (tss_descriptor tss sd) = 1"
  "get_field 48 4 (tss_descriptor tss sd) = 0" "get_field 56 40 (tss_descriptor tss sd) = take_bit 40 (drop_bit 24 tss)"
  by (simp_all add: tss_descriptor_def Let_def get_set_field get_set_other)

lemma split_join: "take_bit 24 (tss :: u64) OR push_bit 24 (take_bit 40 (drop_bit 24 tss)) = tss"
  by (intro bit_eqI) (auto simp: bit_simps)

lemma gate_join:
  "ucast (ucast (base AND 0xFFFF) :: u16) OR push_bit 16 (ucast (ucast (drop_bit 16 base AND 0xFFFF) :: u16)) OR
   push_bit 32 (ucast (ucast (drop_bit 32 base AND 0xFFFFFFFF) :: u32)) = (base :: u64)"
proof -
  have m: "x AND 0xFFFF = take_bit 16 x" "x AND 0xFFFFFFFF = take_bit 32 x" for x :: u64
    by (simp_all add: take_bit_eq_mask mask_eq_exp_minus_1)
  show ?thesis
    unfolding m
  proof (rule bit_eqI)
    fix n
    show "bit (ucast (ucast (take_bit 16 base) :: u16) OR push_bit 16 (ucast (ucast (take_bit 16 (drop_bit 16 base)) :: u16)) OR
      push_bit 32 (ucast (ucast (take_bit 32 (drop_bit 32 base)) :: u32)) :: u64) n = bit base n"
      by (cases "n < 16"; cases "n < 32"; cases "n < 64") (auto simp: bit_simps dest: bit_imp_le_length)
  qed
qed

lemma idt_gate_read:
  "gate_entry (idt (idt_gate i b sl att s) j) = (if j = i then b else gate_entry (idt s j))"
  "flags (idt (idt_gate i b sl att s) j) = (if j = i then ucast att else flags (idt s j))"
  "sel (idt (idt_gate i b sl att s) j) = (if j = i then sl else sel (idt s j))"
  "j \<noteq> i \<Longrightarrow> idt (idt_gate i b sl att s) j = idt s j"
  by (simp_all add: idt_gate_def gate_entry_def gate_join)

section \<open>Properties\<close>

text \<open>\<^verbatim>\<open>init_gdt\<close>: whatever the two slots held, the processor reads from the task state segment descriptor the address
  of the segment, its limit of 103 bytes, the type 9 and the present bit, and leaves the code and data descriptors
  alone; the task register is loaded with the selector of that descriptor.\<close>

theorem init_gdt_descriptor:
  "let s' = init_gdt tss s; d = push_bit 64 (ucast (gdt s' 7)) OR ucast (gdt s' 6) in
     seg_base d = tss \<and> seg_limit d = 103 \<and> get_field 40 5 d = 9 \<and> get_field 47 1 d = 1 \<and>
     map (gdt s') [0..<6] = map (gdt s) [0..<6] \<and> task_reg s' = 8 * 6"
proof -
  let ?d = "tss_descriptor tss (push_bit 64 (ucast (gdt s 7)) OR ucast (gdt s 6))"
  have "push_bit 64 (ucast (ucast (drop_bit 64 ?d) :: u64)) OR ucast (ucast ?d :: u64) = ?d"
    by (intro bit_eqI) (auto simp: bit_simps)
  then show ?thesis
    by (simp add: init_gdt_def Let_def seg_base_def seg_limit_def tss_fields [unfolded One_nat_def] split_join upt_rec)
qed

text \<open>A gate written by \<^verbatim>\<open>idt_gate\<close> sends the processor to the handler it was given, with the selector and the
  low byte of the attributes, and leaves all other gates alone.\<close>

theorem idt_gate_roundtrip:
  "gate_entry (idt (idt_gate i base selr att s) i) = base \<and> sel (idt (idt_gate i base selr att s) i) = selr \<and>
   flags (idt (idt_gate i base selr att s) i) = ucast att \<and>
   (\<forall>j. j = i \<or> idt (idt_gate i base selr att s) j = idt s j)"
  by (auto simp: idt_gate_read(1-3) intro: idt_gate_read(4))

text \<open>
  What the processor does with an interrupt or an \<^verbatim>\<open>int\<close> instruction for a vector: the gate must lie inside the limit, be
  present and be an interrupt or trap gate, and an instruction must not be less privileged than the gate.  The result is
  the entry point, the code selector and whether interrupts are disabled there.
\<close>

definition gate_dpl :: "idt_entry \<Rightarrow> nat" where
  "gate_dpl g = unat (drop_bit 5 (flags g) AND 3)"

definition delivers_to :: "'a desc_scheme \<Rightarrow> u8 \<Rightarrow> nat option \<Rightarrow> (u64 \<times> u16 \<times> bool) option" where
  "delivers_to s v instr =
     (let g = idt s v; type = flags g AND 0x1F in
      if unat v * 16 + 15 \<le> unat (idt_limit s) \<and> bit (flags g) 7 \<and> type \<in> {0xE, 0xF} \<and>
         (case instr of None \<Rightarrow> True | Some cpl \<Rightarrow> cpl \<le> gate_dpl g)
      then Some (gate_entry g, sel g, type = 0xE) else None)"

abbreviation no_gate :: idt_entry where
  "no_gate \<equiv> \<lparr>base_lo = 0, sel = 0, always0 = 0, flags = 0, base_m = 0, base_hi = 0, zeros = 0\<rparr>"

text \<open>C20. The interrupt table after \<^verbatim>\<open>init_idt\<close>, filled from the zeroed array, as the processor uses it, for all 256 vectors:
  a fault or a device interrupt reaches its routine for the vectors 14, 32, 33 and 128, with the kernel's code selector
  and interrupts disabled, and is not delivered for any other; an \<^verbatim>\<open>int\<close> instruction in user mode enters the kernel
  through vector 128 and through no other, and the kernel itself may use all four.\<close>

theorem init_idt_vectors:
  assumes "\<And>v. idt s v = no_gate"
  shows "delivers_to (init_idt a pf tm kb sc s) v instr =
    (case map_of [(14, pf), (32, tm), (33, kb), (128, sc)] v of
       None \<Rightarrow> None
     | Some routine \<Rightarrow> if case instr of None \<Rightarrow> True | Some cpl \<Rightarrow> cpl \<le> (if v = 128 then 3 else 0) then Some (routine, 8, True) else None)"
proof -
  let ?s = "init_idt a pf tm kb sc s"
  have l: "unat v * 16 + 15 \<le> unat (idt_limit ?s)"
    using unat_lt2p [of v] by (simp add: init_idt_def Let_def idt_gate_def)
  have d: "unat (drop_bit 5 (0x8E :: u8) AND 3) = 0" "unat (drop_bit 5 (0xEE :: u8) AND 3) = 3" by simp_all
  consider "v \<in> {14, 32, 33}" | "v = 128" | "v \<notin> {14, 32, 33, 128}" by auto
  then show ?thesis
  proof cases
    case 1
    then have f: "flags (idt ?s v) = 0x8E" "sel (idt ?s v) = 8" "gate_entry (idt ?s v) = the (map_of [(14, pf), (32, tm), (33, kb), (128, sc)] v)"
      by (auto simp: init_idt_def Let_def idt_gate_read)
    have m: "v \<noteq> 128" "map_of [(14, pf), (32, tm), (33, kb), (128, sc)] v = Some (the (map_of [(14, pf), (32, tm), (33, kb), (128, sc)] v))"
      using 1 by auto
    show ?thesis unfolding delivers_to_def Let_def gate_dpl_def f d by (subst m(2)) (simp add: l m(1))
  next
    case 2
    then have f: "flags (idt ?s v) = 0xEE" "sel (idt ?s v) = 8" "gate_entry (idt ?s v) = sc"
      by (auto simp: init_idt_def Let_def idt_gate_read)
    show ?thesis unfolding delivers_to_def Let_def gate_dpl_def f d using l 2 by simp
  next
    case 3
    then have "idt ?s v = no_gate" using assms by (simp add: init_idt_def Let_def idt_gate_read(4))
    then show ?thesis using 3 unfolding delivers_to_def Let_def by auto
  qed
qed

definition blank_desc :: "unit desc_scheme" where
  "blank_desc = kbd.extend small_kbd
     \<lparr>gdt = gdt_init, tss_rsp0 = 0, gdtr_loaded = None, task_reg = 0, idt = (\<lambda>_. no_gate), idt_limit = 0, idt_base = 0\<rparr>"

text \<open>Vector 128 from user mode, vector 33 from user mode and from the keyboard.\<close>

theorem init_idt_vectors_witness:
  "delivers_to (init_idt 0 1 2 3 4 blank_desc) 128 (Some 3) = Some (4, 8, True) \<and>
   delivers_to (init_idt 0 1 2 3 4 blank_desc) 33 (Some 3) = None \<and>
   delivers_to (init_idt 0 1 2 3 4 blank_desc) 33 None = Some (3, 8, True)"
proof -
  have b: "idt blank_desc v = no_gate" for v by (simp add: blank_desc_def kbd.extend_def)
  show ?thesis using init_idt_vectors [of blank_desc, OF b] by simp
qed

end
