(* ===== verification/Tasks.thy ===== *)
theory Tasks
  imports Descriptors
begin

text \<open>
  Processes: the structures of \<^verbatim>\<open>include/sys/process.h\<close> and the scheduler of \<^verbatim>\<open>sys/process.c\<close>.

  Each kind of structure has a heap, a function from the pointer that \<^verbatim>\<open>kmalloc\<close> returned to the record; a structure
  lives alone in its zeroed page, so allocating one also resets its record.  The character arrays of a \<^verbatim>\<open>pcb\<close> are byte
  lists with their terminators.  The code copies names into them without checking their length: a name that leaves no room for
  its terminator, 15 bytes for \<^verbatim>\<open>process_name\<close> and 30 for \<^verbatim>\<open>cur_dir\<close>, would run into the fields behind the array, and there the
  model of the caller (\<open>execveSyscall\<close>, \<open>chdirSyscall\<close>, \<open>userInitProcess\<close>) stops with \<open>None\<close>.  The processes are chained by \<^verbatim>\<open>next\<close>.

  \<^verbatim>\<open>contextSwitch\<close> saves the stack pointer and a resumption label in \<^verbatim>\<open>prev\<close> and continues at \<^verbatim>\<open>next->rip\<close> on its
  kernel stack: the registers \<open>cpu_rsp\<close> and \<open>cpu_rip\<close> tell which context runs.  The addresses of labels and
  functions are arguments.
\<close>

record file_struct =
  fl_start :: u64
  fl_pgoff :: u64
  fl_size :: u64
  fl_bss_size :: u64

record vma_struct =
  v_mm :: u64
  v_start :: u64
  v_end :: u64
  v_flag :: u64
  v_type :: u64
  v_next :: u64
  v_file :: u64

record mm_struct =
  mmap :: u64
  mm_current :: u64
  start_stack :: u64
  mmap_base :: u64
  brk :: u64
  start_brk :: u64
  end_data :: u64
  start_date :: u64
  end_code :: u64
  start_code :: u64
  vma_count :: u64

record pcb =
  pid :: u64
  ppid :: u64
  kstack :: u64
  mm :: u64
  init_kern :: u64
  rsp :: u64
  rip :: u64
  process_state :: u64
  sleep_ticks :: u64
  alarm :: u64
  pcb_cr3 :: u64
  process_name :: "u8 list"
  fd :: "nat \<Rightarrow> u64"
  wait_on_childpid :: u64
  num_child :: u32
  cur_dir :: "u8 list"
  next_p :: u64

record proc = desc +
  pcbs :: "u64 \<Rightarrow> pcb"
  mms :: "u64 \<Rightarrow> mm_struct"
  vmas :: "u64 \<Rightarrow> vma_struct"
  filps :: "u64 \<Rightarrow> file_struct"
  pID :: "nat \<Rightarrow> u32"
  first :: u64
  current :: u64
  last_p :: u64
  zombie :: u64
  cpu_rsp :: u64
  cpu_rip :: u64

abbreviation MAX_FD :: nat where "MAX_FD \<equiv> 30"
abbreviation MAX_PROCESSES :: nat where "MAX_PROCESSES \<equiv> 100"
abbreviation New :: u64 where "New \<equiv> 0"
abbreviation Ready :: u64 where "Ready \<equiv> 1"
abbreviation Running :: u64 where "Running \<equiv> 2"
abbreviation Zombie :: u64 where "Zombie \<equiv> 3"
abbreviation TEXT :: u64 where "TEXT \<equiv> 0"
abbreviation DATA :: u64 where "DATA \<equiv> 1"
abbreviation STACK :: u64 where "STACK \<equiv> 2"
abbreviation HEAP :: u64 where "HEAP \<equiv> 3"
abbreviation NOTYPE :: u64 where "NOTYPE \<equiv> 4"

definition pcb0 :: pcb where
  "pcb0 = \<lparr>pid = 0, ppid = 0, kstack = 0, mm = 0, init_kern = 0, rsp = 0, rip = 0, process_state = 0, sleep_ticks = 0,
     alarm = 0, pcb_cr3 = 0, process_name = replicate 15 0, fd = (\<lambda>_. 0), wait_on_childpid = 0, num_child = 0,
     cur_dir = replicate 30 0, next_p = 0\<rparr>"

definition mm0 :: mm_struct where
  "mm0 = \<lparr>mmap = 0, mm_current = 0, start_stack = 0, mmap_base = 0, brk = 0, start_brk = 0, end_data = 0, start_date = 0,
     end_code = 0, start_code = 0, vma_count = 0\<rparr>"

definition vma0 :: vma_struct where
  "vma0 = \<lparr>v_mm = 0, v_start = 0, v_end = 0, v_flag = 0, v_type = 0, v_next = 0, v_file = 0\<rparr>"

definition file0 :: file_struct where
  "file0 = \<lparr>fl_start = 0, fl_pgoff = 0, fl_size = 0, fl_bss_size = 0\<rparr>"

section \<open>Allocating and updating structures\<close>

definition kmalloc_pcb :: "'a proc_scheme \<Rightarrow> u64 \<times> 'a proc_scheme" where
  "kmalloc_pcb s = (let (p, s) = kmalloc s in (p, s\<lparr>pcbs := (pcbs s)(p := pcb0)\<rparr>))"

definition kmalloc_mm :: "'a proc_scheme \<Rightarrow> u64 \<times> 'a proc_scheme" where
  "kmalloc_mm s = (let (p, s) = kmalloc s in (p, s\<lparr>mms := (mms s)(p := mm0)\<rparr>))"

definition kmalloc_vma :: "'a proc_scheme \<Rightarrow> u64 \<times> 'a proc_scheme" where
  "kmalloc_vma s = (let (p, s) = kmalloc s in (p, s\<lparr>vmas := (vmas s)(p := vma0)\<rparr>))"

definition kmalloc_file :: "'a proc_scheme \<Rightarrow> u64 \<times> 'a proc_scheme" where
  "kmalloc_file s = (let (p, s) = kmalloc s in (p, s\<lparr>filps := (filps s)(p := file0)\<rparr>))"

definition upd_pcb :: "u64 \<Rightarrow> (pcb \<Rightarrow> pcb) \<Rightarrow> 'a proc_scheme \<Rightarrow> 'a proc_scheme" where
  "upd_pcb p f s = s\<lparr>pcbs := (pcbs s)(p := f (pcbs s p))\<rparr>"

definition upd_mm :: "u64 \<Rightarrow> (mm_struct \<Rightarrow> mm_struct) \<Rightarrow> 'a proc_scheme \<Rightarrow> 'a proc_scheme" where
  "upd_mm p f s = s\<lparr>mms := (mms s)(p := f (mms s p))\<rparr>"

definition upd_vma :: "u64 \<Rightarrow> (vma_struct \<Rightarrow> vma_struct) \<Rightarrow> 'a proc_scheme \<Rightarrow> 'a proc_scheme" where
  "upd_vma p f s = s\<lparr>vmas := (vmas s)(p := f (vmas s p))\<rparr>"

definition upd_file :: "u64 \<Rightarrow> (file_struct \<Rightarrow> file_struct) \<Rightarrow> 'a proc_scheme \<Rightarrow> 'a proc_scheme" where
  "upd_file p f s = s\<lparr>filps := (filps s)(p := f (filps s p))\<rparr>"

abbreviation set_next :: "u64 \<Rightarrow> u64 \<Rightarrow> 'a proc_scheme \<Rightarrow> 'a proc_scheme" where
  "set_next p q \<equiv> upd_pcb p (\<lambda>r. r\<lparr>next_p := q\<rparr>)"

abbreviation nx :: "'a proc_scheme \<Rightarrow> u64 \<Rightarrow> u64" where
  "nx s p \<equiv> next_p (pcbs s p)"

section \<open>Process identifiers\<close>

function getPID_loop :: "nat \<Rightarrow> 'a proc_scheme \<Rightarrow> u64 \<times> 'a proc_scheme" where
  "getPID_loop i s =
     (if i < MAX_PROCESSES
      then if pID s i = 0 then (of_nat i, s\<lparr>pID := (pID s)(i := 1)\<rparr>) else getPID_loop (i + 1) s
      else (- 1, s))"
  by pat_completeness auto
termination
  by (relation "measure (\<lambda>(i, s). MAX_PROCESSES - i)") auto

definition getPID :: "'a proc_scheme \<Rightarrow> u64 \<times> 'a proc_scheme" where
  "getPID s = getPID_loop 0 s"

definition mapProcessID :: "'a proc_scheme \<Rightarrow> 'a proc_scheme" where
  "mapProcessID s = fold (\<lambda>i s. s\<lparr>pID := (pID s)(i := 0)\<rparr>) [0..<MAX_PROCESSES] s"

declare getPID_loop.simps [simp del]

section \<open>The kernel process and the scheduler\<close>

definition kernProcess :: "u64 \<Rightarrow> 'a proc_scheme \<Rightarrow> 'a proc_scheme" where
  "kernProcess init_func s =
     (let (init, s) = kmalloc_pcb s;
          (i, s) = getPID s;
          s = upd_pcb init (\<lambda>p. p\<lparr>pid := i, ppid := 0, rip := init_func, process_state := Running, sleep_ticks := 0,
                alarm := 0, wait_on_childpid := - 1, pcb_cr3 := getCR3 s,
                process_name := put_array (str ''Kernel'' @ [0]) (process_name p), num_child := 0\<rparr>) s;
          s = s\<lparr>first := init\<rparr>;
          (kst, s) = kmalloc s;
          sp = kst + 0x1000 - 16;
          s = upd_pcb init (\<lambda>p. p\<lparr>kstack := sp, init_kern := sp, rsp := sp, next_p := init\<rparr>) s
      in s\<lparr>current := init\<rparr>)"

definition contextSwitch :: "u64 \<Rightarrow> u64 \<Rightarrow> u64 \<Rightarrow> 'a proc_scheme \<Rightarrow> 'a proc_scheme" where
  "contextSwitch resume nxt prev s =
     (let s = set_tss_rsp (kstack (pcbs s nxt)) s;
          s = upd_pcb nxt (\<lambda>p. p\<lparr>process_state := Running\<rparr>) s;
          s = loadCR3 (pcb_cr3 (pcbs s nxt)) s;
          s = upd_pcb prev (\<lambda>p. p\<lparr>kstack := cpu_rsp s\<rparr>) s;
          s = s\<lparr>cpu_rsp := kstack (pcbs s nxt)\<rparr>;
          s = upd_pcb prev (\<lambda>p. p\<lparr>rip := resume\<rparr>) s
      in s\<lparr>cpu_rip := rip (pcbs s nxt)\<rparr>)"

definition schedule :: "u64 \<Rightarrow> 'a proc_scheme \<Rightarrow> 'a proc_scheme" where
  "schedule resume s =
     (let s = kprintf ''Thread %d'' [KInt (pid (pcbs s (current s)))] s;
          prev = current s;
          s = (if current s \<noteq> last_p s then s\<lparr>current := nx s (current s)\<rparr> else s\<lparr>current := first s\<rparr>)
      in contextSwitch resume (current s) prev s)"

definition yieldSyscall :: "u64 \<Rightarrow> 'a proc_scheme \<Rightarrow> u64 \<times> 'a proc_scheme" where
  "yieldSyscall resume s =
     (let prev = current s;
          nxt = nx s (current s)
      in if nxt \<noteq> 0 then (0, contextSwitch resume nxt prev (s\<lparr>current := nxt\<rparr>)) else (- 1, s))"

text \<open>\<^verbatim>\<open>switchToRing3\<close> up to its \<^verbatim>\<open>iretq\<close>: the process runs in user mode at its entry point.\<close>

definition switchToRing3 :: "u64 \<Rightarrow> 'a proc_scheme \<Rightarrow> 'a proc_scheme" where
  "switchToRing3 init s =
     (let s = set_tss_rsp (kstack (pcbs s init)) s;
          s = s\<lparr>current := init\<rparr>;
          s = loadCR3 (pcb_cr3 (pcbs s init)) s
      in s\<lparr>cpu_rsp := rsp (pcbs s init), cpu_rip := rip (pcbs s init)\<rparr>)"

text \<open>Tearing a process down: \<^verbatim>\<open>freemm\<close> gives back the page of every area, \<^verbatim>\<open>exit\<close> also the memory descriptor, the page
  tables and the kernel stack.\<close>

partial_function (option) freemm_loop :: "u64 \<Rightarrow> 'a proc_scheme \<Rightarrow> 'a proc_scheme option" where
  "freemm_loop vma s =
     (if vma \<noteq> 0 then Option.bind (kfree vma s) (freemm_loop (v_next (vmas s vma))) else Some s)"

definition freemm :: "u64 \<Rightarrow> 'a proc_scheme \<Rightarrow> 'a proc_scheme option" where
  "freemm mmp s = (if mmp \<noteq> 0 then freemm_loop (mmap (mms s mmp)) s else Some s)"

definition exit :: "u64 \<Rightarrow> 'a proc_scheme \<Rightarrow> 'a proc_scheme option" where
  "exit process s = do {
     s \<leftarrow> freemm (mm (pcbs s process)) s;
     s \<leftarrow> kfree (mm (pcbs s process)) s;
     let s = upd_pcb process (\<lambda>p. p\<lparr>mm := 0\<rparr>) s;
     let s = deletePagetable (pcb_cr3 (pcbs s process)) s;
     kfree (kstack (pcbs s process)) s
   }"

section \<open>Fork, wait, exec and exit: the process ring\<close>

text \<open>The links that \<^verbatim>\<open>forkSyscall\<close> makes for its child, and \<^verbatim>\<open>execveSyscall\<close> for the new process.\<close>

definition fork_link :: "u64 \<Rightarrow> 'a proc_scheme \<Rightarrow> 'a proc_scheme" where
  "fork_link child s =
     (let temp = nx s (current s);
          s = set_next (current s) child s
      in set_next child temp s)"

definition exec_link :: "u64 \<Rightarrow> 'a proc_scheme \<Rightarrow> 'a proc_scheme" where
  "exec_link newprocess s =
     (let findprevious = nx s (first s);
          s = set_next findprevious newprocess s;
          s = set_next newprocess (nx s (current s)) s
      in s\<lparr>current := newprocess\<rparr>)"

definition waitpidSyscall :: "u64 \<Rightarrow> u64 \<Rightarrow> 'a proc_scheme \<Rightarrow> u64 \<times> 'a proc_scheme" where
  "waitpidSyscall resume wpid s =
     (if wpid > 0
      then let s = upd_pcb (current s) (\<lambda>p. p\<lparr>wait_on_childpid := wpid\<rparr>) s;
               parent = current s;
               child = nx s (current s);
               temp = nx s child;
               s = set_next child (current s) s;
               s = set_next (current s) temp s;
               s = s\<lparr>current := child\<rparr>
           in (0, contextSwitch resume child parent s)
      else (0, s))"

text \<open>The search of \<^verbatim>\<open>exitSyscall\<close> for the predecessor of the current process; \<open>None\<close> when it does not end.\<close>

partial_function (option) exit_loop :: "(u64 \<Rightarrow> u64) \<Rightarrow> u64 \<Rightarrow> u64 \<Rightarrow> u64 option" where
  "exit_loop nxt cur temp = (if nxt temp \<noteq> cur then exit_loop nxt cur (nxt temp) else Some temp)"

definition exitSyscall :: "u64 \<Rightarrow> 'a proc_scheme \<Rightarrow> (u64 \<times> 'a proc_scheme) option" where
  "exitSyscall resume s =
     (let s = upd_pcb (current s) (\<lambda>p. p\<lparr>process_state := Zombie\<rparr>) s in
      case exit_loop (nx s) (current s) (nx s (current s)) of
        None \<Rightarrow> None
      | Some temp \<Rightarrow>
          (let s = set_next temp (nx s (current s)) s;
               s = (if zombie s = 0 then s\<lparr>zombie := current s\<rparr> else set_next (zombie s) (current s) s)
           in Some (0, snd (yieldSyscall resume s))))"

section \<open>Effects on the ring\<close>

lemma nx_upd [simp]: "nx (set_next p q s) x = (if x = p then q else nx s x)"
  by (simp add: upd_pcb_def)

lemma upd_pcb_sel [simp]:
  "current (upd_pcb p f s) = current s" "first (upd_pcb p f s) = first s" "zombie (upd_pcb p f s) = zombie s"
  "cpu_rsp (upd_pcb p f s) = cpu_rsp s" "cpu_rip (upd_pcb p f s) = cpu_rip s" "CR3 (upd_pcb p f s) = CR3 s"
  "tss_rsp0 (upd_pcb p f s) = tss_rsp0 s"
  by (simp_all add: upd_pcb_def)

lemma pcbs_upd_pcb: "pcbs (upd_pcb p f s) x = (if x = p then f (pcbs s x) else pcbs s x)"
  by (simp add: upd_pcb_def)

lemma contextSwitch_sel [simp]:
  "current (contextSwitch r n p s) = current s" "first (contextSwitch r n p s) = first s"
  "zombie (contextSwitch r n p s) = zombie s" "nx (contextSwitch r n p s) x = nx s x"
  by (simp_all add: contextSwitch_def Let_def set_tss_rsp_def loadCR3_def upd_pcb_def)

text \<open>What a context switch does to the processor and to the two processes.\<close>

lemma contextSwitch_regs:
  assumes "n \<noteq> p"
  shows "CR3 (contextSwitch r n p s) = pcb_cr3 (pcbs s n)" "tss_rsp0 (contextSwitch r n p s) = kstack (pcbs s n)"
    "cpu_rsp (contextSwitch r n p s) = kstack (pcbs s n)" "cpu_rip (contextSwitch r n p s) = rip (pcbs s n)"
    "kstack (pcbs (contextSwitch r n p s) p) = cpu_rsp s" "rip (pcbs (contextSwitch r n p s) p) = r"
    "process_state (pcbs (contextSwitch r n p s) n) = Running"
    "kstack (pcbs (contextSwitch r n p s) n) = kstack (pcbs s n)" "rip (pcbs (contextSwitch r n p s) n) = rip (pcbs s n)"
    "pcb_cr3 (pcbs (contextSwitch r n p s) x) = pcb_cr3 (pcbs s x)"
  using assms by (simp_all add: contextSwitch_def Let_def set_tss_rsp_def loadCR3_def upd_pcb_def)

text \<open>The state between two commands of the shell \<open>sh\<close>: the kernel process \<open>k\<close> points to it, and it points to
  itself or (before the first command) back to the kernel process.\<close>

definition shell_ring :: "u64 \<Rightarrow> u64 \<Rightarrow> 'a proc_scheme \<Rightarrow> bool" where
  "shell_ring k sh s \<longleftrightarrow> first s = k \<and> nx s k = sh \<and> nx s sh \<in> {k, sh} \<and> current s = sh \<and> k \<noteq> sh \<and> sh \<noteq> 0 \<and>
     zombie s \<notin> {k, sh}"

lemma fork_link_ring:
  assumes "shell_ring k sh s" "c \<notin> {k, sh}"
  shows "nx (fork_link c s) sh = c" "nx (fork_link c s) c = nx s sh" "nx (fork_link c s) k = sh"
    "current (fork_link c s) = sh" "first (fork_link c s) = k" "zombie (fork_link c s) = zombie s"
  using assms by (auto simp: fork_link_def Let_def shell_ring_def)

text \<open>The ring after fork and wait: the child runs, outside the ring of its parent.\<close>

definition child_runs :: "u64 \<Rightarrow> u64 \<Rightarrow> u64 \<Rightarrow> 'a proc_scheme \<Rightarrow> bool" where
  "child_runs k sh c s \<longleftrightarrow> first s = k \<and> nx s k = sh \<and> nx s sh \<in> {k, sh} \<and> current s = c \<and> nx s c = sh \<and>
     k \<noteq> sh \<and> c \<notin> {k, sh} \<and> sh \<noteq> 0 \<and> zombie s \<notin> {k, sh}"

lemma wait_ring:
  assumes "shell_ring k sh s" "c \<notin> {k, sh}" "0 < w"
  shows "child_runs k sh c (snd (waitpidSyscall r w (fork_link c s)))"
proof -
  note F = fork_link_ring [OF assms(1,2)]
  have "nx s sh \<in> {k, sh}" "k \<noteq> sh" "sh \<noteq> 0" "zombie s \<notin> {k, sh}" using assms(1) by (auto simp: shell_ring_def)
  then show ?thesis using assms(2,3) F
    by (auto simp: waitpidSyscall_def Let_def child_runs_def pcbs_upd_pcb)
qed

definition program_runs :: "u64 \<Rightarrow> u64 \<Rightarrow> u64 \<Rightarrow> 'a proc_scheme \<Rightarrow> bool" where
  "program_runs k sh n s \<longleftrightarrow> first s = k \<and> nx s k = sh \<and> nx s sh = n \<and> nx s n = sh \<and> current s = n \<and>
     k \<noteq> sh \<and> n \<notin> {k, sh} \<and> sh \<noteq> 0 \<and> zombie s \<notin> {k, sh}"

lemma exec_ring:
  assumes "child_runs k sh c s" "n \<notin> {k, sh, c}"
  shows "program_runs k sh n (exec_link n s)"
  using assms by (auto simp: exec_link_def Let_def child_runs_def program_runs_def)

lemma exit_ring:
  assumes "program_runs k sh n s" "zombie s \<noteq> n"
  obtains s' where "exitSyscall r s = Some (0, s')" "shell_ring k sh s'" "zombie s' = (if zombie s = 0 then n else zombie s)"
    "process_state (pcbs s' n) = Zombie" "cpu_rip s' = rip (pcbs s sh)" "CR3 s' = pcb_cr3 (pcbs s sh)"
proof -
  have P: "first s = k" "nx s k = sh" "nx s sh = n" "nx s n = sh" "current s = n" "k \<noteq> sh" "n \<noteq> k" "n \<noteq> sh" "sh \<noteq> 0"
    "zombie s \<noteq> k" "zombie s \<noteq> sh" using assms by (auto simp: program_runs_def)
  let ?s1 = "upd_pcb n (\<lambda>p. p\<lparr>process_state := Zombie\<rparr>) s"
  have nx1: "nx ?s1 x = nx s x" for x by (simp add: pcbs_upd_pcb)
  have loop: "exit_loop (nx ?s1) n sh = Some sh" using P(3) nx1 by (subst exit_loop.simps) simp
  let ?s2 = "set_next sh sh ?s1"
  let ?s3 = "if zombie s = 0 then ?s2\<lparr>zombie := n\<rparr> else set_next (zombie s) n ?s2"
  have n3: "nx ?s3 n = sh" "current ?s3 = n" using P assms(2) by (auto simp: pcbs_upd_pcb)
  let ?s' = "contextSwitch r sh n (?s3\<lparr>current := sh\<rparr>)"
  have "exitSyscall r s = Some (0, ?s')"
    using P loop nx1 n3 assms(2) by (simp add: exitSyscall_def Let_def yieldSyscall_def)
  moreover have "shell_ring k sh ?s'" using P assms(2) by (auto simp: shell_ring_def pcbs_upd_pcb)
  moreover have "zombie ?s' = (if zombie s = 0 then n else zombie s)" by simp
  moreover have "process_state (pcbs ?s' n) = Zombie"
    using P assms(2) by (auto simp: contextSwitch_def Let_def set_tss_rsp_def loadCR3_def upd_pcb_def)
  moreover have "cpu_rip ?s' = rip (pcbs s sh)" "CR3 ?s' = pcb_cr3 (pcbs s sh)"
    using P contextSwitch_regs [of sh n r "?s3\<lparr>current := sh\<rparr>"] by (auto simp: pcbs_upd_pcb)
  ultimately show thesis using that by blast
qed

text \<open>One command of the shell: fork, wait for the child, the child executes a program, the program exits.\<close>

definition shell_command :: "u64 \<Rightarrow> u64 \<Rightarrow> u64 \<times> u64 \<Rightarrow> 'a proc_scheme \<Rightarrow> 'a proc_scheme option" where
  "shell_command resume wpid = (\<lambda>(c, n) s.
     map_option snd (exitSyscall resume (exec_link n (snd (waitpidSyscall resume wpid (fork_link c s))))))"

lemma shell_command_ring:
  assumes "shell_ring k sh s" "0 < w" "c \<notin> {k, sh}" "n \<notin> {k, sh, c, 0, zombie s}"
  obtains s' where "shell_command r w (c, n) s = Some s'" "shell_ring k sh s'" "process_state (pcbs s' n) = Zombie"
    "zombie s' = (if zombie s = 0 then n else zombie s)"
proof -
  let ?t = "snd (waitpidSyscall r w (fork_link c s))"
  have P: "program_runs k sh n (exec_link n ?t)"
    using wait_ring [OF assms(1) _ assms(2), of c r] assms(3,4) by (intro exec_ring) auto
  have z: "zombie (exec_link n ?t) = zombie s"
    by (simp add: exec_link_def Let_def waitpidSyscall_def fork_link_def)
  then have "zombie (exec_link n ?t) \<noteq> n" using assms(4) by auto
  then obtain s' where "exitSyscall r (exec_link n ?t) = Some (0, s')" "shell_ring k sh s'"
    "zombie s' = (if zombie (exec_link n ?t) = 0 then n else zombie (exec_link n ?t))" "process_state (pcbs s' n) = Zombie"
    by (rule exit_ring [OF P])
  then show thesis unfolding z by (intro that) (simp_all add: shell_command_def)
qed

fun shell_commands :: "u64 \<Rightarrow> u64 \<Rightarrow> (u64 \<times> u64) list \<Rightarrow> 'a proc_scheme \<Rightarrow> 'a proc_scheme option" where
  "shell_commands r w [] s = Some s"
| "shell_commands r w (cn # cns) s = Option.bind (shell_command r w cn s) (shell_commands r w cns)"

section \<open>Properties\<close>

definition small_proc :: "unit proc_scheme" where
  "small_proc = console_init (\<lambda>_. 0)
     \<lparr>pageMap = (\<lambda>_. 0), pageMap_ptr = 0, firstFreepage = 0, lastPage = 0, frames = (\<lambda>_ _. 0), CR3 = 0, pml4e = 0, cr3 = 0,
      root = (\<lambda>_. \<lparr>f_name = [], f_size = 0, f_typeflag = 0, f_start = 0, f_parent = 0\<rparr>), t_index = 1,
      irq_i = 0, capskey = 0, controlkey = 0, shiftkey = 0, scanFlag = 0, buffer = replicate 512 0, index = 0, localEcho = 0,
      out_log = [], gdt = gdt_init, tss_rsp0 = 0, gdtr_loaded = None, task_reg = 0,
      idt = (\<lambda>_. \<lparr>base_lo = 0, sel = 0, always0 = 0, flags = 0, base_m = 0, base_hi = 0, zeros = 0\<rparr>), idt_limit = 0, idt_base = 0,
      pcbs = (\<lambda>p. pcb0\<lparr>pid := p div 0x1000 - 1, next_p := (if p = 0x1000 then 0x2000 else if p = 0x2000 then 0x1000 else 0)\<rparr>),
      mms = (\<lambda>_. mm0), vmas = (\<lambda>_. vma0), filps = (\<lambda>_. file0), pID = (\<lambda>i. if i < 2 then 1 else 0),
      first = 0x1000, current = 0x2000, last_p = 0, zombie = 0, cpu_rsp = 0, cpu_rip = 0\<rparr>"

lemma small_proc_sel [simp]:
  "first small_proc = 0x1000" "current small_proc = 0x2000" "zombie small_proc = 0" "cpu_rsp small_proc = 0"
  "nx small_proc p = (if p = 0x1000 then 0x2000 else if p = 0x2000 then 0x1000 else 0)"
  "pID small_proc i = (if i < 2 then 1 else 0)"
  by (simp_all add: small_proc_def console_init_def)

lemma small_proc_ring: "shell_ring 0x1000 0x2000 small_proc"
  by (simp add: shell_ring_def)

text \<open>C14. The shell's cycle.  However many commands the shell runs, each with a fresh child and a fresh program process,
  every round of fork, wait, exec and exit returns: the search of \<^verbatim>\<open>exitSyscall\<close> ends, the shell is current again and
  the ring has its shape between commands.\<close>

theorem shell_cycle:
  assumes "shell_ring k sh s" "0 < w" "distinct (concat (map (\<lambda>(c, n). [c, n]) cns))"
    "set (concat (map (\<lambda>(c, n). [c, n]) cns)) \<inter> {k, sh, 0, zombie s} = {}"
  shows "\<exists>s'. shell_commands r w cns s = Some s' \<and> shell_ring k sh s' \<and> current s' = sh"
  using assms
proof (induction cns arbitrary: s)
  case Nil
  then show ?case by (simp add: shell_ring_def)
next
  case (Cons cn cns)
  obtain c n where cn: "cn = (c, n)" by force
  have "c \<notin> {k, sh}" "n \<notin> {k, sh, c, 0, zombie s}" using Cons.prems(3,4) cn by auto
  then obtain t where t: "shell_command r w (c, n) s = Some t" "shell_ring k sh t"
    "zombie t = (if zombie s = 0 then n else zombie s)"
    using shell_command_ring [OF Cons.prems(1,2)] by metis
  have "set (concat (map (\<lambda>(c, n). [c, n]) cns)) \<inter> {k, sh, 0, zombie t} = {}"
    using Cons.prems(3,4) cn t(3) by auto
  then have "\<exists>s'. shell_commands r w cns t = Some s' \<and> shell_ring k sh s' \<and> current s' = sh"
    using Cons.prems(2,3) cn by (intro Cons.IH [OF t(2)]) simp_all
  then show ?case using t(1) cn by simp
qed

theorem shell_cycle_witness:
  "\<exists>s'. shell_commands 7 2 [(0x3000, 0x4000), (0x5000, 0x6000)] small_proc = Some s' \<and> current s' = 0x2000"
  using shell_cycle [OF small_proc_ring, of 2 "[(0x3000, 0x4000), (0x5000, 0x6000)]" 7] by auto

text \<open>The search never ends inside a set of processes closed under \<^verbatim>\<open>next\<close> that lacks the current one.\<close>

lemma exit_loop_cycle:
  assumes "exit_loop nxt cur temp = Some r" "temp \<in> C" "\<And>x. x \<in> C \<Longrightarrow> nxt x \<in> C" "cur \<notin> C"
  shows False
proof -
  have "temp \<notin> C"
  proof (rule exit_loop.raw_induct [of "\<lambda>nx' cur' temp' r'. nx' = nxt \<longrightarrow> cur' = cur \<longrightarrow> temp' \<notin> C" nxt cur temp r,
        THEN mp, THEN mp, OF _ assms(1) refl refl])
    fix f nx' cur' temp' r'
    assume IH: "\<And>a b c d. f a b c = Some d \<Longrightarrow> a = nxt \<longrightarrow> b = cur \<longrightarrow> c \<notin> C"
      and f: "(if nx' temp' \<noteq> cur' then f nx' cur' (nx' temp') else Some temp') = Some r'"
    show "nx' = nxt \<longrightarrow> cur' = cur \<longrightarrow> temp' \<notin> C"
    proof (intro impI notI)
      assume h: "nx' = nxt" "cur' = cur" "temp' \<in> C"
      then have "nxt temp' \<in> C" "nxt temp' \<noteq> cur" using assms(3,4) by metis+
      then show False using f IH h by (auto split: if_splits)
    qed
  qed
  then show False using assms(2) by simp
qed

text \<open>A child that exits without executing a program hangs the kernel: after \<^verbatim>\<open>waitpidSyscall\<close> it is outside the ring,
  and the search of \<^verbatim>\<open>exitSyscall\<close> for its predecessor goes round its parent's ring for ever.\<close>

theorem exit_without_exec_hangs:
  assumes "shell_ring k sh s" "c \<notin> {k, sh}" "0 < w"
  shows "exitSyscall r (snd (waitpidSyscall r w (fork_link c s))) = None"
proof -
  define t where "t = snd (waitpidSyscall r w (fork_link c s))"
  have C: "child_runs k sh c t" unfolding t_def by (rule wait_ring [OF assms])
  have n: "nx (upd_pcb c (\<lambda>p. p\<lparr>process_state := Zombie\<rparr>) t) x = nx t x" for x by (simp add: pcbs_upd_pcb)
  have "exit_loop (nx t) c sh \<noteq> Some x" for x
    using exit_loop_cycle [of "nx t" c sh x "{k, sh}"] C by (auto simp: child_runs_def)
  then have "exit_loop (nx t) c sh = None" by auto
  then show ?thesis unfolding t_def [symmetric] using C n by (simp add: exitSyscall_def Let_def child_runs_def)
qed

theorem exit_without_exec_hangs_witness: "exitSyscall 7 (snd (waitpidSyscall 7 2 (fork_link 0x3000 small_proc))) = None"
  using exit_without_exec_hangs [OF small_proc_ring, of "0x3000" 2 7] by simp

text \<open>C19. A process that is switched away and later back continues where it was: on the kernel stack it had, at the
  resumption label, in its own address space, with its stack in the task state segment.\<close>

theorem contextSwitch_resumes:
  assumes "n \<noteq> p"
  shows "let t = contextSwitch r' p n (contextSwitch r n p s) in
    cpu_rsp t = cpu_rsp s \<and> cpu_rip t = r \<and> CR3 t = pcb_cr3 (pcbs s p) \<and> tss_rsp0 t = cpu_rsp s \<and>
    process_state (pcbs t p) = Running \<and> rip (pcbs t n) = r' \<and> kstack (pcbs t n) = kstack (pcbs s n)"
  using contextSwitch_regs [OF assms, of r s] contextSwitch_regs [of p n r' "contextSwitch r n p s"] assms
  by (simp add: Let_def)

theorem contextSwitch_resumes_witness:
  "cpu_rip (contextSwitch 9 0x1000 0x2000 (contextSwitch 7 0x2000 0x1000 small_proc)) = 7"
  using contextSwitch_resumes [of "0x2000" "0x1000" 9 7 small_proc] by (simp add: Let_def)

lemma getPID_loop_eq:
  assumes "i \<le> MAX_PROCESSES" "\<And>j. j < i \<Longrightarrow> pID s j \<noteq> 0"
  shows "getPID_loop i s = (if \<exists>j < MAX_PROCESSES. pID s j = 0
    then let j = (LEAST j. pID s j = 0) in (of_nat j, s\<lparr>pID := (pID s)(j := 1)\<rparr>) else (- 1, s))"
  using assms
proof (induction "MAX_PROCESSES - i" arbitrary: i)
  case 0
  then have i: "i = MAX_PROCESSES" by simp
  then have "\<not> (\<exists>j < MAX_PROCESSES. pID s j = 0)" using 0(3) by auto
  then show ?case using i by (subst getPID_loop.simps) auto
next
  case (Suc m)
  then have i: "i < MAX_PROCESSES" by simp
  show ?case
  proof (cases "pID s i = 0")
    case True
    then have "(LEAST j. pID s j = 0) = i" using Suc.prems(2) by (intro Least_equality) (auto simp: linorder_not_less [symmetric])
    then show ?thesis using True i by (subst getPID_loop.simps) auto
  next
    case False
    then have "pID s j \<noteq> 0" if "j < i + 1" for j using that Suc.prems(2) by (auto simp: less_Suc_eq)
    then have "getPID_loop (i + 1) s = (if \<exists>j < MAX_PROCESSES. pID s j = 0
        then let j = (LEAST j. pID s j = 0) in (of_nat j, s\<lparr>pID := (pID s)(j := 1)\<rparr>) else (- 1, s))"
      using Suc.hyps i by simp
    moreover have "getPID_loop i s = getPID_loop (i + 1) s" using False i by (subst getPID_loop.simps) simp
    ultimately show ?thesis by (rule trans [rotated])
  qed
qed

text \<open>\<^verbatim>\<open>getPID\<close> hands out the smallest identifier that is not taken and marks it, or returns -1 when all hundred are
  taken.\<close>

theorem getPID_least:
  "getPID s = (if \<exists>j < MAX_PROCESSES. pID s j = 0
    then let j = (LEAST j. pID s j = 0) in (of_nat j, s\<lparr>pID := (pID s)(j := 1)\<rparr>) else (- 1, s))"
  using getPID_loop_eq [of 0 s] by (simp add: getPID_def)

end
