(* ===== verification/Elf.thy ===== *)
theory Elf
  imports Tasks
begin

text \<open>
  The program loader of \<^verbatim>\<open>sys/elf64.c\<close> and the first user process of \<^verbatim>\<open>sys/process.c\<close>.

  The archive (and with it the executable) is the byte memory \<open>m\<close>; the fields of \<^verbatim>\<open>Elf64_Ehdr\<close> and \<^verbatim>\<open>Elf64_Phdr\<close> are
  read little-endian at their offsets.  A store through a user virtual address goes to the frame that the current page
  tables give for it; \<open>None\<close> is a dereference of a null pointer or of an address with no page.
\<close>

abbreviation USER_STACK_TOP :: u64 where "USER_STACK_TOP \<equiv> 0x22222000000"
abbreviation HEAP_START :: u64 where "HEAP_START \<equiv> 0x08000000"
abbreviation STACK_LIMIT :: u64 where "STACK_LIMIT \<equiv> 0x20000"
abbreviation HEAP_END :: u64 where "HEAP_END \<equiv> 0x10000000"

section \<open>Reading the executable, writing user memory\<close>

definition rd :: "bmem \<Rightarrow> u64 \<Rightarrow> nat \<Rightarrow> u64" where
  "rd m a n = foldr (\<lambda>i acc. push_bit 8 acc OR ucast (m (a + of_nat i))) [0..<n] 0"

definition e_entry :: "bmem \<Rightarrow> u64 \<Rightarrow> u64" where "e_entry m h = rd m (h + 24) 8"
definition e_phoff :: "bmem \<Rightarrow> u64 \<Rightarrow> u64" where "e_phoff m h = rd m (h + 32) 8"
definition e_phnum :: "bmem \<Rightarrow> u64 \<Rightarrow> u64" where "e_phnum m h = rd m (h + 56) 2"
definition p_type :: "bmem \<Rightarrow> u64 \<Rightarrow> u64" where "p_type m h = rd m h 4"
definition p_flags :: "bmem \<Rightarrow> u64 \<Rightarrow> u64" where "p_flags m h = rd m (h + 4) 4"
definition p_offset :: "bmem \<Rightarrow> u64 \<Rightarrow> u64" where "p_offset m h = rd m (h + 8) 8"
definition p_vaddr :: "bmem \<Rightarrow> u64 \<Rightarrow> u64" where "p_vaddr m h = rd m (h + 16) 8"
definition p_filesz :: "bmem \<Rightarrow> u64 \<Rightarrow> u64" where "p_filesz m h = rd m (h + 32) 8"
definition p_memsz :: "bmem \<Rightarrow> u64 \<Rightarrow> u64" where "p_memsz m h = rd m (h + 40) 8"

definition vstore_byte :: "u64 \<Rightarrow> u8 \<Rightarrow> 'a vm_scheme \<Rightarrow> 'a vm_scheme option" where
  "vstore_byte v b s =
     (let e = pt_lookup (frames s) (CR3 s) v;
          f = tbl e;
          w = drop_bit 3 (v AND 0xFFF);
          k = 8 * unat (v AND 7)
      in if present e
         then Some (s\<lparr>frames := (frames s)(f := (frames s f)(w :=
                (frames s f w AND NOT (push_bit k 0xFF)) OR push_bit k (ucast b)))\<rparr>)
         else None)"

fun copy_out :: "bmem \<Rightarrow> u64 \<Rightarrow> u64 \<Rightarrow> nat \<Rightarrow> 'a vm_scheme \<Rightarrow> 'a vm_scheme option" where
  "copy_out m dst src 0 s = Some s"
| "copy_out m dst src (Suc n) s =
     Option.bind (vstore_byte dst (m src) s) (copy_out m (dst + 1) (src + 1) n)"

definition vstore_word :: "u64 \<Rightarrow> u64 \<Rightarrow> 'a vm_scheme \<Rightarrow> 'a vm_scheme option" where
  "vstore_word v x s =
     (let e = pt_lookup (frames s) (CR3 s) v in
      if present e
      then Some (s\<lparr>frames := (frames s)(tbl e := (frames s (tbl e))(drop_bit 3 (v AND 0xFFF) := x))\<rparr>)
      else None)"

section \<open>Loading a program\<close>

function map_segment :: "u64 \<Rightarrow> u64 \<Rightarrow> 'a vm_scheme \<Rightarrow> 'a vm_scheme" where
  "map_segment start sz s =
     (if sz > 0 then let (page, s) = allocatePage s in map_segment (start + PAGE_SIZE) (sz - 1) (map_v_p2 start page s)
      else s)"
  by pat_completeness auto
termination
proof (relation "measure (\<lambda>(start, sz, s). unat sz)", goal_cases)
  case 1
  show ?case by simp
next
  case (2 start sz s x xa y)
  then have "sz \<noteq> 0" by auto
  then show ?case by (simp add: unat_minus_one unat_gt_0)
qed

declare map_segment.simps [simp del]

definition seg_pages :: "u64 \<Rightarrow> u64 \<Rightarrow> u64" where
  "seg_pages start fin = ((fin div PAGE_SIZE * PAGE_SIZE + PAGE_SIZE) - start div PAGE_SIZE * PAGE_SIZE) div PAGE_SIZE"

definition load_segment :: "bmem \<Rightarrow> u64 \<Rightarrow> u64 \<Rightarrow> u64 \<Rightarrow> 'a proc_scheme \<Rightarrow> 'a proc_scheme option" where
  "load_segment m ehdr phdr mmp s =
     (let (vma, s) = kmalloc_vma s;
          s = upd_vma vma (\<lambda>r. r\<lparr>v_start := p_vaddr m phdr, v_end := p_vaddr m phdr + p_memsz m phdr, v_flag := p_flags m phdr\<rparr>) s;
          s = (if mmap (mms s mmp) = 0 then upd_mm mmp (\<lambda>r. r\<lparr>mmap := vma\<rparr>) s
               else upd_vma (mm_current (mms s mmp)) (\<lambda>r. r\<lparr>v_next := vma\<rparr>) s);
          s = upd_vma vma (\<lambda>r. r\<lparr>v_mm := mmp\<rparr>) s;
          s = upd_mm mmp (\<lambda>r. r\<lparr>mm_current := vma, vma_count := vma_count r + 1\<rparr>) s;
          sz = seg_pages (v_start (vmas s vma)) (v_end (vmas s vma));
          start = p_vaddr m phdr div PAGE_SIZE * PAGE_SIZE;
          s = map_segment start sz s
      in do {
        s \<leftarrow> (if p_flags m phdr = 6 \<or> p_flags m phdr = 5
              then copy_out m (v_start (vmas s vma)) (ehdr + p_offset m phdr) (unat (p_filesz m phdr))
                     (upd_mm mmp (\<lambda>r. r\<lparr>start_code := p_vaddr m phdr, end_code := p_vaddr m phdr + p_memsz m phdr\<rparr>) s)
              else Some s);
        let (f, s) = kmalloc_file s;
        let s = upd_vma vma (\<lambda>r. r\<lparr>v_file := f\<rparr>) s;
        let s = upd_file f (\<lambda>r. r\<lparr>fl_start := ehdr, fl_pgoff := p_offset m phdr, fl_size := p_filesz m phdr\<rparr>) s;
        Some (if p_flags m phdr = 5
              then upd_file f (\<lambda>r. r\<lparr>fl_bss_size := 0\<rparr>) (upd_vma vma (\<lambda>r. r\<lparr>v_type := TEXT\<rparr>) s)
              else if p_flags m phdr = 6
              then upd_file f (\<lambda>r. r\<lparr>fl_bss_size := p_memsz m phdr - p_filesz m phdr\<rparr>) (upd_vma vma (\<lambda>r. r\<lparr>v_type := DATA\<rparr>) s)
              else upd_vma vma (\<lambda>r. r\<lparr>v_type := NOTYPE\<rparr>) s)
      })"

fun load_segments :: "bmem \<Rightarrow> u64 \<Rightarrow> u64 \<Rightarrow> nat \<Rightarrow> u64 \<Rightarrow> 'a proc_scheme \<Rightarrow> 'a proc_scheme option" where
  "load_segments m ehdr phdr 0 mmp s = Some s"
| "load_segments m ehdr phdr (Suc n) mmp s =
     Option.bind (if p_type m phdr = 1 then load_segment m ehdr phdr mmp s else Some s)
       (load_segments m ehdr (phdr + 56) n mmp)"

definition load_stack_heap :: "u64 \<Rightarrow> 'a proc_scheme \<Rightarrow> 'a proc_scheme option" where
  "load_stack_heap task s =
     (let mmp = mm (pcbs s task);
          (stack_vma, s) = kmalloc_vma s;
          s = (if mmap (mms s mmp) = 0 then upd_mm mmp (\<lambda>r. r\<lparr>mmap := stack_vma\<rparr>) s
               else upd_vma (mm_current (mms s mmp)) (\<lambda>r. r\<lparr>v_next := stack_vma\<rparr>) s)
      in if mm_current (mms s mmp) = 0 then None
         else let s = upd_vma (mm_current (mms s mmp)) (\<lambda>r. r\<lparr>v_next := stack_vma\<rparr>) s;
                  s = upd_mm mmp (\<lambda>r. r\<lparr>mm_current := stack_vma\<rparr>) s;
                  (page, s) = allocatePage s;
                  s = map_v_p2 USER_STACK_TOP page s;
                  s = upd_vma stack_vma (\<lambda>r. r\<lparr>v_start := USER_STACK_TOP + PAGE_SIZE, v_end := USER_STACK_TOP, v_flag := 0x5,
                        v_type := STACK, v_file := 0, v_next := 0\<rparr>) s;
                  s = upd_pcb task (\<lambda>r. r\<lparr>rsp := USER_STACK_TOP + 4096 - 16\<rparr>) s;
                  s = upd_mm mmp (\<lambda>r. r\<lparr>vma_count := vma_count r + 1\<rparr>) s;
                  (heap, s) = kmalloc_vma s;
                  s = upd_vma (mm_current (mms s mmp)) (\<lambda>r. r\<lparr>v_next := heap\<rparr>) s;
                  s = upd_mm mmp (\<lambda>r. r\<lparr>mm_current := heap\<rparr>) s;
                  s = upd_vma heap (\<lambda>r. r\<lparr>v_mm := mmp, v_start := HEAP_START, v_end := HEAP_START + PAGE_SIZE, v_flag := 0x5,
                        v_type := HEAP, v_file := 0, v_next := 0\<rparr>) s;
                  s = upd_mm mmp (\<lambda>r. r\<lparr>brk := HEAP_START\<rparr>) s;
                  (page, s) = allocatePage s;
                  s = map_v_p2 HEAP_START page s
              in Some (upd_mm mmp (\<lambda>r. r\<lparr>vma_count := vma_count r + 1\<rparr>) s))"

definition loadElf :: "bmem \<Rightarrow> u64 \<Rightarrow> u8 list \<Rightarrow> u64 \<Rightarrow> 'a proc_scheme \<Rightarrow> 'a proc_scheme option" where
  "loadElf m tar_start filename task s = do {
     ehdr \<leftarrow> getFile m tar_start filename;
     if ehdr = 0 then None
     else if m (ehdr + 1) = 69 \<and> m (ehdr + 2) = 76 \<and> m (ehdr + 3) = 70
     then do {
       let phdr = ehdr + e_phoff m ehdr;
       let mmp = mm (pcbs s task);
       let s = upd_pcb task (\<lambda>r. r\<lparr>rip := e_entry m ehdr\<rparr>) s;
       let s = upd_mm mmp (\<lambda>r. r\<lparr>mmap := 0\<rparr>) s;
       s \<leftarrow> load_segments m ehdr phdr (unat (e_phnum m ehdr)) mmp s;
       load_stack_heap task s
     }
     else Some s
   }"

text \<open>The end of the ring: the process before the current one.\<close>

partial_function (option) ring_end :: "(u64 \<Rightarrow> u64) \<Rightarrow> u64 \<Rightarrow> u64 \<Rightarrow> u64 option" where
  "ring_end nxt cur temp = (if nxt temp \<noteq> cur then ring_end nxt cur (nxt temp) else Some temp)"

definition userInitProcess :: "bmem \<Rightarrow> u64 \<Rightarrow> u64 \<Rightarrow> u8 list \<Rightarrow> 'a proc_scheme \<Rightarrow> (u64 \<times> 'a proc_scheme) option" where
  "userInitProcess m tar_start init_func filename s =
     (if length filename < 15 then
      let (init, s) = kmalloc_pcb s;
          (i, s) = getPID s;
          s = upd_pcb init (\<lambda>p. p\<lparr>pid := i, ppid := 0, rip := init_func, process_state := New, sleep_ticks := 0, alarm := 0,
                wait_on_childpid := - 1, process_name := put_array (filename @ [0]) (process_name p),
                cur_dir := put_array (str ''/rootfs/bin/'' @ [0]) (cur_dir p), num_child := 0\<rparr>) s;
          (c, s) = setUserSpace s;
          s = upd_pcb init (\<lambda>p. p\<lparr>pcb_cr3 := c\<rparr>) s;
          prevCR3 = getCR3 s;
          s = loadCR3 (pcb_cr3 (pcbs s init)) s;
          (mmp, s) = kmalloc_mm s;
          s = upd_pcb init (\<lambda>p. p\<lparr>mm := mmp\<rparr>) s;
          s = upd_mm mmp (\<lambda>r. r\<lparr>vma_count := 0\<rparr>) s;
          (kstack1, s) = kmalloc s;
          s = upd_pcb init (\<lambda>p. p\<lparr>kstack := kstack1 + 0x1000 - 16, init_kern := kstack1 + 0x1000 - 16\<rparr>) s
      in do {
        s \<leftarrow> loadElf m tar_start filename init s;
        temp \<leftarrow> ring_end (nx s) (current s) (current s);
        let s = set_next temp init s;
        let s = set_next init (current s) s;
        Some (init, loadCR3 prevCR3 s)
      }
      else None)"

section \<open>Mapping a segment\<close>

lemma allocatePage_vm:
  assumes inv: "vm_inv r s" and ne: "free_pages s \<noteq> {}" and al: "allocatePage s = (a, s1)"
  shows "vm_inv r s1" "frames s1 = frames s" "CR3 s1 = CR3 s" "a \<notin> used s" "used s1 = insert a (used s)"
    "card (free_pages s1) + 1 = card (free_pages s)" "a \<notin> tables (frames s1) r" "vm.more s1 = vm.more s"
proof -
  note I = vm_invD [OF inv]
  note A = allocatePage_used [OF I(1,2) ne al]
  show fr: "frames s1 = frames s" "CR3 s1 = CR3 s" "vm.more s1 = vm.more s" by (subst A(5), simp)+
  show "a \<notin> used s" "used s1 = insert a (used s)" "card (free_pages s1) + 1 = card (free_pages s)" by (rule A)+
  show "vm_inv r s1" using pt_tree_mono [OF I(3), of "used s1"] A(1,3,7) I(2) fr by (auto simp: vm_inv_def)
  show "a \<notin> tables (frames s1) r" using tables_used [OF inv] A(2) fr by auto
qed

lemma vpage_page: "vpage (q * PAGE_SIZE) = take_bit 36 q"
proof (rule bit_eqI)
  fix n
  have "q * PAGE_SIZE = push_bit 12 q" by (simp add: push_bit_eq_mult)
  then show "bit (vpage (q * PAGE_SIZE)) n = bit (take_bit 36 q) n"
    unfolding bit_vpage by (auto simp: bit_simps)
qed

lemma vpage_page_inj:
  assumes "vpage ((q + of_nat j) * PAGE_SIZE) = vpage ((q + of_nat k) * PAGE_SIZE)" "j < 2 ^ 36" "k < 2 ^ 36"
  shows "j = k"
proof -
  have u: "uint (take_bit 36 (q + of_nat i)) = (uint q + int i) mod 2 ^ 36" for i
  proof -
    have "uint (q + of_nat i) = (uint q + int i) mod 2 ^ 64"
      by (simp add: uint_word_ariths unsigned_of_nat take_bit_eq_mod mod_add_right_eq zmod_int)
    moreover have "uint (take_bit 36 (q + of_nat i)) = uint (q + of_nat i) mod 2 ^ 36"
      unfolding unsigned_take_bit_eq by (rule take_bit_eq_mod)
    ultimately show ?thesis by (simp add: mod_mod_cancel)
  qed
  have "(uint q + int j) mod 2 ^ 36 = (uint q + int k) mod 2 ^ 36" using assms(1) unfolding vpage_page u [symmetric] by simp
  then have "2 ^ 36 dvd int j - int k" by (simp add: mod_eq_dvd_iff)
  moreover have "\<bar>int j - int k\<bar> < 2 ^ 36" using assms(2,3) by auto
  ultimately show ?thesis using dvd_imp_le_int [of "int j - int k" "2 ^ 36"] by (cases "j = k") auto
qed

abbreviation seg_page :: "u64 \<Rightarrow> nat \<Rightarrow> u64" where
  "seg_page q k \<equiv> (q + of_nat k) * PAGE_SIZE"

text \<open>The state after mapping \<open>n\<close> pages from page \<open>q\<close> on.\<close>

definition segment_mapped :: "u64 \<Rightarrow> nat \<Rightarrow> 'a vm_scheme \<Rightarrow> 'a vm_scheme \<Rightarrow> bool" where
  "segment_mapped q n s s' \<longleftrightarrow> vm_inv (CR3 s) s' \<and> CR3 s' = CR3 s \<and> used s \<subseteq> used s' \<and>
     (\<exists>pages. length pages = n \<and> distinct pages \<and> set pages \<inter> used s = {} \<and> set pages \<subseteq> used s' \<and>
       (\<forall>k<n. pt_lookup (frames s') (CR3 s) (seg_page q k) = pages ! k OR 7)) \<and>
     (\<forall>v. (\<forall>k<n. vpage v \<noteq> vpage (seg_page q k)) \<longrightarrow> pt_lookup (frames s') (CR3 s) v = pt_lookup (frames s) (CR3 s) v)"

lemma segment_mappedD:
  assumes "segment_mapped q n s s'"
  shows "vm_inv (CR3 s) s'" "CR3 s' = CR3 s" "used s \<subseteq> used s'"
    "(\<And>k. k < n \<Longrightarrow> vpage v \<noteq> vpage (seg_page q k)) \<Longrightarrow> pt_lookup (frames s') (CR3 s) v = pt_lookup (frames s) (CR3 s) v"
  using assms unfolding segment_mapped_def by blast+

lemma segment_mapped_Cons:
  assumes M: "segment_mapped (q + 1) n s2 s'" and n: "Suc n \<le> 2 ^ 36" and r: "CR3 s2 = CR3 s"
    and a: "a \<notin> used s" "a \<in> used s2" "used s \<subseteq> used s2"
    and l: "\<And>v. pt_lookup (frames s2) (CR3 s) v =
      (if vpage v = vpage (q * PAGE_SIZE) then a OR 7 else pt_lookup (frames s) (CR3 s) v)"
  shows "segment_mapped q (Suc n) s s'"
proof -
  note D = segment_mappedD [OF M, unfolded r]
  have sp: "seg_page q (Suc k) = seg_page (q + 1) k" "seg_page q 0 = q * PAGE_SIZE" for k by (simp_all add: algebra_simps)
  obtain ps where ps: "length ps = n" "distinct ps" "set ps \<inter> used s2 = {}" "set ps \<subseteq> used s'"
    "\<And>k. k < n \<Longrightarrow> pt_lookup (frames s') (CR3 s) (seg_page (q + 1) k) = ps ! k OR 7"
    using M r unfolding segment_mapped_def by metis
  have "vpage (q * PAGE_SIZE) \<noteq> vpage (seg_page (q + 1) k)" if "k < n" for k
    using vpage_page_inj [of q 0 "Suc k"] that n unfolding sp by auto
  then have l0: "pt_lookup (frames s') (CR3 s) (q * PAGE_SIZE) = a OR 7" using D(4) [of "q * PAGE_SIZE"] l by simp
  have "pt_lookup (frames s') (CR3 s) (seg_page q k) = (a # ps) ! k OR 7" if "k < Suc n" for k
  proof (cases k)
    case 0
    then show ?thesis using l0 by simp
  next
    case (Suc j)
    then have "j < n" using that by simp
    from ps(5) [OF this] show ?thesis unfolding Suc sp(1) by simp
  qed
  moreover have "length (a # ps) = Suc n \<and> distinct (a # ps) \<and> set (a # ps) \<inter> used s = {} \<and> set (a # ps) \<subseteq> used s'"
    using ps(1-4) a D(3) by auto
  ultimately have P: "\<exists>pages. length pages = Suc n \<and> distinct pages \<and> set pages \<inter> used s = {} \<and> set pages \<subseteq> used s' \<and>
      (\<forall>k<Suc n. pt_lookup (frames s') (CR3 s) (seg_page q k) = pages ! k OR 7)" by blast
  have "pt_lookup (frames s') (CR3 s) v = pt_lookup (frames s) (CR3 s) v" if "\<forall>k<Suc n. vpage v \<noteq> vpage (seg_page q k)" for v
  proof -
    have "vpage v \<noteq> vpage (q * PAGE_SIZE)" using that [rule_format, of 0] unfolding sp(2) by simp
    moreover have "vpage v \<noteq> vpage (seg_page (q + 1) k)" if "k < n" for k
      using \<open>\<forall>k<Suc n. _\<close> [rule_format, of "Suc k"] that unfolding sp(1) by simp
    ultimately show ?thesis using D(4) [of v] l by simp
  qed
  then show ?thesis using P D(1-3) a(3) unfolding segment_mapped_def by blast
qed

lemma finite_missing: "finite V \<Longrightarrow> finite (missing fr r V)"
  by (simp add: missing_def)

lemma missing_mono: "V \<subseteq> W \<Longrightarrow> missing fr r V \<subseteq> missing fr r W"
  by (auto simp: missing_def)

lemma map_segment_mapped:
  assumes "vm_inv (CR3 s) s" "n \<le> 2 ^ 36"
    "n + card (missing (frames s) (CR3 s) (seg_page q ` {..<n})) \<le> card (free_pages s)"
  shows "segment_mapped q n s (map_segment (q * PAGE_SIZE) (of_nat n) s)"
  using assms
proof (induction n arbitrary: q s)
  case 0
  then show ?case by (subst map_segment.simps) (simp add: segment_mapped_def)
next
  case (Suc n)
  let ?r = "CR3 s" and ?v = "q * PAGE_SIZE" and ?W = "seg_page (q + 1) ` {..<n}"
  let ?m = "missing (frames s) ?r"
  have V: "?m (seg_page q ` {..<Suc n}) = ?m {?v} \<union> ?m ?W"
    using missing_laws(2) [of "frames s" ?r ?v ?W] by (simp add: lessThan_Suc_eq_insert_0 image_image algebra_simps)
  have c: "card (?m {?v} \<union> ?m ?W) = card (?m {?v}) + card (?m ?W - ?m {?v})"
    using card_Un_disjoint [of "?m {?v}" "?m ?W - ?m {?v}"] by (simp add: Un_Diff_cancel finite_missing)
  have ne: "free_pages s \<noteq> {}" using Suc.prems(3) by auto
  obtain a s1 where al: "allocatePage s = (a, s1)" by force
  note A = allocatePage_vm [OF Suc.prems(1) ne al]
  have r1: "card (missing (frames s1) (CR3 s1) {?v}) \<le> card (free_pages s1)"
    using Suc.prems(3) A(2,3,6) V c by simp
  define s2 where "s2 = map_v_p2 ?v a s1"
  have i1: "vm_inv (CR3 s1) s1" using A(1,3) by simp
  note M = map_v_p2_ok [OF i1 r1, where p = a, folded s2_def, unfolded A(2,3)]
  have r2: "CR3 s2 = ?r" using map_v_p2_frame [OF i1 r1, of a] A(3) by (simp add: s2_def)
  have W2: "missing (frames s2) ?r ?W = ?m ?W - ?m {?v}" by (rule missing_step [OF M(3)])
  have "segment_mapped (q + 1) n s2 (map_segment ((q + 1) * PAGE_SIZE) (of_nat n) s2)"
  proof (rule Suc.IH)
    show "vm_inv (CR3 s2) s2" "n \<le> 2 ^ 36" using M(1) r2 Suc.prems(2) by simp_all
    show "n + card (missing (frames s2) (CR3 s2) ?W) \<le> card (free_pages s2)"
      using Suc.prems(3) A(6) M(4) V c W2 r2 by simp
  qed
  moreover have "map_segment ?v (of_nat (Suc n)) s = map_segment ((q + 1) * PAGE_SIZE) (of_nat n) s2"
  proof -
    have "unat (of_nat (Suc n) :: u64) = Suc n" using Suc.prems(2) by (intro unat_of_nat_eq) simp
    then have "(0 :: u64) < of_nat (Suc n)" by (metis unat_gt_0 word_gt_0 zero_less_Suc)
    then show ?thesis using al
      by (subst map_segment.simps) (simp add: s2_def algebra_simps)
  qed
  moreover have "used s1 \<subseteq> used s2" using vm_keepsD(2) [OF M(5)] by blast
  ultimately show ?case
    using segment_mapped_Cons [of q n s2 _ s a] Suc.prems(2) r2 A(4,5) M(2) by auto
qed

section \<open>The pages of a segment\<close>

text \<open>The number of pages the loader maps covers every address from the start to the end of the segment, the end
  included.\<close>

lemma seg_pages_cover:
  assumes "start \<le> fin" "fin < 2 ^ 47" "start \<le> v" "v \<le> fin"
  shows "unat (seg_pages start fin) = unat fin div 4096 - unat start div 4096 + 1"
    "unat v div 4096 - unat start div 4096 < unat (seg_pages start fin)"
proof -
  have u: "unat start \<le> unat fin" "unat fin < 2 ^ 47" "unat start \<le> unat v" "unat v \<le> unat fin"
    using assms by (simp_all add: word_le_nat_alt word_less_nat_alt)
  let ?s = "unat start div 4096" and ?e = "unat fin div 4096"
  have d: "?s \<le> ?e" "?e < 2 ^ 35" "unat v div 4096 \<le> ?e" "?s \<le> unat v div 4096"
    using u by (simp_all add: div_le_mono div_less_iff_less_mult)
  have us: "unat (start div PAGE_SIZE * PAGE_SIZE) = ?s * 4096"
    using d by (subst unat_mult_lem [THEN iffD1]) (simp_all add: unat_div)
  have ue: "unat (fin div PAGE_SIZE * PAGE_SIZE) = ?e * 4096"
    using d by (subst unat_mult_lem [THEN iffD1]) (simp_all add: unat_div)
  have uf: "unat (fin div PAGE_SIZE * PAGE_SIZE + PAGE_SIZE) = (?e + 1) * 4096"
    using d by (subst unat_add_lem [THEN iffD1]) (simp_all add: ue)
  have "start div PAGE_SIZE * PAGE_SIZE \<le> fin div PAGE_SIZE * PAGE_SIZE + PAGE_SIZE"
    using d by (simp add: word_le_nat_alt us uf)
  then have "unat (seg_pages start fin) = ((?e + 1) * 4096 - ?s * 4096) div 4096"
    by (simp only: seg_pages_def unat_div unat_sub us uf) simp
  also have "(?e + 1) * 4096 - ?s * 4096 = (?e - ?s + 1) * 4096" using d(1) by (simp add: algebra_simps)
  finally show "unat (seg_pages start fin) = ?e - ?s + 1" by simp
  then show "unat v div 4096 - ?s < unat (seg_pages start fin)"
    using d(3) by (simp add: less_Suc_eq_le diff_le_mono)
qed

lemma pt_lookup_vpage: "vpage v = vpage w \<Longrightarrow> pt_lookup fr r v = pt_lookup fr r w"
  by (auto simp: vpage_eq_iff pt_lookup_def split: option.splits)

lemma vpage_div: "vpage v = take_bit 36 (v div PAGE_SIZE)"
proof -
  have "v div PAGE_SIZE = drop_bit 12 v" by (simp add: drop_bit_eq_div)
  then show ?thesis by (intro bit_eqI) (auto simp: bit_vpage bit_take_bit_iff bit_drop_bit_eq)
qed

section \<open>Properties\<close>

text \<open>C15. The loader maps a segment.  With room for its pages and for the tables they lack, after the mapping loop of
  \<^verbatim>\<open>loadElf\<close> every address of the segment, its end included, is present, writable and accessible from user mode, in
  a frame that was free before; every page outside the segment keeps its entry, and the address space stays
  well-formed.\<close>

theorem map_segment_covers:
  assumes "vm_inv (CR3 s) s" "start \<le> fin" "fin < 2 ^ 47" "start \<le> v" "v \<le> fin"
    "unat (seg_pages start fin) +
       card (missing (frames s) (CR3 s) (seg_page (start div PAGE_SIZE) ` {..<unat (seg_pages start fin)})) \<le> card (free_pages s)"
  shows "\<exists>a s'. map_segment (start div PAGE_SIZE * PAGE_SIZE) (seg_pages start fin) s = s' \<and> vm_inv (CR3 s) s' \<and>
    a \<notin> used s \<and> a \<in> used s' \<and> pt_lookup (frames s') (CR3 s) v = a OR (P_BIT OR U_BIT OR W_BIT) \<and>
    (\<forall>w. (\<exists>k < unat (seg_pages start fin). vpage w = vpage (seg_page (start div PAGE_SIZE) k)) \<or>
       pt_lookup (frames s') (CR3 s) w = pt_lookup (frames s) (CR3 s) w)"
proof -
  let ?n = "unat (seg_pages start fin)" and ?q = "start div PAGE_SIZE" and ?k = "unat v div 4096 - unat start div 4096"
  note C = seg_pages_cover [OF assms(2-5)]
  have "?n \<le> 2 ^ 36" using C(1) assms(3) by (simp add: word_less_nat_alt)
  then have M: "segment_mapped ?q ?n s (map_segment (?q * PAGE_SIZE) (of_nat ?n) s)"
    using map_segment_mapped [OF assms(1)] assms(6) by blast
  then obtain ps where ps: "length ps = ?n" "set ps \<inter> used s = {}"
    "set ps \<subseteq> used (map_segment (?q * PAGE_SIZE) (of_nat ?n) s)"
    "\<And>k. k < ?n \<Longrightarrow> pt_lookup (frames (map_segment (?q * PAGE_SIZE) (of_nat ?n) s)) (CR3 s) (seg_page ?q k) = ps ! k OR 7"
    unfolding segment_mapped_def by metis
  have kv: "?q + of_nat ?k = v div PAGE_SIZE"
  proof -
    have "unat start div 4096 \<le> unat v div 4096" using assms(4) by (simp add: word_le_nat_alt div_le_mono)
    then have "of_nat ?k = v div PAGE_SIZE - ?q" by (simp add: of_nat_diff word_arith_nat_div)
    then show ?thesis by simp
  qed
  have vv: "vpage v = vpage (seg_page ?q ?k)" unfolding kv vpage_page by (rule vpage_div)
  define s' where "s' = map_segment (?q * PAGE_SIZE) (of_nat ?n) s"
  have l: "pt_lookup (frames s') (CR3 s) v = ps ! ?k OR 7"
    unfolding s'_def pt_lookup_vpage [OF vv] by (rule ps(4) [OF C(2)])
  have k: "ps ! ?k \<in> set ps" using C(2) ps(1) by (intro nth_mem) simp
  show ?thesis
  proof (intro exI conjI)
    show "map_segment (?q * PAGE_SIZE) (seg_pages start fin) s = s'" by (simp add: s'_def)
    show "vm_inv (CR3 s) s'" using segment_mappedD(1) [OF M] by (simp only: s'_def)
    show "ps ! ?k \<notin> used s" "ps ! ?k \<in> used s'" using k ps(2,3) unfolding s'_def by blast+
    show "pt_lookup (frames s') (CR3 s) v = ps ! ?k OR (P_BIT OR U_BIT OR W_BIT)" unfolding flag_bits by (rule l)
    show "\<forall>w. (\<exists>k<?n. vpage w = vpage (seg_page ?q k)) \<or> pt_lookup (frames s') (CR3 s) w = pt_lookup (frames s) (CR3 s) w"
      using segment_mappedD(4) [OF M] unfolding s'_def by blast
  qed
qed

theorem map_segment_covers_witness:
  "\<exists>a s'. map_segment (0x400123 div PAGE_SIZE * PAGE_SIZE) (seg_pages 0x400123 0x400fff) small_vm = s' \<and>
     a \<notin> used small_vm \<and> pt_lookup (frames s') 0x1000 0x400800 = a OR (P_BIT OR U_BIT OR W_BIT)"
proof -
  have p: "unat (seg_pages 0x400123 0x400fff) = 1" by (simp add: seg_pages_def)
  have s: "seg_page (0x400123 div PAGE_SIZE) ` {..<unat (seg_pages 0x400123 0x400fff)} = {0x400000}"
    unfolding p by (simp add: lessThan_Suc)
  have "unat (seg_pages 0x400123 0x400fff) + card (missing (frames small_vm) (CR3 small_vm)
      (seg_page (0x400123 div PAGE_SIZE) ` {..<unat (seg_pages 0x400123 0x400fff)})) \<le> card (free_pages small_vm)"
    unfolding s unfolding p using missing_le_3 [of "\<lambda>_ _. 0" "0x1000" "0x400000"] by (simp add: small_vm_card)
  then show ?thesis
    using map_segment_covers [of small_vm "0x400123" "0x400fff" "0x400800"] small_vm_inv by auto
qed

end
