(* ===== verification/PageFault.thy ===== *)
theory PageFault
  imports Elf
begin

text \<open>
  The page fault handler of \<^verbatim>\<open>sys/page.c\<close> (lines 81 to 145): copy on write, growth of the heap and of the stack, and
  the halt on a segmentation fault.

  The error code and the faulting address (register CR2) are arguments.  The result is \<open>None\<close> when the handler itself
  dereferences a missing page or does not end, and otherwise whether it halted, with the state.
\<close>

section \<open>The code\<close>

text \<open>\<^verbatim>\<open>memcpy(dst,src,PAGE_SIZE)\<close> between two pages of the current address space.\<close>

definition copy_page :: "u64 \<Rightarrow> u64 \<Rightarrow> 'a vm_scheme \<Rightarrow> 'a vm_scheme option" where
  "copy_page dst src s =
     (let d = pt_lookup (frames s) (CR3 s) dst; e = pt_lookup (frames s) (CR3 s) src in
      if present d \<and> present e then Some (s\<lparr>frames := (frames s)(tbl d := frames s (tbl e))\<rparr>) else None)"

partial_function (option) heap_down :: "u64 \<Rightarrow> u64 \<Rightarrow> u64 option" where
  "heap_down fault_addr fin = (if fault_addr < fin then heap_down fault_addr (fin - PAGE_SIZE) else Some fin)"

partial_function (option) vma_scan :: "u64 \<Rightarrow> u64 \<Rightarrow> 'a proc_scheme \<Rightarrow> (u64 \<times> 'a proc_scheme) option" where
  "vma_scan fault_addr vma s =
     (if vma = 0 then Some (0, s)
      else let start = v_start (vmas s vma); fin = v_end (vmas s vma) in
        if v_type (vmas s vma) = HEAP \<and> fault_addr \<ge> start \<and> fault_addr \<le> HEAP_END
        then Option.bind (heap_down fault_addr fin) (\<lambda>fin.
               let (page, s) = allocatePage s; s = map_v_p2 fin page s
               in Some (vma, upd_vma vma (\<lambda>r. r\<lparr>v_end := fin + PAGE_SIZE\<rparr>) s))
        else if v_type (vmas s vma) = STACK \<and> fault_addr \<le> fin \<and> start - fin - PAGE_SIZE \<le> STACK_LIMIT \<and>
                fault_addr - fin - PAGE_SIZE \<le> STACK_LIMIT
        then let s = kprintf (''START'' @ [CHR 0x0A]) [] s;
                 s = kprintf ''%x end, %x start'' [KInt (v_end (vmas s vma)), KInt (v_start (vmas s vma))] s;
                 stack = fin - PAGE_SIZE;
                 (page, s) = allocatePage s;
                 s = map_v_p2 fin page s
             in Some (vma, upd_vma vma (\<lambda>r. r\<lparr>v_end := stack\<rparr>) s)
        else vma_scan fault_addr (v_next (vmas s vma)) s)"

definition cow_fault :: "u64 \<Rightarrow> 'a proc_scheme \<Rightarrow> 'a proc_scheme option" where
  "cow_fault fault_addr s = do {
     let (vir_addr, s) = kmalloc s;
     p_addr \<leftarrow> physicalAddress (vir_addr AND FRAME_MASK) s;
     let v = fault_addr AND FRAME_MASK;
     s \<leftarrow> copy_page vir_addr v s;
     let s = map_v_p2 v p_addr s;
     Some (loadCR3 (pcb_cr3 (pcbs s (current s))) s)
   }"

definition vma_fault :: "bool \<Rightarrow> u64 \<Rightarrow> u64 \<Rightarrow> 'a proc_scheme \<Rightarrow> (bool \<times> 'a proc_scheme) option" where
  "vma_fault fault err_code fault_addr s = do {
     (vma, s) \<leftarrow> vma_scan fault_addr (mmap (mms s (mm (pcbs s (current s))))) s;
     if fault \<and> vma = 0
     then Some (True, kprintf ([CHR 0x0A] @ ''Segmentation Fault %p (%p) - Process Terminated'')
                        [KInt fault_addr, KInt err_code] s)
     else Some (False, s)
   }"

definition pageFault :: "u64 \<Rightarrow> u64 \<Rightarrow> 'a proc_scheme \<Rightarrow> (bool \<times> 'a proc_scheme) option" where
  "pageFault regs_err_code fault_addr s =
     (let err_code = regs_err_code AND 0xF in
      if err_code AND P_BIT \<noteq> 0 \<and> err_code AND W_BIT \<noteq> 0
      then do {
        p_fault \<leftarrow> physicalAddress fault_addr s;
        if p_fault AND COW_BIT \<noteq> 0 then map_option (Pair False) (cow_fault fault_addr s)
        else vma_fault False err_code fault_addr s
      }
      else vma_fault (err_code AND P_BIT = 0) err_code fault_addr s)"

section \<open>Copy on write\<close>

lemma vpage_mask: "vpage (v AND FRAME_MASK) = vpage v"
  unfolding FRAME_MASK_eq by (intro bit_eqI) (auto simp: bit_vpage bit_simps)

lemma lookup_nonzero_walk:
  assumes "pt_lookup fr r v \<noteq> 0"
  shows "missing fr r {v} = {}"
proof -
  obtain t where "walk fr r (vidx v) = Some t" using assms by (auto simp: pt_lookup_def split: option.splits)
  then have "walk fr r (take n (vidx v)) \<noteq> None" for n
    using walk_append [of fr r "take n (vidx v)" "drop n (vidx v)"] by (metis append_take_drop_id bind_eq_None_conv option.distinct(1))
  from this [of 1] this [of 2] this [of 3] show ?thesis
    unfolding missing_single paths_def by (auto simp: length_vidx)
qed

lemma or7: "(a OR 7) OR 7 = (a OR 7 :: u64)"
  by (simp add: or.assoc)

lemma frame_mask_window:
  assumes "\<And>n. bit a n \<Longrightarrow> 12 \<le> n"
  shows "(a OR KERNBASE) AND FRAME_MASK = a OR KERNBASE"
  unfolding FRAME_MASK_eq KERNBASE_eq by (rule bit_word_eqI) (auto simp: bit_simps dest: assms)

lemma present_nonzero: "present e \<Longrightarrow> e \<noteq> 0"
  by auto

lemma proc_frameD:
  assumes "vm_frame s s'"
  shows "pcbs s' = pcbs s" "mms s' = mms s" "vmas s' = vmas s" "filps s' = filps s" "current s' = current s"
    "first s' = first s" "zombie s' = zombie s" "pID s' = pID s"
  by (subst assms [unfolded vm_frame_def], simp)+

lemma copy_page_ok:
  assumes "pt_lookup (frames s) (CR3 s) dst = a OR 7" "tbl (a OR 7) = a"
    "pt_lookup (frames s) (CR3 s) src = e" "present e"
  shows "copy_page dst src s = Some (s\<lparr>frames := (frames s)(a := frames s (tbl e))\<rparr>)"
proof -
  have "present (a OR 7)" by (metis variants(2) present_or)
  then show ?thesis using assms by (simp add: copy_page_def Let_def)
qed

lemma cow_fault_private:
  assumes inv: "vm_inv (CR3 s) s" and cur: "pcb_cr3 (pcbs s (current s)) = CR3 s"
    and room: "card (missing (frames s) (CR3 s) {Min (free_pages s) * PAGE_SIZE OR KERNBASE}) < card (free_pages s)"
    and e: "pt_lookup (frames s) (CR3 s) f = e" "present e" "tbl e \<in> used s" "tbl e \<notin> tables (frames s) (CR3 s)"
    and user: "vpage f \<noteq> vpage (Min (free_pages s) * PAGE_SIZE OR KERNBASE)"
  defines "a \<equiv> Min (free_pages s) * PAGE_SIZE"
  shows "\<exists>s'. cow_fault f s = Some s' \<and> vm_inv (CR3 s) s' \<and> CR3 s' = CR3 s \<and> a \<notin> used s \<and>
    a \<in> used s' \<and> a \<notin> tables (frames s') (CR3 s) \<and> frames s' a = frames s (tbl e) \<and>
    (\<forall>q \<in> used s - tables (frames s) (CR3 s). frames s' q = frames s q) \<and>
    (\<forall>v. pt_lookup (frames s') (CR3 s) v =
      (if vpage v = vpage f \<or> vpage v = vpage (a OR KERNBASE) then a OR 7 else pt_lookup (frames s) (CR3 s) v))"
proof -
  let ?r = "CR3 s" and ?w = "f AND FRAME_MASK"
  obtain s1 where k: "kmalloc s = (a OR KERNBASE, s1)" "vm_inv ?r s1" "a \<notin> used s" "a \<in> used s1"
    "a \<notin> tables (frames s1) ?r" "frames s1 a = (\<lambda>_. 0)" "vm_keeps ?r s s1"
    "\<And>v. pt_lookup (frames s1) ?r v = (if vpage v = vpage (a OR KERNBASE) then a OR 7 else pt_lookup (frames s) ?r v)"
    "card (free_pages s1) + card (missing (frames s) ?r {a OR KERNBASE}) + 1 = card (free_pages s)"
    by (rule kmalloc_fresh [OF inv room, folded a_def]) (rule that)
  note F1 = vm_frameD [OF vm_keepsD(1) [OF k(7)]]
  have inv1: "vm_inv (CR3 s1) s1" using k(2) F1(1) by simp
  note ua = used_addr [OF k(4)] vm_invD [OF inv1]
  have ta: "tbl (a OR 7) = a" using ua(2) [OF ua(4)] by (intro frame_mask_or) simp_all
  have am: "(a OR KERNBASE) AND FRAME_MASK = a OR KERNBASE" by (rule frame_mask_window) (rule ua(2) [OF ua(4)])
  have la: "pt_lookup (frames s1) (CR3 s1) (a OR KERNBASE) = a OR 7" using k(8) F1(1) by simp
  have le: "pt_lookup (frames s1) (CR3 s1) ?w = e" using k(8) [of ?w] F1(1) user e(1) unfolding a_def
    by (simp add: vpage_mask pt_lookup_vpage [OF vpage_mask])
  have fe: "frames s1 (tbl e) = frames s (tbl e)" by (rule vm_keepsD(4) [OF k(7) e(3,4)])
  define s2 where "s2 = s1\<lparr>frames := (frames s1)(a := frames s (tbl e))\<rparr>"
  have cp: "copy_page (a OR KERNBASE) ?w s1 = Some s2"
    unfolding s2_def fe [symmetric] by (rule copy_page_ok [OF la ta le e(2)])
  have "pt_lookup (frames s1) (CR3 s1) (a OR KERNBASE) \<noteq> 0" "pt_lookup (frames s1) (CR3 s1) ?w \<noteq> 0"
    unfolding la le by (rule present_nonzero [OF present_or [OF variants(2)]] present_nonzero [OF e(2)])+
  note miss = this [THEN lookup_nonzero_walk]
  have pa: "physicalAddress ((a OR KERNBASE) AND FRAME_MASK) s1 = Some (a OR 7)"
    unfolding am physicalAddress_lookup [OF inv1] la
    using miss(1) unfolding missing_single paths_def set_empty filter_empty_conv by simp
  have nt: "a \<notin> tables (frames s1) (CR3 s1)" using k(5) F1(1) by simp
  note N = pt_nontable [OF nt, of "frames s (tbl e)"]
  have r2: "frames s2 = (frames s1)(a := frames s (tbl e))" "CR3 s2 = CR3 s1" by (simp_all add: s2_def)
  have inv2: "vm_inv (CR3 s2) s2"
    using inv1 N(1) unfolding vm_inv_def r2 by (simp add: s2_def pa_inv_def used_def free_pages_def)
  have "pt_lookup (frames s2) (CR3 s2) ?w \<noteq> 0" using le present_nonzero [OF e(2)] by (simp add: r2 N(2))
  note mi = lookup_nonzero_walk [OF this]
  define s3 where "s3 = map_v_p2 ?w (a OR 7) s2"
  note M = map_v_p2_ok [where p = "a OR 7" and v = ?w, OF inv2, unfolded mi card.empty, OF le0, folded s3_def]
  note F3 = vm_keepsD(1) [OF M(5)]
  have us: "used s2 = used s1" by (simp add: s2_def used_def free_pages_def)
  have nt2: "q \<in> used s1 \<Longrightarrow> q \<notin> tables (frames s1) ?r \<Longrightarrow> frames s3 q = frames s2 q" for q
    using vm_keepsD(4) [OF M(5), of q] unfolding us r2 N(3) unfolding F1(1) by simp
  have te: "q \<in> used s1" "q \<notin> tables (frames s1) ?r" "q \<noteq> a" "frames s1 q = frames s q"
    if "q \<in> used s - tables (frames s) ?r" for q
    using vm_keepsD(2-4) [OF k(7), of q] that k(3) by auto
  have c3: "pcb_cr3 (pcbs s3 (current s3)) = ?r"
    using proc_frameD [OF F3] proc_frameD [OF vm_keepsD(1) [OF k(7)]] cur by (simp add: s2_def)
  have r3: "CR3 s3 = ?r" using vm_frameD(1) [OF F3] F1(1) r2(2) by simp
  have run: "cow_fault f s = Some (loadCR3 ?r s3)"
    by (simp only: cow_fault_def k(1) prod.case Let_def pa cp bind.bind_lunit c3 flip: s3_def)
  show ?thesis
  proof (intro exI conjI allI ballI)
    show "cow_fault f s = Some (loadCR3 ?r s3)" by (rule run)
    show "vm_inv ?r (loadCR3 ?r s3)" using M(1) by (simp add: loadCR3_def r2 F1(1))
    show "CR3 (loadCR3 ?r s3) = ?r" by (simp add: loadCR3_def)
    show "a \<notin> used s" by (rule k(3))
    show "frames (loadCR3 ?r s3) a = frames s (tbl e)" using nt2 [OF k(4,5)] by (simp add: loadCR3_def r2)
    show "a \<in> used (loadCR3 ?r s3)" using vm_keepsD(2) [OF M(5), of a] us k(4) by (simp add: loadCR3_def used_def free_pages_def)
    show "a \<notin> tables (frames (loadCR3 ?r s3)) ?r"
      using vm_keepsD(3) [OF M(5), of a] k(4,5) unfolding us r2 N(3) unfolding F1(1) by (auto simp: loadCR3_def)
    show "frames (loadCR3 ?r s3) q = frames s q" if "q \<in> used s - tables (frames s) ?r" for q
      using nt2 [OF te(1,2) [OF that]] te(3,4) [OF that] by (simp add: loadCR3_def r2)
    show "pt_lookup (frames (loadCR3 ?r s3)) ?r v =
        (if vpage v = vpage f \<or> vpage v = vpage (a OR KERNBASE) then a OR 7 else pt_lookup (frames s) ?r v)" for v
      using M(2) [of v] k(8) [of v] unfolding r2 N(2) unfolding F1(1) by (simp add: loadCR3_def vpage_mask or7)
  qed
qed

section \<open>The search for the area of the fault\<close>

text \<open>\<open>vpath s p vs q\<close>: following \<^verbatim>\<open>next\<close> from \<open>p\<close> visits the areas \<open>vs\<close> and arrives at \<open>q\<close>.\<close>

fun vpath :: "'a proc_scheme \<Rightarrow> u64 \<Rightarrow> u64 list \<Rightarrow> u64 \<Rightarrow> bool" where
  "vpath s p [] q \<longleftrightarrow> p = q"
| "vpath s p (v # vs) q \<longleftrightarrow> p = v \<and> v \<noteq> 0 \<and> vpath s (v_next (vmas s v)) vs q"

text \<open>An area that the handler passes over: not a heap around the fault, and a stack ends in user space.\<close>

definition passed :: "u64 \<Rightarrow> vma_struct \<Rightarrow> bool" where
  "passed f r \<longleftrightarrow> (v_type r = HEAP \<longrightarrow> f < v_start r \<or> HEAP_END < f) \<and> (v_type r = STACK \<longrightarrow> v_end r < 2 ^ 47)"

text \<open>The condition under which the code would grow a stack cannot hold: below the end of the stack the subtraction
  wraps around.\<close>

lemma stack_condition:
  fixes f :: u64
  assumes "fin < 2 ^ 47" "f \<le> fin"
  shows "\<not> f - fin - PAGE_SIZE \<le> STACK_LIMIT"
proof -
  have u: "unat f \<le> unat fin" "unat fin < 2 ^ 47" using assms by (simp_all add: word_le_nat_alt word_less_nat_alt)
  have "f - fin - PAGE_SIZE = of_nat (2 ^ 64 - (unat fin - unat f + 4096))"
    using u by (simp add: of_nat_diff)
  then have "unat (f - fin - PAGE_SIZE) = 2 ^ 64 - (unat fin - unat f + 4096)"
    using unat_of_nat_eq [of "2 ^ 64 - (unat fin - unat f + 4096)", where 'a = 64] by simp
  then show ?thesis using u by (simp add: word_le_nat_alt)
qed

lemma vma_scan_path:
  assumes "vpath s p vs q" "\<And>v. v \<in> set vs \<Longrightarrow> passed f (vmas s v)"
  shows "vma_scan f p s = vma_scan f q s"
  using assms
proof (induction vs arbitrary: p)
  case (Cons v vs)
  have "passed f (vmas s v)" "p = v" "v \<noteq> 0" using Cons.prems by auto
  then have "vma_scan f p s = vma_scan f (v_next (vmas s v)) s"
    using stack_condition [of "v_end (vmas s v)" f]
    by (subst vma_scan.simps) (auto simp: passed_def Let_def)
  also have "\<dots> = vma_scan f q s" using Cons by auto
  finally show ?case .
qed simp

lemma vma_scan_heap:
  assumes "h \<noteq> 0" "v_type (vmas s h) = HEAP" "v_start (vmas s h) \<le> f" "f \<le> HEAP_END" "v_end (vmas s h) \<le> f"
    "allocatePage s = (a, s1)"
  shows "vma_scan f h s =
    Some (h, upd_vma h (\<lambda>r. r\<lparr>v_end := v_end (vmas s h) + PAGE_SIZE\<rparr>) (map_v_p2 (v_end (vmas s h)) a s1))"
proof -
  have "heap_down f (v_end (vmas s h)) = Some (v_end (vmas s h))"
    using leD [OF assms(5)] by (subst heap_down.simps) simp
  then show ?thesis using assms by (subst vma_scan.simps) (simp add: Let_def)
qed

section \<open>Growth of the heap\<close>

text \<open>The page tables and the page allocator do not look at the areas.\<close>

lemma allocatePage_vmas: "allocatePage (s\<lparr>vmas := x\<rparr>) = (fst (allocatePage s), (snd (allocatePage s))\<lparr>vmas := x\<rparr>)"
  by (simp add: allocatePage_def unsetPage_def Let_def)

lemma pdpeAlloc_vmas: "pdpeAlloc b i c (s\<lparr>vmas := x\<rparr>) = (fst (pdpeAlloc b i c s), (snd (pdpeAlloc b i c s))\<lparr>vmas := x\<rparr>)"
  by (simp add: pdpeAlloc_def Let_def allocatePage_vmas split_beta set_entry_def zero_page_def)

lemma map_v_p2_vmas: "map_v_p2 v p (s\<lparr>vmas := x\<rparr>) = (map_v_p2 v p s)\<lparr>vmas := x\<rparr>"
proof -
  have t: "table_step c k b i (s\<lparr>vmas := x\<rparr>) = (fst (table_step c k b i s), (snd (table_step c k b i s))\<lparr>vmas := x\<rparr>)" for c k b i s
    by (simp add: table_step_def pdpeAlloc_vmas entries_def)
  show ?thesis by (simp add: map_v_p2_with map_with_def Let_def split_beta t set_entry_def)
qed

lemma map_segment_vmas: "map_segment v n (s\<lparr>vmas := x\<rparr>) = (map_segment v n s)\<lparr>vmas := x\<rparr>"
proof (induction v n s rule: map_segment.induct)
  case (1 v n s)
  then show ?case
    by (subst (1 2) map_segment.simps) (simp add: allocatePage_vmas map_v_p2_vmas split_beta)
qed

text \<open>The heap \<open>h\<close> of the current process ends at page \<open>q\<close>, and the search for \<open>f\<close> arrives at it.\<close>

definition heap_at :: "u64 list \<Rightarrow> u64 \<Rightarrow> u64 \<Rightarrow> u64 \<Rightarrow> 'a proc_scheme \<Rightarrow> bool" where
  "heap_at vs h f q s \<longleftrightarrow> vpath s (mmap (mms s (mm (pcbs s (current s))))) vs h \<and> (\<forall>v \<in> set vs. passed f (vmas s v)) \<and>
     h \<noteq> 0 \<and> h \<notin> set vs \<and> v_type (vmas s h) = HEAP \<and> v_start (vmas s h) \<le> f \<and> f \<le> HEAP_END \<and> v_end (vmas s h) = q * PAGE_SIZE"

text \<open>A run of faults at the same address: the processor repeats the faulting instruction until it succeeds.\<close>

fun faults :: "nat \<Rightarrow> u64 \<Rightarrow> u64 \<Rightarrow> 'a proc_scheme \<Rightarrow> 'a proc_scheme option" where
  "faults 0 err f s = Some s"
| "faults (Suc n) err f s = (case pageFault err f s of Some (False, s') \<Rightarrow> faults n err f s' | _ \<Rightarrow> None)"

lemma err_nibble: "(err AND 0xF) AND P_BIT = err AND (P_BIT :: u64)"
  by (simp add: and.assoc)

lemma vpath_upd: "h \<notin> set vs \<Longrightarrow> vpath (s\<lparr>vmas := (vmas s)(h := r)\<rparr>) p vs q = vpath s p vs q"
  by (induction vs arbitrary: p) auto

lemma vpath_cong: "vmas s = vmas t \<Longrightarrow> vpath s p vs q = vpath t p vs q"
  by (induction vs arbitrary: p) auto

lemma page_le:
  fixes q f :: u64
  assumes "unat q \<le> unat f div 4096"
  shows "q * PAGE_SIZE \<le> f"
proof -
  have "unat q * 4096 \<le> unat f" using assms by linarith
  moreover from this have "unat (q * PAGE_SIZE) = unat q * 4096"
    using unat_lt2p [of f] by (subst unat_mult_lem [THEN iffD1]) simp_all
  ultimately show ?thesis by (simp add: word_le_nat_alt)
qed

lemma heap_fault:
  assumes H: "heap_at vs h f q s" and err: "err AND P_BIT = 0" and q: "unat q \<le> unat f div 4096"
    and al: "allocatePage s = (a, s1)"
  defines "s' \<equiv> (map_v_p2 (q * PAGE_SIZE) a s1)\<lparr>vmas := (vmas s)(h := (vmas s h)\<lparr>v_end := (q + 1) * PAGE_SIZE\<rparr>)\<rparr>"
  shows "pageFault err f s = Some (False, s')" "heap_at vs h f (q + 1) s'"
proof -
  note h = H [unfolded heap_at_def]
  let ?t = "map_v_p2 (q * PAGE_SIZE) a s1"
  have "vm_frame s ?t" using vm_frame_trans [OF allocatePage_frame [of s] map_frames(2)] al by simp
  note F = proc_frameD [OF this]
  have u: "upd_vma h (\<lambda>r. r\<lparr>v_end := q * PAGE_SIZE + PAGE_SIZE\<rparr>) ?t = s'"
    by (simp add: upd_vma_def s'_def F algebra_simps)
  have "vma_scan f (mmap (mms s (mm (pcbs s (current s))))) s = vma_scan f h s"
    using h by (intro vma_scan_path) auto
  also have "\<dots> = Some (h, s')"
    using h page_le [OF q] u vma_scan_heap [OF _ _ _ _ _ al, of h f] by simp
  finally have scan: "vma_scan f (mmap (mms s (mm (pcbs s (current s))))) s = Some (h, s')" .
  show "pageFault err f s = Some (False, s')"
    using h by (simp add: pageFault_def vma_fault_def err err_nibble scan)
  show "heap_at vs h f (q + 1) s'"
    using h vpath_upd [of h vs ?t] vpath_cong [OF F(3)] unfolding heap_at_def s'_def
    by (auto simp: F)
qed

text \<open>A run of faults maps the same pages as the segment loop of the loader.\<close>

lemma faults_segment:
  assumes "heap_at vs h f q s" "err AND P_BIT = 0" "unat q + n \<le> Suc (unat f div 4096)"
  shows "\<exists>x. faults n err f s = Some ((map_segment (q * PAGE_SIZE) (of_nat n) s)\<lparr>vmas := x\<rparr>)"
  using assms
proof (induction n arbitrary: q s)
  case 0
  have "map_segment (q * PAGE_SIZE) 0 s = s" by (subst map_segment.simps) simp
  then show ?case by (auto intro: exI [of _ "vmas s"])
next
  case (Suc n)
  have fb: "unat f < 2 ^ 64" using unat_lt2p [of f] by simp
  have q: "unat q \<le> unat f div 4096" using Suc.prems(3) by simp
  have "unat q + 1 < 2 ^ 64" using q fb by simp
  then have q1: "unat (q + 1) = unat q + 1" by (subst unat_add_lem [THEN iffD1]) simp_all
  have "unat (of_nat (Suc n) :: u64) = Suc n" using Suc.prems(3) fb by (intro unat_of_nat_eq) simp
  then have pos: "(0 :: u64) < of_nat (Suc n)" by (metis unat_gt_0 word_gt_0 zero_less_Suc)
  obtain a s1 where al: "allocatePage s = (a, s1)" by force
  define t where "t = map_v_p2 (q * PAGE_SIZE) a s1"
  define y where "y = (vmas s)(h := (vmas s h)\<lparr>v_end := (q + 1) * PAGE_SIZE\<rparr>)"
  note H = heap_fault [OF Suc.prems(1,2) q al, folded t_def y_def]
  obtain x where "faults n err f (t\<lparr>vmas := y\<rparr>) = Some ((map_segment ((q + 1) * PAGE_SIZE) (of_nat n) (t\<lparr>vmas := y\<rparr>))\<lparr>vmas := x\<rparr>)"
    using Suc.IH [OF H(2) Suc.prems(2)] Suc.prems(3) q1 by auto
  then have "faults (Suc n) err f s = Some ((map_segment ((q + 1) * PAGE_SIZE) (of_nat n) t)\<lparr>vmas := x\<rparr>)"
    by (simp add: H(1) map_segment_vmas)
  moreover have "map_segment (q * PAGE_SIZE) (of_nat (Suc n)) s = map_segment ((q + 1) * PAGE_SIZE) (of_nat n) t"
    using pos al by (subst map_segment.simps) (simp add: t_def algebra_simps)
  ultimately show ?case by auto
qed

section \<open>Properties\<close>

text \<open>A machine for the witnesses: 32 frames, of which frame 1 is the empty top-level table of the current process and the
  frames from 2 on are free; the current process has a stack and a heap.\<close>

definition user_proc :: "unit proc_scheme" where
  "user_proc = small_proc\<lparr>pageMap := ((boot_map 32 (\<lambda>_. 0))(0 := 0))(1 := 0), firstFreepage := 2, lastPage := 32,
     CR3 := 0x1000, pcbs := (\<lambda>p. (pcbs small_proc p)\<lparr>pcb_cr3 := 0x1000, mm := 0x9000\<rparr>),
     mms := (\<lambda>_. mm0\<lparr>mmap := 0xA000\<rparr>),
     vmas := (\<lambda>_. vma0)(0xA000 := vma0\<lparr>v_start := USER_STACK_TOP + PAGE_SIZE, v_end := USER_STACK_TOP, v_type := STACK, v_next := 0xB000\<rparr>,
       0xB000 := vma0\<lparr>v_start := HEAP_START, v_end := HEAP_START + PAGE_SIZE, v_type := HEAP\<rparr>)\<rparr>"

lemma user_proc_sel [simp]:
  "CR3 user_proc = 0x1000" "lastPage user_proc = 32" "frames user_proc = (\<lambda>_ _. 0)" "firstFreepage user_proc = 2"
  "pageMap user_proc = ((boot_map 32 (\<lambda>_. 0))(0 := 0))(1 := 0)" "current user_proc = 0x2000"
  "pcb_cr3 (pcbs user_proc p) = 0x1000" "mm (pcbs user_proc p) = 0x9000" "mms user_proc q = mm0\<lparr>mmap := 0xA000\<rparr>"
  by (simp_all add: user_proc_def small_proc_def console_init_def)

lemma user_proc_free: "free_pages user_proc = {i. 2 \<le> i \<and> i < 32}"
proof (intro set_eqI)
  fix i :: u64
  have two: "2 \<le> i \<longleftrightarrow> i \<noteq> 0 \<and> i \<noteq> 1"
  proof -
    have "2 \<le> unat i \<longleftrightarrow> unat i \<noteq> 0 \<and> unat i \<noteq> 1" by auto
    then show ?thesis by (simp add: word_le_nat_alt word_unat_eq_iff)
  qed
  have "i + 1 \<noteq> 0" if "i < 32" using unat_add_one [OF that] by auto
  then show "i \<in> free_pages user_proc \<longleftrightarrow> i \<in> {i. 2 \<le> i \<and> i < 32}"
    unfolding free_pages_def mem_Collect_eq two by (auto simp: boot_map_def)
qed

lemma user_proc_card: "card (free_pages user_proc) = 30"
proof -
  have "unat ` free_pages user_proc = {2..<32}"
  proof (intro equalityI subsetI)
    fix n :: nat
    assume "n \<in> {2..<32}"
    then have "unat (of_nat n :: u64) = n" "of_nat n \<in> free_pages user_proc"
      unfolding user_proc_free by (simp_all add: word_le_nat_alt word_less_nat_alt unat_of_nat)
    then show "n \<in> unat ` free_pages user_proc" by (metis image_eqI)
  qed (auto simp: user_proc_free word_le_nat_alt word_less_nat_alt)
  moreover have "inj_on unat (free_pages user_proc)" by (simp add: inj_on_def word_unat_eq_iff)
  ultimately show ?thesis using card_image [of unat "free_pages user_proc"] by simp
qed

lemma user_proc_min: "Min (free_pages user_proc) = 2"
  by (intro Min_eqI) (auto simp: user_proc_free)

lemma user_proc_inv: "vm_inv 0x1000 user_proc"
proof -
  have "(32 :: u64) < - 1" by (rule order.strict_trans2 [of _ 33]) (simp_all only: word_n1_ge, simp)
  then have 0: "fl_inv (boot_map 32 (\<lambda>_. 0)) 0 32" by (rule boot_map_inv)
  have 1: "fl_inv ((boot_map 32 (\<lambda>_. 0))(0 := 0)) 1 32" using fl_unset [OF 0] by (simp add: boot_map_def)
  have "fl_inv (((boot_map 32 (\<lambda>_. 0))(0 := 0))(1 := 0)) 2 32" using fl_unset [OF 1] by (simp add: boot_map_def)
  then have "pa_inv user_proc" by (simp add: pa_inv_def)
  moreover have w: "walk (\<lambda>_ _. 0) 0x1000 xs = Some a \<longleftrightarrow> xs = [] \<and> a = 0x1000" for xs a by (cases xs) auto
  moreover have "0x1000 \<in> used user_proc" unfolding used_def user_proc_free by (auto simp: word_le_nat_alt intro!: image_eqI [of _ _ 1])
  ultimately show ?thesis by (simp add: vm_inv_def pt_tree_def)
qed

lemma user_proc_tables: "q \<noteq> 0x1000 \<Longrightarrow> q \<notin> tables (frames user_proc) 0x1000"
  by (auto simp: tables_def elim: walk.elims)

text \<open>A page of the current process marked copy on write, as a fork leaves it.\<close>

definition cow_proc :: "unit proc_scheme" where
  "cow_proc = map_v_p2 0x400000 0x2100 (snd (allocatePage user_proc))"

lemma cow_proc_facts:
  shows "vm_inv 0x1000 cow_proc" "CR3 cow_proc = 0x1000" "pcb_cr3 (pcbs cow_proc (current cow_proc)) = 0x1000"
    "pt_lookup (frames cow_proc) 0x1000 0x400000 = 0x2107" "0x2000 \<in> used cow_proc" "0x2000 \<notin> tables (frames cow_proc) 0x1000"
    "26 \<le> card (free_pages cow_proc)" "vm_keeps 0x1000 user_proc cow_proc"
    "pt_lookup (frames cow_proc) 0x1000 w = (if vpage w = vpage 0x400000 then 0x2107 else 0)"
proof -
  have ne: "free_pages user_proc \<noteq> {}" using user_proc_card by auto
  obtain s1 where al: "allocatePage user_proc = (0x2000, s1)"
    using kpages.alloc_some [OF vm_invD(1) [OF user_proc_inv] ne] by (auto simp: user_proc_min)
  note A = allocatePage_vm [OF user_proc_inv ne al]
  have i: "vm_inv (CR3 s1) s1" using A(1,3) by simp
  have c: "card (free_pages s1) = 29" using A(6) user_proc_card by simp
  then have m: "card (missing (frames s1) (CR3 s1) {0x400000}) \<le> card (free_pages s1)"
    using missing_le_3 [of "frames s1" "CR3 s1" "0x400000"] by simp
  have e: "cow_proc = map_v_p2 0x400000 0x2100 s1" by (simp add: cow_proc_def al)
  note M = map_v_p2_ok [OF i m, where p = "0x2100", folded e]
  have r: "CR3 s1 = 0x1000" using A(3) by simp
  show "vm_inv 0x1000 cow_proc" using M(1) r by simp
  have L: "pt_lookup (frames cow_proc) 0x1000 w = (if vpage w = vpage 0x400000 then 0x2107 else 0)" for w
    using M(2) [of w] r A(2) by (simp add: pt_lookup_def vidx_def)
  then show "pt_lookup (frames cow_proc) 0x1000 w = (if vpage w = vpage 0x400000 then 0x2107 else 0)" .
  show "pt_lookup (frames cow_proc) 0x1000 0x400000 = 0x2107" using L by simp
  show "0x2000 \<in> used cow_proc" using vm_keepsD(2) [OF M(5)] A(5) by simp
  show "0x2000 \<notin> tables (frames cow_proc) 0x1000" using vm_keepsD(3) [OF M(5)] A(5,7) r by auto
  show "26 \<le> card (free_pages cow_proc)"
    using M(4) c missing_le_3 [of "frames s1" "CR3 s1" "0x400000"] by simp
  have "vm_frame user_proc s1" using allocatePage_frame [of user_proc] al by simp
  then have "vm_keeps 0x1000 user_proc s1" using A(2,5) by (auto simp: vm_keeps_def)
  then show "vm_keeps 0x1000 user_proc cow_proc" using M(5) r vm_keeps_trans by fastforce
  have "vm_frame user_proc cow_proc"
    using vm_frame_trans [OF allocatePage_frame [of user_proc] map_frames(2)] unfolding cow_proc_def by blast
  then show "CR3 cow_proc = 0x1000" "pcb_cr3 (pcbs cow_proc (current cow_proc)) = 0x1000"
    using vm_frameD(1) proc_frameD by fastforce+
qed

lemma window_not_user:
  assumes "\<not> bit f 47"
  shows "vpage f \<noteq> vpage (a OR KERNBASE)"
proof -
  have "bit (vpage (a OR KERNBASE)) 35" "\<not> bit (vpage f) 35" using assms by (simp_all add: bit_vpage bit_or_iff)
  then show ?thesis by auto
qed

lemma cow_pageFault:
  assumes "vm_inv (CR3 s) s" "pcb_cr3 (pcbs s (current s)) = CR3 s"
    "card (missing (frames s) (CR3 s) {Min (free_pages s) * PAGE_SIZE OR KERNBASE}) < card (free_pages s)"
    "err AND P_BIT \<noteq> 0" "err AND W_BIT \<noteq> 0" "\<not> bit f 47"
    "pt_lookup (frames s) (CR3 s) f = e" "present e" "e AND COW_BIT \<noteq> 0" "tbl e \<in> used s" "tbl e \<notin> tables (frames s) (CR3 s)"
  obtains s' a where "pageFault err f s = Some (False, s')" "vm_inv (CR3 s) s'" "CR3 s' = CR3 s" "a \<notin> used s"
    "a \<in> used s'" "a \<notin> tables (frames s') (CR3 s)" "pt_lookup (frames s') (CR3 s) f = a OR (P_BIT OR U_BIT OR W_BIT)"
    "frames s' a = frames s (tbl e)" "\<forall>q \<in> used s - tables (frames s) (CR3 s). frames s' q = frames s q"
    "(\<forall>v. bit v 47 \<or> vpage v = vpage f \<or> pt_lookup (frames s') (CR3 s) v = pt_lookup (frames s) (CR3 s) v)"
proof -
  define a where "a = Min (free_pages s) * PAGE_SIZE"
  obtain s' where s': "cow_fault f s = Some s'" "vm_inv (CR3 s) s'" "CR3 s' = CR3 s" "a \<notin> used s"
    "a \<in> used s'" "a \<notin> tables (frames s') (CR3 s)" "frames s' a = frames s (tbl e)"
    "\<forall>q \<in> used s - tables (frames s) (CR3 s). frames s' q = frames s q"
    "\<And>v. pt_lookup (frames s') (CR3 s) v =
      (if vpage v = vpage f \<or> vpage v = vpage (a OR KERNBASE) then a OR 7 else pt_lookup (frames s) (CR3 s) v)"
    using cow_fault_private [OF assms(1-3,7,8,10,11) window_not_user [OF assms(6)]] unfolding a_def [symmetric] by blast
  have "missing (frames s) (CR3 s) {f} = {}" using present_nonzero [OF assms(8)] assms(7) by (intro lookup_nonzero_walk) simp
  then have pa: "physicalAddress f s = Some e"
    unfolding physicalAddress_lookup [OF assms(1)] missing_single paths_def set_empty filter_empty_conv assms(7) by simp
  have w: "(err AND 0xF) AND W_BIT = err AND W_BIT" by (simp add: and.assoc)
  have "pageFault err f s = Some (False, s')"
    unfolding pageFault_def Let_def err_nibble w using assms(4,5,9) pa s'(1) by simp
  moreover have "pt_lookup (frames s') (CR3 s) f = a OR (P_BIT OR U_BIT OR W_BIT)" unfolding flag_bits using s'(9) by simp
  moreover have "bit v 47 \<or> vpage v = vpage f \<or> pt_lookup (frames s') (CR3 s) v = pt_lookup (frames s) (CR3 s) v" for v
    using s'(9) [of v] window_not_user [of v a] by auto
  ultimately show ?thesis by (intro that [of s' a]) (use s'(2-8) in blast)+
qed

text \<open>C11. Copy on write.  A write fault on a present page marked copy on write ends without a halt.  The page of the fault is
  then mapped, writable and without the mark, to a frame that was free before and holds a copy of the shared frame;
  the shared frame and every other frame in use outside the tables keep their contents, every other user page keeps its
  entry, and the address space stays well-formed.\<close>

theorem cow_fault_copies:
  assumes "vm_inv (CR3 s) s" "pcb_cr3 (pcbs s (current s)) = CR3 s"
    "card (missing (frames s) (CR3 s) {Min (free_pages s) * PAGE_SIZE OR KERNBASE}) < card (free_pages s)"
    "err AND P_BIT \<noteq> 0" "err AND W_BIT \<noteq> 0" "\<not> bit f 47"
    "pt_lookup (frames s) (CR3 s) f = e" "present e" "e AND COW_BIT \<noteq> 0" "tbl e \<in> used s" "tbl e \<notin> tables (frames s) (CR3 s)"
  shows "\<exists>s' a. pageFault err f s = Some (False, s') \<and> vm_inv (CR3 s) s' \<and> CR3 s' = CR3 s \<and> a \<notin> used s \<and>
    pt_lookup (frames s') (CR3 s) f = a OR (P_BIT OR U_BIT OR W_BIT) \<and> frames s' a = frames s (tbl e) \<and>
    (\<forall>q \<in> used s - tables (frames s) (CR3 s). frames s' q = frames s q) \<and>
    (\<forall>v. bit v 47 \<or> vpage v = vpage f \<or> pt_lookup (frames s') (CR3 s) v = pt_lookup (frames s) (CR3 s) v)"
  by (rule cow_pageFault [OF assms]) blast

theorem cow_fault_copies_witness:
  "\<exists>s' a. pageFault 7 0x400000 cow_proc = Some (False, s') \<and> a \<notin> used cow_proc \<and>
     pt_lookup (frames s') 0x1000 0x400000 = a OR (P_BIT OR U_BIT OR W_BIT) \<and> frames s' a = frames cow_proc 0x2000"
proof -
  note F = cow_proc_facts
  have "card (missing (frames cow_proc) (CR3 cow_proc) {Min (free_pages cow_proc) * PAGE_SIZE OR KERNBASE}) < card (free_pages cow_proc)"
    using F(7) missing_le_3 [of "frames cow_proc" "CR3 cow_proc" "Min (free_pages cow_proc) * PAGE_SIZE OR KERNBASE"] by simp
  from cow_fault_copies [OF _ _ this, of 7 "0x400000" "0x2107"] show ?thesis using F by auto
qed

text \<open>C12. Growth of the heap.  A process that faults on a missing page of its heap area at or above the end of the heap
  repeats the fault once for every page from the end of the heap up to the page of the fault.  After the first \<open>k\<close> faults
  exactly the first \<open>k\<close> of these pages have been mapped, without a hole, each to a frame of its own that was free before,
  present, writable and accessible; every other page has the entry it had.  So the address stays unmapped until the last
  fault, which maps it.\<close>

theorem heap_growth_reaches:
  assumes "vm_inv (CR3 s) s" "heap_at vs h f q s" "err AND P_BIT = 0" "unat q \<le> unat f div 4096"
    "n = unat f div 4096 - unat q + 1" "\<not> present (pt_lookup (frames s) (CR3 s) f)"
    "n + card (missing (frames s) (CR3 s) (seg_page q ` {..<n})) \<le> card (free_pages s)" "k \<le> n"
  shows "\<exists>s' ps. faults k err f s = Some s' \<and> vm_inv (CR3 s) s' \<and>
    length ps = k \<and> distinct ps \<and> set ps \<inter> used s = {} \<and> set ps \<subseteq> used s' \<and>
    (\<forall>j < k. pt_lookup (frames s') (CR3 s) (seg_page q j) = ps ! j OR (P_BIT OR U_BIT OR W_BIT)) \<and>
    (\<forall>v. (\<forall>j < k. vpage v \<noteq> vpage (seg_page q j)) \<longrightarrow> pt_lookup (frames s') (CR3 s) v = pt_lookup (frames s) (CR3 s) v) \<and>
    (present (pt_lookup (frames s') (CR3 s) f) \<longleftrightarrow> k = n)"
proof -
  have f: "unat f \<le> 0x10000000" using assms(2) by (simp add: heap_at_def word_le_nat_alt)
  have n: "n \<le> 2 ^ 36" "unat q + n = Suc (unat f div 4096)" "n - 1 < n" using assms(4,5) f by auto
  have k: "k \<le> 2 ^ 36" "unat q + k \<le> Suc (unat f div 4096)" using n assms(8) by simp_all
  let ?m = "missing (frames s) (CR3 s)" and ?t = "map_segment (q * PAGE_SIZE) (of_nat k) s"
  have "seg_page q ` {..<k} \<subseteq> seg_page q ` {..<n}" using assms(8) by (intro image_mono) simp
  then have "card (?m (seg_page q ` {..<k})) \<le> card (?m (seg_page q ` {..<n}))"
    by (intro card_mono finite_missing missing_mono) simp_all
  then have room: "k + card (?m (seg_page q ` {..<k})) \<le> card (free_pages s)" using assms(7,8) by linarith
  have M: "segment_mapped q k s ?t" by (rule map_segment_mapped [OF assms(1) k(1) room])
  obtain x where x: "faults k err f s = Some (?t\<lparr>vmas := x\<rparr>)" using faults_segment [OF assms(2,3) k(2)] by blast
  obtain ps where ps: "length ps = k" "distinct ps" "set ps \<inter> used s = {}" "set ps \<subseteq> used ?t"
    "\<And>j. j < k \<Longrightarrow> pt_lookup (frames ?t) (CR3 s) (seg_page q j) = ps ! j OR 7"
    using M unfolding segment_mapped_def by metis
  have "q + of_nat (n - 1) = f div PAGE_SIZE"
    using assms(4,5) by (simp add: of_nat_diff word_arith_nat_div)
  then have vf: "vpage f = vpage (seg_page q (n - 1))" unfolding vpage_page by (simp only: vpage_div)
  have "present (pt_lookup (frames ?t) (CR3 s) f) \<longleftrightarrow> k = n"
  proof (cases "k = n")
    case True
    then have "pt_lookup (frames ?t) (CR3 s) f = ps ! (n - 1) OR 7"
      using ps(5) [of "n - 1"] n(3) pt_lookup_vpage [of f "seg_page q (n - 1)"] vf by simp
    then show ?thesis using True present_or [OF variants(2)] by metis
  next
    case False
    have "vpage f \<noteq> vpage (seg_page q j)" if "j < k" for j
      using vpage_page_inj [of q "n - 1" j] that False assms(8) n(1) unfolding vf by auto
    then show ?thesis using segment_mappedD(4) [OF M] assms(6) False by simp
  qed
  moreover have "vm_inv (CR3 s) (?t\<lparr>vmas := x\<rparr>)" "used (?t\<lparr>vmas := x\<rparr>) = used ?t"
    using segment_mappedD(1) [OF M] by (simp_all add: vm_inv_def pa_inv_def used_def free_pages_def)
  ultimately show ?thesis
    using x ps segment_mappedD(4) [OF M] unfolding flag_bits by (intro exI [of _ "?t\<lparr>vmas := x\<rparr>"] exI [of _ ps]) simp
qed

theorem heap_growth_reaches_witness:
  "\<exists>s2 s3. faults 2 4 0x08003abc user_proc = Some s2 \<and> \<not> present (pt_lookup (frames s2) 0x1000 0x08003abc) \<and>
     faults 3 4 0x08003abc user_proc = Some s3 \<and> present (pt_lookup (frames s3) 0x1000 0x08003abc)"
proof -
  let ?m = "missing (frames user_proc) (CR3 user_proc)"
  have H: "heap_at [0xA000] 0xB000 0x08003abc 0x8001 user_proc"
    by (simp add: heap_at_def passed_def user_proc_def)
  have "card (?m (seg_page 0x8001 ` {..<3})) \<le> 9"
  proof -
    have V: "seg_page 0x8001 ` {..<3} = {0x08001000, 0x08002000, 0x08003000}" by (auto simp: numeral_3_eq_3 lessThan_Suc)
    have u: "?m {0x08001000, 0x08002000, 0x08003000} = ?m {0x08001000} \<union> (?m {0x08002000} \<union> ?m {0x08003000})"
      by (simp only: missing_laws(2) [of _ _ "0x08001000" "{0x08002000, 0x08003000}"] missing_laws(2) [of _ _ "0x08002000" "{0x08003000}"])
    show ?thesis unfolding V u
      using card_Un_le [of "?m {0x08001000}" "?m {0x08002000} \<union> ?m {0x08003000}"] card_Un_le [of "?m {0x08002000}" "?m {0x08003000}"]
        missing_le_3 [of "frames user_proc" "CR3 user_proc" "0x08001000"] missing_le_3 [of "frames user_proc" "CR3 user_proc" "0x08002000"]
        missing_le_3 [of "frames user_proc" "CR3 user_proc" "0x08003000"] by linarith
  qed
  then have room: "3 + card (?m (seg_page 0x8001 ` {..<3})) \<le> card (free_pages user_proc)" using user_proc_card by linarith
  have c: "CR3 user_proc = 0x1000" by simp
  have m: "\<not> present (pt_lookup (frames user_proc) 0x1000 0x08003abc)" by (simp add: pt_lookup_def vidx_def)
  note G = heap_growth_reaches [OF _ H _ _ _ _ room, of 4, unfolded c]
  obtain s2 where "faults 2 4 0x08003abc user_proc = Some s2" "\<not> present (pt_lookup (frames s2) 0x1000 0x08003abc)"
    using G [of 2] user_proc_inv m by auto
  moreover obtain s3 where "faults 3 4 0x08003abc user_proc = Some s3" "present (pt_lookup (frames s3) 0x1000 0x08003abc)"
    using G [of 3] user_proc_inv m by auto
  ultimately show ?thesis by blast
qed

text \<open>C13. A fault outside the heap ends the machine.  On a fault at a missing page, when every area of the process is passed
  over, the handler reports a segmentation fault and halts.  In particular the stack never grows: an address below
  its end is not served, whatever the distance.\<close>

theorem segfault_halts:
  assumes "err AND P_BIT = 0" "vpath s (mmap (mms s (mm (pcbs s (current s))))) vs 0"
    "\<And>v. v \<in> set vs \<Longrightarrow> passed f (vmas s v)"
  shows "pageFault err f s =
    Some (True, kprintf ([CHR 0x0A] @ ''Segmentation Fault %p (%p) - Process Terminated'') [KInt f, KInt (err AND 0xF)] s)"
proof -
  have "vma_scan f 0 s = Some (0, s)" by (subst vma_scan.simps) simp
  then show ?thesis using vma_scan_path [OF assms(2,3)] assms(1)
    by (simp add: pageFault_def vma_fault_def err_nibble)
qed

theorem segfault_halts_witness:
  "\<exists>s'. pageFault 4 (USER_STACK_TOP - 8) user_proc = Some (True, s')"
proof -
  have "vpath user_proc (mmap (mms user_proc (mm (pcbs user_proc (current user_proc))))) [0xA000, 0xB000] 0"
    by (simp add: user_proc_def vma0_def)
  moreover have "passed (USER_STACK_TOP - 8) (vmas user_proc v)" if "v \<in> set [0xA000, 0xB000]" for v
    using that by (auto simp: user_proc_def passed_def)
  ultimately show ?thesis
    using segfault_halts [of 4 user_proc "[0xA000, 0xB000]" "USER_STACK_TOP - 8"] by auto
qed

end
