(* ===== verification/Timer.thy ===== *)
theory Timer
  imports PageFault
begin

text \<open>
  The timer: the clock and the sleeping of \<^verbatim>\<open>sys/timer.c\<close>, the dispatch of its interrupt in \<^verbatim>\<open>sys/isr.c\<close>, and the two
  ways to sleep, \<^verbatim>\<open>sleepSyscall\<close> of \<^verbatim>\<open>sys/syscall.c\<close> and \<^verbatim>\<open>sleep\<close> of \<^verbatim>\<open>sys/process.c\<close>.

  The table \<^verbatim>\<open>int_handlers\<close> maps a vector to the handler registered for it; calling an empty slot is a jump to the
  null pointer, \<open>None\<close>.  A process that waits takes one timer interrupt after the other; their number is an
  argument, and \<open>None\<close> means that the wait has not ended with them.

  \<^verbatim>\<open>time_func\<close> declares \<^verbatim>\<open>extern char* video,xp,yp\<close>, which gives \<^verbatim>\<open>xp\<close> and \<^verbatim>\<open>yp\<close> the type \<^verbatim>\<open>char\<close>: it reads and
  writes the lowest byte of the two cursor variables only.
\<close>

datatype isr_t = Time_func

record timer = proc +
  int_handlers :: "nat \<Rightarrow> isr_t option"
  t_count :: u64
  t_sec :: int
  t_min :: int
  t_hour :: int
  t_time :: u64
  t_temp :: u64

section \<open>The code\<close>

definition char_of_int :: "int \<Rightarrow> int" where
  "char_of_int v = sint (word_of_int v :: u8)"

definition store_char :: "int \<Rightarrow> int \<Rightarrow> int" where
  "store_char v c = v div 256 * 256 + c mod 256"

definition two_digits :: "string \<Rightarrow> int \<Rightarrow> 'a console_scheme \<Rightarrow> 'a console_scheme" where
  "two_digits fmt v s =
     (if v < 10 then kprintf fmt [KInt (word_of_int v)] (kprintf ''0'' [] s) else kprintf fmt [KInt (word_of_int v)] s)"

definition clock_set :: "'a timer_scheme \<Rightarrow> 'a timer_scheme" where
  "clock_set s =
     (let s = s\<lparr>t_time := t_time s + 1\<rparr>;
          s = s\<lparr>t_temp := t_time s\<rparr>;
          s = s\<lparr>t_sec := uint (t_temp s mod 60)\<rparr>;
          s = s\<lparr>t_temp := t_temp s div 60\<rparr>;
          s = s\<lparr>t_min := uint (t_temp s mod 60)\<rparr>;
          s = s\<lparr>t_temp := t_temp s div 60\<rparr>
      in s\<lparr>t_hour := t_hour s smod 60\<rparr>)"

definition clock_tick :: "'a timer_scheme \<Rightarrow> 'a timer_scheme" where
  "clock_tick s =
     (let s = clock_set s;
          s = two_digits ''%d:'' (t_hour s) s;
          s = two_digits ''%d:'' (t_min s) s;
          s = two_digits ''%d'' (t_sec s) s
      in if sleep_ticks (pcbs s (current s)) > 0
         then upd_pcb (current s) (\<lambda>p. p\<lparr>sleep_ticks := sleep_ticks p - 1\<rparr>) s else s)"

definition time_func :: "'a timer_scheme \<Rightarrow> 'a timer_scheme" where
  "time_func s =
     (let s = s\<lparr>t_count := t_count s + 1\<rparr>;
          x = char_of_int (xp s);
          y = char_of_int (yp s);
          tempV = video s;
          s = s\<lparr>video := KVGA\<rparr>;
          s = (if t_count s mod 90 = 0 then clock_tick s else s);
          s = s\<lparr>video := tempV\<rparr>;
          s = s\<lparr>xp := store_char (xp s) x\<rparr>
      in s\<lparr>yp := store_char (yp s) y\<rparr>)"

definition register_interrupt_handler :: "nat \<Rightarrow> isr_t \<Rightarrow> 'a timer_scheme \<Rightarrow> 'a timer_scheme" where
  "register_interrupt_handler n handler s = s\<lparr>int_handlers := (int_handlers s)(n := Some handler)\<rparr>"

definition call_handler :: "isr_t \<Rightarrow> 'a timer_scheme \<Rightarrow> 'a timer_scheme" where
  "call_handler h s = (case h of Time_func \<Rightarrow> time_func s)"

definition irq_handler :: "'a timer_scheme \<Rightarrow> 'a timer_scheme option" where
  "irq_handler s =
     (let s = outb 0x20 0x20 s
      in case int_handlers s 32 of None \<Rightarrow> None | Some handler \<Rightarrow> Some (call_handler handler s))"

text \<open>\<^verbatim>\<open>init_timer\<close>: \<open>None\<close> is the division by zero.\<close>

definition init_timer :: "u32 \<Rightarrow> 'a timer_scheme \<Rightarrow> 'a timer_scheme option" where
  "init_timer freq s =
     (let s = register_interrupt_handler 32 Time_func s in
      if freq = 0 then None
      else let d = 1193180 div freq;
               s = outb 0x43 0x36 s;
               s = outb 0x40 (ucast (d AND 0xFF)) s
           in Some (outb 0x40 (ucast (drop_bit 8 d AND 0xFF)) s))"

fun sleep_wait :: "nat \<Rightarrow> 'a timer_scheme \<Rightarrow> (nat \<times> 'a timer_scheme) option" where
  "sleep_wait 0 s = (if sleep_ticks (pcbs s (current s)) > 0 then None else Some (0, s))"
| "sleep_wait (Suc n) s =
     (if sleep_ticks (pcbs s (current s)) > 0
      then Option.bind (irq_handler (kprintf [] [] s)) (sleep_wait n)
      else Some (Suc n, s))"

definition sleepSyscall :: "nat \<Rightarrow> u64 \<Rightarrow> 'a timer_scheme \<Rightarrow> (u64 \<times> nat \<times> 'a timer_scheme) option" where
  "sleepSyscall ticks seconds s =
     map_option (\<lambda>(n, s). (0, n, s)) (sleep_wait ticks (upd_pcb (current s) (\<lambda>p. p\<lparr>sleep_ticks := seconds\<rparr>) s))"

fun wait_change :: "nat \<Rightarrow> int \<Rightarrow> 'a timer_scheme \<Rightarrow> (nat \<times> 'a timer_scheme) option" where
  "wait_change 0 temp s = (if t_sec s = temp then None else Some (0, s))"
| "wait_change (Suc n) temp s =
     (if t_sec s = temp then Option.bind (irq_handler s) (wait_change n temp) else Some (Suc n, s))"

partial_function (option) sleep_loop :: "nat \<Rightarrow> int \<Rightarrow> 'a timer_scheme \<Rightarrow> (nat \<times> 'a timer_scheme) option" where
  "sleep_loop ticks cur_sec s =
     (if word_of_int (t_sec s - cur_sec) < sleep_ticks (pcbs s (current s))
      then Option.bind (wait_change ticks (t_sec s) s) (\<lambda>(n, s). sleep_loop n cur_sec s)
      else Some (ticks, s))"

definition sleep :: "nat \<Rightarrow> u64 \<Rightarrow> 'a timer_scheme \<Rightarrow> (nat \<times> 'a timer_scheme) option" where
  "sleep ticks seconds s =
     (let s = upd_pcb (current s) (\<lambda>p. p\<lparr>sleep_ticks := seconds\<rparr>) s
      in sleep_loop ticks (t_sec s) s)"

section \<open>What printing leaves alone\<close>

text \<open>The cursor stays within the 81 columns and 23 rows that \<^verbatim>\<open>write\<close> and \<^verbatim>\<open>newline\<close> count.\<close>

definition cursor_ok :: "'a console_scheme \<Rightarrow> bool" where
  "cursor_ok s \<longleftrightarrow> 0 \<le> xp s \<and> xp s \<le> 80 \<and> 0 \<le> yp s \<and> yp s \<le> 22"

definition keeps_cursor :: "'a console_scheme \<Rightarrow> 'a console_scheme \<Rightarrow> bool" where
  "keeps_cursor s t \<longleftrightarrow> (cursor_ok s \<longrightarrow> cursor_ok t)"

interpretation con_cursor: console_preorder keeps_cursor
  by unfold_locales
    (auto simp: keeps_cursor_def cursor_ok_def kwrite_def newline_def car_return_def scroll_def Let_def)

lemma two_digits_cursor: "cursor_ok s \<Longrightarrow> cursor_ok (two_digits fmt v s)"
  using con_cursor.R_kprintf unfolding keeps_cursor_def two_digits_def by (simp split: if_split) blast

lemma cursor_ok_upd [simp]:
  "cursor_ok (s\<lparr>t_count := c\<rparr>) = cursor_ok s" "cursor_ok (s\<lparr>t_time := c\<rparr>) = cursor_ok s" "cursor_ok (s\<lparr>t_sec := i\<rparr>) = cursor_ok s"
  "cursor_ok (s\<lparr>t_min := i\<rparr>) = cursor_ok s" "cursor_ok (s\<lparr>t_hour := i\<rparr>) = cursor_ok s" "cursor_ok (s\<lparr>t_temp := c\<rparr>) = cursor_ok s"
  "cursor_ok (upd_pcb p f s) = cursor_ok s" "cursor_ok (s\<lparr>video := c\<rparr>) = cursor_ok s"
  by (simp_all add: cursor_ok_def upd_pcb_def)

lemma timer_more:
  assumes "console.more s = console.more t"
  shows "t_count s = t_count t" "t_time s = t_time t" "t_sec s = t_sec t" "t_min s = t_min t" "t_hour s = t_hour t"
    "t_temp s = t_temp t" "int_handlers s = int_handlers t" "pcbs s = pcbs t" "current s = current t"
  using assms by (cases s; cases t; simp)+

lemma two_digits_more: "console.more (two_digits fmt v s) = console.more s"
  by (simp add: two_digits_def kframe)

lemmas two_digits_frame [kframe] = timer_more [OF two_digits_more]

lemma clock_set_fields:
  shows "t_count (clock_set s) = t_count s" "t_time (clock_set s) = t_time s + 1"
    "t_sec (clock_set s) = uint ((t_time s + 1) mod 60)" "t_min (clock_set s) = uint ((t_time s + 1) div 60 mod 60)"
    "t_hour (clock_set s) = t_hour s smod 60" "int_handlers (clock_set s) = int_handlers s" "current (clock_set s) = current s"
    "pcbs (clock_set s) = pcbs s" "cursor_ok (clock_set s) = cursor_ok s"
  by (simp_all add: clock_set_def Let_def)

lemma clock_tick_split:
  obtains t where "console.more t = console.more (clock_set s)" "cursor_ok s \<Longrightarrow> cursor_ok t"
    "clock_tick s = (if sleep_ticks (pcbs t (current t)) > 0
       then upd_pcb (current t) (\<lambda>p. p\<lparr>sleep_ticks := sleep_ticks p - 1\<rparr>) t else t)"
proof -
  define s1 where "s1 = clock_set s"
  define s2 where "s2 = two_digits ''%d:'' (t_hour s1) s1"
  define s3 where "s3 = two_digits ''%d:'' (t_min s2) s2"
  define s4 where "s4 = two_digits ''%d'' (t_sec s3) s3"
  have m: "console.more s4 = console.more s1" by (simp add: s4_def s3_def s2_def two_digits_more)
  have c: "cursor_ok s \<Longrightarrow> cursor_ok s4" by (simp add: s4_def s3_def s2_def s1_def clock_set_fields two_digits_cursor)
  have e: "clock_tick s = (if sleep_ticks (pcbs s4 (current s4)) > 0
       then upd_pcb (current s4) (\<lambda>p. p\<lparr>sleep_ticks := sleep_ticks p - 1\<rparr>) s4 else s4)"
    by (simp only: clock_tick_def Let_def s4_def s3_def s2_def s1_def)
  show ?thesis by (rule that [OF m [unfolded s1_def] c e])
qed

lemma clock_tick_fields:
  shows "t_count (clock_tick s) = t_count s" "t_time (clock_tick s) = t_time s + 1"
    "t_sec (clock_tick s) = uint ((t_time s + 1) mod 60)" "t_min (clock_tick s) = uint ((t_time s + 1) div 60 mod 60)"
    "t_hour (clock_tick s) = t_hour s smod 60" "int_handlers (clock_tick s) = int_handlers s" "current (clock_tick s) = current s"
    "pcbs (clock_tick s) = (let p = current s; z = sleep_ticks (pcbs s p)
       in if z > 0 then (pcbs s)(p := (pcbs s p)\<lparr>sleep_ticks := z - 1\<rparr>) else pcbs s)"
    "cursor_ok s \<Longrightarrow> cursor_ok (clock_tick s)"
proof -
  obtain t where m: "console.more t = console.more (clock_set s)" and c: "cursor_ok s \<Longrightarrow> cursor_ok t"
    and e: "clock_tick s = (if sleep_ticks (pcbs t (current t)) > 0
       then upd_pcb (current t) (\<lambda>p. p\<lparr>sleep_ticks := sleep_ticks p - 1\<rparr>) t else t)"
    by (rule clock_tick_split [of s]) (rule that)
  note M = timer_more [OF m]
  show "cursor_ok s \<Longrightarrow> cursor_ok (clock_tick s)" using c by (simp add: e)
  show "t_count (clock_tick s) = t_count s" "t_time (clock_tick s) = t_time s + 1"
    "t_sec (clock_tick s) = uint ((t_time s + 1) mod 60)" "t_min (clock_tick s) = uint ((t_time s + 1) div 60 mod 60)"
    "t_hour (clock_tick s) = t_hour s smod 60" "int_handlers (clock_tick s) = int_handlers s" "current (clock_tick s) = current s"
    "pcbs (clock_tick s) = (let p = current s; z = sleep_ticks (pcbs s p)
       in if z > 0 then (pcbs s)(p := (pcbs s p)\<lparr>sleep_ticks := z - 1\<rparr>) else pcbs s)"
    by (simp_all add: e M clock_set_fields upd_pcb_def Let_def)
qed

lemma store_char_same:
  assumes "0 \<le> v" "v < 128" "0 \<le> w" "w < 256"
  shows "store_char w (char_of_int v) = v"
proof -
  have "char_of_int v = v"
    unfolding char_of_int_def using assms(1,2) by (simp add: sint_sbintrunc' signed_take_bit_int_eq_self)
  then show ?thesis using assms by (simp add: store_char_def)
qed

lemma time_func_fields:
  shows "t_count (time_func s) = t_count s + 1"
    "int_handlers (time_func s) = int_handlers s" "current (time_func s) = current s"
    "(t_count s + 1) mod 90 \<noteq> 0 \<Longrightarrow> t_time (time_func s) = t_time s \<and> t_sec (time_func s) = t_sec s \<and>
       t_min (time_func s) = t_min s \<and> t_hour (time_func s) = t_hour s \<and> pcbs (time_func s) = pcbs s"
    "(t_count s + 1) mod 90 = 0 \<Longrightarrow> t_time (time_func s) = t_time s + 1 \<and>
       t_sec (time_func s) = uint ((t_time s + 1) mod 60) \<and> t_min (time_func s) = uint ((t_time s + 1) div 60 mod 60) \<and>
       t_hour (time_func s) = t_hour s smod 60 \<and>
       pcbs (time_func s) = (let p = current s; z = sleep_ticks (pcbs s p)
         in if z > 0 then (pcbs s)(p := (pcbs s p)\<lparr>sleep_ticks := z - 1\<rparr>) else pcbs s)"
    "video (time_func s) = video s"
    "cursor_ok s \<Longrightarrow> xp (time_func s) = xp s \<and> yp (time_func s) = yp s"
proof -
  show "xp (time_func s) = xp s \<and> yp (time_func s) = yp s" if "cursor_ok s"
  proof -
    have "cursor_ok (clock_tick (s\<lparr>t_count := t_count s + 1, video := KVGA\<rparr>))" using that by (simp add: clock_tick_fields(9))
    then show ?thesis using that by (auto simp: time_func_def Let_def cursor_ok_def intro!: store_char_same)
  qed
qed (simp_all add: time_func_def Let_def clock_tick_fields)

section \<open>The clock\<close>

fun irqs :: "nat \<Rightarrow> 'a timer_scheme \<Rightarrow> 'a timer_scheme option" where
  "irqs 0 s = Some s"
| "irqs (Suc n) s = Option.bind (irq_handler s) (irqs n)"

lemma irq_handler_time:
  "int_handlers s 32 = Some Time_func \<Longrightarrow> irq_handler s = Some (time_func (outb 0x20 0x20 s))"
  by (simp add: irq_handler_def outb_def call_handler_def)

lemma outb_sel [simp]:
  "t_count (outb p v s) = t_count s" "t_time (outb p v s) = t_time s" "t_sec (outb p v s) = t_sec s" "t_min (outb p v s) = t_min s"
  "t_hour (outb p v s) = t_hour s" "int_handlers (outb p v s) = int_handlers s" "pcbs (outb p v s) = pcbs s"
  "current (outb p v s) = current s"
  by (simp_all add: outb_def)

text \<open>The clock after \<open>k\<close> interrupts.\<close>

definition clock_at :: "nat \<Rightarrow> 'a timer_scheme \<Rightarrow> bool" where
  "clock_at k s \<longleftrightarrow> int_handlers s 32 = Some Time_func \<and> t_count s = of_nat k \<and> t_time s = of_nat (k div 90) \<and>
     t_sec s = int (k div 90 mod 60) \<and> t_min s = int (k div 90 div 60 mod 60) \<and> t_hour s = 0"

lemma count_mod: "Suc k < 2 ^ 64 \<Longrightarrow> (of_nat k + 1 :: u64) mod 90 = 0 \<longleftrightarrow> Suc k mod 90 = 0"
proof -
  assume k: "Suc k < 2 ^ 64"
  have "(of_nat k + 1 :: u64) = of_nat (Suc k)" by simp
  then have "unat ((of_nat k + 1 :: u64) mod 90) = Suc k mod 90"
    using unat_of_nat_eq [of "Suc k", where 'a = 64] k by (simp only: unat_mod) simp
  then show ?thesis by (metis unat_eq_zero)
qed

lemma div_Suc_90: "Suc k div 90 = (if Suc k mod 90 = 0 then Suc (k div 90) else k div 90)"
  by (rule div_Suc)

lemma uint_time:
  assumes "j < 2 ^ 63"
  shows "uint (of_nat j mod 60 :: u64) = int (j mod 60)" "uint (of_nat j div 60 mod 60 :: u64) = int (j div 60 mod 60)"
  using unat_of_nat_eq [of j, where 'a = 64] assms by (simp_all add: uint_mod uint_div flip: uint_nat) (simp_all add: uint_nat zmod_int zdiv_int)

lemma clock_at_step:
  assumes "clock_at k s" "Suc k < 2 ^ 64"
  shows "\<exists>s'. irq_handler s = Some s' \<and> clock_at (Suc k) s'"
proof -
  let ?s = "outb 0x20 0x20 s"
  note c = assms(1) [unfolded clock_at_def]
  note F = time_func_fields [of ?s]
  have "clock_at (Suc k) (time_func ?s)"
  proof (cases "Suc k mod 90 = 0")
    case True
    then have "(t_count ?s + 1) mod 90 = 0" using c count_mod [OF assms(2)] by simp
    from F(5) [OF this] show ?thesis
      using c F(1-3) True uint_time [of "Suc (k div 90)"] assms(2) by (simp add: clock_at_def div_Suc_90 add.commute)
  next
    case False
    then have "(t_count ?s + 1) mod 90 \<noteq> 0" using c count_mod [OF assms(2)] by simp
    from F(4) [OF this] show ?thesis using c F(1-3) False by (simp add: clock_at_def div_Suc_90)
  qed
  then show ?thesis using irq_handler_time c by blast
qed

lemma irqs_clock:
  assumes "clock_at k s" "k + n < 2 ^ 64"
  shows "\<exists>s'. irqs n s = Some s' \<and> clock_at (k + n) s'"
  using assms
proof (induction n arbitrary: k s)
  case (Suc n)
  obtain s1 where "irq_handler s = Some s1" "clock_at (Suc k) s1" using clock_at_step [OF Suc.prems(1)] Suc.prems(2) by auto
  then show ?case using Suc.IH [of "Suc k" s1] Suc.prems(2) by auto
qed simp

section \<open>Sleeping\<close>

text \<open>The seconds that \<open>n\<close> interrupts bring when the counter stands at \<open>c\<close>.\<close>

definition seconds_in :: "nat \<Rightarrow> nat \<Rightarrow> nat" where
  "seconds_in c n = (c + n) div 90 - c div 90"

lemma seconds_in_Suc: "seconds_in c (Suc n) = seconds_in (Suc c) n + (if Suc c mod 90 = 0 then 1 else 0)"
proof -
  have "Suc c div 90 \<le> (c + Suc n) div 90" by (rule div_le_mono) simp
  then show ?thesis by (simp add: seconds_in_def div_Suc_90)
qed

lemma sleep_wait_iff:
  assumes "int_handlers s 32 = Some Time_func" "unat (t_count s) + n < 2 ^ 64"
  shows "case sleep_wait n s of
      None \<Rightarrow> seconds_in (unat (t_count s)) n < unat (sleep_ticks (pcbs s (current s)))
    | Some (m, s') \<Rightarrow> unat (sleep_ticks (pcbs s (current s))) \<le> seconds_in (unat (t_count s)) n \<and>
        sleep_ticks (pcbs s' (current s')) = 0"
  using assms
proof (induction n arbitrary: s)
  case 0
  then show ?case by (simp add: seconds_in_def word_gt_0 unat_gt_0)
next
  case (Suc n)
  let ?z = "sleep_ticks (pcbs s (current s))"
  show ?case
  proof (cases "?z = 0")
    case True
    then show ?thesis by simp
  next
    case False
    let ?s = "outb 0x20 0x20 s"
    define t where "t = time_func ?s"
    note F = time_func_fields [of ?s, folded t_def]
    have c: "unat (t_count t) = Suc (unat (t_count s))"
      using F(1) Suc.prems(2) by (simp add: unat_word_ariths(1))
    have "(t_count s + 1) mod 90 = 0 \<longleftrightarrow> Suc (unat (t_count s)) mod 90 = 0"
      using count_mod [of "unat (t_count s)"] Suc.prems(2) by simp
    then have z: "unat ?z = unat (sleep_ticks (pcbs t (current t))) + (if Suc (unat (t_count s)) mod 90 = 0 then 1 else 0)"
      using F(3-5) False by (cases "(t_count s + 1) mod 90 = 0") (simp_all add: Let_def word_gt_0 unat_minus_one unat_gt_0 Suc_diff_1)
    have "sleep_wait (Suc n) s = sleep_wait n t"
      using False Suc.prems(1) by (simp add: irq_handler_time word_gt_0 t_def kprintf.simps)
    then show ?thesis
      using Suc.IH [of t] Suc.prems F(2) c z by (simp add: seconds_in_Suc split: option.splits prod.splits del: sleep_wait.simps)
  qed
qed

section \<open>Properties\<close>

definition small_timer :: "unit timer_scheme" where
  "small_timer = proc.extend user_proc (timer.fields (\<lambda>n. if n = 32 then Some Time_func else None) 0 0 0 0 0 0)"

lemma small_timer_sel [simp]:
  "int_handlers small_timer 32 = Some Time_func" "t_count small_timer = 0" "t_time small_timer = 0" "t_sec small_timer = 0"
  "t_min small_timer = 0" "t_hour small_timer = 0" "xp small_timer = xp user_proc" "yp small_timer = yp user_proc"
  by (simp_all add: small_timer_def proc.extend_def timer.fields_def)

text \<open>C23. The clock keeps time: after any number of timer interrupts, ninety of them make a second, \<^verbatim>\<open>sec\<close> and \<^verbatim>\<open>min\<close> are
  the seconds and minutes modulo sixty, and \<^verbatim>\<open>hour\<close> is still zero, since the code never takes the hours out of
  \<^verbatim>\<open>temp\<close>.\<close>

theorem clock_keeps_time:
  assumes "clock_at 0 s" "n < 2 ^ 64"
  shows "\<exists>s'. irqs n s = Some s' \<and> t_time s' = of_nat (n div 90) \<and> t_sec s' = int (n div 90 mod 60) \<and>
    t_min s' = int (n div 90 div 60 mod 60) \<and> t_hour s' = 0"
  using irqs_clock [OF assms(1), of n] assms(2) by (auto simp: clock_at_def)

theorem clock_keeps_time_witness:
  "\<exists>s'. irqs 324000 small_timer = Some s' \<and> t_sec s' = 0 \<and> t_min s' = 0 \<and> t_hour s' = 0"
proof -
  have "clock_at 0 small_timer" by (simp add: clock_at_def)
  from clock_keeps_time [OF this, of 324000] show ?thesis by auto
qed

text \<open>C24. \<^verbatim>\<open>sleepSyscall\<close> returns exactly when enough seconds have passed: with \<open>n\<close> timer interrupts to come, it is still
  waiting if they complete fewer seconds than asked for, and otherwise it has returned 0 with nothing left to
  sleep.\<close>

theorem sleepSyscall_wakes:
  assumes "int_handlers s 32 = Some Time_func" "unat (t_count s) + n < 2 ^ 64"
  shows "(sleepSyscall n seconds s = None) = (seconds_in (unat (t_count s)) n < unat seconds) \<and>
    (case sleepSyscall n seconds s of None \<Rightarrow> True | Some (r, m, s') \<Rightarrow> r = 0 \<and> sleep_ticks (pcbs s' (current s')) = 0)"
  using sleep_wait_iff [of "upd_pcb (current s) (\<lambda>p. p\<lparr>sleep_ticks := seconds\<rparr>) s" n] assms
  by (auto simp: sleepSyscall_def upd_pcb_def split: option.splits)

theorem sleepSyscall_wakes_witness:
  "sleepSyscall 269 3 small_timer = None \<and> sleepSyscall 270 3 small_timer \<noteq> None"
  using sleepSyscall_wakes [of small_timer 269 3] sleepSyscall_wakes [of small_timer 270 3] by (simp add: seconds_in_def)

text \<open>The timer interrupt does not disturb the output of the program it interrupts: from a cursor on the screen it comes
  back to the same write position, although it moves the cursor to print the clock and sees only the lowest byte of
  the cursor variables.\<close>

theorem time_func_restores_cursor:
  assumes "0 \<le> xp s" "xp s \<le> 80" "0 \<le> yp s" "yp s \<le> 22"
  shows "video (time_func s) = video s \<and> xp (time_func s) = xp s \<and> yp (time_func s) = yp s"
  using time_func_fields(6,7) [of s] assms by (simp add: cursor_ok_def)

theorem time_func_restores_cursor_witness:
  "xp (time_func small_timer) = xp small_timer"
  using time_func_restores_cursor [of small_timer] by (simp add: user_proc_def small_proc_def console_init_def)

end
