(* ===== verification/Boot.thy ===== *)
theory Boot
  imports Timer Bytes
begin

text \<open>
  The start of the kernel, \<^verbatim>\<open>sys/main.c\<close>: choosing the memory to manage from the map that the loader passes, building the
  page allocator and the kernel's page tables, and the first process.

  The addresses of symbols, the archive linked into the kernel and the data of the loader are parameters.  The switch of
  the stack in \<^verbatim>\<open>boot\<close> is assembly and leaves no trace in the model; \<^verbatim>\<open>key\<close> only sets the interrupt flag.  \<open>None\<close> is a start
  that does not reach user mode.
\<close>

record bootenv =
  bo_mods :: bmem
  bo_stack :: "nat \<Rightarrow> u32"
  bo_kernmem :: u64
  bo_physbase :: u64
  bo_tar :: bmem
  bo_tar_start :: u64
  bo_tar_end :: u64
  bo_init_func :: u64
  bo_tss :: u64
  bo_idt :: u64
  bo_isr14 :: u64
  bo_timer :: u64
  bo_keyboard :: u64
  bo_syscall :: u64

section \<open>The memory map of the loader\<close>

partial_function (option) find_smap :: "bmem \<Rightarrow> u64 \<Rightarrow> u64 option" where
  "find_smap m modulep =
     (if ldn 4 m modulep \<noteq> 0x9001
      then find_smap m (modulep + 4 * ucast (ucast (ldn 4 m (modulep + 4)) + 2 :: u32)) else Some modulep)"

text \<open>An entry is 20 bytes: base, length and type.  The variables are base, length and end of the region chosen so far.\<close>

partial_function (option) smap_loop :: "bmem \<Rightarrow> u64 \<Rightarrow> u64 \<Rightarrow> u64 \<Rightarrow> u64 \<Rightarrow> u64 \<Rightarrow> (u64 \<times> u64) option" where
  "smap_loop m smap stop base max_length limit =
     (if smap < stop
      then if ldn 4 m (smap + 16) = 1 \<and> ldn 8 m (smap + 8) \<noteq> 0 \<and> ldn 8 m (smap + 8) > max_length
           then smap_loop m (smap + 20) stop (ldn 8 m smap) (ldn 8 m (smap + 8)) (ldn 8 m smap + ldn 8 m (smap + 8))
           else smap_loop m (smap + 20) stop base max_length limit
      else Some (base, limit))"

definition usable_memory :: "bmem \<Rightarrow> u64 \<Rightarrow> (u64 \<times> u64) option" where
  "usable_memory m modulep = do {
     modulep \<leftarrow> find_smap m modulep;
     smap_loop m (modulep + 8) (modulep + ldn 4 m (modulep + 4) + 2 * 4) 0 0 0
   }"

section \<open>The start\<close>

definition start_memory :: "u64 \<Rightarrow> u64 \<Rightarrow> u64 \<Rightarrow> u64 \<Rightarrow> u64 \<Rightarrow> 'a vm_scheme \<Rightarrow> 'a vm_scheme option" where
  "start_memory kernmem physbase physfree base limit s = do {
     (new_physfree, s) \<leftarrow> init_pageTable physbase physfree base limit s;
     let s = kprintf (''physfree %p'' @ [CHR 0x0A]) [KInt new_physfree] s;
     s \<leftarrow> kernmemMap kernmem physbase new_physfree s;
     phy2vir limit s
   }"

definition greet :: "u64 \<Rightarrow> u64 \<Rightarrow> u64 \<Rightarrow> 'a console_scheme \<Rightarrow> 'a console_scheme" where
  "greet physbase tar_start tar_end s =
     (let s = kprintf (''physbase %p'' @ [CHR 0x0A]) [KInt physbase] s;
          s = kprintf (''tarfs in [%p:%p]'' @ [CHR 0x0A]) [KInt tar_start, KInt tar_end] s;
          s = clearScreen s;
          s = printCursor s;
          s = s\<lparr>yp := 0\<rparr>;
          s = s\<lparr>video := KVGA\<rparr>;
          s = kprintf (replicate 13 CHR 0x20 @ replicate 11 CHR ''-'' @ ''Welcome to SBUnix'' @ replicate 12 CHR ''-'') [] s;
          s = s\<lparr>video := KVGA + 160\<rparr>;
          s = s\<lparr>yp := 1\<rparr>
      in s\<lparr>xp := 0\<rparr>)"

definition start :: "bootenv \<Rightarrow> u64 \<Rightarrow> u64 \<Rightarrow> u64 \<Rightarrow> 'a timer_scheme \<Rightarrow> 'a timer_scheme option" where
  "start e modulep physbase physfree s = do {
     (base, limit) \<leftarrow> usable_memory (bo_mods e) modulep;
     s \<leftarrow> start_memory (bo_kernmem e) physbase physfree base limit s;
     let s = mapProcessID s;
     let s = kernProcess (bo_init_func e) s;
     s \<leftarrow> init_tarfs (bo_tar e) (bo_tar_start e) s;
     let s = greet physbase (bo_tar_start e) (bo_tar_end e) s;
     (init, s) \<leftarrow> userInitProcess (bo_tar e) (bo_tar_start e) (bo_init_func e) (str ''bin/sbush'') s;
     s \<leftarrow> init_timer 1 s;
     Some (switchToRing3 init s)
   }"

definition boot :: "bootenv \<Rightarrow> 'a timer_scheme \<Rightarrow> 'a timer_scheme option" where
  "boot e s =
     (let s = s\<lparr>vram := fold (\<lambda>i m. m(0xb8001 + 2 * of_nat i := 7)) [0..<2000] (vram s)\<rparr>;
          s = init_gdt (bo_tss e) s;
          s = isr_install (bo_idt e) (bo_isr14 e) (bo_timer e) (bo_keyboard e) (bo_syscall e) s
      in start e (ucast (bo_stack e 3) + bo_kernmem e - bo_physbase e) (bo_physbase e) (ucast (bo_stack e 4)) s)"

section \<open>The region chosen\<close>

text \<open>The entries as a list, and the reference choice: the first of the longest regions of type 1.\<close>

type_synonym region = "u64 \<times> u64 \<times> u64"

definition region_at :: "bmem \<Rightarrow> u64 \<Rightarrow> region" where
  "region_at m a = (ldn 8 m a, ldn 8 m (a + 8), ldn 4 m (a + 16))"

definition usable :: "region \<Rightarrow> bool" where
  "usable r \<longleftrightarrow> (case r of (b, l, t) \<Rightarrow> t = 1 \<and> l \<noteq> 0)"

definition longest :: "region list \<Rightarrow> region option" where
  "longest rs = (let us = filter usable rs in find (\<lambda>r. \<forall>q \<in> set us. fst (snd q) \<le> fst (snd r)) us)"

fun pick :: "region list \<Rightarrow> u64 \<times> u64 \<times> u64 \<Rightarrow> u64 \<times> u64 \<times> u64" where
  "pick [] c = c"
| "pick ((b, l, t) # rs) (base, max_length, limit) =
     pick rs (if t = 1 \<and> l \<noteq> 0 \<and> l > max_length then (b, l, b + l) else (base, max_length, limit))"

lemma smap_loop_choose:
  assumes "unat a + 20 * n < 2 ^ 64"
  shows "smap_loop m a (a + of_nat (20 * n)) base max_length limit =
    (case pick (map (\<lambda>i. region_at m (a + of_nat (20 * i))) [0..<n]) (base, max_length, limit) of (b, l, e) \<Rightarrow> Some (b, e))"
  using assms
proof (induction n arbitrary: a base max_length limit)
  case 0
  show ?case by (subst smap_loop.simps) simp
next
  case (Suc n)
  have u: "unat (of_nat (20 * Suc n) :: u64) = 20 * Suc n" using Suc.prems by (intro unat_of_nat_eq) simp
  have lt: "a < a + of_nat (20 * Suc n)"
    using Suc.prems u unat_add_lem [of a "of_nat (20 * Suc n)"] unfolding word_less_nat_alt by simp
  have u20: "unat (a + 20) = unat a + 20"
    using Suc.prems unat_add_lem [of a 20] by simp
  have e: "a + of_nat (20 * Suc n) = (a + 20) + of_nat (20 * n)" by simp
  have l: "map (\<lambda>i. region_at m (a + of_nat (20 * i))) [0..<Suc n] =
      region_at m a # map (\<lambda>i. region_at m (a + 20 + of_nat (20 * i))) [0..<n]"
    by (simp add: map_upt_Suc algebra_simps del: upt_Suc)
  have IH: "smap_loop m (a + 20) (a + 20 + of_nat (20 * n)) b l k =
      (case pick (map (\<lambda>i. region_at m (a + 20 + of_nat (20 * i))) [0..<n]) (b, l, k) of (b, l, e) \<Rightarrow> Some (b, e))" for b l k
    using Suc.prems u20 by (intro Suc.IH) simp
  let ?c = "ldn 4 m (a + 16) = 1 \<and> ldn 8 m (a + 8) \<noteq> 0 \<and> ldn 8 m (a + 8) > max_length"
  have step: "smap_loop m a (a + of_nat (20 * Suc n)) base max_length limit =
      (if ?c then smap_loop m (a + 20) (a + of_nat (20 * Suc n)) (ldn 8 m a) (ldn 8 m (a + 8)) (ldn 8 m a + ldn 8 m (a + 8))
       else smap_loop m (a + 20) (a + of_nat (20 * Suc n)) base max_length limit)"
    using lt by (subst smap_loop.simps) (simp only: if_True)
  have "pick (region_at m a # rs) (base, max_length, limit) =
      pick rs (if ?c then (ldn 8 m a, ldn 8 m (a + 8), ldn 8 m a + ldn 8 m (a + 8)) else (base, max_length, limit))" for rs
    by (simp add: region_at_def)
  then show ?case unfolding e l step [unfolded e IH] by (cases ?c) (simp_all only: if_True if_False simp_thms)
qed

abbreviation len :: "region \<Rightarrow> u64" where "len r \<equiv> fst (snd r)"

lemma longest_Cons:
  assumes "usable r"
  shows "longest (r # rs) = (if \<forall>q \<in> set (filter usable rs). len q \<le> len r then Some r else longest rs)"
proof -
  let ?us = "filter usable rs"
  have "find (\<lambda>x. len r \<le> len x \<and> (\<forall>q \<in> set ?us. len q \<le> len x)) ?us = find (\<lambda>x. \<forall>q \<in> set ?us. len q \<le> len x) ?us"
    if "\<not> (\<forall>q \<in> set ?us. len q \<le> len r)"
  proof (rule find_cong [OF refl])
    fix x
    from that obtain q where q: "q \<in> set ?us" "\<not> len q \<le> len r" by blast
    then show "(len r \<le> len x \<and> (\<forall>q \<in> set ?us. len q \<le> len x)) = (\<forall>q \<in> set ?us. len q \<le> len x)"
      by (meson linear order_trans)
  qed
  moreover have "longest (r # rs) = (if \<forall>q \<in> set (r # ?us). len q \<le> len r then Some r
      else find (\<lambda>x. \<forall>q \<in> set (r # ?us). len q \<le> len x) ?us)"
    using assms by (simp only: longest_def Let_def filter.simps if_True find.simps)
  moreover have "(\<forall>q \<in> set (r # ?us). len q \<le> len x) \<longleftrightarrow> len r \<le> len x \<and> (\<forall>q \<in> set ?us. len q \<le> len x)" for x
    by (simp only: list.set ball_simps insert_iff)
  ultimately show ?thesis unfolding longest_def [of rs] Let_def by (simp only: order_refl simp_thms split: if_split) blast
qed

lemma pick_longest:
  "pick rs (b0, m0, e0) =
     (case longest rs of Some (b, l, t) \<Rightarrow> if l > m0 then (b, l, b + l) else (b0, m0, e0) | None \<Rightarrow> (b0, m0, e0))"
proof (induction rs arbitrary: b0 m0 e0)
  case Nil
  show ?case by (simp add: longest_def)
next
  case (Cons r rs)
  obtain b l t where r: "r = (b, l, t)" by (cases r)
  show ?case
  proof (cases "usable r")
    case False
    then have "longest (r # rs) = longest rs" by (simp add: longest_def)
    moreover have "\<not> (t = 1 \<and> l \<noteq> 0 \<and> l > m0)" using False r by (simp add: usable_def)
    then have "pick (r # rs) (b0, m0, e0) = pick rs (b0, m0, e0)" unfolding r pick.simps by (simp only: if_False)
    ultimately show ?thesis by (simp add: Cons.IH)
  next
    case True
    note L = longest_Cons [OF True, of rs]
    have in_us: "q \<in> set (filter usable rs)" if "longest rs = Some q" for q
      using that unfolding longest_def Let_def find_Some_iff by (metis nth_mem)
    have top: "len q \<le> len x" if "longest rs = Some x" "q \<in> set (filter usable rs)" for q x
      using that unfolding longest_def Let_def find_Some_iff by blast
    have p: "pick (r # rs) (b0, m0, e0) = pick rs (if l > m0 then (b, l, b + l) else (b0, m0, e0))"
      using True r by (simp add: usable_def)
    show ?thesis
    proof (cases "\<forall>q \<in> set (filter usable rs). len q \<le> len r")
      case all: True
      have "\<not> l' > l" if "longest rs = Some (b', l', t')" for b' l' t'
        using all in_us [OF that] r by (auto simp: not_less)
      then show ?thesis using L all r p Cons.IH by (auto split: option.splits)
    next
      case False
      then obtain q where q: "q \<in> set (filter usable rs)" "l < len q" using r by (auto simp: not_le)
      have "l < l'" if "longest rs = Some (b', l', t')" for b' l' t'
        using top [OF that q(1)] q(2) by simp
      moreover have "longest rs \<noteq> None"
      proof -
        let ?S = "len ` set (filter usable rs)"
        have fin: "finite ?S" by (rule finite_imageI [OF finite_set])
        have "?S \<noteq> {}" using q(1) by (metis empty_iff image_is_empty)
        then have "Max ?S \<in> ?S" by (rule Max_in [OF fin])
        then obtain x where x: "x \<in> set (filter usable rs)" "Max ?S = len x" by (rule imageE)
        then have "\<forall>q \<in> set (filter usable rs). len q \<le> len x" using Max_ge [OF fin] by (metis image_eqI)
        with x(1) have "\<exists>x \<in> set (filter usable rs). \<forall>q \<in> set (filter usable rs). len q \<le> len x" ..
        then show ?thesis unfolding longest_def Let_def find_None_iff by blast
      qed
      ultimately obtain b' l' t' where x: "longest rs = Some (b', l', t')" "l < l'" by (cases "longest rs") auto
      have "longest (r # rs) = Some (b', l', t')" using L False x(1) by (simp only: if_False)
      moreover have "l > m0 \<Longrightarrow> l' > m0" using x(2) by (rule order.strict_trans [rotated])
      ultimately show ?thesis using p x Cons.IH by simp
    qed
  qed
qed

text \<open>The records before the memory map are skipped.\<close>

definition skip :: "bmem \<Rightarrow> u64 \<Rightarrow> u64" where
  "skip m a = a + 4 * ucast (ucast (ldn 4 m (a + 4)) + 2 :: u32)"

lemma find_smap_skip:
  assumes "\<And>i. i < n \<Longrightarrow> ldn 4 m ((skip m ^^ i) a) \<noteq> 0x9001" "ldn 4 m ((skip m ^^ n) a) = 0x9001"
  shows "find_smap m a = Some ((skip m ^^ n) a)"
  using assms
proof (induction n arbitrary: a)
  case 0
  then show ?case by (subst find_smap.simps) simp
next
  case (Suc n)
  have "find_smap m a = find_smap m (skip m a)"
    using Suc.prems(1) [of 0] by (subst find_smap.simps) (simp add: skip_def)
  also have "\<dots> = Some ((skip m ^^ n) (skip m a))"
    using Suc.prems(1) [of "Suc _"] Suc.prems(2) by (intro Suc.IH) (simp_all add: funpow_swap1)
  finally show ?case by (simp add: funpow_swap1)
qed

definition regions :: "bmem \<Rightarrow> u64 \<Rightarrow> nat \<Rightarrow> region list" where
  "regions m p k = map (\<lambda>i. region_at m (p + 8 + of_nat (20 * i))) [0..<k]"

text \<open>C30. From the records of the loader the kernel takes the first of the longest regions of usable memory: base and end of it,
  or two zeros when there is none.\<close>

theorem usable_memory_longest:
  assumes "\<And>i. i < n \<Longrightarrow> ldn 4 m ((skip m ^^ i) a) \<noteq> 0x9001" "ldn 4 m ((skip m ^^ n) a) = 0x9001"
    and "ldn 4 m ((skip m ^^ n) a + 4) = of_nat (20 * k)" "unat ((skip m ^^ n) a + 8) + 20 * k < 2 ^ 64"
  shows "usable_memory m a = Some (case longest (regions m ((skip m ^^ n) a) k) of Some (b, l, t) \<Rightarrow> (b, b + l) | None \<Rightarrow> (0, 0))"
proof -
  let ?p = "(skip m ^^ n) a"
  have f: "find_smap m a = Some ?p" by (rule find_smap_skip [OF assms(1,2)])
  have e: "?p + of_nat (20 * k) + 2 * 4 = ?p + 8 + of_nat (20 * k)" by simp
  have pos: "l \<noteq> 0" if "longest rs = Some (b, l, t)" for rs b l t
  proof -
    have "(b, l, t) \<in> set (filter usable rs)"
      using that unfolding longest_def Let_def find_Some_iff by (metis nth_mem)
    then show ?thesis by (simp add: usable_def)
  qed
  have "usable_memory m a = (case pick (regions m ?p k) (0, 0, 0) of (b, l, e) \<Rightarrow> Some (b, e))"
    unfolding usable_memory_def f Option.bind.bind_lunit assms(3) e smap_loop_choose [OF assms(4)] regions_def ..
  also have "\<dots> = Some (case longest (regions m ?p k) of Some (b, l, t) \<Rightarrow> (b, b + l) | None \<Rightarrow> (0, 0))"
    unfolding pick_longest using pos by (auto split: option.splits simp: word_gt_0)
  finally show ?thesis .
qed

text \<open>A record of another type, then a map of two regions.\<close>

definition two_regions :: bmem where
  "two_regions a = (if unat a < 60 then
     ([0x02, 0x10, 0, 0, 1, 0, 0, 0, 0, 0, 0, 0, 0x01, 0x90, 0, 0, 0x28, 0, 0, 0,
       0, 0, 0, 0, 0, 0, 0, 0, 0, 0xfc, 0x09, 0, 0, 0, 0, 0, 1, 0, 0, 0,
       0, 0, 0x10, 0, 0, 0, 0, 0, 0, 0xe0, 0xef, 0x07, 0, 0, 0, 0, 1, 0, 0, 0] :: u8 list) ! unat a else 0)"

theorem usable_memory_longest_witness: "usable_memory two_regions 0 = Some (0x100000, 0x7ffe000)"
proof -
  have l4: "ldn 4 m a = ldn (Suc (Suc (Suc (Suc 0)))) m a" for m a by (simp only: numeral_nat BitM.simps)
  have l8: "ldn 8 m a = ldn (Suc (Suc (Suc (Suc (Suc (Suc (Suc (Suc 0)))))))) m a" for m a by (simp only: numeral_nat BitM.simps)
  have s: "skip two_regions 0 = 12" by (simp add: skip_def two_regions_def l4 l8)
  have r: "regions two_regions 12 2 = [(0, 0x9fc00, 1), (0x100000, 0x7efe000, 1)]"
    by (simp add: regions_def region_at_def two_regions_def l4 l8 upt_rec)
  show ?thesis
    using usable_memory_longest [of 1 two_regions 0 2]
    by (simp add: s r longest_def usable_def) (simp add: two_regions_def l4 l8)
qed

section \<open>The kernel window at boot\<close>

lemma kernmem_loop_inv:
  assumes "vm_inv r s" "walk (frames s) r zs = Some t" "idx zs" "length zs = 3" "pf < 2 ^ 48"
  shows "\<exists>s'. kernmem_loop t va pb pf s = Some s' \<and> vm_inv r s' \<and> free_pages s' = free_pages s \<and> vm_frame s s' \<and>
    (\<forall>ys. idx ys \<longrightarrow> walk (frames s') r ys = walk (frames s) r ys)"
  using assms(1,2)
proof (induction "unat pf div 4096 + 1 - unat pb div 4096" arbitrary: va pb s rule: less_induct)
  case less
  show ?case
  proof (cases "pb < pf")
    case False
    then show ?thesis using less.prems by (subst kernmem_loop.simps) auto
  next
    case True
    note I = vm_invD [OF less.prems(1)]
    have t31: "unat t < 2 ^ 31" by (rule used_addr(1) [OF pt_treeD(1) [OF I(3) assms(3) less.prems(2)] I(2)])
    let ?e = "pb OR (P_BIT OR W_BIT)" and ?i = "getIndex va 12"
    let ?s = "set_entry t ?i ?e s"
    have s: "?s = s\<lparr>frames := (frames s)(t := (frames s t)(?i := ?e))\<rparr>"
      by (simp only: set_entry_def phys_or(3) [OF t31])
    note T = pt_tree_set_entry [OF I(3) assms(3,4) less.prems(2), where i = ?i and e = ?e]
    have us: "used ?s = used s" "free_pages ?s = free_pages s" unfolding s by (simp_all add: used_def free_pages_def)
    have inv: "vm_inv r ?s" using T(1) I us unfolding vm_inv_def s by (simp add: pa_inv_def)
    have w: "walk (frames ?s) r zs = Some t" using T(2) [OF assms(3)] less.prems(2) unfolding s by simp
    have ub: "unat pb < unat pf" "unat pf < 2 ^ 48" using True assms(5) by (simp_all add: word_less_nat_alt)
    then have "unat (pb + 0x1000) = unat pb + 0x1000" using unat_add_lem [of pb "0x1000"] by simp
    then have "unat pf div 4096 + 1 - unat (pb + 0x1000) div 4096 < unat pf div 4096 + 1 - unat pb div 4096"
      using ub(1) div_le_mono [of "unat pb" "unat pf" 4096] by simp
    then obtain s' where s': "kernmem_loop t (va + 0x1000) (pb + 0x1000) pf ?s = Some s'" "vm_inv r s'" "free_pages s' = free_pages ?s"
      "vm_frame ?s s'" "\<forall>ys. idx ys \<longrightarrow> walk (frames s') r ys = walk (frames ?s) r ys"
      using less.hyps [of "pb + 0x1000" ?s "va + 0x1000"] inv w by blast
    have "kernmem_loop t va pb pf s = Some s'" using True s'(1) by (subst kernmem_loop.simps) (simp only: if_True)
    moreover have "vm_frame s s'" using set_entry_frame s'(4) by (rule vm_frame_trans)
    moreover have "walk (frames s') r ys = walk (frames s) r ys" if "idx ys" for ys using s'(5) T(2) [OF that] that unfolding s by simp
    ultimately show ?thesis using s'(2,3) us(2) by simp
  qed
qed

lemma walk_zero:
  assumes "fr r = (\<lambda>_. 0)"
  shows "walk fr r ys = (if ys = [] then Some r else None)"
proof (induction ys rule: rev_induct)
  case (snoc j ys)
  then show ?case using assms by (simp add: walk_snoc)
qed simp

lemma alloc_step:
  assumes "vm_inv r s" "idx zs" "zs = xs @ [i]" "walk (frames s) r xs = Some t" "walk (frames s) r zs = None" "free_pages s \<noteq> {}"
  obtains b s' where "pdpeAlloc t i CHR ''P'' s = (b, s')" "adds_table r zs s s'" "walk (frames s') r zs = Some b"
proof -
  note I = vm_invD [OF assms(1)]
  have ix: "idx xs" using assms(2,3) idx_snoc by blast
  have "unat t < 2 ^ 31" by (rule used_addr(1) [OF pt_treeD(1) [OF I(3) ix assms(4)] I(2)])
  then have "entries s t i = frames s t i" by (simp add: entries_def phys_or(3))
  moreover have "\<not> present (frames s t i)" using assms(3,4,5) by (auto simp: walk_snoc split: if_splits)
  ultimately have "table_step CHR ''P'' (\<lambda>a. a) t i s = pdpeAlloc t i CHR ''P'' s" by (simp add: table_step_def)
  then show thesis
    using table_step_adds [OF variants(1) assms(1,2,3,4)] assms(6) that by metis
qed

lemma kernmemMap_inv:
  assumes "pa_inv s" "lastPage s \<le> 2 ^ 19" "4 \<le> card (free_pages s)" "pf < 2 ^ 48"
  obtains s' where "kernmemMap km pb pf s = Some s'" "vm_inv (pml4e s') s'" "cr3 s' = pml4e s'"
    "card (free_pages s') + 4 = card (free_pages s)" "lastPage s' = lastPage s"
proof -
  let ?i4 = "getIndex km 39" and ?i3 = "getIndex km 30" and ?i2 = "getIndex km 21"
  have ix: "idx [?i4]" "idx [?i4, ?i3]" "idx [?i4, ?i3, ?i2]" by (simp_all add: idx_def getIndex_less)
  have ne: "free_pages s \<noteq> {}" using assms(3) by auto
  obtain r s1 where al: "allocatePage s = (r, s1)" by (cases "allocatePage s")
  note A = allocatePage_used [OF assms(1,2) ne al]
  have "unat r < 2 ^ 31" using used_addr(1) [of r s1] A(3,7) assms(2) by simp
  then have ph: "phys r = r" by (rule phys_or(3))
  define s2 where "s2 = (zero_page r (s1\<lparr>pml4e := r\<rparr>))\<lparr>cr3 := r\<rparr>"
  have f2: "frames s2 = (frames s1)(r := (\<lambda>_. 0))" "pml4e s2 = r" "cr3 s2 = r" "lastPage s2 = lastPage s"
    "used s2 = used s1" "free_pages s2 = free_pages s1" "pa_inv s2 = pa_inv s1"
    using A(7) by (simp_all add: s2_def zero_page_def ph used_def free_pages_def pa_inv_def)
  have W: "walk (frames s2) r ys = (if ys = [] then Some r else None)" for ys by (rule walk_zero) (simp add: f2(1))
  have "pt_tree (frames s2) r (used s2)" using A(3) f2(5) by (auto simp: pt_tree_def W split: if_splits)
  then have inv2: "vm_inv r s2" using A(1) assms(2) f2(4,7) by (simp add: vm_inv_def)
  have c2: "card (free_pages s2) + 1 = card (free_pages s)" using A(4) f2(6) by simp
  have q: "[?i4] = [] @ [?i4]" "[?i4, ?i3] = [?i4] @ [?i3]" "[?i4, ?i3, ?i2] = [?i4, ?i3] @ [?i2]" by simp_all
  have w2: "walk (frames s2) r [] = Some r" "walk (frames s2) r [?i4] = None" unfolding W by simp_all
  have n2: "free_pages s2 \<noteq> {}" using c2 assms(3) by auto
  obtain t3 s3 where 3: "pdpeAlloc r ?i4 CHR ''P'' s2 = (t3, s3)" "adds_table r [?i4] s2 s3" "walk (frames s3) r [?i4] = Some t3"
    by (rule alloc_step [OF inv2 ix(1) q(1) w2 n2]) (rule that)
  note A3 = adds_tableD [OF 3(2)]
  have c3: "card (free_pages s3) + 2 = card (free_pages s)" using A3(4) c2 w2(2) by (simp del: walk.simps)
  have n3: "free_pages s3 \<noteq> {}" using c3 assms(3) by auto
  have w3: "walk (frames s3) r [?i4, ?i3] = None" "walk (frames s3) r [?i4, ?i3, ?i2] = None"
    using A3(3) [OF ix(2)] A3(3) [OF ix(3)] W by (simp_all del: walk.simps)
  obtain t2 s4 where 4: "pdpeAlloc t3 ?i3 CHR ''P'' s3 = (t2, s4)" "adds_table r [?i4, ?i3] s3 s4" "walk (frames s4) r [?i4, ?i3] = Some t2"
    by (rule alloc_step [OF A3(1) ix(2) q(2) 3(3) w3(1) n3]) (rule that)
  note A4 = adds_tableD [OF 4(2)]
  have c4: "card (free_pages s4) + 3 = card (free_pages s)" using A4(4) c3 w3(1) by (simp del: walk.simps)
  have n4: "free_pages s4 \<noteq> {}" using c4 assms(3) by auto
  have w4: "walk (frames s4) r [?i4, ?i3, ?i2] = None" using A4(3) [OF ix(3)] w3(2) by (simp del: walk.simps)
  obtain t1 s5 where 5: "pdpeAlloc t2 ?i2 CHR ''P'' s4 = (t1, s5)" "adds_table r [?i4, ?i3, ?i2] s4 s5" "walk (frames s5) r [?i4, ?i3, ?i2] = Some t1"
    by (rule alloc_step [OF A4(1) ix(3) q(3) 4(3) w4 n4]) (rule that)
  note A5 = adds_tableD [OF 5(2)]
  obtain s6 where 6: "kernmem_loop t1 km pb pf s5 = Some s6" "vm_inv r s6" "free_pages s6 = free_pages s5" "vm_frame s5 s6"
    using kernmem_loop_inv [OF A5(1) 5(3) ix(3) _ assms(4), of km pb] by auto
  have fr: "vm_frame s2 s6"
    using vm_keepsD(1) [OF A3(5)] vm_keepsD(1) [OF A4(5)] vm_keepsD(1) [OF A5(5)] 6(4) by (blast intro: vm_frame_trans)
  have "pml4e (zero_page r (s1\<lparr>pml4e := r\<rparr>)) = r" by (simp add: zero_page_def)
  then have "kernmemMap km pb pf s = kernmem_loop t1 km pb pf s5"
    using 3(1) 4(1) 5(1) unfolding kernmemMap_def al Let_def prod.case pdeAlloc_pdpeAlloc s2_def by simp
  then have run: "kernmemMap km pb pf s = Some s6" using 6(1) by simp
  show thesis
  proof (rule that [OF run])
    show "vm_inv (pml4e s6) s6" "cr3 s6 = pml4e s6" "lastPage s6 = lastPage s"
      using vm_frameD(2,3,4) [OF fr] f2(2,3,4) 6(2) by simp_all
    show "card (free_pages s6) + 4 = card (free_pages s)" using A5(4) c4 w4 6(3) by (simp del: walk.simps)
  qed
qed

text \<open>The window needs at most 1027 tables.\<close>

definition window_tables :: "u64 list list" where
  "window_tables = [[511], [511, 510], [511, 511]] @ map (\<lambda>i. [511, 510, of_nat i]) [0..<512] @ map (\<lambda>i. [511, 511, of_nat i]) [0..<512]"

lemma window_index:
  assumes "unat a < 2 ^ 31"
  shows "getIndex (a OR KERNBASE) 39 = 511" "getIndex (a OR KERNBASE) 30 \<in> {510, 511}"
proof -
  note B = bit_window [OF assms]
  have m: "(511 :: u64) = mask 9" "(510 :: u64) = mask 9 AND NOT 1" by (simp_all add: mask_eq_exp_minus_1)
  show "getIndex (a OR KERNBASE) 39 = 511"
    unfolding m(1) by (rule bit_eqI) (auto simp: bit_getIndex B bit_mask_iff)
  show "getIndex (a OR KERNBASE) 30 \<in> {510, 511}"
  proof (cases "bit a 30")
    case True
    have "getIndex (a OR KERNBASE) 30 = 511"
      unfolding m(1) by (rule bit_eqI) (use True in \<open>auto simp: bit_getIndex B bit_mask_iff elim: le_neq_implies_less [THEN Suc_leI]\<close>, metis Nat.add_0_right not_gr_zero Suc_leI add_Suc_right)
    then show ?thesis by simp
  next
    case False
    have "getIndex (a OR KERNBASE) 30 = 510"
      unfolding m(2)
    proof (rule bit_eqI)
      fix n
      have "\<not> bit a (30 + n)" using False low_bits [OF assms, of "30 + n"] by (cases n) auto
      then show "bit (getIndex (a OR KERNBASE) 30) n = bit (mask 9 AND NOT 1 :: u64) n"
        by (cases n) (auto simp: bit_getIndex B bit_mask_iff bit_and_iff bit_not_iff bit_1_iff)
    qed
    then show ?thesis by simp
  qed
qed

lemma window_paths:
  assumes "unat a < 2 ^ 31"
  shows "set (paths (a OR KERNBASE)) \<subseteq> set window_tables"
proof -
  have "\<exists>i < 512. getIndex (a OR KERNBASE) 21 = of_nat i"
    using getIndex_less [of "a OR KERNBASE" 21] by (intro exI [of _ "unat (getIndex (a OR KERNBASE) 21)"]) (simp add: word_less_nat_alt)
  then show ?thesis
    using window_index [OF assms] by (auto simp: paths_def vidx_def window_tables_def image_iff)
qed

lemma window_addresses:
  assumes "unat limit < 2 ^ 31"
  shows "fst ` set (window_maps limit) \<subseteq> {a OR KERNBASE | a. unat a < 2 ^ 31}"
proof -
  have "unat limit div 4096 < 2 ^ 19" using assms by (simp add: div_less_iff_less_mult)
  then have k: "k < 2 ^ 19" if "k \<le> unat limit div 4096" for k using that by simp
  have "\<exists>a. KERNBASE + page_at k = a OR KERNBASE \<and> unat a < 2 ^ 31" if "k \<le> unat limit div 4096" for k
    using window_page(2,3) [OF k [OF that]] by blast
  moreover have "0xffffffff800b8000 = (0xb8000 :: u64) OR KERNBASE" "unat (0xb8000 :: u64) < 2 ^ 31" by simp_all
  then have "\<exists>a. 0xffffffff800b8000 = a OR KERNBASE \<and> unat a < 2 ^ 31" by blast
  ultimately show ?thesis by (auto simp: window_maps_def window_pages_def less_Suc_eq_le simp del: of_nat_mult)
qed

lemma window_missing:
  assumes "unat limit < 2 ^ 31"
  shows "card (missing fr r (fst ` set (window_maps limit))) \<le> 1027"
proof -
  have "missing fr r (fst ` set (window_maps limit)) \<subseteq> set window_tables"
  proof
    fix xs assume "xs \<in> missing fr r (fst ` set (window_maps limit))"
    then obtain v where v: "v \<in> fst ` set (window_maps limit)" "xs \<in> set (paths v)" unfolding missing_def by blast
    from subsetD [OF window_addresses [OF assms] v(1)] obtain a where "v = a OR KERNBASE" "unat a < 2 ^ 31" by blast
    then show "xs \<in> set window_tables" using subsetD [OF window_paths] v(2) by simp
  qed
  then have "card (missing fr r (fst ` set (window_maps limit))) \<le> card (set window_tables)" by (intro card_mono) simp_all
  also have "\<dots> \<le> length window_tables" by (rule card_length)
  also have "\<dots> = 1027" unfolding window_tables_def length_append length_map length_upt by simp
  finally show ?thesis .
qed

lemma map_pages_frame: "vm_frame s (map_pages map_v_p vps s)"
proof (induction vps arbitrary: s)
  case (Cons vp vps)
  obtain v p where "vp = (v, p)" by force
  then have "map_pages map_v_p (vp # vps) s = map_pages map_v_p vps (map_v_p v p s)" by (simp add: map_pages_def)
  then show ?case using vm_frame_trans [OF map_frames(1) Cons.IH] by simp
qed (simp add: map_pages_def)

lemma card_pages:
  assumes "a \<le> (b :: u64)"
  shows "card {i. a \<le> i \<and> i < b} = unat b - unat a"
proof -
  have "{i. a \<le> i \<and> i < b} = of_nat ` {unat a..<unat b}"
  proof (intro equalityI subsetI)
    fix i assume "i \<in> {i. a \<le> i \<and> i < b}"
    then have "unat i \<in> {unat a..<unat b}" by (simp add: word_le_nat_alt word_less_nat_alt)
    then show "i \<in> of_nat ` {unat a..<unat b}" by (rule image_eqI [rotated]) simp
  next
    fix i assume "i \<in> (of_nat ` {unat a..<unat b} :: u64 set)"
    then obtain k where k: "i = of_nat k" "unat a \<le> k" "k < unat b" by auto
    then have "unat i = k" using unat_lt2p [of b] by (simp add: unat_of_nat_eq)
    then show "i \<in> {i. a \<le> i \<and> i < b}" using k by (simp add: word_le_nat_alt word_less_nat_alt)
  qed
  moreover have "inj_on (of_nat :: nat \<Rightarrow> u64) {unat a..<unat b}"
  proof (rule inj_onI)
    fix j k assume jk: "j \<in> {unat a..<unat b}" "k \<in> {unat a..<unat b}" "of_nat j = (of_nat k :: u64)"
    have "unat (of_nat i :: u64) = i" if "i \<in> {unat a..<unat b}" for i
      using that unat_lt2p [of b] by (intro unat_of_nat_eq) simp
    then show "j = k" using jk by metis
  qed
  ultimately show ?thesis by (simp add: card_image)
qed

lemma init_pageTable_room:
  assumes "physbase \<le> physfree" "physfree mod 8 = 0" "physbase \<le> limit" "limit < 2 ^ 31"
    "unat physfree + 8 * (unat limit div 4096) + 1032 * 4096 \<le> unat limit"
  obtains pf s1 where "init_pageTable physbase physfree base limit s = Some (pf, s1)" "pa_inv s1" "lastPage s1 \<le> 2 ^ 19"
    "1031 \<le> card (free_pages s1)" "pf < 2 ^ 48"
proof -
  have lim: "unat limit < 2 ^ 31" using assms(4) by (simp add: word_less_nat_alt)
  have b: "physfree < 2 ^ 48" "limit < 2 ^ 48" using lim assms(5) by (simp_all add: word_less_nat_alt)
  let ?n = "limit div PAGE_SIZE"
  have n: "unat ?n = unat limit div 4096" by (simp add: unat_div)
  have dlim: "unat limit div 4096 < 2 ^ 19" using lim by (simp add: div_less_iff_less_mult)
  obtain pf s1 where 1: "init_pageTable physbase physfree base limit s = Some (pf, s1)" "pa_inv s1"
      "free_pages s1 = {i. base div PAGE_SIZE \<le> i \<and> i < physbase div PAGE_SIZE} \<union> {i. pf div PAGE_SIZE \<le> i \<and> i < ?n}"
      "lastPage s1 = ?n" "pf = ((physfree + 8 * ?n) div PAGE_SIZE + 1) * PAGE_SIZE"
    using init_pageTable_free [OF assms(1,3) b assms(2), of base s] by blast
  let ?x = "unat physfree + 8 * (unat limit div 4096)"
  have dx: "?x div 4096 + 1032 \<le> unat limit div 4096"
    using div_le_mono [OF assms(5), of 4096] div_mult_self1 [of 4096 ?x 1032] by (simp only: add.commute zero_neq_numeral simp_thms)
  have m8: "unat (8 * ?n) = 8 * (unat limit div 4096)" using dlim n unat_mult_lem [of 8 ?n] by simp
  have ux: "unat (physfree + 8 * ?n) = ?x" using m8 assms(5) lim unat_add_lem [of physfree "8 * ?n"] by simp
  have up: "unat ((physfree + 8 * ?n) div PAGE_SIZE + 1) = ?x div 4096 + 1"
    using ux dlim dx unat_add_lem [of "(physfree + 8 * ?n) div PAGE_SIZE" 1] by (simp add: unat_div)
  have upf: "unat pf = (?x div 4096 + 1) * 4096"
    using up dlim dx unat_mult_lem [of "(physfree + 8 * ?n) div PAGE_SIZE + 1" PAGE_SIZE] by (simp add: 1(5))
  then have dpf: "unat (pf div PAGE_SIZE) = ?x div 4096 + 1" by (simp add: unat_div)
  then have le: "pf div PAGE_SIZE \<le> ?n" and c: "1031 \<le> unat ?n - unat (pf div PAGE_SIZE)"
    using dx by (simp_all add: word_le_nat_alt n)
  have "1031 \<le> card {i. pf div PAGE_SIZE \<le> i \<and> i < ?n}" unfolding card_pages [OF le] by (rule c)
  also have "\<dots> \<le> card (free_pages s1)" unfolding 1(3) by (rule card_mono) auto
  finally have room: "1031 \<le> card (free_pages s1)" .
  have "lastPage s1 \<le> 2 ^ 19" using lim by (simp add: word_le_nat_alt 1(4) n)
  moreover have "pf < 2 ^ 48" using upf assms(5) lim by (simp add: word_less_nat_alt)
  ultimately show thesis using that 1(1,2) room by blast
qed

text \<open>C29. With memory below two gigabytes and about four megabytes of it free, the start of the kernel builds its tables and
  returns: in the address space that it loads every page up to the end of memory is mapped, present and writable, at its
  window address, and the tables are well-formed.\<close>

theorem boot_window:
  assumes "physbase \<le> physfree" "physfree mod 8 = 0" "physbase \<le> limit" "limit < 2 ^ 31"
    "unat physfree + 8 * (unat limit div 4096) + 1032 * 4096 \<le> unat limit"
  shows "\<exists>s'. start_memory kernmem physbase physfree base limit s = Some s' \<and> vm_inv (CR3 s') s' \<and>
    (\<forall>a. unat a div 4096 \<le> unat limit div 4096 \<longrightarrow> pt_lookup (frames s') (CR3 s') (a OR KERNBASE) = (a AND FRAME_MASK) OR 3)"
proof -
  have lim: "unat limit < 2 ^ 31" using assms(4) by (simp add: word_less_nat_alt)
  have dlim: "unat limit div 4096 < 2 ^ 19" using lim by (simp add: div_less_iff_less_mult)
  obtain pf s1 where 1: "init_pageTable physbase physfree base limit s = Some (pf, s1)" "pa_inv s1" "lastPage s1 \<le> 2 ^ 19"
      "1031 \<le> card (free_pages s1)" "pf < 2 ^ 48"
    by (rule init_pageTable_room [OF assms])
  define s2 where "s2 = kprintf (''physfree %p'' @ [CHR 0x0A]) [KInt pf] s1"
  obtain s3 where 3: "kernmemMap kernmem physbase pf s2 = Some s3" "vm_inv (pml4e s3) s3" "cr3 s3 = pml4e s3"
      "card (free_pages s3) + 4 = card (free_pages s2)"
    using kernmemMap_inv [of s2 pf kernmem physbase] 1(2-5) by (auto simp: s2_def)
  have m: "card (missing (frames s3) (pml4e s3) (fst ` set (window_maps limit))) \<le> card (free_pages s3)"
    using window_missing [OF lim, of "frames s3" "pml4e s3"] 3(4) 1(4) by (simp add: s2_def)
  let ?s = "map_pages map_v_p (window_maps limit) s3"
  let ?r = "?s\<lparr>pageMap_ptr := KERNBASE OR pageMap_ptr ?s, video := KERNBASE OR video ?s, CR3 := cr3 ?s\<rparr>"
  have cr: "cr3 ?s = pml4e s3" "pml4e ?s = pml4e s3" using vm_frameD(2,3) [OF map_pages_frame [of s3 "window_maps limit"]] 3(3) by simp_all
  have "start_memory kernmem physbase physfree base limit s = Some ?r"
    using 3(1) by (simp add: start_memory_def 1(1) s2_def phy2vir_eq [OF lim] Let_def)
  moreover have "vm_inv (CR3 ?r) ?r" using kmap.map_pages_inv [OF 3(2) m] cr by simp
  moreover have "pt_lookup (frames ?r) (CR3 ?r) (a OR KERNBASE) = (a AND FRAME_MASK) OR 3" if "unat a div 4096 \<le> unat limit div 4096" for a
  proof -
    from that dlim have "unat a div 4096 < 2 ^ 19" by simp
    then have "unat a < 2 ^ 31" by (simp add: div_less_iff_less_mult)
    then show ?thesis
      using kmap.map_pages_look [OF 3(2) m, of "a OR KERNBASE"] window_maps_lookup [OF lim _ disjI1 [OF that]] cr by simp
  qed
  ultimately show ?thesis by blast
qed

theorem boot_window_witness:
  "\<exists>s'. start_memory 0xffffffff80200000 0x200000 0x220000 0x100000 0x7ffe000 small_vm = Some s' \<and>
    pt_lookup (frames s') (CR3 s') (0x7ffd123 OR KERNBASE) = 0x7ffd003"
proof -
  have "\<exists>s'. start_memory 0xffffffff80200000 0x200000 0x220000 0x100000 0x7ffe000 small_vm = Some s' \<and> vm_inv (CR3 s') s' \<and>
    (\<forall>a. unat a div 4096 \<le> unat (0x7ffe000 :: u64) div 4096 \<longrightarrow> pt_lookup (frames s') (CR3 s') (a OR KERNBASE) = (a AND FRAME_MASK) OR 3)"
    by (rule boot_window) simp_all
  then obtain s' where s': "start_memory 0xffffffff80200000 0x200000 0x220000 0x100000 0x7ffe000 small_vm = Some s'"
    "\<forall>a. unat a div 4096 \<le> unat (0x7ffe000 :: u64) div 4096 \<longrightarrow> pt_lookup (frames s') (CR3 s') (a OR KERNBASE) = (a AND FRAME_MASK) OR 3"
    by blast
  have "pt_lookup (frames s') (CR3 s') (0x7ffd123 OR KERNBASE) = (0x7ffd123 AND FRAME_MASK) OR 3"
    using s'(2) [rule_format, of "0x7ffd123"] by simp
  then show ?thesis using s'(1) by simp
qed

end
