(* ===== verification/UserMem.thy ===== *)
theory UserMem
  imports Timer
begin

text \<open>
  Memory as the kernel reaches it through a virtual address: bytes, words and strings of the current address space.

  A kernel access to a page that is not present enters \<^verbatim>\<open>pageFault\<close> (error code 0 for a read, 2 for a write) and is
  repeated when the handler returns; \<open>None\<close> when the handler halts or the fault repeats for ever.  A write by the kernel
  ignores the write bit of the entry: no code of the kernel sets the write-protect bit of CR0.
\<close>

section \<open>Bytes of a frame\<close>

definition vload_byte :: "u64 \<Rightarrow> 'a vm_scheme \<Rightarrow> u8 option" where
  "vload_byte v s =
     (let e = pt_lookup (frames s) (CR3 s) v
      in if present e then Some (ucast (drop_bit (8 * unat (v AND 7)) (frames s (tbl e) (drop_bit 3 (v AND 0xFFF))))) else None)"

section \<open>Accesses of the kernel\<close>

partial_function (option) kload :: "u64 \<Rightarrow> 'a proc_scheme \<Rightarrow> (u8 \<times> 'a proc_scheme) option" where
  "kload v s =
     (case vload_byte v s of
        Some b \<Rightarrow> Some (b, s)
      | None \<Rightarrow> Option.bind (pageFault 0 v s) (\<lambda>(halted, s). if halted then None else kload v s))"

partial_function (option) kstore :: "u64 \<Rightarrow> u8 \<Rightarrow> 'a proc_scheme \<Rightarrow> 'a proc_scheme option" where
  "kstore v b s =
     (case vstore_byte v b s of
        Some s \<Rightarrow> Some s
      | None \<Rightarrow> Option.bind (pageFault 2 v s) (\<lambda>(halted, s). if halted then None else kstore v b s))"

fun kload_bytes :: "u64 \<Rightarrow> nat \<Rightarrow> 'a proc_scheme \<Rightarrow> (u8 list \<times> 'a proc_scheme) option" where
  "kload_bytes a 0 s = Some ([], s)"
| "kload_bytes a (Suc n) s = do {
     (b, s) \<leftarrow> kload a s;
     (bs, s) \<leftarrow> kload_bytes (a + 1) n s;
     Some (b # bs, s)
   }"

fun kstore_bytes :: "u64 \<Rightarrow> u8 list \<Rightarrow> 'a proc_scheme \<Rightarrow> 'a proc_scheme option" where
  "kstore_bytes a [] s = Some s"
| "kstore_bytes a (b # bs) s = Option.bind (kstore a b s) (kstore_bytes (a + 1) bs)"

text \<open>A 64-bit word in memory, lowest byte first.\<close>

definition word_bytes :: "u64 \<Rightarrow> u8 list" where
  "word_bytes w = map (\<lambda>i. ucast (drop_bit (8 * i) w)) [0..<8]"

definition bytes_word :: "u8 list \<Rightarrow> u64" where
  "bytes_word bs = foldr (\<lambda>b acc. push_bit 8 acc OR ucast b) bs 0"

definition kload_word :: "u64 \<Rightarrow> 'a proc_scheme \<Rightarrow> (u64 \<times> 'a proc_scheme) option" where
  "kload_word a s = map_option (\<lambda>(bs, s). (bytes_word bs, s)) (kload_bytes a 8 s)"

definition kstore_word :: "u64 \<Rightarrow> u64 \<Rightarrow> 'a proc_scheme \<Rightarrow> 'a proc_scheme option" where
  "kstore_word a w s = kstore_bytes a (word_bytes w) s"

text \<open>The string at an address, without its terminator.\<close>

partial_function (option) kload_str :: "u64 \<Rightarrow> 'a proc_scheme \<Rightarrow> (u8 list \<times> 'a proc_scheme) option" where
  "kload_str a s =
     Option.bind (kload a s) (\<lambda>(b, s).
       if b = 0 then Some ([], s)
       else Option.bind (kload_str (a + 1) s) (\<lambda>(bs, s). Some (b # bs, s)))"

text \<open>\<^verbatim>\<open>memcpy\<close> between two addresses of the current address space.\<close>

fun kcopy :: "u64 \<Rightarrow> u64 \<Rightarrow> nat \<Rightarrow> 'a proc_scheme \<Rightarrow> 'a proc_scheme option" where
  "kcopy dst src 0 s = Some s"
| "kcopy dst src (Suc n) s = do {
     (b, s) \<leftarrow> kload src s;
     s \<leftarrow> kstore dst b s;
     kcopy (dst + 1) (src + 1) n s
   }"

text \<open>The C string in an array.\<close>

definition c_string :: "u8 list \<Rightarrow> u8 list" where
  "c_string arr = takeWhile (\<lambda>b. b \<noteq> 0) arr"

section \<open>Reading back what was written\<close>

lemma byte_of_word:
  fixes w :: u64 and b :: u8
  assumes "i < 8" "j < 8"
  shows "ucast (drop_bit (8 * j) ((w AND NOT (push_bit (8 * i) 0xFF)) OR push_bit (8 * i) (ucast b))) =
    (if i = j then b else (ucast (drop_bit (8 * j) w) :: u8))"
proof (rule bit_word_eqI)
  fix n
  assume n: "n < LENGTH(8)"
  have ff: "(0xFF :: u64) = mask 8" by (simp add: mask_eq_exp_minus_1)
  have m: "bit (push_bit (8 * i) (0xFF :: u64)) (8 * j + n) \<longleftrightarrow> i = j"
    using assms n unfolding ff by (auto simp: bit_push_bit_iff bit_mask_iff)
  have p: "bit (push_bit (8 * i) (ucast b :: u64)) (8 * j + n) \<longleftrightarrow> i = j \<and> bit b n"
  proof -
    have "\<not> bit b (8 * j + n - 8 * i)" if "i < j" using that bit_imp_le_length [of b "8 * j + n - 8 * i"] by auto
    moreover have "\<not> 8 * i \<le> 8 * j + n" if "j < i" using that n by simp
    ultimately show ?thesis using assms n by (cases i j rule: linorder_cases) (auto simp: bit_push_bit_iff bit_ucast_iff)
  qed
  show "bit (ucast (drop_bit (8 * j) ((w AND NOT (push_bit (8 * i) 0xFF)) OR push_bit (8 * i) (ucast b))) :: u8) n =
      bit (if i = j then b else (ucast (drop_bit (8 * j) w) :: u8)) n"
    using assms n by (simp add: bit_ucast_iff bit_drop_bit_eq bit_or_iff bit_and_iff bit_not_iff m p)
qed

text \<open>User memory that the kernel may write: every address is below the window, its page is present in a frame that is not
  a page table, and different pages have different frames.\<close>

definition umem :: "u64 set \<Rightarrow> 'a vm_scheme \<Rightarrow> bool" where
  "umem A s \<longleftrightarrow>
     (\<forall>v \<in> A. v < 2 ^ 47 \<and> present (pt_lookup (frames s) (CR3 s) v) \<and>
        tbl (pt_lookup (frames s) (CR3 s) v) \<notin> tables (frames s) (CR3 s)) \<and>
     (\<forall>v \<in> A. \<forall>w \<in> A. tbl (pt_lookup (frames s) (CR3 s) v) = tbl (pt_lookup (frames s) (CR3 s) w) \<longrightarrow> vpage v = vpage w)"

lemma umem_mono: "umem A s \<Longrightarrow> B \<subseteq> A \<Longrightarrow> umem B s"
  unfolding umem_def by blast

lemma umemD:
  assumes "umem A s" "v \<in> A"
  shows "v < 2 ^ 47" "present (pt_lookup (frames s) (CR3 s) v)" "tbl (pt_lookup (frames s) (CR3 s) v) \<notin> tables (frames s) (CR3 s)"
    "w \<in> A \<Longrightarrow> tbl (pt_lookup (frames s) (CR3 s) v) = tbl (pt_lookup (frames s) (CR3 s) w) \<Longrightarrow> vpage v = vpage w"
  using assms unfolding umem_def by blast+

lemma user_addr_eq:
  fixes v w :: u64
  assumes "v < 2 ^ 47" "w < 2 ^ 47" "vpage v = vpage w" "v AND 0xFFF = w AND 0xFFF"
  shows "v = w"
proof (rule bit_word_eqI)
  fix n
  assume "n < LENGTH(64)"
  have hi: "bit v n \<longleftrightarrow> bit w n" if "47 \<le> n"
    using that low_bits [of v 47 n] low_bits [of w 47 n] assms(1,2) by (auto simp: word_less_nat_alt)
  have mid: "bit v n \<longleftrightarrow> bit w n" if "12 \<le> n" "n < 47"
    using arg_cong [OF assms(3), of "\<lambda>x. bit x (n - 12)"] that by (auto simp: bit_vpage)
  have ff: "(0xFFF :: u64) = mask 12" by (simp add: mask_eq_exp_minus_1)
  have lo: "bit v n \<longleftrightarrow> bit w n" if "n < 12"
    using arg_cong [OF assms(4), of "\<lambda>x. bit x n"] that unfolding ff by (simp add: bit_and_iff bit_mask_iff)
  show "bit v n \<longleftrightarrow> bit w n" using hi mid lo by linarith
qed

lemma low12_split:
  fixes v w :: u64
  assumes "drop_bit 3 (v AND 0xFFF) = drop_bit 3 (w AND 0xFFF)" "v AND 7 = w AND 7"
  shows "v AND 0xFFF = w AND 0xFFF"
proof (rule bit_word_eqI)
  fix n
  have f: "(0xFFF :: u64) = mask 12" "(7 :: u64) = mask 3" by (simp_all add: mask_eq_exp_minus_1)
  have "bit (v AND 0xFFF) n = bit (w AND 0xFFF) n" if "3 \<le> n"
    using arg_cong [OF assms(1), of "\<lambda>x. bit x (n - 3)"] that unfolding f by (simp add: bit_drop_bit_eq bit_and_iff bit_mask_iff)
  moreover have "bit (v AND 0xFFF) n = bit (w AND 0xFFF) n" if "n < 3"
    using arg_cong [OF assms(2), of "\<lambda>x. bit x n"] that unfolding f by (simp add: bit_and_iff bit_mask_iff)
  ultimately show "bit (v AND 0xFFF) n = bit (w AND 0xFFF) n" by linarith
qed

lemma unat_and7: "unat (v AND 7 :: u64) < 8"
proof -
  have "v AND 7 = take_bit 3 v" by (simp add: take_bit_eq_mask mask_eq_exp_minus_1)
  then show ?thesis by (simp add: unsigned_take_bit_eq take_bit_nat_less_exp [of 3, simplified])
qed

text \<open>A write changes the contents of frames that are not page tables, and nothing else.\<close>

definition mem_only :: "'a vm_scheme \<Rightarrow> 'a vm_scheme \<Rightarrow> bool" where
  "mem_only s s' \<longleftrightarrow> s' = s\<lparr>frames := frames s'\<rparr> \<and> pt_lookup (frames s') (CR3 s) = pt_lookup (frames s) (CR3 s) \<and>
     tables (frames s') (CR3 s) = tables (frames s) (CR3 s) \<and>
     (\<forall>U. pt_tree (frames s') (CR3 s) U = pt_tree (frames s) (CR3 s) U)"

lemma mem_only_refl [simp]: "mem_only s s"
  by (simp add: mem_only_def)

lemma mem_onlyD:
  assumes "mem_only s s'"
  shows "s' = s\<lparr>frames := frames s'\<rparr>" "CR3 s' = CR3 s" "pt_lookup (frames s') (CR3 s) = pt_lookup (frames s) (CR3 s)"
    "tables (frames s') (CR3 s) = tables (frames s) (CR3 s)" "vm_frame s s'"
    "pt_tree (frames s') (CR3 s) U = pt_tree (frames s) (CR3 s) U"
proof -
  show e: "s' = s\<lparr>frames := frames s'\<rparr>" using assms by (simp add: mem_only_def)
  show "CR3 s' = CR3 s" by (subst e) simp
  show "vm_frame s s'" unfolding vm_frame_def by (subst (1 2 3) e) simp
qed (use assms in \<open>simp_all add: mem_only_def\<close>)

lemma mem_only_trans:
  assumes "mem_only s t" "mem_only t u"
  shows "mem_only s u"
proof -
  note S = mem_onlyD [OF assms(1)] and T = mem_onlyD [OF assms(2)]
  have "u = s\<lparr>frames := frames u\<rparr>" by (subst T(1), subst S(1)) simp
  then show ?thesis using S(3,4,6) T(3,4,6) S(2) unfolding mem_only_def by simp
qed

lemma mem_only_inv: "mem_only s s' \<Longrightarrow> vm_inv (CR3 s) s \<Longrightarrow> vm_inv (CR3 s) s'"
proof -
  assume m: "mem_only s s'" and i: "vm_inv (CR3 s) s"
  note D = mem_onlyD [OF m]
  have "used s' = used s" "pa_inv s' = pa_inv s" "lastPage s' = lastPage s"
    by (subst D(1), simp add: used_def free_pages_def pa_inv_def)+
  then show ?thesis using i D(6) by (simp add: vm_inv_def)
qed

lemma mem_only_umem:
  assumes "mem_only s s'"
  shows "umem A s' = umem A s"
  unfolding umem_def mem_onlyD(2) [OF assms] mem_onlyD(3,4) [OF assms] ..

lemma vstore_ok:
  assumes U: "umem A s" and v: "v \<in> A"
  obtains s' where "vstore_byte v b s = Some s'" "mem_only s s'"
    "\<And>w. w \<in> A \<Longrightarrow> vload_byte w s' = (if w = v then Some b else vload_byte w s)"
proof -
  let ?L = "pt_lookup (frames s) (CR3 s)"
  let ?o = "\<lambda>w :: u64. drop_bit 3 (w AND 0xFFF)" and ?k = "\<lambda>w :: u64. unat (w AND 7)"
  define x where "x = (frames s (tbl (?L v)) (?o v) AND NOT (push_bit (8 * ?k v) 0xFF)) OR push_bit (8 * ?k v) (ucast b)"
  define s' where "s' = s\<lparr>frames := (frames s)(tbl (?L v) := (frames s (tbl (?L v)))(?o v := x))\<rparr>"
  have st: "vstore_byte v b s = Some s'" using umemD(2) [OF U v] by (simp add: vstore_byte_def Let_def s'_def x_def)
  have r: "frames s' = (frames s)(tbl (?L v) := (frames s (tbl (?L v)))(?o v := x))" "CR3 s' = CR3 s" by (simp_all add: s'_def)
  note N = pt_nontable [OF umemD(3) [OF U v], of "(frames s (tbl (?L v)))(?o v := x)", folded r(1)]
  have mo: "mem_only s s'" unfolding mem_only_def using N by (simp add: s'_def)
  have ld: "vload_byte w s' = (if w = v then Some b else vload_byte w s)" if w: "w \<in> A" for w
  proof -
    have e: "vload_byte w s' = Some (ucast (drop_bit (8 * ?k w) (frames s' (tbl (?L w)) (?o w))))"
      using umemD(2) [OF U w] by (simp add: vload_byte_def Let_def r(2) N(2))
    have e0: "vload_byte w s = Some (ucast (drop_bit (8 * ?k w) (frames s (tbl (?L w)) (?o w))))"
      using umemD(2) [OF U w] by (simp add: vload_byte_def Let_def)
    show ?thesis
    proof (cases "tbl (?L w) = tbl (?L v) \<and> ?o w = ?o v")
      case True
      have "w AND 7 = v AND 7" if "?k w = ?k v" using that by (simp add: word_unat_eq_iff)
      then have "w = v \<longleftrightarrow> ?k w = ?k v"
        using user_addr_eq [OF umemD(1) [OF U w] umemD(1) [OF U v]] umemD(4) [OF U w v] low12_split [of w v] True
        by blast
      moreover have "frames s' (tbl (?L w)) (?o w) = x" "frames s (tbl (?L w)) (?o w) = frames s (tbl (?L v)) (?o v)"
        using True by (simp_all add: r(1))
      moreover have "ucast (drop_bit (8 * ?k w) x) = (if ?k v = ?k w then b else ucast (drop_bit (8 * ?k w) (frames s (tbl (?L v)) (?o v))))"
        unfolding x_def by (rule byte_of_word [OF unat_and7 unat_and7])
      ultimately show ?thesis unfolding e e0 by (simp only:) simp
    next
      case False
      then have "frames s' (tbl (?L w)) (?o w) = frames s (tbl (?L w)) (?o w)" "w \<noteq> v" by (auto simp: r(1))
      then show ?thesis unfolding e e0 by simp
    qed
  qed
  show ?thesis by (rule that [OF st mo ld])
qed

lemma vload_some: "umem A s \<Longrightarrow> v \<in> A \<Longrightarrow> \<exists>b. vload_byte v s = Some b"
  using umemD(2) by (simp add: vload_byte_def Let_def)

lemma kload_present: "vload_byte v s = Some b \<Longrightarrow> kload v s = Some (b, s)"
  by (subst kload.simps) simp

lemma kstore_present: "vstore_byte v b s = Some s' \<Longrightarrow> kstore v b s = Some s'"
  by (subst kstore.simps) simp

section \<open>Runs of bytes\<close>

abbreviation range_of :: "u64 \<Rightarrow> nat \<Rightarrow> u64 set" where
  "range_of a n \<equiv> (\<lambda>i. a + of_nat i) ` {..<n}"

lemma of_nat_u64_inj:
  assumes "of_nat i = (of_nat j :: u64)" "i < 2 ^ 64" "j < 2 ^ 64"
  shows "i = j"
proof -
  have "i = unat (of_nat i :: u64)" using assms(2) by (intro unat_of_nat_eq [symmetric]) simp
  also have "\<dots> = unat (of_nat j :: u64)" by (rule arg_cong [OF assms(1)])
  also have "\<dots> = j" using assms(3) by (intro unat_of_nat_eq) simp
  finally show ?thesis .
qed

lemma range_of_Suc: "range_of a (Suc n) = insert a (range_of (a + 1) n)"
  by (auto simp: lessThan_Suc_eq_insert_0 image_image algebra_simps)

lemma not_in_range:
  assumes "n < 2 ^ 64"
  shows "a \<notin> range_of (a + 1) n"
proof
  assume "a \<in> range_of (a + 1) n"
  then obtain i where i: "i < n" "a = a + 1 + of_nat i" by auto
  then have "of_nat (Suc i) = (of_nat 0 :: u64)" by (simp add: algebra_simps)
  then show False using of_nat_u64_inj [of "Suc i" 0] i(1) assms by simp
qed

lemma kstore_bytes_ok:
  assumes "umem A s" "range_of a (length bs) \<subseteq> A" "length bs < 2 ^ 64"
  obtains s' where "kstore_bytes a bs s = Some s'" "mem_only s s'"
    "\<And>i. i < length bs \<Longrightarrow> vload_byte (a + of_nat i) s' = Some (bs ! i)"
    "\<And>w. w \<in> A \<Longrightarrow> w \<notin> range_of a (length bs) \<Longrightarrow> vload_byte w s' = vload_byte w s"
proof -
  have "\<exists>s'. kstore_bytes a bs s = Some s' \<and> mem_only s s' \<and>
      (\<forall>i < length bs. vload_byte (a + of_nat i) s' = Some (bs ! i)) \<and>
      (\<forall>w \<in> A. w \<notin> range_of a (length bs) \<longrightarrow> vload_byte w s' = vload_byte w s)"
    using assms
  proof (induction bs arbitrary: a s)
    case (Cons b bs)
    have sub: "a \<in> A" "range_of (a + 1) (length bs) \<subseteq> A" using Cons.prems(2) unfolding list.size(4) add_Suc_right add_0_right range_of_Suc by auto
    obtain t where t: "vstore_byte a b s = Some t" "mem_only s t"
      "\<And>w. w \<in> A \<Longrightarrow> vload_byte w t = (if w = a then Some b else vload_byte w s)"
      by (rule vstore_ok [OF Cons.prems(1) sub(1)]) (rule that)
    have "umem A t" using Cons.prems(1) mem_only_umem [OF t(2)] by simp
    then obtain s' where s': "kstore_bytes (a + 1) bs t = Some s'" "mem_only t s'"
      "\<And>i. i < length bs \<Longrightarrow> vload_byte (a + 1 + of_nat i) s' = Some (bs ! i)"
      "\<And>w. w \<in> A \<Longrightarrow> w \<notin> range_of (a + 1) (length bs) \<Longrightarrow> vload_byte w s' = vload_byte w t"
      using Cons.IH [of t "a + 1"] sub(2) Cons.prems(3) by auto
    have "vload_byte (a + of_nat i) s' = Some ((b # bs) ! i)" if "i < length (b # bs)" for i
    proof (cases i)
      case 0
      have "a \<notin> range_of (a + 1) (length bs)" using Cons.prems(3) by (intro not_in_range) simp
      then show ?thesis using s'(4) [OF sub(1)] t(3) [OF sub(1)] 0 by simp
    next
      case (Suc j)
      then show ?thesis using s'(3) [of j] that by (simp add: algebra_simps)
    qed
    moreover have "vload_byte w s' = vload_byte w s" if "w \<in> A" "w \<notin> range_of a (length (b # bs))" for w
      using that s'(4) [of w] t(3) [of w] unfolding list.size(4) add_Suc_right add_0_right range_of_Suc by auto
    ultimately show ?case using s'(1) kstore_present [OF t(1)] mem_only_trans [OF t(2) s'(2)] by auto
  qed auto
  then show ?thesis using that by blast
qed

lemma kload_bytes_ok:
  assumes "\<And>i. i < length bs \<Longrightarrow> vload_byte (a + of_nat i) s = Some (bs ! i)"
  shows "kload_bytes a (length bs) s = Some (bs, s)"
  using assms
proof (induction bs arbitrary: a)
  case (Cons b bs)
  have "vload_byte a s = Some b" using Cons.prems [of 0] by simp
  moreover have "kload_bytes (a + 1) (length bs) s = Some (bs, s)"
    using Cons.prems [of "Suc _"] by (intro Cons.IH) (simp add: algebra_simps)
  ultimately show ?case by (simp add: kload_present)
qed simp

text \<open>A C string in memory.\<close>

definition ustring :: "u64 \<Rightarrow> u8 list \<Rightarrow> 'a vm_scheme \<Rightarrow> bool" where
  "ustring a bs s \<longleftrightarrow> 0 \<notin> set bs \<and> (\<forall>i \<le> length bs. vload_byte (a + of_nat i) s = Some ((bs @ [0]) ! i))"

lemma kload_str_ok:
  assumes "ustring a bs s"
  shows "kload_str a s = Some (bs, s)"
  using assms
proof (induction bs arbitrary: a)
  case Nil
  then have "vload_byte a s = Some 0" by (simp add: ustring_def)
  then show ?case by (subst kload_str.simps) (simp add: kload_present)
next
  case (Cons b bs)
  have b: "vload_byte a s = Some b" "b \<noteq> 0" using Cons.prems by (auto simp: ustring_def)
  have "ustring (a + 1) bs s"
    using Cons.prems [unfolded ustring_def, THEN conjunct2, rule_format, of "Suc _"] Cons.prems
    by (simp add: ustring_def algebra_simps)
  then show ?case using Cons.IH b by (subst kload_str.simps) (simp add: kload_present)
qed

declare kload_bytes.simps [simp del] kstore_bytes.simps [simp del]

end
