(* ===== verification/Syscall.thy ===== *)
theory Syscall
  imports UserMem
begin

text \<open>
  The system calls of \<^verbatim>\<open>sys/syscall.c\<close> and their entry \<^verbatim>\<open>irq_handler2\<close> of \<^verbatim>\<open>sys/isr.c\<close>.

  What the handlers take from outside the kernel's variables is gathered in a record: the archive linked into the
  kernel, the addresses of labels that the assembly yields, the stack pointer, and the words that \<^verbatim>\<open>va_arg\<close> finds when
  a user string is used as a format.  The scancodes of the keyboard interrupts still to come are part of the
  state.

  A call that ends in \<^verbatim>\<open>contextSwitch\<close> or \<^verbatim>\<open>iretq\<close> does not return to its caller: its outcome is \<open>Away\<close>, and
  \<open>cpu_rip\<close>, \<open>cpu_rsp\<close> tell what runs.  \<open>None\<close> is a halt, a loop that does not end, or an access outside an array.
\<close>

record kenv =
  k_tar :: bmem
  k_start :: u64
  k_resume :: u64
  k_rip :: u64
  k_pos :: u64
  k_va :: "karg list"

record sysc = timer +
  childFlag :: int
  keys :: "u8 list"

datatype outcome = Ret u64 | Away

section \<open>Files\<close>

text \<open>\<^verbatim>\<open>fd[n]\<close> of a process.  The slot behind the array is the field \<^verbatim>\<open>wait_on_childpid\<close>.\<close>

definition fd_at :: "pcb \<Rightarrow> nat \<Rightarrow> u64" where
  "fd_at p n = (if n < MAX_FD then fd p n else wait_on_childpid p)"

definition set_fd :: "nat \<Rightarrow> u64 \<Rightarrow> pcb \<Rightarrow> pcb" where
  "set_fd n v p = (if n < MAX_FD then p\<lparr>fd := (fd p)(n := v)\<rparr> else p\<lparr>wait_on_childpid := v\<rparr>)"

function open_slot :: "pcb \<Rightarrow> nat \<Rightarrow> nat" where
  "open_slot p count = (if fd_at p (count + 1) \<noteq> 0 \<and> count + 1 < MAX_FD then open_slot p (count + 1) else count + 1)"
  by pat_completeness auto
termination
  by (relation "measure (\<lambda>(p, count). MAX_FD - count)") auto

text \<open>The search through the index: whether it found a node of that name and type, and where it stopped.\<close>

function node_search :: "u32 \<Rightarrow> u8 list \<Rightarrow> nat \<Rightarrow> 'a fs_scheme \<Rightarrow> bool \<times> nat" where
  "node_search type path i s =
     (if i < t_index s
      then if length (f_name (root s i)) = 0 then (False, i)
           else if strcmp0 (f_name (root s i)) path = 0 \<and> f_typeflag (root s i) = type then (True, i)
           else node_search type path (i + 1) s
      else (False, i))"
  by pat_completeness auto
termination
  by (relation "measure (\<lambda>(type, path, i, s). t_index s - i)") auto

declare open_slot.simps [simp del] node_search.simps [simp del]

text \<open>The slash that \<^verbatim>\<open>open\<close> and \<^verbatim>\<open>chdir\<close> append in place to a directory path.\<close>

definition add_slash :: "u64 \<Rightarrow> u8 list \<Rightarrow> 'a proc_scheme \<Rightarrow> (u8 list \<times> 'a proc_scheme) option" where
  "add_slash path p s = do {
     (b, s) \<leftarrow> kload (path + of_nat (length p) - 1) s;
     if b \<noteq> slash
     then do {
       s \<leftarrow> kstore (path + of_nat (length p)) slash s;
       s \<leftarrow> kstore (path + of_nat (length p) + 1) 0 s;
       Some (p @ [slash], s)
     }
     else Some (p, s)
   }"

definition open_file :: "u8 list \<Rightarrow> 'a proc_scheme \<Rightarrow> u64 \<times> 'a proc_scheme" where
  "open_file p s =
     (case node_search FILE p 1 s of
        (True, i) \<Rightarrow>
          (let count = open_slot (pcbs s (current s)) 2;
               s = upd_pcb (current s) (set_fd count (of_nat i)) s
           in if count \<ge> MAX_FD
              then (- 1, kprintf (''Process cannot open any more files.Max Limit of %d reached'' @ [CHR 0x0A]) [KInt 30] s)
              else (of_nat count, s))
      | (False, i) \<Rightarrow> if i = t_index s then (- 1, kprintf ''No such file exists.'' [] s) else (- 1, s))"

definition open_dir :: "u8 list \<Rightarrow> 'a proc_scheme \<Rightarrow> u64 \<times> 'a proc_scheme" where
  "open_dir p s =
     (case node_search DIRECTORY p 1 s of
        (True, i) \<Rightarrow> (of_nat i, s)
      | (False, i) \<Rightarrow> if i = t_index s then (- 1, kprintf ''No such directory exists.'' [] s) else (- 1, s))"

definition openSyscall :: "u64 \<Rightarrow> u64 \<Rightarrow> 'a proc_scheme \<Rightarrow> (u64 \<times> 'a proc_scheme) option" where
  "openSyscall path mode s =
     (if mode = 0 then do {
        (p, s) \<leftarrow> kload_str path s;
        Some (open_file p s)
      }
      else if mode = 4 then do {
        (p, s) \<leftarrow> kload_str path s;
        if length p = 1 \<and> p ! 0 = slash then Some (0, s)
        else do {
          (p, s) \<leftarrow> add_slash path p s;
          Some (open_dir p s)
        }
      }
      else Some (- 1, s))"

definition readdirSyscall :: "u64 \<Rightarrow> 'a fs_scheme \<Rightarrow> (u64 \<times> 'a fs_scheme) option" where
  "readdirSyscall dir s =
     (let parent = sint (ucast dir :: u32) in
      if parent < 0 then None
      else let len = length (f_name (root s (nat parent)));
               s = kprintf ''.     '' [] s;
               s = kprintf ''..     '' [] s
           in Some (0, fold (\<lambda>i s. if int (f_parent (root s i)) = parent
                                  then kprintf ''%s     '' [KStr (Some (drop len (f_name (root s i))))] s else s) [1..<t_index s] s))"

definition sys_close :: "u32 \<Rightarrow> 'a proc_scheme \<Rightarrow> (u64 \<times> 'a proc_scheme) option" where
  "sys_close fdn s =
     (if sint fdn \<le> int MAX_FD
      then if sint fdn < 0 then None else Some (0, upd_pcb (current s) (set_fd (unat fdn) 0) s)
      else Some (1, s))"

definition chdirSyscall :: "kenv \<Rightarrow> u64 \<Rightarrow> 'a proc_scheme \<Rightarrow> (u64 \<times> 'a proc_scheme) option" where
  "chdirSyscall env path s = do {
     (p, s) \<leftarrow> kload_str path s;
     (p, s) \<leftarrow> add_slash path p s;
     d \<leftarrow> isDir (k_tar env) (k_start env) p;
     if d = 0 then Some (0, kprintf ''No such file of directory'' [] s)
     else if length p < 30 then Some (1, upd_pcb (current s) (\<lambda>r. r\<lparr>cur_dir := put_array p (cur_dir r)\<rparr>) s)
     else None
   }"

definition getpwdSyscall :: "u64 \<Rightarrow> 'a proc_scheme \<Rightarrow> (u64 \<times> 'a proc_scheme) option" where
  "getpwdSyscall buf s = do {
     s \<leftarrow> kstore_bytes buf (c_string (cur_dir (pcbs s (current s)))) s;
     Some (buf, s)
   }"

definition read_file :: "kenv \<Rightarrow> u64 \<Rightarrow> u64 \<Rightarrow> u64 \<Rightarrow> 'a proc_scheme \<Rightarrow> (u64 \<times> 'a proc_scheme) option" where
  "read_file env fdn address len s =
     (if unat fdn > MAX_FD then None
      else let temp = root s (unat (fd_at (pcbs s (current s)) (unat fdn))) in
        if f_start temp = 0 then Some (0, s)
        else let len = (if sint (f_size temp) > sint len then sint (f_size temp) else sint len) in
          if len < 0 then None
          else do {
            s \<leftarrow> kstore_bytes address (map (\<lambda>i. k_tar env (f_start temp + 512 + of_nat i)) [0..<nat len]) s;
            s \<leftarrow> kstore (address + of_nat (nat len)) 0 s;
            Some (word_of_int len + 1, s)
          })"

definition read_stdin :: "u64 \<Rightarrow> 'a sysc_scheme \<Rightarrow> (u64 \<times> 'a sysc_scheme) option" where
  "read_stdin address s = do {
     (n, bs, ks, s) \<leftarrow> scanfstdin (keys s) s;
     s \<leftarrow> kstore_bytes address bs (s\<lparr>keys := ks\<rparr>);
     Some (of_nat n, s)
   }"

definition readSyscall :: "kenv \<Rightarrow> u64 \<Rightarrow> u64 \<Rightarrow> u64 \<Rightarrow> 'a sysc_scheme \<Rightarrow> (u64 \<times> 'a sysc_scheme) option" where
  "readSyscall env fdn address len s = (if fdn = 0 then read_stdin address s else read_file env fdn address len s)"

definition writeSyscall :: "kenv \<Rightarrow> u64 \<Rightarrow> u64 \<Rightarrow> u64 \<Rightarrow> 'a proc_scheme \<Rightarrow> (u64 \<times> 'a proc_scheme) option" where
  "writeSyscall env fdn buf count s =
     (if fdn = 1 \<or> fdn = 2 then do {
        (fmt, s) \<leftarrow> kload_str buf s;
        Some (count, kprintf (map (\<lambda>b. char_of (unat (b :: u8))) fmt) (k_va env) s)
      }
      else Some (- 1, s))"

definition dup2Syscall :: "u64 \<Rightarrow> u64 \<Rightarrow> 'a proc_scheme \<Rightarrow> u64 \<times> 'a proc_scheme" where
  "dup2Syscall ofd nfd s = (nfd, s)"

definition clearscreenSyscall :: "'a console_scheme \<Rightarrow> u64 \<times> 'a console_scheme" where
  "clearscreenSyscall s = (0, clearScreen s)"

definition mallocSyscall :: "u64 \<Rightarrow> 'a proc_scheme \<Rightarrow> u64 \<times> 'a proc_scheme" where
  "mallocSyscall sz s =
     (let mmp = mm (pcbs s (current s));
          addr = brk (mms s mmp);
          s = upd_mm mmp (\<lambda>r. r\<lparr>brk := brk r + sz\<rparr>) s
      in (addr, upd_mm mmp (\<lambda>r. r\<lparr>end_data := end_data r + sz\<rparr>) s))"

text \<open>\<^verbatim>\<open>listprocess\<close> prints the process state, a number, with \<^verbatim>\<open>%s\<close>: the string at that address is read.\<close>

partial_function (option) listprocess_loop :: "u64 \<Rightarrow> u64 \<Rightarrow> 'a proc_scheme \<Rightarrow> 'a proc_scheme option" where
  "listprocess_loop start count s =
     (if nx s start \<noteq> current s
      then Option.bind (kload_str (process_state (pcbs s start)) s) (\<lambda>(st, s).
             let p = pcbs s start;
                 s = kprintf ([CHR 0x0A] @ '' %d  |%d    |%d   |%s     |%s'')
                       [KInt count, KInt (pid p), KInt (ppid p), KStr (Some st), KStr (Some (c_string (process_name p)))] s
             in listprocess_loop (nx s start) (count + 1) s)
      else Some s)"

definition listprocess :: "'a proc_scheme \<Rightarrow> 'a proc_scheme option" where
  "listprocess s =
     (let s = kprintf ([CHR 0x0A] @ '' Number |PID    |PPID    |STATE    |NAME'') [] s
      in listprocess_loop (current s) 0 s)"

section \<open>Fork\<close>

definition idx512 :: "nat \<Rightarrow> u64 list" where
  "idx512 n = map of_nat [0..<n]"

definition fork_pte :: "u64 \<Rightarrow> u64 \<Rightarrow> u64 \<Rightarrow> 'a vm_scheme \<Rightarrow> 'a vm_scheme" where
  "fork_pte c_pte p_pte pte_i s =
     (let entry = entries s p_pte pte_i in
      if entry AND P_BIT \<noteq> 0
      then let page = entry AND FRAME_MASK;
               entry = page OR P_BIT OR U_BIT OR COW_BIT;
               s = set_entry c_pte pte_i entry s;
               s = set_entry p_pte pte_i entry s
           in kprintf [] [] s
      else s)"

definition fork_pde :: "u64 \<Rightarrow> u64 \<Rightarrow> u64 \<Rightarrow> 'a vm_scheme \<Rightarrow> 'a vm_scheme" where
  "fork_pde c_pde p_pde pde_i s =
     (let pde_entry = entries s p_pde pde_i in
      if pde_entry AND P_BIT \<noteq> 0
      then let (c_pte, s) = pteAlloc c_pde pde_i CHR ''V'' s;
               p_pte = (pde_entry AND FRAME_MASK) OR KERNBASE
           in fold (fork_pte c_pte p_pte) (idx512 512) s
      else s)"

definition fork_pdpe :: "u64 \<Rightarrow> u64 \<Rightarrow> u64 \<Rightarrow> 'a vm_scheme \<Rightarrow> 'a vm_scheme" where
  "fork_pdpe c_pdpe p_pdpe pdpe_i s =
     (let pdpe_entry = entries s p_pdpe pdpe_i in
      if pdpe_entry AND P_BIT \<noteq> 0
      then let (c_pde, s) = pdeAlloc c_pdpe pdpe_i CHR ''V'' s;
               p_pde = (pdpe_entry AND FRAME_MASK) OR KERNBASE
           in fold (fork_pde c_pde p_pde) (idx512 512) s
      else s)"

definition fork_pml4e :: "u64 \<Rightarrow> u64 \<Rightarrow> u64 \<Rightarrow> 'a vm_scheme \<Rightarrow> 'a vm_scheme" where
  "fork_pml4e c_pml4e p_pml4e pml4e_i s =
     (let pml4e_entry = entries s p_pml4e pml4e_i in
      if pml4e_entry AND P_BIT \<noteq> 0
      then let (c_pdpe, s) = pdpeAlloc c_pml4e pml4e_i CHR ''V'' s;
               p_pdpe = (pml4e_entry AND FRAME_MASK) OR KERNBASE
           in fold (fork_pdpe c_pdpe p_pdpe) (idx512 512) s
      else s)"

definition fork_tables :: "u64 \<Rightarrow> 'a vm_scheme \<Rightarrow> 'a vm_scheme" where
  "fork_tables child_cr3 s =
     (let p_pml4e = KERNBASE OR getCR3 s;
          c_pml4e = child_cr3 OR KERNBASE;
          s = fold (fork_pml4e c_pml4e p_pml4e) (idx512 510) s;
          s = set_entry c_pml4e 511 (entries s p_pml4e 511) s
      in set_entry c_pml4e 510 (entries s p_pml4e 510) s)"

text \<open>The copy of the areas: the new areas keep the \<^verbatim>\<open>next\<close> pointers of the old ones.\<close>

definition fork_vma :: "u64 \<Rightarrow> u64 \<Rightarrow> u64 \<Rightarrow> 'a proc_scheme \<Rightarrow> u64 \<times> 'a proc_scheme" where
  "fork_vma child p_vma c_vma s =
     (let flag = (c_vma = 0);
          (c_vma, s) = kmalloc_vma s;
          s = (if flag then upd_mm (mm (pcbs s child)) (\<lambda>r. r\<lparr>mmap := c_vma\<rparr>) s else s);
          s = upd_vma c_vma (\<lambda>_. vmas s p_vma) s
      in if v_file (vmas s p_vma) \<noteq> 0
         then let (f, s) = kmalloc_file s;
                  s = upd_vma c_vma (\<lambda>r. r\<lparr>v_file := f\<rparr>) s
              in (c_vma, upd_file f (\<lambda>_. filps s (v_file (vmas s p_vma))) s)
         else (c_vma, s))"

partial_function (option) fork_vmas :: "u64 \<Rightarrow> u64 \<Rightarrow> u64 \<Rightarrow> 'a proc_scheme \<Rightarrow> (u64 \<times> 'a proc_scheme) option" where
  "fork_vmas child p_vma c_vma s =
     (if p_vma \<noteq> 0
      then case fork_vma child p_vma c_vma s of (c_vma, s) \<Rightarrow> fork_vmas child (v_next (vmas s p_vma)) c_vma s
      else Some (c_vma, s))"

definition forkSyscall :: "kenv \<Rightarrow> 'a proc_scheme \<Rightarrow> (u64 \<times> 'a proc_scheme) option" where
  "forkSyscall env s =
     (let parent = current s;
          (child, s) = kmalloc_pcb s;
          (i, s) = getPID s;
          s = upd_pcb child (\<lambda>p. p\<lparr>pid := i, ppid := pid (pcbs s parent), process_state := New, sleep_ticks := 0, alarm := 0,
                wait_on_childpid := - 1,
                process_name := put_array (c_string (process_name (pcbs s parent)) @ [0]) (process_name p),
                cur_dir := put_array (c_string (cur_dir (pcbs s parent)) @ [0]) (cur_dir p), num_child := 0\<rparr>) s;
          (c, s) = allocatePage s;
          s = upd_pcb child (\<lambda>p. p\<lparr>pcb_cr3 := c\<rparr>) s;
          s = upd_pcb parent (\<lambda>p. p\<lparr>num_child := num_child p + 1\<rparr>) s;
          s = fork_link child s;
          s = fork_tables (pcb_cr3 (pcbs s child)) s;
          s = loadCR3 (pcb_cr3 (pcbs s child)) s;
          s = upd_pcb child (\<lambda>p. p\<lparr>fd := (\<lambda>n. if n < MAX_FD then fd (pcbs s parent) n else fd p n)\<rparr>) s;
          (mmp, s) = kmalloc_mm s;
          s = upd_pcb child (\<lambda>p. p\<lparr>mm := mmp\<rparr>) s;
          s = upd_mm mmp (\<lambda>_. mms s (mm (pcbs s parent))) s;
          p_vma = mmap (mms s (mm (pcbs s parent)));
          s = upd_mm mmp (\<lambda>r. r\<lparr>mmap := 0\<rparr>) s
      in do {
        (c_vma, s) \<leftarrow> fork_vmas child p_vma 0 s;
        let s = (if c_vma \<noteq> 0 then upd_vma c_vma (\<lambda>r. r\<lparr>v_next := 0\<rparr>) s else s);
        let (kst, s) = kmalloc s;
        let s = upd_pcb child (\<lambda>p. p\<lparr>kstack := kst + 0x1000 - 16, init_kern := kst + 0x1000 - 16\<rparr>) s;
        s \<leftarrow> kcopy (kstack (pcbs s child) - 0x1000 + 16) (kstack (pcbs s parent) - 0x1000 + 16) (0x1000 - 16) s;
        let s = upd_pcb child (\<lambda>p. p\<lparr>rsp := USER_STACK_TOP\<rparr>) s;
        let s = loadCR3 (pcb_cr3 (pcbs s parent)) s;
        let s = (if k_rip env \<noteq> 0 then upd_pcb child (\<lambda>p. p\<lparr>rip := k_rip env\<rparr>) s else s);
        let s = upd_pcb child (\<lambda>p. p\<lparr>kstack := kstack p - (kstack (pcbs s parent) - k_pos env)\<rparr>) s;
        Some (pid (pcbs s child), s)
      })"

text \<open>The end of \<^verbatim>\<open>forkSyscall\<close> in the child, where it resumes after \<^verbatim>\<open>read_rip\<close>.\<close>

definition fork_child :: "'a sysc_scheme \<Rightarrow> u64 \<times> 'a sysc_scheme" where
  "fork_child s = (0, s\<lparr>childFlag := 1\<rparr>)"

section \<open>Exec\<close>

text \<open>Collecting the arguments in the kernel's array \<^verbatim>\<open>userstack[10][50]\<close>.\<close>

function exec_args :: "u64 \<Rightarrow> nat \<Rightarrow> u8 list list \<Rightarrow> 'a proc_scheme \<Rightarrow> (u8 list list \<times> 'a proc_scheme) option" where
  "exec_args argv i us s =
     Option.bind (kload_word (argv + 8 * of_nat i) s) (\<lambda>(p, s).
     Option.bind (kload_str p s) (\<lambda>(arg, s).
       if arg = [] then Some (us, s)
       else if i < 10 \<and> length arg < 50 then exec_args argv (i + 1) (us @ [arg]) s
       else None))"
  by pat_completeness auto
termination
  by (relation "measure (\<lambda>(argv, i, us, s). 10 - i)") auto

declare exec_args.simps [simp del]

text \<open>Copying them to memory that \<^verbatim>\<open>mallocSyscall\<close> hands out.\<close>

fun exec_copy :: "u64 \<Rightarrow> nat \<Rightarrow> u8 list list \<Rightarrow> 'a proc_scheme \<Rightarrow> 'a proc_scheme option" where
  "exec_copy ans a [] s = Some s"
| "exec_copy ans a (u # us) s =
     (let (p, s) = mallocSyscall 20 s in do {
        s \<leftarrow> kstore_word (ans + 8 * of_nat a) p s;
        s \<leftarrow> kstore_bytes p (u @ [0]) s;
        exec_copy ans (a + 1) us s
      })"

definition execveSyscall :: "kenv \<Rightarrow> u64 \<Rightarrow> u64 \<Rightarrow> 'a proc_scheme \<Rightarrow> 'a proc_scheme option" where
  "execveSyscall env filep argv s =
     (let (new, s) = kmalloc_pcb s;
          (kst, s) = kmalloc s;
          (mmp, s) = kmalloc_mm s;
          s = upd_pcb new (\<lambda>p. p\<lparr>kstack := kst + 4096 - 16, init_kern := kst + 4096 - 16\<rparr>) s;
          (c, s) = setUserSpace s;
          s = upd_pcb new (\<lambda>p. p\<lparr>pcb_cr3 := c, mm := mmp, pid := pid (pcbs s (current s)), ppid := ppid (pcbs s (current s))\<rparr>) s
      in do {
        (f, s) \<leftarrow> kload_str filep s;
        s \<leftarrow> (if length f < 15 then Some (upd_pcb new (\<lambda>p. p\<lparr>process_name := put_array (f @ [0]) (process_name p)\<rparr>) s) else None);
        (us, s) \<leftarrow> (if length f < 50 then if argv \<noteq> 0 then exec_args argv 1 [f] s else Some ([f], s) else None);
        let curr_CR3 = getCR3 s;
        let s = loadCR3 (pcb_cr3 (pcbs s new)) s;
        s \<leftarrow> loadElf (k_tar env) (k_start env) (c_string (process_name (pcbs s new))) new s;
        let (ans, s) = mallocSyscall (100 * 8) s;
        s \<leftarrow> exec_copy ans 0 us s;
        let s = loadCR3 (pcb_cr3 (pcbs s new)) s;
        let ptr = rsp (pcbs s new);
        s \<leftarrow> kstore_word (ptr - 8) (of_nat (length us)) s;
        s \<leftarrow> kstore_word (ptr - 16) ans s;
        let s = upd_pcb new (\<lambda>p. p\<lparr>rsp := ptr - 16\<rparr>) s;
        let s = loadCR3 curr_CR3 s;
        let s = exec_link new s;
        let s = upd_pcb new (\<lambda>p. p\<lparr>cur_dir := put_array (str ''/rootfs/bin'' @ [0]) (cur_dir p), wait_on_childpid := - 1,
                  process_state := Running\<rparr>) s;
        let s = set_tss_rsp (kstack (pcbs s new)) s;
        let s = loadCR3 (pcb_cr3 (pcbs s new)) s;
        Some (s\<lparr>cpu_rsp := rsp (pcbs s new), cpu_rip := rip (pcbs s new)\<rparr>)
      })"

section \<open>Dispatch\<close>

definition ret :: "(u64 \<times> 's) option \<Rightarrow> (outcome \<times> 's) option" where
  "ret r = map_option (\<lambda>(v, s). (Ret v, s)) r"

definition syscall :: "kenv \<Rightarrow> u64 \<Rightarrow> u64 \<Rightarrow> u64 \<Rightarrow> u64 \<Rightarrow> 'a sysc_scheme \<Rightarrow> (outcome \<times> 'a sysc_scheme) option" where
  "syscall env sysc arg1 arg2 arg3 s =
     (if sysc = 1 then map_option (\<lambda>(v, s'). (if nx s (current s) \<noteq> 0 then Away else Ret v, s')) (exitSyscall (k_resume env) s)
      else if sysc = 2 then ret (forkSyscall env s)
      else if sysc = 3 then ret (readSyscall env arg1 arg2 arg3 s)
      else if sysc = 4 then ret (writeSyscall env arg1 arg2 arg3 s)
      else if sysc = 5 then ret (openSyscall arg1 arg2 s)
      else if sysc = 7 then (let (v, s') = waitpidSyscall (k_resume env) arg1 s in Some (if arg1 > 0 then Away else Ret v, s'))
      else if sysc = 11 then map_option (Pair Away) (execveSyscall env arg1 arg2 s)
      else if sysc = 12 then ret (chdirSyscall env arg1 s)
      else if sysc = 78 then ret (Some (clearscreenSyscall s))
      else if sysc = 90 then ret (Some (mallocSyscall arg1 s))
      else if sysc = 158 then (let (v, s') = yieldSyscall (k_resume env) s in Some (if v = 0 then Away else Ret 0, s'))
      else if sysc = 183 then ret (getpwdSyscall arg1 s)
      else if sysc = 170 then Some (Ret 0, clearScreen s)
      else if sysc = 171 then map_option (Pair (Ret 0)) (listprocess s)
      else if sysc = 220 then ret (readdirSyscall arg1 s)
      else Some (Ret 0, s))"

text \<open>The registers that the assembly saves on the kernel stack.\<close>

record registers =
  r9 :: u64
  r8 :: u64
  rsi :: u64
  rbp :: u64
  rdx :: u64
  rcx :: u64
  rbx :: u64
  rax :: u64
  rdi :: u64
  int_no :: u64
  err_code :: u64
  r_rip :: u64
  r_cs :: u64
  r_rflags :: u64
  r_rsp :: u64
  r_ss :: u64

text \<open>The common entry: the registers with which it returns, or \<open>None\<close> in their place when the handler has switched
  away.  \<open>cr2\<close> is the address of a page fault.\<close>

definition irq_handler2 :: "kenv \<Rightarrow> u64 \<Rightarrow> registers \<Rightarrow> 'a sysc_scheme \<Rightarrow> (registers option \<times> 'a sysc_scheme) option" where
  "irq_handler2 env cr2 regs s =
     (if int_no regs = 0 \<or> int_no regs = 10 \<or> int_no regs = 13 then None
      else if int_no regs = 14 then do {
        (halted, s) \<leftarrow> pageFault (err_code regs) cr2 s;
        if halted then None else Some (Some regs, outb 0x20 0x20 s)
      }
      else if int_no regs = 128 then do {
        (r, s) \<leftarrow> syscall env (rax regs) (rbx regs) (rcx regs) (rdx regs) s;
        case r of
          Away \<Rightarrow> Some (None, s)
        | Ret v \<Rightarrow> do {
            s \<leftarrow> (if childFlag s = 1
                  then map_option (\<lambda>s. s\<lparr>childFlag := 0\<rparr>) (kstore_word (kstack (pcbs s (current s)) + 232) v s)
                  else Some s);
            Some (Some (regs\<lparr>rax := v\<rparr>), outb 0x20 0x20 (outb 0xA0 0x20 s))
          }
      }
      else Some (Some regs, outb 0x20 0x20 s))"

section \<open>Searching the index and the descriptor table\<close>

text \<open>Node \<open>j\<close> is the first one of that name and type, and no node before it has an empty name.\<close>

definition first_node :: "u32 \<Rightarrow> u8 list \<Rightarrow> nat \<Rightarrow> 'a fs_scheme \<Rightarrow> bool" where
  "first_node type path j s \<longleftrightarrow> 1 \<le> j \<and> j < t_index s \<and> path \<noteq> [] \<and> f_name (root s j) = path \<and> f_typeflag (root s j) = type \<and>
     (\<forall>k. 1 \<le> k \<and> k < j \<longrightarrow> f_name (root s k) \<noteq> [] \<and> (f_name (root s k) \<noteq> path \<or> f_typeflag (root s k) \<noteq> type))"

lemma node_search_from:
  assumes "first_node type path j s" "1 \<le> i" "i \<le> j"
  shows "node_search type path i s = (True, j)"
  using assms
proof (induction "j - i" arbitrary: i)
  case 0
  then show ?case by (subst node_search.simps) (simp add: first_node_def strcmp0_def)
next
  case (Suc n)
  then have "f_name (root s i) \<noteq> []" "f_name (root s i) \<noteq> path \<or> f_typeflag (root s i) \<noteq> type" "i < t_index s"
    by (auto simp: first_node_def)
  then have "node_search type path i s = node_search type path (i + 1) s"
    by (subst node_search.simps) (auto simp: strcmp0_def)
  also have "\<dots> = (True, j)" using Suc by (intro Suc.hyps(1)) auto
  finally show ?case .
qed

lemma node_search_none:
  assumes "\<And>k. i \<le> k \<Longrightarrow> k < t_index s \<Longrightarrow> f_name (root s k) \<noteq> [] \<and> (f_name (root s k) \<noteq> path \<or> f_typeflag (root s k) \<noteq> type)"
    "i \<le> t_index s"
  shows "node_search type path i s = (False, t_index s)"
  using assms
proof (induction "t_index s - i" arbitrary: i)
  case 0
  then show ?case by (subst node_search.simps) simp
next
  case (Suc n)
  have "node_search type path i s = node_search type path (i + 1) s"
    using Suc.prems(1) [of i] Suc.hyps(2) by (subst node_search.simps) (auto simp: strcmp0_def)
  also have "\<dots> = (False, t_index s)" using Suc.hyps Suc.prems by (intro Suc.hyps(1)) auto
  finally show ?case .
qed

text \<open>Slot \<open>n\<close> is the first free one from 3 on; 30 when there is none.\<close>

definition first_slot :: "pcb \<Rightarrow> nat \<Rightarrow> bool" where
  "first_slot p n \<longleftrightarrow> 3 \<le> n \<and> n \<le> MAX_FD \<and> (n < MAX_FD \<longrightarrow> fd p n = 0) \<and> (\<forall>k. 3 \<le> k \<and> k < n \<longrightarrow> fd p k \<noteq> 0)"

lemma open_slot_from:
  assumes "first_slot p n" "2 \<le> i" "i < n"
  shows "open_slot p i = n"
  using assms
proof (induction "n - i" arbitrary: i)
  case (Suc m)
  show ?case
  proof (cases "i + 1 = n")
    case True
    then show ?thesis using Suc.prems by (subst open_slot.simps) (auto simp: first_slot_def fd_at_def)
  next
    case False
    then have "open_slot p i = open_slot p (i + 1)"
      using Suc.prems by (subst open_slot.simps) (auto simp: first_slot_def fd_at_def)
    also have "\<dots> = n" using Suc False by (intro Suc.hyps(1)) auto
    finally show ?thesis .
  qed
qed simp

lemma open_slot_first: "first_slot p n \<Longrightarrow> open_slot p 2 = n"
  by (rule open_slot_from) (auto simp: first_slot_def)

lemma open_file_found:
  assumes "first_node FILE p j s" "first_slot (pcbs s (current s)) n"
  shows "open_file p s =
    (let s = upd_pcb (current s) (set_fd n (of_nat j)) s
     in if n < MAX_FD then (of_nat n, s)
        else (- 1, kprintf (''Process cannot open any more files.Max Limit of %d reached'' @ [CHR 0x0A]) [KInt 30] s))"
  using node_search_from [OF assms(1), of 1] open_slot_first [OF assms(2)] assms(1)
  by (simp add: open_file_def Let_def first_node_def)

section \<open>Reading a file\<close>

lemma upd_pcb_mem [simp]:
  "umem A (upd_pcb q f s) = umem A s" "vload_byte v (upd_pcb q f s) = vload_byte v s" "root (upd_pcb q f s) = root s"
  "current (upd_pcb q f s) = current s" "pcbs (upd_pcb q f s) = (pcbs s)(q := f (pcbs s q))"
  by (simp_all add: upd_pcb_def umem_def vload_byte_def Let_def)

lemma fs_upd_mem [simp]:
  "umem A (s\<lparr>root := r\<rparr>) = umem A s" "umem A (s\<lparr>t_index := n\<rparr>) = umem A s" "ustring a p (s\<lparr>root := r\<rparr>) = ustring a p s"
  "ustring a p (s\<lparr>t_index := n\<rparr>) = ustring a p s"
  by (simp_all add: umem_def ustring_def vload_byte_def Let_def)

lemma read_file_ok:
  fixes env :: kenv
  assumes U: "umem A s" and R: "range_of buf (Suc (nat n)) \<subseteq> A" and n: "0 \<le> n" "n < 2 ^ 63"
    and f: "unat fdn \<le> MAX_FD" "fd_at (pcbs s (current s)) (unat fdn) = of_nat j" "j < 2 ^ 64"
    and node: "f_start (root s j) \<noteq> 0" "n = max (sint (f_size (root s j))) (sint len)"
  defines "bytes \<equiv> map (\<lambda>i. k_tar env (f_start (root s j) + 512 + of_nat i)) [0..<nat n]"
  obtains s' where "read_file env fdn buf len s = Some (word_of_int n + 1, s')" "mem_only s s'"
    "kload_bytes buf (Suc (nat n)) s' = Some (bytes @ [0], s')"
    "\<And>w. w \<in> A \<Longrightarrow> w \<notin> range_of buf (Suc (nat n)) \<Longrightarrow> vload_byte w s' = vload_byte w s"
proof -
  have uj: "unat (of_nat j :: u64) = j" using f(3) by (intro unat_of_nat_eq) simp
  have l: "length bytes = nat n" by (simp add: bytes_def)
  have sub: "range_of buf (length bytes) \<subseteq> A" "buf + of_nat (nat n) \<in> A" using R l by auto
  have nn: "nat n < 2 ^ 63" and lb: "length bytes < 2 ^ 64" using n l by simp_all
  obtain t where t: "kstore_bytes buf bytes s = Some t" "mem_only s t"
    "\<And>i. i < length bytes \<Longrightarrow> vload_byte (buf + of_nat i) t = Some (bytes ! i)"
    "\<And>w. w \<in> A \<Longrightarrow> w \<notin> range_of buf (length bytes) \<Longrightarrow> vload_byte w t = vload_byte w s"
    by (rule kstore_bytes_ok [OF U sub(1) lb]) (rule that)
  have Ut: "umem A t" using U mem_only_umem [OF t(2)] by simp
  obtain s' where s': "vstore_byte (buf + of_nat (nat n)) 0 t = Some s'" "mem_only t s'"
    "\<And>w. w \<in> A \<Longrightarrow> vload_byte w s' = (if w = buf + of_nat (nat n) then Some 0 else vload_byte w t)"
    by (rule vstore_ok [OF Ut sub(2)]) (rule that)
  have "unat fdn \<le> MAX_FD \<and> \<not> n < 0" using f(1) n(1) by simp
  then have run: "read_file env fdn buf len s = Some (word_of_int n + 1, s')"
    using node f(2) uj t(1) kstore_present [OF s'(1)]
    by (simp add: read_file_def Let_def bytes_def max_def split: if_splits)
  have new: "buf + of_nat i \<noteq> buf + of_nat (nat n)" if "i < nat n" for i
    using of_nat_u64_inj [of i "nat n"] that nn by auto
  have rd: "vload_byte (buf + of_nat i) s' = Some ((bytes @ [0]) ! i)" if "i < length (bytes @ [0])" for i
  proof (cases "i < nat n")
    case True
    then have "buf + of_nat i \<in> A" using R by auto
    then show ?thesis using s'(3) t(3) [of i] new [OF True] True l by (simp add: nth_append)
  next
    case False
    then have "i = nat n" using that l by simp
    then show ?thesis using s'(3) [OF sub(2)] l by (simp add: nth_append)
  qed
  show ?thesis
  proof (rule that [OF run mem_only_trans [OF t(2) s'(2)]])
    show "kload_bytes buf (Suc (nat n)) s' = Some (bytes @ [0], s')"
      using kload_bytes_ok [OF rd] by (simp add: l)
    show "vload_byte w s' = vload_byte w s" if "w \<in> A" "w \<notin> range_of buf (Suc (nat n))" for w
    proof -
      have "w \<noteq> buf + of_nat (nat n)" "w \<notin> range_of buf (length bytes)" using that(2) l by auto
      then show ?thesis using s'(3) [OF that(1)] t(4) [OF that(1)] by simp
    qed
  qed
qed

section \<open>Properties\<close>

text \<open>A machine for the witnesses: the process of the copy-on-write example, with one archive file in the index and its path
  in memory.\<close>

definition sys_of :: "proc \<Rightarrow> sysc" where
  "sys_of s = timer.extend (proc.extend s (timer.fields (\<lambda>n. if n = 32 then Some Time_func else None) 0 0 0 0 0 0)) (sysc.fields 0 [])"

lemma sys_of_sel [simp]:
  "frames (sys_of s) = frames s" "CR3 (sys_of s) = CR3 s" "pcbs (sys_of s) = pcbs s" "current (sys_of s) = current s"
  "root (sys_of s) = root s" "t_index (sys_of s) = t_index s" "childFlag (sys_of s) = 0"
  by (simp_all add: sys_of_def timer.extend_def proc.extend_def timer.fields_def sysc.fields_def)

lemma cow_proc_umem: "umem (range_of 0x400000 4096) (sys_of cow_proc)"
proof -
  have v: "vpage v = vpage 0x400000 \<and> v < 2 ^ 47" if r: "v \<in> range_of 0x400000 4096" for v
  proof -
    obtain i where i: "i < 4096" "v = 0x400000 + of_nat i" using r by auto
    have "unat v = 0x400000 + i"
      using i by (simp add: unat_word_ariths unat_of_nat)
    then have "v < 2 ^ 47" "v div PAGE_SIZE = 0x400000 div PAGE_SIZE"
      using i by (simp_all add: word_less_nat_alt word_unat_eq_iff unat_div)
    then show ?thesis unfolding vpage_div by simp
  qed
  have "pt_lookup (frames cow_proc) 0x1000 v = 0x2107" if "v \<in> range_of 0x400000 4096" for v
    using pt_lookup_vpage [of v "0x400000"] v [OF that] cow_proc_facts(4) by simp
  then show ?thesis using v cow_proc_facts(2,6) unfolding umem_def by auto
qed

text \<open>A string placed at the start of the mapped page.\<close>

definition str_sys :: "u8 list \<Rightarrow> sysc" where
  "str_sys p = the (kstore_bytes 0x400000 (p @ [0]) (sys_of cow_proc))"

lemma str_sys_facts:
  assumes "0 \<notin> set p" "length p < 4096"
  shows "umem (range_of 0x400000 4096) (str_sys p)" "ustring 0x400000 p (str_sys p)"
    "pcbs (str_sys p) = pcbs cow_proc" "current (str_sys p) = current cow_proc" "mem_only (sys_of cow_proc) (str_sys p)"
proof -
  have sub: "range_of 0x400000 (length (p @ [0])) \<subseteq> range_of 0x400000 4096" using assms(2) by (intro image_mono) auto
  have "length (p @ [0]) < 2 ^ 64" using assms(2) by simp
  note sub = sub this
  obtain s' where s': "kstore_bytes 0x400000 (p @ [0]) (sys_of cow_proc) = Some s'" "mem_only (sys_of cow_proc) s'"
    "\<And>i. i < length (p @ [0]) \<Longrightarrow> vload_byte (0x400000 + of_nat i) s' = Some ((p @ [0]) ! i)"
    "\<And>w. w \<in> range_of 0x400000 4096 \<Longrightarrow> w \<notin> range_of 0x400000 (length (p @ [0])) \<Longrightarrow> vload_byte w s' = vload_byte w (sys_of cow_proc)"
    by (rule kstore_bytes_ok [OF cow_proc_umem sub]) (rule that)
  have e: "str_sys p = s'" unfolding str_sys_def s'(1) by simp
  note F = proc_frameD [OF mem_onlyD(5) [OF s'(2)]]
  show "umem (range_of 0x400000 4096) (str_sys p)" unfolding e mem_only_umem [OF s'(2)] by (rule cow_proc_umem)
  show "mem_only (sys_of cow_proc) (str_sys p)" unfolding e by (rule s'(2))
  show "ustring 0x400000 p (str_sys p)" unfolding ustring_def e using s'(3) assms(1) by simp
  show "pcbs (str_sys p) = pcbs cow_proc" "current (str_sys p) = current cow_proc" by (simp_all add: e F)
qed

definition file_sys :: sysc where
  "file_sys = (str_sys (str ''bin/a.txt''))
     \<lparr>root := (\<lambda>_. \<lparr>f_name = [], f_size = 0, f_typeflag = 0, f_start = 0, f_parent = 0\<rparr>)
        (1 := \<lparr>f_name = str ''bin/a.txt'', f_size = 3, f_typeflag = FILE, f_start = 0x1000, f_parent = 0\<rparr>), t_index := 2\<rparr>"

lemma file_sys_facts:
  shows "umem (range_of 0x400000 4096) file_sys" "ustring 0x400000 (str ''bin/a.txt'') file_sys"
    "pcbs file_sys = pcbs cow_proc" "current file_sys = current cow_proc"
    "root file_sys (Suc 0) = \<lparr>f_name = str ''bin/a.txt'', f_size = 3, f_typeflag = FILE, f_start = 0x1000, f_parent = 0\<rparr>" "t_index file_sys = 2"
  using str_sys_facts [of "str ''bin/a.txt''"] by (simp_all add: file_sys_def)

lemma file_sys_open: "first_node FILE (str ''bin/a.txt'') 1 file_sys" "fd (pcbs file_sys (current file_sys)) n = 0"
proof -
  show "first_node FILE (str ''bin/a.txt'') 1 file_sys" by (auto simp: first_node_def file_sys_facts)
  have "vm_frame user_proc cow_proc"
    using vm_frame_trans [OF allocatePage_frame [of user_proc] map_frames(2)] unfolding cow_proc_def by blast
  from proc_frameD [OF this] show "fd (pcbs file_sys (current file_sys)) n = 0"
    by (simp add: file_sys_facts user_proc_def small_proc_def console_init_def pcb0_def)
qed

text \<open>C21. Opening and reading a file gives its contents.  When the path in user memory names a file of the index and a
  descriptor is free, \<^verbatim>\<open>openSyscall\<close> returns the first free descriptor from 3 on, and reading from it with a length up to
  the size of the file fills the buffer with the bytes of the archive entry and a terminator, and returns their
  number.\<close>

theorem open_then_read:
  fixes env :: kenv
  assumes "ustring path p s" "first_node FILE p j s" "j < 2 ^ 64" "first_slot (pcbs s (current s)) n" "n < MAX_FD"
    "f_start (root s j) \<noteq> 0" "sint (f_size (root s j)) = int sz" "sint len \<le> int sz" "umem (range_of buf (Suc sz)) s"
  shows "\<exists>s1 s2. openSyscall path 0 s = Some (of_nat n, s1) \<and> 3 \<le> n \<and>
    readSyscall env (of_nat n) buf len s1 = Some (of_nat (Suc sz), s2) \<and>
    kload_bytes buf (Suc sz) s2 =
      Some (map (\<lambda>i. k_tar env (f_start (root s j) + 512 + of_nat i)) [0..<sz] @ [0], s2)"
proof -
  let ?s1 = "upd_pcb (current s) (set_fd n (of_nat j)) s"
  have n: "unat (of_nat n :: u64) = n" "3 \<le> n" "(of_nat n :: u64) \<noteq> 0"
    using assms(4,5) unat_of_nat_eq [of n, where 'a = 64] by (auto simp: first_slot_def unat_eq_zero [symmetric])
  have o: "openSyscall path 0 s = Some (of_nat n, ?s1)"
    using kload_str_ok [OF assms(1)] open_file_found [OF assms(2,4)] assms(5) by (simp add: openSyscall_def)
  have sz: "int sz < 2 ^ 63" using assms(7) sint_lt [of "f_size (root s j)"] by simp
  obtain s2 where "read_file env (of_nat n) buf len ?s1 = Some (word_of_int (int sz) + 1, s2)"
    "kload_bytes buf (Suc (nat (int sz))) s2 =
      Some (map (\<lambda>i. k_tar env (f_start (root ?s1 j) + 512 + of_nat i)) [0..<nat (int sz)] @ [0], s2)"
  proof (rule read_file_ok [of _ ?s1 buf "int sz" "of_nat n" j len env])
    show "umem (range_of buf (Suc sz)) ?s1" using assms(9) by simp
  qed (use assms n sz in \<open>auto simp: fd_at_def set_fd_def\<close>)
  then show ?thesis using o n by (auto simp: readSyscall_def)
qed

definition test_env :: kenv where
  "test_env = \<lparr>k_tar = (\<lambda>a. if a = 0x1200 then 104 else if a = 0x1201 then 105 else 0), k_start = 0x1000, k_resume = 0,
     k_rip = 0, k_pos = 0, k_va = []\<rparr>"

theorem open_then_read_witness:
  "\<exists>s1 s2. openSyscall 0x400000 0 file_sys = Some (of_nat 3, s1) \<and>
     readSyscall test_env (of_nat 3) 0x400800 2 s1 = Some (of_nat (Suc 3), s2) \<and>
     kload_bytes 0x400800 (Suc 3) s2 = Some ([104, 105, 0, 0], s2)"
proof -
  have slot: "first_slot (pcbs file_sys (current file_sys)) 3" by (simp add: first_slot_def file_sys_open)
  have "range_of 0x400800 (Suc 3) \<subseteq> range_of 0x400000 4096"
  proof
    fix v :: u64
    assume "v \<in> range_of 0x400800 (Suc 3)"
    then obtain i where "i < 4" "v = 0x400800 + of_nat i" by auto
    then show "v \<in> range_of 0x400000 4096" by (auto intro!: image_eqI [of _ _ "2048 + i"])
  qed
  then have u: "umem (range_of 0x400800 (Suc 3)) file_sys" by (rule umem_mono [OF file_sys_facts(1)])
  have "map (\<lambda>i. k_tar test_env (0x1000 + 512 + of_nat i)) [0..<3] @ [0] = [104, 105, 0, 0]"
    by (simp add: test_env_def upt_rec)
  then show ?thesis
    using open_then_read [OF file_sys_facts(2) file_sys_open(1) _ slot _ _ _ _ u, of 2 test_env] by (auto simp: file_sys_facts)
qed

text \<open>Running out of descriptors.  When the slots 3 to 29 are all taken, \<^verbatim>\<open>openSyscall\<close> of an existing file returns -1, but
  only after storing the node's index one slot past the array: the process loses the pid it waits for.\<close>

theorem open_exhausted:
  assumes "ustring path p s" "first_node FILE p j s" "first_slot (pcbs s (current s)) MAX_FD"
  shows "\<exists>s'. openSyscall path 0 s = Some (- 1, s') \<and> wait_on_childpid (pcbs s' (current s')) = of_nat j \<and>
    fd (pcbs s' (current s')) = fd (pcbs s (current s))"
proof -
  have "pcbs (kprintf fmt args t) = pcbs t" "current (kprintf fmt args t) = current t" for fmt args and t :: "'a proc_scheme"
    using kprintf_more [of fmt args t] by (cases t; cases "kprintf fmt args t"; simp)+
  then show ?thesis
    using kload_str_ok [OF assms(1)] open_file_found [OF assms(2,3)] by (simp add: openSyscall_def set_fd_def Let_def)
qed

definition full_sys :: sysc where
  "full_sys = upd_pcb (current file_sys) (\<lambda>p. p\<lparr>fd := (\<lambda>_. 1), wait_on_childpid := 7\<rparr>) file_sys"

theorem open_exhausted_witness:
  "\<exists>s'. openSyscall 0x400000 0 full_sys = Some (- 1, s') \<and> wait_on_childpid (pcbs s' (current s')) = of_nat 1 \<and>
     fd (pcbs s' (current s')) = fd (pcbs full_sys (current full_sys))"
proof (rule open_exhausted)
  show "ustring 0x400000 (str ''bin/a.txt'') full_sys" using file_sys_facts(2) by (simp add: full_sys_def ustring_def)
  show "first_node FILE (str ''bin/a.txt'') 1 full_sys"
    using file_sys_open(1) by (simp add: full_sys_def first_node_def upd_pcb_def)
  show "first_slot (pcbs full_sys (current full_sys)) MAX_FD" by (simp add: full_sys_def first_slot_def)
qed

section \<open>The working directory\<close>

lemma c_string_append: "0 \<notin> set p \<Longrightarrow> c_string (p @ q) = p @ c_string q"
  by (induction p) (auto simp: c_string_def)

text \<open>Changing to a directory keeps the tail of the old path.  After \<^verbatim>\<open>chdirSyscall\<close> of a directory that ends in a slash,
  \<^verbatim>\<open>getpwdSyscall\<close> delivers the new path followed by what the longer old path had behind it: the copy writes no
  terminator.\<close>

theorem chdir_keeps_tail:
  fixes env :: kenv
  assumes "ustring path p s" "p \<noteq> []" "length p < 30" "last p = slash" "isDir (k_tar env) (k_start env) p = Some d" "d \<noteq> 0"
    "q = p @ c_string (drop (length p) (cur_dir (pcbs s (current s))))" "length q < 2 ^ 64" "umem (range_of buf (length q)) s"
  shows "\<exists>s1 s2. chdirSyscall env path s = Some (1, s1) \<and> getpwdSyscall buf s1 = Some (buf, s2) \<and>
    kload_bytes buf (length q) s2 = Some (q, s2)"
proof -
  let ?s1 = "upd_pcb (current s) (\<lambda>r. r\<lparr>cur_dir := put_array p (cur_dir r)\<rparr>) s"
  have "vload_byte (path + of_nat (length p - 1)) s = Some slash"
    using assms(1,2,4) by (auto simp: ustring_def nth_append last_conv_nth)
  moreover have "path + of_nat (length p) - 1 = path + of_nat (length p - 1)" using assms(2) by (simp add: of_nat_diff Suc_leI)
  ultimately have "kload (path + of_nat (length p) - 1) s = Some (slash, s)" by (simp only: kload_present)
  then have "add_slash path p s = Some (p, s)" by (simp add: add_slash_def)
  then have c: "chdirSyscall env path s = Some (1, ?s1)"
    using kload_str_ok [OF assms(1)] assms(3,5,6) by (simp add: chdirSyscall_def)
  have q: "c_string (cur_dir (pcbs ?s1 (current ?s1))) = q"
    using c_string_append [of p] assms(1,7) by (simp add: put_array_def ustring_def)
  have u: "umem (range_of buf (length q)) ?s1" using assms(9) by simp
  obtain s2 where s2: "kstore_bytes buf q ?s1 = Some s2" "mem_only ?s1 s2"
    "\<And>i. i < length q \<Longrightarrow> vload_byte (buf + of_nat i) s2 = Some (q ! i)"
    "\<And>w. w \<in> range_of buf (length q) \<Longrightarrow> w \<notin> range_of buf (length q) \<Longrightarrow> vload_byte w s2 = vload_byte w ?s1"
    by (rule kstore_bytes_ok [OF u subset_refl assms(8)]) (rule that)
  have "getpwdSyscall buf ?s1 = Some (buf, s2)" using s2(1) q by (simp add: getpwdSyscall_def)
  then show ?thesis using c kload_bytes_ok [OF s2(3)] by blast
qed

definition dir_tar :: bmem where
  "dir_tar a = (if a = 0x1000 then 98 else if a = 0x1001 then 47 else if a = 0x109c then 53
     else if a = 0x1101 then 117 else if a = 0x1102 then 115 else if a = 0x1103 then 116
     else if a = 0x1104 then 97 else if a = 0x1105 then 114 else 0)"

lemma dir_tar_isDir: "isDir dir_tar 0x1000 (str ''b/'') = Some 0x1200"
proof -
  have "read_cstr dir_tar 0x1101 = Some (str ''ustar'')" "read_cstr dir_tar 0x1000 = Some (str ''b/'')"
    "read_cstr dir_tar 0x109c = Some (str ''5'')"
    by (rule read_cstr_cstr, simp add: cstr_Cons cstr_Nil dir_tar_def)+
  then show ?thesis unfolding isDir_def by (subst isType_loop.simps) (simp add: strcmp0_def)
qed

definition cwd_sys :: sysc where
  "cwd_sys = upd_pcb (current (str_sys (str ''b/''))) (\<lambda>p. p\<lparr>cur_dir := str ''/rootfs/bin/'' @ replicate 18 0\<rparr>) (str_sys (str ''b/''))"

theorem chdir_keeps_tail_witness:
  "\<exists>s1 s2. chdirSyscall (test_env\<lparr>k_tar := dir_tar\<rparr>) 0x400000 cwd_sys = Some (1, s1) \<and> getpwdSyscall 0x400000 s1 = Some (0x400000, s2) \<and>
     kload_bytes 0x400000 12 s2 = Some (str ''b/ootfs/bin/'', s2)"
proof -
  let ?q = "str ''b/'' @ c_string (drop (length (str ''b/'')) (cur_dir (pcbs cwd_sys (current cwd_sys))))"
  have F: "umem (range_of 0x400000 4096) (str_sys (str ''b/''))" "ustring 0x400000 (str ''b/'') (str_sys (str ''b/''))"
    by (rule str_sys_facts; simp)+
  have q: "?q = str ''b/ootfs/bin/''" by (simp add: cwd_sys_def c_string_def)
  have "umem (range_of 0x400000 (length ?q)) cwd_sys"
    unfolding q unfolding cwd_sys_def upd_pcb_mem by (rule umem_mono [OF F(1)]) (intro image_mono, auto)
  moreover have "ustring 0x400000 (str ''b/'') cwd_sys" using F(2) by (simp add: cwd_sys_def ustring_def)
  moreover have "length ?q < 2 ^ 64" unfolding q by simp
  moreover have "isDir (k_tar (test_env\<lparr>k_tar := dir_tar\<rparr>)) (k_start (test_env\<lparr>k_tar := dir_tar\<rparr>)) (str ''b/'') = Some 0x1200"
    using dir_tar_isDir by (simp add: test_env_def)
  moreover have "(0x1200 :: u64) \<noteq> 0" "str ''b/'' \<noteq> []" "length (str ''b/'') < 30" "last (str ''b/'') = slash" by simp_all
  ultimately have "\<exists>s1 s2. chdirSyscall (test_env\<lparr>k_tar := dir_tar\<rparr>) 0x400000 cwd_sys = Some (1, s1) \<and>
      getpwdSyscall 0x400000 s1 = Some (0x400000, s2) \<and> kload_bytes 0x400000 (length ?q) s2 = Some (?q, s2)"
    by (intro chdir_keeps_tail [OF _ _ _ _ _ _ refl])
  moreover have "length ?q = 12" unfolding q by simp
  ultimately show ?thesis by (simp only: q)
qed

end
