(* ===== verification/Fork.thy ===== *)
theory Fork
  imports Syscall
begin

text \<open>
  What \<^verbatim>\<open>forkSyscall\<close> does to the memory of parent and child: the copy of the list of areas, and the copy of the page
  tables with its copy-on-write marks.
\<close>

section \<open>Structures and the memory they live in\<close>

lemma proc_upd_vm [simp]:
  "vm_inv r (s\<lparr>vmas := x\<rparr>) = vm_inv r s" "vm_inv r (s\<lparr>mms := y\<rparr>) = vm_inv r s" "vm_inv r (s\<lparr>filps := z\<rparr>) = vm_inv r s"
  "used (s\<lparr>vmas := x\<rparr>) = used s" "used (s\<lparr>mms := y\<rparr>) = used s" "used (s\<lparr>filps := z\<rparr>) = used s"
  "free_pages (s\<lparr>vmas := x\<rparr>) = free_pages s" "free_pages (s\<lparr>mms := y\<rparr>) = free_pages s" "free_pages (s\<lparr>filps := z\<rparr>) = free_pages s"
  by (simp_all add: vm_inv_def pa_inv_def used_def free_pages_def)

text \<open>A pointer that \<^verbatim>\<open>kmalloc\<close> has handed out: the window address of a frame in use.\<close>

definition kptr :: "'a palloc_scheme \<Rightarrow> u64 \<Rightarrow> bool" where
  "kptr s v \<longleftrightarrow> (\<exists>a \<in> used s. v = a OR KERNBASE)"

lemma kptr_upd [simp]:
  "kptr (s\<lparr>vmas := x\<rparr>) = kptr s" "kptr (s\<lparr>mms := y\<rparr>) = kptr s" "kptr (s\<lparr>filps := z\<rparr>) = kptr s"
  by (simp_all add: kptr_def fun_eq_iff)

lemma kptr_nonzero: "kptr s v \<Longrightarrow> v \<noteq> 0"
proof -
  assume "kptr s v"
  then obtain a where "v = a OR KERNBASE" by (auto simp: kptr_def)
  then have "bit v 63" by (simp add: bit_or_iff)
  then show "v \<noteq> 0" by auto
qed

text \<open>The state after some allocations: nothing that was there has gone.\<close>

definition grown :: "nat \<Rightarrow> 'a vm_scheme \<Rightarrow> 'a vm_scheme \<Rightarrow> bool" where
  "grown n s s' \<longleftrightarrow> vm_inv (CR3 s') s' \<and> CR3 s' = CR3 s \<and> (\<forall>v. kptr s v \<longrightarrow> kptr s' v) \<and>
     card (free_pages s) \<le> card (free_pages s') + n"

lemma grown_trans: "grown m s t \<Longrightarrow> grown n t u \<Longrightarrow> grown (m + n) s u"
  unfolding grown_def by auto

lemma kmalloc_grown:
  assumes inv: "vm_inv (CR3 s) s" and room: "4 \<le> card (free_pages s)"
  obtains c s' where "kmalloc s = (c, s')" "grown 4 s s'" "\<not> kptr s c" "kptr s' c" "vm_frame s s'"
proof -
  define a where "a = Min (free_pages s) * PAGE_SIZE"
  have r: "card (missing (frames s) (CR3 s) {Min (free_pages s) * PAGE_SIZE OR KERNBASE}) < card (free_pages s)"
    using room missing_le_3 [of "frames s" "CR3 s" "Min (free_pages s) * PAGE_SIZE OR KERNBASE"] by linarith
  obtain s' where k: "kmalloc s = (a OR KERNBASE, s')" "vm_inv (CR3 s) s'" "a \<notin> used s" "a \<in> used s'"
    "a \<notin> tables (frames s') (CR3 s)" "frames s' a = (\<lambda>_. 0)" "vm_keeps (CR3 s) s s'"
    "\<And>v. pt_lookup (frames s') (CR3 s) v = (if vpage v = vpage (a OR KERNBASE) then a OR 7 else pt_lookup (frames s) (CR3 s) v)"
    "card (free_pages s') + card (missing (frames s) (CR3 s) {a OR KERNBASE}) + 1 = card (free_pages s)"
    by (rule kmalloc_fresh [OF inv r, folded a_def]) (rule that)
  note K = vm_keepsD [OF k(7)]
  have "grown 4 s s'"
    using k(2,9) vm_frameD(1) [OF K(1)] K(2) missing_le_3 [of "frames s" "CR3 s" "a OR KERNBASE"] unfolding grown_def kptr_def by auto
  moreover have "\<not> kptr s (a OR KERNBASE)"
  proof
    assume "kptr s (a OR KERNBASE)"
    then obtain b where b: "b \<in> used s" "a OR KERNBASE = b OR KERNBASE" by (auto simp: kptr_def)
    have "phys (a OR KERNBASE) = a" "phys (b OR KERNBASE) = b"
      using used_addr(1) [OF k(4) vm_invD(2) [OF k(2)]] used_addr(1) [OF b(1) vm_invD(2) [OF inv]] by (simp_all add: phys_or)
    then show False using b k(3) by metis
  qed
  moreover have "kptr s' (a OR KERNBASE)" using k(4) by (auto simp: kptr_def)
  ultimately show ?thesis using that k(1) K(1) by blast
qed

section \<open>The areas of the child\<close>

text \<open>One round of the loop: the new area is a copy of the old one, apart from its file.\<close>

definition copied :: "u64 \<Rightarrow> u64 \<Rightarrow> u64 \<Rightarrow> bool \<Rightarrow> 'a proc_scheme \<Rightarrow> 'a proc_scheme \<Rightarrow> bool" where
  "copied child p c flag s s' \<longleftrightarrow> grown 8 s s' \<and> \<not> kptr s c \<and> kptr s' c \<and> pcbs s' = pcbs s \<and>
     mms s' = (if flag then (mms s)(mm (pcbs s child) := (mms s (mm (pcbs s child)))\<lparr>mmap := c\<rparr>) else mms s) \<and>
     (\<exists>f. vmas s' = (vmas s)(c := (vmas s p)\<lparr>v_file := f\<rparr>))"

lemma kmalloc_vma_grown:
  assumes "vm_inv (CR3 s) s" "4 \<le> card (free_pages s)"
  obtains c s' where "kmalloc_vma s = (c, s')" "grown 4 s s'" "\<not> kptr s c" "kptr s' c" "pcbs s' = pcbs s" "mms s' = mms s"
    "vmas s' = (vmas s)(c := vma0)" "filps s' = filps s"
proof -
  obtain c s' where k: "kmalloc s = (c, s')" "grown 4 s s'" "\<not> kptr s c" "kptr s' c" "vm_frame s s'"
    by (rule kmalloc_grown [OF assms]) (rule that)
  note F = proc_frameD [OF k(5)]
  show ?thesis
    by (rule that [of c "s'\<lparr>vmas := (vmas s')(c := vma0)\<rparr>"]) (use k F in \<open>auto simp: kmalloc_vma_def grown_def\<close>)
qed

lemma kmalloc_file_grown:
  assumes "vm_inv (CR3 s) s" "4 \<le> card (free_pages s)"
  obtains c s' where "kmalloc_file s = (c, s')" "grown 4 s s'" "pcbs s' = pcbs s" "mms s' = mms s" "vmas s' = vmas s"
proof -
  obtain c s' where k: "kmalloc s = (c, s')" "grown 4 s s'" "\<not> kptr s c" "kptr s' c" "vm_frame s s'"
    by (rule kmalloc_grown [OF assms]) (rule that)
  note F = proc_frameD [OF k(5)]
  show ?thesis
    by (rule that [of c "s'\<lparr>filps := (filps s')(c := file0)\<rparr>"]) (use k F in \<open>auto simp: kmalloc_file_def grown_def\<close>)
qed

lemma fork_vma_copied:
  assumes inv: "vm_inv (CR3 s) s" and room: "8 \<le> card (free_pages s)" and p: "kptr s p"
  obtains c' s' where "fork_vma child p c s = (c', s')" "copied child p c' (c = 0) s s'"
proof -
  obtain c' s1 where k: "kmalloc_vma s = (c', s1)" "grown 4 s s1" "\<not> kptr s c'" "kptr s1 c'" "pcbs s1 = pcbs s" "mms s1 = mms s"
    "vmas s1 = (vmas s)(c' := vma0)" "filps s1 = filps s"
    by (rule kmalloc_vma_grown [OF inv]) (use room in simp, rule that)
  have pc: "p \<noteq> c'" using p k(3) by auto
  define s2 where "s2 = (if c = 0 then upd_mm (mm (pcbs s child)) (\<lambda>r. r\<lparr>mmap := c'\<rparr>) s1 else s1)"
  define s3 where "s3 = upd_vma c' (\<lambda>_. vmas s2 p) s2"
  have v2: "vmas s2 = vmas s1" "pcbs s2 = pcbs s"
    "mms s2 = (if c = 0 then (mms s)(mm (pcbs s child) := (mms s (mm (pcbs s child)))\<lparr>mmap := c'\<rparr>) else mms s)"
    using k(5,6) by (simp_all add: s2_def upd_mm_def)
  have v3: "vmas s3 = (vmas s)(c' := vmas s p)" "pcbs s3 = pcbs s" "mms s3 = mms s2"
    using k(7) pc v2 by (simp_all add: s3_def upd_vma_def)
  have g3: "grown 4 s s3" "kptr s3 c'" "vm_inv (CR3 s3) s3" "4 \<le> card (free_pages s3)"
    using k(2,4) room by (auto simp: grown_def s3_def s2_def upd_vma_def upd_mm_def)
  have run: "fork_vma child p c s = (if v_file (vmas s3 p) \<noteq> 0
      then case kmalloc_file s3 of (f, s) \<Rightarrow>
        (c', upd_file f (\<lambda>_. filps (upd_vma c' (\<lambda>r. r\<lparr>v_file := f\<rparr>) s) (v_file (vmas (upd_vma c' (\<lambda>r. r\<lparr>v_file := f\<rparr>) s) p)))
          (upd_vma c' (\<lambda>r. r\<lparr>v_file := f\<rparr>) s))
      else (c', s3))"
    by (simp only: fork_vma_def k(1) prod.case Let_def s3_def s2_def k(5))
  have p3: "vmas s3 p = vmas s p" using v3(1) pc by simp
  show ?thesis
  proof (cases "v_file (vmas s p) = 0")
    case True
    have "vmas s p = (vmas s p)\<lparr>v_file := 0\<rparr>" using True by simp
    then have "\<exists>f. vmas s3 = (vmas s)(c' := (vmas s p)\<lparr>v_file := f\<rparr>)" using v3(1) by metis
    then have "copied child p c' (c = 0) s s3" using g3 k(3) v3(2,3) v2(3) unfolding copied_def grown_def by auto
    moreover have "fork_vma child p c s = (c', s3)"
      using True p3 run by simp
    ultimately show ?thesis by (rule that [rotated])
  next
    case False
    obtain f s4 where f: "kmalloc_file s3 = (f, s4)" "grown 4 s3 s4" "pcbs s4 = pcbs s3" "mms s4 = mms s3" "vmas s4 = vmas s3"
      by (rule kmalloc_file_grown [OF g3(3,4)]) (rule that)
    define s5 where "s5 = upd_vma c' (\<lambda>r. r\<lparr>v_file := f\<rparr>) s4"
    define s6 where "s6 = upd_file f (\<lambda>_. filps s5 (v_file (vmas s5 p))) s5"
    have v6: "vmas s6 = (vmas s)(c' := (vmas s p)\<lparr>v_file := f\<rparr>)" "pcbs s6 = pcbs s" "mms s6 = mms s2"
      using f(3-5) v3 by (simp_all add: s6_def s5_def upd_vma_def upd_file_def)
    have "grown 8 s s4" using grown_trans [OF g3(1) f(2)] by simp
    then have "grown 8 s s6" "kptr s6 c'" using f(2) g3(2) by (auto simp: grown_def s6_def s5_def upd_vma_def upd_file_def)
    then have "copied child p c' (c = 0) s s6" using k(3) v6 v2(3) unfolding copied_def by auto
    moreover have "fork_vma child p c s = (c', s6)"
      using False p3 run f(1) by (simp add: s6_def s5_def)
    ultimately show ?thesis by (rule that [rotated])
  qed
qed

lemma vpath_agree: "(\<And>v. v \<in> set vs \<Longrightarrow> vmas s v = vmas t v) \<Longrightarrow> vpath s p vs q = vpath t p vs q"
  by (induction vs arbitrary: p) auto

lemma copiedD:
  assumes "copied child p c flag s s'"
  shows "vm_inv (CR3 s') s'" "card (free_pages s) \<le> card (free_pages s') + 8" "kptr s v \<Longrightarrow> kptr s' v"
    "\<not> kptr s c" "kptr s' c" "pcbs s' = pcbs s" "v_next (vmas s' c) = v_next (vmas s p)" "v \<noteq> c \<Longrightarrow> vmas s' v = vmas s v"
    "mms s' = (if flag then (mms s)(mm (pcbs s child) := (mms s (mm (pcbs s child)))\<lparr>mmap := c\<rparr>) else mms s)"
  using assms unfolding copied_def grown_def by auto

lemma fork_vmas_rest:
  assumes "vm_inv (CR3 s) s" "8 * length vs \<le> card (free_pages s)" "vpath s p vs 0" "\<And>v. v \<in> set vs \<Longrightarrow> kptr s v" "c \<noteq> 0"
  shows "\<exists>c' s'. fork_vmas child p c s = Some (c', s') \<and> pcbs s' = pcbs s \<and> mms s' = mms s \<and>
    (\<forall>v. kptr s v \<longrightarrow> vmas s' v = vmas s v) \<and> (if vs = [] then c' = c else \<not> kptr s c')"
  using assms
proof (induction vs arbitrary: p c s)
  case Nil
  then show ?case by (auto simp: fork_vmas.simps)
next
  case (Cons v vs)
  have p: "p = v" "v \<noteq> 0" "vpath s (v_next (vmas s v)) vs 0" "kptr s v" using Cons.prems(3,4) by auto
  obtain c1 s1 where 1: "fork_vma child p c s = (c1, s1)" "copied child p c1 (c = 0) s s1"
    by (rule fork_vma_copied [OF Cons.prems(1), of p child c]) (use Cons.prems(2) p in \<open>simp_all add: that\<close>)
  note C = copiedD [OF 1(2)]
  have same: "vmas s1 w = vmas s w" if "kptr s w" for w using C(4) that by (intro C(8)) auto
  have "vpath s1 (v_next (vmas s1 p)) vs 0"
    using p same [of v] vpath_agree [of vs s s1] same Cons.prems(4) by simp
  moreover have "8 * length vs \<le> card (free_pages s1)" using Cons.prems(2) C(2) by simp
  moreover have "kptr s1 w" if "w \<in> set vs" for w using C(3) Cons.prems(4) that by auto
  ultimately have "\<exists>c' s'. fork_vmas child (v_next (vmas s1 p)) c1 s1 = Some (c', s') \<and> pcbs s' = pcbs s1 \<and> mms s' = mms s1 \<and>
      (\<forall>v. kptr s1 v \<longrightarrow> vmas s' v = vmas s1 v) \<and> (if vs = [] then c' = c1 else \<not> kptr s1 c')"
    by (intro Cons.IH [OF C(1) _ _ _ kptr_nonzero [OF C(5)]])
  then obtain c' s' where s': "fork_vmas child (v_next (vmas s1 p)) c1 s1 = Some (c', s')" "pcbs s' = pcbs s1" "mms s' = mms s1"
    "\<And>v. kptr s1 v \<Longrightarrow> vmas s' v = vmas s1 v" "if vs = [] then c' = c1 else \<not> kptr s1 c'"
    by blast
  have "fork_vmas child p c s = Some (c', s')" using p s'(1) 1(1) by (subst fork_vmas.simps) simp
  moreover have "\<not> kptr s c'" using s'(5) C(3,4) by (auto split: if_splits)
  ultimately show ?case using s'(2-4) C(3,6,9) same Cons.prems(5) by auto
qed

text \<open>C22. The areas of a forked child are its parent's.  After the loop of \<^verbatim>\<open>forkSyscall\<close> over a parent's list of at least two
  areas, only the first area of the child is a copy; from the second one on its list runs through the very areas of
  the parent, so that a change to one of them, such as the growth of the heap, is a change to both.\<close>

theorem fork_areas_shared:
  assumes "vm_inv (CR3 s) s" "8 * length vs \<le> card (free_pages s)" "vs = p # q # ws" "vpath s p vs 0"
    "\<And>v. v \<in> set vs \<Longrightarrow> kptr s v"
  shows "\<exists>c s' s''. fork_vmas child p 0 s = Some (c, s') \<and> s'' = upd_vma c (\<lambda>r. r\<lparr>v_next := 0\<rparr>) s' \<and>
    (let c1 = mmap (mms s'' (mm (pcbs s'' child))) in c1 \<notin> set vs \<and> vpath s'' c1 (c1 # q # ws) 0)"
proof -
  have p: "p \<noteq> 0" "v_next (vmas s p) = q" "vpath s q (q # ws) 0" "kptr s p" using assms(3-5) by auto
  obtain c1 s1 where 1: "fork_vma child p 0 s = (c1, s1)" "copied child p c1 True s s1"
    by (rule fork_vma_copied [OF assms(1), of p child 0]) (use assms(2,3) p(4) in \<open>simp_all add: that\<close>)
  note C = copiedD [OF 1(2)]
  have same: "vmas s1 w = vmas s w" if "kptr s w" for w using C(4) that by (intro C(8)) auto
  have v1: "vpath s1 q (q # ws) 0" using p(3) vpath_agree [of "q # ws" s s1] same assms(3,5) by auto
  have "8 * length (q # ws) \<le> card (free_pages s1)" using assms(2,3) C(2) by simp
  moreover have "kptr s1 w" if "w \<in> set (q # ws)" for w using C(3) assms(3,5) that by auto
  ultimately have "\<exists>c' s'. fork_vmas child q c1 s1 = Some (c', s') \<and> pcbs s' = pcbs s1 \<and> mms s' = mms s1 \<and>
      (\<forall>v. kptr s1 v \<longrightarrow> vmas s' v = vmas s1 v) \<and> (if q # ws = [] then c' = c1 else \<not> kptr s1 c')"
    by (intro fork_vmas_rest [OF C(1) _ v1 _ kptr_nonzero [OF C(5)]])
  then obtain c' s' where s': "fork_vmas child q c1 s1 = Some (c', s')" "pcbs s' = pcbs s1" "mms s' = mms s1"
    "\<And>v. kptr s1 v \<Longrightarrow> vmas s' v = vmas s1 v" "\<not> kptr s1 c'"
    by auto
  have run: "fork_vmas child p 0 s = Some (c', s')"
    using p(1,2) s'(1) 1(1) same [OF p(4)] by (subst fork_vmas.simps) simp
  let ?t = "upd_vma c' (\<lambda>r. r\<lparr>v_next := 0\<rparr>) s'"
  have t: "vmas ?t v = vmas s1 v" if "kptr s1 v" for v using s'(4) [OF that] s'(5) that by (auto simp: upd_vma_def)
  have m: "mmap (mms ?t (mm (pcbs ?t child))) = c1" using s'(2,3) C(6,9) by (simp add: upd_vma_def)
  have "c1 \<notin> set vs" using C(4) assms(5) by auto
  moreover have "vpath ?t q (q # ws) 0" using v1 vpath_agree [of "q # ws" s1 ?t] t C(3) assms(3,5) by auto
  moreover have "v_next (vmas ?t c1) = q" using t [OF C(5)] C(7) p(2) by simp
  ultimately have "let c1 = mmap (mms ?t (mm (pcbs ?t child))) in c1 \<notin> set vs \<and> vpath ?t c1 (c1 # q # ws) 0"
    unfolding m Let_def using kptr_nonzero [OF C(5)] by simp
  then show ?thesis using run by blast
qed

definition area_proc :: "unit proc_scheme" where
  "area_proc = user_proc\<lparr>vmas := (\<lambda>_. vma0)(0xffffffff80000000 := vma0\<lparr>v_next := 0xffffffff80001000\<rparr>)\<rparr>"

theorem fork_areas_shared_witness:
  "\<exists>c s' s''. fork_vmas 0x3000 0xffffffff80000000 0 area_proc = Some (c, s') \<and> s'' = upd_vma c (\<lambda>r. r\<lparr>v_next := 0\<rparr>) s' \<and>
     (let c1 = mmap (mms s'' (mm (pcbs s'' 0x3000)))
      in c1 \<notin> set [0xffffffff80000000, 0xffffffff80001000] \<and> vpath s'' c1 [c1, 0xffffffff80001000] 0)"
proof (rule fork_areas_shared [where ws = "[]"])
  show "vm_inv (CR3 area_proc) area_proc" using user_proc_inv by (simp add: area_proc_def)
  show "8 * length [0xffffffff80000000, 0xffffffff80001000 :: u64] \<le> card (free_pages area_proc)"
    by (simp add: area_proc_def user_proc_card)
  show "vpath area_proc 0xffffffff80000000 [0xffffffff80000000, 0xffffffff80001000] 0" by (simp add: area_proc_def vma0_def)
  have u: "0 \<in> used user_proc" "0x1000 \<in> used user_proc"
    unfolding used_def user_proc_free by (auto simp: word_le_nat_alt intro: image_eqI [of _ _ 0] image_eqI [of _ _ 1])
  show "kptr area_proc v" if "v \<in> set [0xffffffff80000000, 0xffffffff80001000]" for v
  proof -
    have "v = 0 OR KERNBASE \<or> v = 0x1000 OR KERNBASE" using that by simp
    then show ?thesis using u unfolding area_proc_def kptr_upd kptr_def by blast
  qed
qed simp

end
