(* ===== verification/ForkTables.thy ===== *)
theory ForkTables
  imports Fork
begin

text \<open>
  The copy of the page tables in \<^verbatim>\<open>forkSyscall\<close>: the four nested loops share every page of the parent between both
  processes, read-only and marked copy on write.

  The loops are the same at every level of the tree, so one function over the level covers them, and one induction over
  the level and over the entries of a table shows what a part of the loops has achieved.
\<close>

section \<open>The loops by level\<close>

fun flevel :: "nat \<Rightarrow> u64 \<Rightarrow> u64 \<Rightarrow> u64 \<Rightarrow> 'a vm_scheme \<Rightarrow> 'a vm_scheme" where
  "flevel 0 c p i s = fork_pte c p i s"
| "flevel (Suc n) c p i s =
     (let e = entries s p i in
      if present e
      then let (c', s) = pdpeAlloc c i CHR ''V'' s in fold (flevel n c' (tbl e OR KERNBASE)) (idx512 512) s
      else s)"

lemma fork_levels:
  "fork_pte = flevel 0" "fork_pde = flevel (Suc 0)" "fork_pdpe = flevel (Suc (Suc 0))" "fork_pml4e = flevel (Suc (Suc (Suc 0)))"
proof -
  show 0: "fork_pte = flevel 0" by (intro ext) simp
  show 1: "fork_pde = flevel (Suc 0)"
    by (intro ext) (unfold fork_pde_def flevel.simps(2) Let_def pdeAlloc_pdpeAlloc 0, rule refl)
  show 2: "fork_pdpe = flevel (Suc (Suc 0))"
    by (intro ext) (unfold fork_pdpe_def flevel.simps(2) Let_def pdeAlloc_pdpeAlloc 1, rule refl)
  show "fork_pml4e = flevel (Suc (Suc (Suc 0)))"
    by (intro ext) (unfold fork_pml4e_def flevel.simps(2) Let_def pdeAlloc_pdpeAlloc 2, rule refl)
qed

section \<open>Paths below a table\<close>

abbreviation ix :: "u64 list \<Rightarrow> bool" where
  "ix xs \<equiv> (\<forall>i \<in> set xs. i < 512)"

text \<open>The entry at the end of a path.\<close>

definition look :: "(u64 \<Rightarrow> u64 \<Rightarrow> u64) \<Rightarrow> u64 \<Rightarrow> u64 list \<Rightarrow> u64 \<Rightarrow> u64" where
  "look fr t xs k = (case walk fr t xs of None \<Rightarrow> 0 | Some b \<Rightarrow> fr b k)"

lemma pt_lookup_look: "pt_lookup fr r v = look fr r (vidx v) (getIndex v 12)"
  by (simp add: pt_lookup_def look_def)

lemma look_simps [simp]:
  "look fr t [] k = fr t k" "look fr t (i # xs) k = (if present (fr t i) then look fr (tbl (fr t i)) xs k else 0)"
  by (simp_all add: look_def)

lemma walk_same:
  assumes "\<And>n b. n < length xs \<Longrightarrow> walk fr t (take n xs) = Some b \<Longrightarrow> fr' b (xs ! n) = fr b (xs ! n)"
  shows "walk fr' t xs = walk fr t xs"
  using assms
proof (induction xs arbitrary: t)
  case (Cons i xs)
  have e: "fr' t i = fr t i" using Cons.prems [of 0 t] by simp
  have "walk fr' (tbl (fr t i)) xs = walk fr (tbl (fr t i)) xs" if "present (fr t i)"
    using Cons.prems [of "Suc _"] that by (intro Cons.IH) simp
  then show ?case by (simp add: e)
qed simp

text \<open>The entries of parent and child after the copy.\<close>

definition cow :: "u64 \<Rightarrow> u64" where
  "cow e = tbl e OR P_BIT OR U_BIT OR COW_BIT"

definition cow_parent :: "u64 \<Rightarrow> u64" where
  "cow_parent e = (if present e then cow e else e)"

definition cow_child :: "u64 \<Rightarrow> u64" where
  "cow_child e = (if present e then cow e else 0)"

text \<open>The tables below \<open>p\<close>, down to \<open>n\<close> levels, are a tree of frames in use that does not contain the table \<open>c\<close> of the
  child.\<close>

definition below :: "nat \<Rightarrow> u64 \<Rightarrow> u64 \<Rightarrow> (u64 \<Rightarrow> u64 \<Rightarrow> u64) \<Rightarrow> u64 set \<Rightarrow> bool" where
  "below n c p fr U \<longleftrightarrow>
     (\<forall>xs b. ix xs \<longrightarrow> length xs \<le> n \<longrightarrow> walk fr p xs = Some b \<longrightarrow> b \<in> U \<and> b \<noteq> c) \<and>
     (\<forall>xs ys b. ix xs \<longrightarrow> ix ys \<longrightarrow> length xs \<le> n \<longrightarrow> length ys \<le> n \<longrightarrow> walk fr p xs = Some b \<longrightarrow> walk fr p ys = Some b \<longrightarrow> xs = ys)"

lemma belowD:
  assumes "below n c p fr U" "ix xs" "length xs \<le> n" "walk fr p xs = Some b"
  shows "b \<in> U" "b \<noteq> c" "ix ys \<Longrightarrow> length ys \<le> n \<Longrightarrow> walk fr p ys = Some b \<Longrightarrow> xs = ys"
  using assms unfolding below_def by blast+

text \<open>The paths whose tables the copy creates for a set \<open>I\<close> of entries.\<close>

definition paths_in :: "nat \<Rightarrow> u64 \<Rightarrow> (u64 \<Rightarrow> u64 \<Rightarrow> u64) \<Rightarrow> u64 set \<Rightarrow> u64 list set" where
  "paths_in n p fr I = {xs. ix xs \<and> xs \<noteq> [] \<and> length xs \<le> n \<and> hd xs \<in> I \<and> walk fr p xs \<noteq> None}"

lemma finite_paths_in: "finite (paths_in n p fr I)"
proof (rule finite_subset)
  show "paths_in n p fr I \<subseteq> {xs. set xs \<subseteq> UNIV \<and> length xs \<le> n}" by (auto simp: paths_in_def)
qed (rule finite_lists_length_le, simp)

text \<open>What the copy has achieved when the entries \<open>I\<close> of the table \<open>p\<close> are done, from state \<open>s\<close> to \<open>s'\<close>.\<close>

definition cowed :: "nat \<Rightarrow> u64 \<Rightarrow> u64 \<Rightarrow> u64 set \<Rightarrow> 'a vm_scheme \<Rightarrow> 'a vm_scheme \<Rightarrow> bool" where
  "cowed n c p I s s' \<longleftrightarrow>
     vm_frame s s' \<and> pa_inv s' \<and> used s \<subseteq> used s' \<and>
     (\<forall>q \<in> used s. q \<noteq> c \<longrightarrow> (\<forall>xs. ix xs \<longrightarrow> length xs = n \<longrightarrow> walk (frames s) p xs \<noteq> Some q) \<longrightarrow> frames s' q = frames s q) \<and>
     (\<forall>j. j \<notin> I \<longrightarrow> frames s' c j = frames s c j) \<and>
     (\<forall>xs k b. ix (xs @ [k]) \<longrightarrow> length xs = n \<longrightarrow> walk (frames s) p xs = Some b \<longrightarrow>
        frames s' b k = (if hd (xs @ [k]) \<in> I then cow_parent (frames s b k) else frames s b k)) \<and>
     (\<forall>xs k. ix (xs @ [k]) \<longrightarrow> length xs = n \<longrightarrow> hd (xs @ [k]) \<in> I \<longrightarrow>
        look (frames s') c xs k = cow_child (look (frames s) p xs k)) \<and>
     (\<forall>xs b. ix xs \<longrightarrow> xs \<noteq> [] \<longrightarrow> length xs \<le> n \<longrightarrow> hd xs \<in> I \<longrightarrow> walk (frames s') c xs = Some b \<longrightarrow>
        b \<in> used s' - used s \<and>
        (\<forall>ys. ix ys \<longrightarrow> ys \<noteq> [] \<longrightarrow> length ys \<le> n \<longrightarrow> hd ys \<in> I \<longrightarrow> walk (frames s') c ys = Some b \<longrightarrow> xs = ys)) \<and>
     card (free_pages s) = card (free_pages s') + card (paths_in n p (frames s) I)"

lemma cowedD:
  assumes "cowed n c p I s s'"
  shows "vm_frame s s'" "pa_inv s'" "used s \<subseteq> used s'"
    "q \<in> used s \<Longrightarrow> q \<noteq> c \<Longrightarrow> \<forall>xs. ix xs \<longrightarrow> length xs = n \<longrightarrow> walk (frames s) p xs \<noteq> Some q \<Longrightarrow> frames s' q = frames s q"
    "j \<notin> I \<Longrightarrow> frames s' c j = frames s c j"
    "ix (xs @ [k]) \<Longrightarrow> length xs = n \<Longrightarrow> walk (frames s) p xs = Some b \<Longrightarrow>
       frames s' b k = (if hd (xs @ [k]) \<in> I then cow_parent (frames s b k) else frames s b k)"
    "ix (xs @ [k]) \<Longrightarrow> length xs = n \<Longrightarrow> hd (xs @ [k]) \<in> I \<Longrightarrow> look (frames s') c xs k = cow_child (look (frames s) p xs k)"
    "ix xs \<Longrightarrow> xs \<noteq> [] \<Longrightarrow> length xs \<le> n \<Longrightarrow> hd xs \<in> I \<Longrightarrow> walk (frames s') c xs = Some b \<Longrightarrow> b \<in> used s' - used s"
    "ix xs \<Longrightarrow> xs \<noteq> [] \<Longrightarrow> length xs \<le> n \<Longrightarrow> hd xs \<in> I \<Longrightarrow> walk (frames s') c xs = Some b \<Longrightarrow>
       ix ys \<Longrightarrow> ys \<noteq> [] \<Longrightarrow> length ys \<le> n \<Longrightarrow> hd ys \<in> I \<Longrightarrow> walk (frames s') c ys = Some b \<Longrightarrow> xs = ys"
    "card (free_pages s) = card (free_pages s') + card (paths_in n p (frames s) I)"
proof -
  note C = assms [unfolded cowed_def]
  note C2 = C [THEN conjunct2, THEN conjunct2]
  note C4 = C2 [THEN conjunct2, THEN conjunct2]
  note C6 = C4 [THEN conjunct2, THEN conjunct2]
  show "vm_frame s s'" "pa_inv s'" by (rule C [THEN conjunct1] C [THEN conjunct2, THEN conjunct1])+
  show "used s \<subseteq> used s'" by (rule C2 [THEN conjunct1])
  show "q \<in> used s \<Longrightarrow> q \<noteq> c \<Longrightarrow> \<forall>xs. ix xs \<longrightarrow> length xs = n \<longrightarrow> walk (frames s) p xs \<noteq> Some q \<Longrightarrow> frames s' q = frames s q"
    by (rule C2 [THEN conjunct2, THEN conjunct1, THEN bspec, THEN mp, THEN mp])
  show "j \<notin> I \<Longrightarrow> frames s' c j = frames s c j" by (rule C4 [THEN conjunct1, rule_format])
  show "ix (xs @ [k]) \<Longrightarrow> length xs = n \<Longrightarrow> walk (frames s) p xs = Some b \<Longrightarrow>
       frames s' b k = (if hd (xs @ [k]) \<in> I then cow_parent (frames s b k) else frames s b k)"
    using C4 [THEN conjunct2, THEN conjunct1] by blast
  show "ix (xs @ [k]) \<Longrightarrow> length xs = n \<Longrightarrow> hd (xs @ [k]) \<in> I \<Longrightarrow> look (frames s') c xs k = cow_child (look (frames s) p xs k)"
    using C6 [THEN conjunct1] by blast
  show "ix xs \<Longrightarrow> xs \<noteq> [] \<Longrightarrow> length xs \<le> n \<Longrightarrow> hd xs \<in> I \<Longrightarrow> walk (frames s') c xs = Some b \<Longrightarrow> b \<in> used s' - used s"
    using C6 [THEN conjunct2, THEN conjunct1] by blast
  show "ix xs \<Longrightarrow> xs \<noteq> [] \<Longrightarrow> length xs \<le> n \<Longrightarrow> hd xs \<in> I \<Longrightarrow> walk (frames s') c xs = Some b \<Longrightarrow>
       ix ys \<Longrightarrow> ys \<noteq> [] \<Longrightarrow> length ys \<le> n \<Longrightarrow> hd ys \<in> I \<Longrightarrow> walk (frames s') c ys = Some b \<Longrightarrow> xs = ys"
    using C6 [THEN conjunct2, THEN conjunct1] by blast
  show "card (free_pages s) = card (free_pages s') + card (paths_in n p (frames s) I)"
    by (rule C6 [THEN conjunct2, THEN conjunct2])
qed

text \<open>The walks of the parent above its leaves stay, and so do those of the child through the entries that are done.\<close>

lemma cowed_parent_walk:
  assumes C: "cowed n c p I s s'" and B: "below n c p (frames s) (used s)" and xs: "ix xs" "length xs \<le> n"
  shows "walk (frames s') p xs = walk (frames s) p xs"
proof (rule walk_same)
  fix m b
  assume m: "m < length xs" and b: "walk (frames s) p (take m xs) = Some b"
  have t: "ix (take m xs)" "length (take m xs) \<le> n" "length (take m xs) < n" using xs m by (auto dest: in_set_takeD)
  note D = belowD [OF B t(1,2) b]
  have "\<forall>ys. ix ys \<longrightarrow> length ys = n \<longrightarrow> walk (frames s) p ys \<noteq> Some b" using D(3) t(3) by fastforce
  then show "frames s' b (xs ! m) = frames s b (xs ! m)" using cowedD(4) [OF C D(1,2)] by simp
qed

lemma child_walk_same:
  assumes C: "cowed n c p I s s'" and xs: "ix xs" "length xs \<le> n" "xs \<noteq> []" "hd xs \<in> I"
    and fr: "\<And>b. b \<in> used s' - used s \<Longrightarrow> fr b = frames s' b" "\<And>j. j \<in> I \<Longrightarrow> fr c j = frames s' c j"
  shows "walk fr c xs = walk (frames s') c xs"
proof (rule walk_same)
  fix m b
  assume m: "m < length xs" and b: "walk (frames s') c (take m xs) = Some b"
  show "fr b (xs ! m) = frames s' b (xs ! m)"
  proof (cases m)
    case 0
    then show ?thesis using b fr(2) xs(3,4) by (simp add: hd_conv_nth)
  next
    case (Suc j)
    then have "take m xs \<noteq> []" "hd (take m xs) \<in> I" "ix (take m xs)" "length (take m xs) \<le> n"
      using xs by (auto dest: in_set_takeD)
    then have "b \<in> used s' - used s" using b by (intro cowedD(8) [OF C])
    then show ?thesis using fr(1) by simp
  qed
qed

lemma below_step:
  assumes C: "cowed n c p I s s'" and B: "below n c p (frames s) (used s)"
  shows "below n c p (frames s') (used s')"
proof -
  have w: "walk (frames s) p xs = Some b" if "walk (frames s') p xs = Some b" "ix xs" "length xs \<le> n" for xs b
    using cowed_parent_walk [OF C B that(2,3)] that(1) by simp
  show ?thesis
    unfolding below_def
  proof (intro conjI allI impI)
    fix xs b
    assume x: "ix xs" "length xs \<le> n" "walk (frames s') p xs = Some b"
    note D = belowD [OF B x(1,2) w [OF x(3,1,2)]]
    show "b \<in> used s'" "b \<noteq> c" using D(1,2) cowedD(3) [OF C] by auto
    show "xs = ys" if "ix ys" "length ys \<le> n" "walk (frames s') p ys = Some b" for ys
      using D(3) [OF that(1,2) w [OF that(3,1,2)]] .
  qed
qed

lemma paths_in_insert:
  assumes "i \<notin> I"
  shows "card (paths_in n p fr (insert i I)) = card (paths_in n p fr I) + card (paths_in n p fr {i})"
proof -
  have "paths_in n p fr (insert i I) = paths_in n p fr I \<union> paths_in n p fr {i}" by (auto simp: paths_in_def)
  moreover have "paths_in n p fr I \<inter> paths_in n p fr {i} = {}" using assms by (auto simp: paths_in_def)
  ultimately show ?thesis by (simp add: card_Un_disjoint finite_paths_in)
qed

lemma paths_in_cong:
  assumes "\<And>xs. ix xs \<Longrightarrow> length xs \<le> n \<Longrightarrow> walk fr' p xs = walk fr p xs"
  shows "paths_in n p fr' I = paths_in n p fr I"
  using assms unfolding paths_in_def by auto

lemma look_cong: "walk fr' t xs = walk fr t xs \<Longrightarrow> (\<And>b. walk fr t xs = Some b \<Longrightarrow> fr' b k = fr b k) \<Longrightarrow> look fr' t xs k = look fr t xs k"
  by (auto simp: look_def split: option.splits)

text \<open>Two parts of the copy make a larger one.\<close>

lemma cowed_insert:
  assumes B: "below n c p (frames s) (used s)" and c: "c \<in> used s"
    and A: "cowed n c p I s t" and S: "cowed n c p {i} t u" and i: "i \<notin> I"
  shows "cowed n c p (insert i I) s u"
proof -
  note a = cowedD [OF A] and b = cowedD [OF S]
  have w: "walk (frames t) p xs = walk (frames s) p xs" if "ix xs" "length xs \<le> n" for xs
    by (rule cowed_parent_walk [OF A B that])
  have leaf: "(\<forall>xs. ix xs \<longrightarrow> length xs = n \<longrightarrow> walk (frames t) p xs \<noteq> Some q) \<longleftrightarrow>
      (\<forall>xs. ix xs \<longrightarrow> length xs = n \<longrightarrow> walk (frames s) p xs \<noteq> Some q)" for q using w by (metis order_refl)
  have new: "frames u q = frames t q" if "q \<in> used t - used s" for q
  proof -
    have "\<forall>xs. ix xs \<longrightarrow> length xs = n \<longrightarrow> walk (frames s) p xs \<noteq> Some q" using belowD(1) [OF B] that by fastforce
    then show ?thesis using b(4) [of q] that c leaf by auto
  qed
  have cw: "walk (frames u) c xs = walk (frames t) c xs" if "ix xs" "length xs \<le> n" "xs \<noteq> []" "hd xs \<in> I" for xs
  proof (rule child_walk_same [OF A that])
    show "frames u c j = frames t c j" if "j \<in> I" for j using i that by (intro b(5)) auto
  qed (rule new)
  have old: "frames u q = frames s q" if "q \<in> used s" "q \<noteq> c" "\<forall>xs. ix xs \<longrightarrow> length xs = n \<longrightarrow> walk (frames s) p xs \<noteq> Some q" for q
    using a(4) [OF that] b(4) [of q] that a(3) leaf by auto
  have par: "frames u b' k = (if hd (xs @ [k]) \<in> insert i I then cow_parent (frames s b' k) else frames s b' k)"
    if "ix (xs @ [k])" "length xs = n" "walk (frames s) p xs = Some b'" for xs k b'
    using a(6) [OF that] b(6) [OF that(1,2)] that w [of xs] i by auto
  have chl: "look (frames u) c xs k = cow_child (look (frames s) p xs k)"
    if h: "ix (xs @ [k])" "length xs = n" "hd (xs @ [k]) \<in> insert i I" for xs k
  proof (cases "hd (xs @ [k]) = i")
    case True
    have "look (frames t) p xs k = look (frames s) p xs k"
      using h a(6) [OF h(1,2)] w [of xs] True i by (intro look_cong) auto
    then show ?thesis using b(7) [OF h(1,2)] True by simp
  next
    case False
    then have I: "hd (xs @ [k]) \<in> I" using h(3) by simp
    have "look (frames u) c xs k = look (frames t) c xs k"
    proof (cases "xs = []")
      case True
      then have "k \<noteq> i" using I i by auto
      then show ?thesis using b(5) [of k] True by simp
    next
      case ne: False
      then have hI: "hd xs \<in> I" using I by simp
      show ?thesis using h cw [of xs] ne hI a(8) [of xs] new by (intro look_cong) auto
    qed
    then show ?thesis using a(7) [OF h(1,2) I] by simp
  qed
  have tr: "b' \<in> used u - used s" "ix ys \<Longrightarrow> ys \<noteq> [] \<Longrightarrow> length ys \<le> n \<Longrightarrow> hd ys \<in> insert i I \<Longrightarrow> walk (frames u) c ys = Some b' \<Longrightarrow> xs = ys"
    if h: "ix xs" "xs \<noteq> []" "length xs \<le> n" "hd xs \<in> insert i I" "walk (frames u) c xs = Some b'" for xs ys b'
  proof -
    have cases: "(hd zs \<in> I \<and> b' \<in> used t - used s \<and> walk (frames t) c zs = Some b') \<or> (hd zs = i \<and> b' \<in> used u - used t)"
      if "ix zs" "zs \<noteq> []" "length zs \<le> n" "hd zs \<in> insert i I" "walk (frames u) c zs = Some b'" for zs
      using that cw [of zs] a(8) [of zs b'] b(8) [of zs b'] by (cases "hd zs = i") auto
    show "b' \<in> used u - used s" using cases [OF h] a(3) b(3) by auto
    show "xs = ys" if y: "ix ys" "ys \<noteq> []" "length ys \<le> n" "hd ys \<in> insert i I" "walk (frames u) c ys = Some b'"
      using cases [OF h] cases [OF y]
    proof (elim disjE conjE)
      assume "hd xs \<in> I" "walk (frames t) c xs = Some b'" "hd ys \<in> I" "walk (frames t) c ys = Some b'"
      then show ?thesis using a(9) h(1-3) y(1-3) by blast
    next
      assume "hd xs = i" "hd ys = i"
      then show ?thesis using b(9) [OF h(1-3) _ h(5) y(1-3) _ y(5)] by simp
    qed auto
  qed
  have "card (free_pages s) = card (free_pages u) + card (paths_in n p (frames s) (insert i I))"
    using a(10) b(10) paths_in_insert [OF i] paths_in_cong [OF w] by simp
  moreover have "vm_frame s u" "pa_inv u" "used s \<subseteq> used u" using vm_frame_trans [OF a(1) b(1)] b(2,3) a(3) by auto
  moreover have "frames u c j = frames s c j" if "j \<notin> insert i I" for j using a(5) b(5) that by simp
  ultimately show ?thesis unfolding cowed_def using old par chl tr by blast
qed

section \<open>One entry, all entries\<close>

text \<open>The frames fit in the window, and there is room for the tables of the entry.\<close>

definition ready :: "nat \<Rightarrow> u64 \<Rightarrow> u64 \<Rightarrow> u64 set \<Rightarrow> 'a vm_scheme \<Rightarrow> bool" where
  "ready n c p I s \<longleftrightarrow> pa_inv s \<and> lastPage s \<le> 2 ^ 19 \<and> below n c p (frames s) (used s) \<and> c \<in> used s \<and>
     (\<forall>i \<in> I. i < 512 \<and> frames s c i = 0) \<and> card (paths_in n p (frames s) I) \<le> card (free_pages s)"

lemma paths_in_none [simp]: "paths_in n p fr {} = {}"
  by (simp add: paths_in_def)

lemma cowed_none: "pa_inv s \<Longrightarrow> cowed n c p {} s s"
  by (simp add: cowed_def)

lemma cowed_all:
  assumes step: "\<And>i s. ready n c p {i} s \<Longrightarrow> cowed n c p {i} s (f i s)"
    and R: "ready n c p (set is) s" and d: "distinct is"
  shows "cowed n c p (set is) s (fold f is s)"
  using R d
proof (induction "is" rule: rev_induct)
  case Nil
  then show ?case by (simp add: cowed_none ready_def)
next
  case (snoc i js)
  let ?fr = "frames s"
  have i: "i \<notin> set js" "i < 512" "?fr c i = 0" using snoc.prems by (auto simp: ready_def)
  note r = snoc.prems(1) [unfolded ready_def]
  have B: "below n c p ?fr (used s)" "c \<in> used s" using r by simp_all
  have cd: "card (paths_in n p ?fr (set js)) + card (paths_in n p ?fr {i}) \<le> card (free_pages s)"
    using r paths_in_insert [OF i(1), of n p ?fr] by simp
  have "ready n c p (set js) s" using r cd by (auto simp: ready_def)
  then have A: "cowed n c p (set js) s (fold f js s)" using snoc by simp
  define t where "t = fold f js s"
  note a = cowedD [OF A, folded t_def]
  have "paths_in n p (frames t) {i} = paths_in n p ?fr {i}"
    by (rule paths_in_cong, rule cowed_parent_walk [OF A [folded t_def] B(1)])
  then have "ready n c p {i} t"
    using below_step [OF A [folded t_def] B(1)] a(2,3) a(5) [OF i(1)] i a(10) cd B(2) r vm_frameD(4) [OF a(1)]
    by (auto simp: ready_def)
  from cowed_insert [OF B A [folded t_def] step [OF this] i(1)] show ?case by (simp add: t_def)
qed

lemma entries_window: "unat t < 2 ^ 31 \<Longrightarrow> entries s (t OR KERNBASE) i = frames s t i"
  by (simp add: entries_def phys_or)

lemma set_entry_window:
  "unat t < 2 ^ 31 \<Longrightarrow> set_entry (t OR KERNBASE) i e s = s\<lparr>frames := (frames s)(t := (frames s t)(i := e))\<rparr>"
  by (simp add: set_entry_def phys_or)

lemma readyD:
  assumes "ready n c p I s"
  shows "unat c < 2 ^ 31" "unat p < 2 ^ 31" "p \<in> used s" "p \<noteq> c"
proof -
  note r = assms [unfolded ready_def]
  have "p \<in> used s \<and> p \<noteq> c" using belowD(1,2) [of n c p "frames s" "used s" "[]" p] r by simp
  then show "unat c < 2 ^ 31" "unat p < 2 ^ 31" "p \<in> used s" "p \<noteq> c" using used_addr(1) r by blast+
qed

lemma step_leaf:
  assumes R: "ready 0 c p {i} s"
  shows "cowed 0 c p {i} s (flevel 0 (c OR KERNBASE) (p OR KERNBASE) i s)"
proof -
  note u = readyD [OF R] and r = R [unfolded ready_def]
  let ?e = "frames s p i"
  have pi: "paths_in 0 p (frames s) {i} = {}" by (auto simp: paths_in_def)
  show ?thesis
  proof (cases "present ?e")
    case False
    then have "flevel 0 (c OR KERNBASE) (p OR KERNBASE) i s = s"
      by (simp add: fork_pte_def entries_window [OF u(2)])
    then show ?thesis using r False pi by (simp add: cowed_def cow_parent_def cow_child_def)
  next
    case True
    let ?s = "s\<lparr>frames := ((frames s)(c := (frames s c)(i := cow ?e)))(p := (frames s p)(i := cow ?e))\<rparr>"
    have f: "flevel 0 (c OR KERNBASE) (p OR KERNBASE) i s = ?s"
      using True u(4) by (simp add: fork_pte_def entries_window [OF u(2)] set_entry_window [OF u(1)] set_entry_window [OF u(2)] Let_def cow_def kprintf.simps)
    have "vm_frame s ?s" "pa_inv ?s" "used ?s = used s" "free_pages ?s = free_pages s"
      using r by (simp_all add: vm_frame_def pa_inv_def used_def free_pages_def)
    then show ?thesis using True u(4) pi unfolding f cowed_def by (simp add: cow_parent_def cow_child_def)
  qed
qed

lemma idx512_props:
  assumes "m \<le> 512"
  shows "set (idx512 m) = {j. j < of_nat m}" "distinct (idx512 m)"
proof -
  show "set (idx512 m) = {j. j < of_nat m}"
  proof (intro set_eqI)
    fix j :: u64
    have um: "unat (of_nat m :: u64) = m" using assms by (intro unat_of_nat_eq) simp
    have "j \<in> set (idx512 m) \<longleftrightarrow> (\<exists>k < m. j = of_nat k)" by (auto simp: idx512_def)
    also have "\<dots> \<longleftrightarrow> unat j < m"
    proof
      assume "\<exists>k < m. j = of_nat k"
      then obtain k where "k < m" "j = of_nat k" by blast
      then show "unat j < m" using assms unat_of_nat_eq [of k, where 'a = 64] by simp
    next
      assume "unat j < m"
      moreover have "j = of_nat (unat j)" by simp
      ultimately show "\<exists>k < m. j = of_nat k" by blast
    qed
    finally show "j \<in> set (idx512 m) \<longleftrightarrow> j \<in> {j. j < of_nat m}" by (simp add: word_less_nat_alt um)
  qed
  show "distinct (idx512 m)" unfolding idx512_def using assms
    by (auto simp: distinct_map inj_on_def dest: of_nat_u64_inj)
qed

lemma paths_in_down:
  assumes "present (fr p i)" "i < 512"
  shows "card (paths_in (Suc n) p fr {i}) = Suc (card (paths_in n (tbl (fr p i)) fr {j. j < 512}))"
proof -
  have "paths_in (Suc n) p fr {i} = insert [i] (Cons i ` paths_in n (tbl (fr p i)) fr {j. j < 512})"
  proof (intro equalityI subsetI)
    fix xs
    assume "xs \<in> paths_in (Suc n) p fr {i}"
    then show "xs \<in> insert [i] (Cons i ` paths_in n (tbl (fr p i)) fr {j. j < 512})"
      by (cases xs; cases "tl xs") (auto simp: paths_in_def split: if_splits)
  qed (use assms in \<open>auto simp: paths_in_def\<close>)
  moreover have "[i] \<notin> Cons i ` paths_in n (tbl (fr p i)) fr {j. j < 512}" by (auto simp: paths_in_def)
  ultimately show ?thesis by (simp add: finite_paths_in card_image)
qed

lemma step_inner_new:
  assumes R: "ready (Suc n) c p {i} s" and pr: "present (frames s p i)"
  defines "p' \<equiv> tbl (frames s p i)"
  obtains c' s1 where "pdpeAlloc (c OR KERNBASE) i CHR ''V'' s = (c' OR KERNBASE, s1)" "c' \<notin> used s"
    "used s1 = insert c' (used s)" "frames s1 = ((frames s)(c' := (\<lambda>_. 0)))(c := (frames s c)(i := c' OR 7))"
    "vm_frame s s1" "pa_inv s1" "tbl (c' OR 7) = c'" "card (free_pages s1) + 1 = card (free_pages s)"
    "ready n c' p' {j. j < 512} s1"
    "\<And>xs. ix xs \<Longrightarrow> length xs \<le> n \<Longrightarrow> walk (frames s1) p' xs = walk (frames s) p' xs"
proof -
  note u = readyD [OF R] and r = R [unfolded ready_def]
  have B: "below (Suc n) c p (frames s) (used s)" and lp: "lastPage s \<le> 2 ^ 19" and c: "c \<in> used s" and pa: "pa_inv s" and i: "i < 512"
    using r by simp_all
  have card: "card (paths_in (Suc n) p (frames s) {i}) = Suc (card (paths_in n p' (frames s) {j. j < 512}))"
    unfolding p'_def using pr i by (rule paths_in_down [where fr = "frames s" and p = p and i = i])
  then have ne: "free_pages s \<noteq> {}" using r by auto
  obtain c' s0 where al: "allocatePage s = (c', s0)" by force
  note A = allocatePage_used [OF pa lp ne al]
  have fr0: "frames s0 = frames s" by (subst A(5)) simp
  have c'u: "c' \<in> used s0" using A(3) by simp
  have c'b: "unat c' < 2 ^ 31" "\<And>m. bit c' m \<Longrightarrow> 12 \<le> m" using used_addr [OF c'u] A(7) lp by simp_all
  have cc: "c \<noteq> c'" using A(2) c by auto
  define s1 where "s1 = s0\<lparr>frames := ((frames s0)(c' := (\<lambda>_. 0)))(c := (frames s0 c)(i := c' OR 7))\<rparr>"
  have al1: "pdpeAlloc (c OR KERNBASE) i CHR ''V'' s = (c' OR KERNBASE, s1)"
    using pdpeAlloc_eq [OF variants(2) u(1) al c'b(1) cc, of i] by (simp add: s1_def)
  have f1: "frames s1 = ((frames s)(c' := (\<lambda>_. 0)))(c := (frames s c)(i := c' OR 7))" by (simp add: s1_def fr0)
  have us: "used s1 = insert c' (used s)" "free_pages s1 = free_pages s0" "pa_inv s1" "lastPage s1 = lastPage s"
    using A(1,3,7) by (simp_all add: s1_def used_def free_pages_def pa_inv_def)
  have vf: "vm_frame s s1" using pdpeAlloc_frame [of s "c OR KERNBASE" i "CHR ''V''"] al1 by simp
  have up: "walk (frames s) p (i # xs) = walk (frames s) p' xs" for xs using pr by (simp add: p'_def)
  have D: "b \<in> used s" "b \<noteq> c" "ix ys \<Longrightarrow> length ys \<le> n \<Longrightarrow> walk (frames s) p' ys = Some b \<Longrightarrow> xs = ys"
    if "ix xs" "length xs \<le> n" "walk (frames s) p' xs = Some b" for xs ys b
    using belowD(1,2) [OF B, of "i # xs" b] belowD(3) [OF B, of "i # xs" b "i # ys"] that i up by auto
  have w: "walk (frames s1) p' xs = walk (frames s) p' xs" if "ix xs" "length xs \<le> n" for xs
  proof (rule walk_same)
    fix m b
    assume m: "m < length xs" and b: "walk (frames s) p' (take m xs) = Some b"
    have "ix (take m xs)" "length (take m xs) \<le> n" using that by (auto dest: in_set_takeD)
    then have "b \<in> used s" "b \<noteq> c" using D(1,2) b by blast+
    then show "frames s1 b (xs ! m) = frames s b (xs ! m)" using A(2) by (auto simp: f1)
  qed
  have "below n c' p' (frames s1) (used s1)"
    unfolding below_def
  proof (intro conjI allI impI)
    fix xs b
    assume x: "ix xs" "length xs \<le> n" "walk (frames s1) p' xs = Some b"
    have x': "walk (frames s) p' xs = Some b" using x w by simp
    show "b \<in> used s1" "b \<noteq> c'" using D(1) [OF x(1,2) x'] A(2) us(1) by auto
    show "xs = ys" if "ix ys" "length ys \<le> n" "walk (frames s1) p' ys = Some b" for ys
      using D(3) [OF x(1,2) x' that(1,2)] w that by simp
  qed
  moreover have "card (paths_in n p' (frames s1) {j. j < 512}) \<le> card (free_pages s1)"
    using paths_in_cong [of n "frames s1" p' "frames s", OF w] card r A(4) us(2) by simp
  ultimately have "ready n c' p' {j. j < 512} s1" using us lp cc by (simp add: ready_def f1)
  moreover have "tbl (c' OR 7) = c'" using c'b(2) by (intro frame_mask_or) simp_all
  ultimately show ?thesis using that [OF al1 A(2) us(1) f1 vf us(3)] A(4) us(2) w by simp
qed

lemma step_inner:
  fixes s :: "'a vm_scheme"
  assumes IH: "\<And>c p i (s :: 'a vm_scheme). ready n c p {i} s \<Longrightarrow> cowed n c p {i} s (flevel n (c OR KERNBASE) (p OR KERNBASE) i s)"
    and R: "ready (Suc n) c p {i} s"
  shows "cowed (Suc n) c p {i} s (flevel (Suc n) (c OR KERNBASE) (p OR KERNBASE) i s)"
proof -
  note u = readyD [OF R] and r = R [unfolded ready_def]
  let ?e = "frames s p i" and ?J = "{j. j < 512} :: u64 set"
  have B: "below (Suc n) c p (frames s) (used s)" and i: "i < 512" "frames s c i = 0" and c: "c \<in> used s" using r by simp_all
  show ?thesis
  proof (cases "present ?e")
    case False
    then have "flevel (Suc n) (c OR KERNBASE) (p OR KERNBASE) i s = s" by (simp add: entries_window [OF u(2)])
    moreover have "paths_in (Suc n) p (frames s) {i} = {}" using False by (auto simp: paths_in_def neq_Nil_conv)
    moreover have nw: "walk (frames s) p (i # xs) = None" "walk (frames s) c (i # xs) = None" for xs using False i by simp_all
    moreover have "look (frames s) p xs k = 0" "look (frames s) c xs k = 0" if "length xs = Suc n" "hd (xs @ [k]) \<in> {i}" for xs k
      using that nw by (cases xs; simp add: look_def)+
    moreover have "frames s b k = (if hd (xs @ [k]) \<in> {i} then cow_parent (frames s b k) else frames s b k)"
      if "length xs = Suc n" "walk (frames s) p xs = Some b" for xs k b using that nw by (cases xs) auto
    moreover have "walk (frames s) c xs = None" if "xs \<noteq> []" "hd xs \<in> {i}" for xs using that nw by (cases xs) auto
    ultimately show ?thesis using r by (simp add: cowed_def cow_child_def)
  next
    case True
    let ?p = "tbl ?e"
    obtain c' s1 where a: "pdpeAlloc (c OR KERNBASE) i CHR ''V'' s = (c' OR KERNBASE, s1)" "c' \<notin> used s"
      "used s1 = insert c' (used s)" "frames s1 = ((frames s)(c' := (\<lambda>_. 0)))(c := (frames s c)(i := c' OR 7))"
      "vm_frame s s1" "pa_inv s1" "tbl (c' OR 7) = c'" "card (free_pages s1) + 1 = card (free_pages s)"
      "ready n c' ?p ?J s1" "\<And>xs. ix xs \<Longrightarrow> length xs \<le> n \<Longrightarrow> walk (frames s1) ?p xs = walk (frames s) ?p xs"
      by (rule step_inner_new [OF R True]) (rule that)
    define s2 where "s2 = fold (flevel n (c' OR KERNBASE) (?p OR KERNBASE)) (idx512 512) s1"
    have run: "flevel (Suc n) (c OR KERNBASE) (p OR KERNBASE) i s = s2"
      using True by (simp add: entries_window [OF u(2)] a(1) s2_def)
    have J: "set (idx512 512) = ?J" using idx512_props(1) [of 512] by simp
    have "cowed n c' ?p (set (idx512 512)) s1 s2"
      unfolding s2_def using a(9) idx512_props(2) [of 512] by (intro cowed_all IH) (simp_all add: J)
    then have C: "cowed n c' ?p ?J s1 s2" unfolding J .
    note d = cowedD [OF C]
    have up: "walk (frames s) p (i # xs) = walk (frames s) ?p xs" for xs using True by simp
    have cc: "c \<noteq> c'" using a(2) c by auto
    have leaf: "q \<in> used s \<Longrightarrow> \<forall>xs. ix xs \<longrightarrow> length xs = n \<longrightarrow> walk (frames s) ?p xs \<noteq> Some q \<Longrightarrow> frames s2 q = frames s1 q" for q
      using d(4) [of q] a(2,3,10) by auto
    have "walk (frames s) ?p xs \<noteq> Some c" if "ix xs" "length xs = n" for xs
      using belowD(2) [OF B, of "i # xs" c] that i up by auto
    then have c2: "frames s2 c = (frames s c)(i := c' OR 7)" using leaf [OF c] a(4) by simp
    have pr': "present (c' OR 7)" by (rule present_or [OF variants(2)])
    have dn: "walk (frames s2) c (i # xs) = walk (frames s2) c' xs" "look (frames s2) c (i # xs) k = look (frames s2) c' xs k" for xs k
      using pr' a(7) by (simp_all add: c2)
    have fr1: "frames s1 b = frames s b" if "b \<in> used s" "b \<noteq> c" for b using that a(2,4) by auto
    have old: "frames s2 q = frames s q" if "q \<in> used s" "q \<noteq> c"
      "\<forall>xs. ix xs \<longrightarrow> length xs = Suc n \<longrightarrow> walk (frames s) p xs \<noteq> Some q" for q
    proof -
      have "walk (frames s) ?p xs \<noteq> Some q" if "ix xs" "length xs = n" for xs
        using \<open>\<forall>xs. ix xs \<longrightarrow> length xs = Suc n \<longrightarrow> _\<close> [THEN spec, of "i # xs"] that i up by simp
      then show ?thesis using leaf [OF that(1)] fr1 [OF that(1,2)] by simp
    qed
    have par: "frames s2 b k = (if hd (xs @ [k]) \<in> {i} then cow_parent (frames s b k) else frames s b k)"
      if h: "ix (xs @ [k])" "length xs = Suc n" "walk (frames s) p xs = Some b" for xs k b
    proof -
      obtain x ys where xs: "xs = x # ys" "length ys = n" using h(2) by (cases xs) auto
      have ix: "ix xs" "ix ys" "ix (ys @ [k])" "x < 512" using h(1) xs by auto
      note D = belowD [OF B ix(1) eq_refl [OF h(2)] h(3)]
      show ?thesis
      proof (cases "x = i")
        case True
        then have "walk (frames s1) ?p ys = Some b" using h(3) xs up a(10) [OF ix(2)] by simp
        from d(6) [OF ix(3) xs(2) this] have "frames s2 b k = cow_parent (frames s1 b k)" using ix(3) xs(2) by (cases ys) auto
        then show ?thesis using True xs fr1 [OF D(1,2)] by simp
      next
        case False
        have "walk (frames s) ?p zs \<noteq> Some b" if "ix zs" "length zs = n" for zs
          using D(3) [of "i # zs"] that i up xs False by auto
        then show ?thesis using leaf [OF D(1)] fr1 [OF D(1,2)] xs False by simp
      qed
    qed
    have chl: "look (frames s2) c xs k = cow_child (look (frames s) p xs k)"
      if h: "ix (xs @ [k])" "length xs = Suc n" "hd (xs @ [k]) \<in> {i}" for xs k
    proof -
      obtain ys where xs: "xs = i # ys" "length ys = n" using h(2,3) by (cases xs) auto
      have ix: "ix ys" "ix (ys @ [k])" using h(1) xs by auto
      have "look (frames s2) c' ys k = cow_child (look (frames s1) ?p ys k)"
        using d(7) [OF ix(2) xs(2)] ix by (cases ys) auto
      moreover have "look (frames s1) ?p ys k = look (frames s) ?p ys k"
      proof (rule look_cong)
        show "walk (frames s1) ?p ys = walk (frames s) ?p ys" using a(10) ix(1) xs(2) by simp
        show "frames s1 b k = frames s b k" if "walk (frames s) ?p ys = Some b" for b
          using belowD(1,2) [OF B, of "i # ys" b] fr1 [of b] that ix(1) xs(2) i up by simp
      qed
      moreover have "look (frames s) p xs k = look (frames s) ?p ys k" using True xs by simp
      ultimately show ?thesis using dn(2) xs by simp
    qed
    have tr1: "ys = [] \<and> b = c' \<or> ys \<noteq> [] \<and> b \<in> used s2 - used s1 \<and> hd ys \<in> ?J"
      if "ix ys" "length ys \<le> n" "walk (frames s2) c' ys = Some b" for ys b
      using that d(8) [of ys b] by (cases ys) auto
    have c'2: "c' \<in> used s1" "c' \<in> used s2 - used s" using a(2,3) d(3) by auto
    have tr: "b \<in> used s2 - used s"
      "ix ys \<Longrightarrow> ys \<noteq> [] \<Longrightarrow> length ys \<le> Suc n \<Longrightarrow> hd ys \<in> {i} \<Longrightarrow> walk (frames s2) c ys = Some b \<Longrightarrow> xs = ys"
      if h: "ix xs" "xs \<noteq> []" "length xs \<le> Suc n" "hd xs \<in> {i}" "walk (frames s2) c xs = Some b" for xs ys b
    proof -
      obtain xs' where x: "xs = i # xs'" using h(2,4) by (cases xs) auto
      have x': "ix xs'" "length xs' \<le> n" "walk (frames s2) c' xs' = Some b" using h x dn(1) by auto
      show "b \<in> used s2 - used s" using tr1 [OF x'] c'2 a(3) by auto
      show "xs = ys" if y: "ix ys" "ys \<noteq> []" "length ys \<le> Suc n" "hd ys \<in> {i}" "walk (frames s2) c ys = Some b"
      proof -
        obtain ys' where ys: "ys = i # ys'" using y(2,4) by (cases ys) auto
        have y': "ix ys'" "length ys' \<le> n" "walk (frames s2) c' ys' = Some b" using y ys dn(1) by auto
        have "xs' = ys'" using tr1 [OF x'] tr1 [OF y'] c'2(1) d(9) [OF x'(1) _ x'(2) _ x'(3) y'(1) _ y'(2) _ y'(3)] by auto
        then show ?thesis using x ys by simp
      qed
    qed
    have "card (paths_in (Suc n) p (frames s) {i}) = Suc (card (paths_in n ?p (frames s) ?J))"
      using True i(1) by (rule paths_in_down [where fr = "frames s" and p = p and i = i])
    then have cd: "card (free_pages s) = card (free_pages s2) + card (paths_in (Suc n) p (frames s) {i})"
      using a(8) d(10) paths_in_cong [of n "frames s1" ?p "frames s" ?J, OF a(10)] by simp
    have vf: "vm_frame s s2" "pa_inv s2" "used s \<subseteq> used s2" using vm_frame_trans [OF a(5) d(1)] d(2,3) a(3) by auto
    have cj: "frames s2 c j = frames s c j" if "j \<notin> {i}" for j using that by (simp add: c2)
    show ?thesis unfolding run cowed_def using vf old cj par chl tr cd by blast
  qed
qed

lemma step_all: "ready n c p {i} s \<Longrightarrow> cowed n c p {i} s (flevel n (c OR KERNBASE) (p OR KERNBASE) i s)"
proof (induction n arbitrary: c p i s)
  case 0
  then show ?case by (rule step_leaf)
next
  case (Suc n)
  from Suc.IH Suc.prems show ?case by (rule step_inner)
qed

section \<open>The whole tree\<close>

lemma paths_in_tables:
  assumes "pt_tree fr r U" "finite U"
  shows "card (paths_in 3 r fr I) \<le> card (tables fr r)"
proof (rule card_inj_on_le)
  have i: "idx xs \<and> walk fr r xs = Some (the (walk fr r xs))" if "xs \<in> paths_in 3 r fr I" for xs
    using that by (auto simp: paths_in_def idx_def)
  show "inj_on (\<lambda>xs. the (walk fr r xs)) (paths_in 3 r fr I)"
    by (rule inj_onI) (metis i pt_treeD(2) [OF assms(1)])
  show "(\<lambda>xs. the (walk fr r xs)) ` paths_in 3 r fr I \<subseteq> tables fr r" using i by (auto simp: tables_def)
  have "tables fr r \<subseteq> U" using pt_treeD(1) [OF assms(1)] by (auto simp: tables_def)
  then show "finite (tables fr r)" using assms(2) by (rule finite_subset)
qed

lemma tree_below:
  assumes "pt_tree fr r U" "c \<notin> tables fr r"
  shows "below 3 c r fr U"
  unfolding below_def
proof (intro conjI allI impI)
  fix xs b
  assume "ix xs" "length xs \<le> 3" "walk fr r xs = Some b"
  then have x: "idx xs" "walk fr r xs = Some b" by (simp_all add: idx_def)
  show "b \<in> U" by (rule pt_treeD(1) [OF assms(1) x])
  show "b \<noteq> c" using x assms(2) by (auto simp: tables_def)
  show "xs = ys" if "ix ys" "length ys \<le> 3" "walk fr r ys = Some b" for ys
    using pt_treeD(2) [OF assms(1) x(1) _ x(2) that(3)] that(1,2) by (simp add: idx_def)
qed

lemma below_tree: "below 3 c r fr U \<Longrightarrow> pt_tree fr r U"
  unfolding pt_tree_def idx_def by (metis belowD(1,3))

lemma vm_frame_frames: "vm_frame t (t\<lparr>frames := x\<rparr>)"
  by (cases t) (simp add: vm_frame_def)

lemma fork_tables_eq:
  assumes inv: "vm_inv (CR3 s) s" and c: "c \<in> used s - tables (frames s) (CR3 s)" and z: "\<And>i. i < 510 \<Longrightarrow> frames s c i = 0"
    and room: "card (tables (frames s) (CR3 s)) \<le> card (free_pages s)"
  obtains t where "cowed 3 c (CR3 s) {i. i < 510} s t" "below 3 c (CR3 s) (frames s) (used s)"
    "fork_tables c s = t\<lparr>frames := (frames t)(c := (frames t c)(511 := frames s (CR3 s) 511, 510 := frames s (CR3 s) 510))\<rparr>"
proof -
  let ?r = "CR3 s" and ?I = "{i. i < 510} :: u64 set"
  note v = vm_invD [OF inv]
  have B: "below 3 c ?r (frames s) (used s)" using tree_below v(3) c by simp
  have "finite (used s)" by (rule finite_subset [OF subset_UNIV]) simp
  with v(3) have "card (paths_in 3 ?r (frames s) ?I) \<le> card (tables (frames s) ?r)" by (rule paths_in_tables)
  then have "card (paths_in 3 ?r (frames s) ?I) \<le> card (free_pages s)"
    using room by (rule order.trans)
  moreover have "i < 512" if "i < 510" for i :: u64 using that by (rule order.strict_trans) simp
  ultimately have R: "ready 3 c ?r ?I s" using v(1,2) B c z by (simp add: ready_def)
  have I: "set (idx512 510) = ?I" using idx512_props(1) [of 510] by simp
  define t where "t = fold (fork_pml4e (c OR KERNBASE) (?r OR KERNBASE)) (idx512 510) s"
  have f: "fork_pml4e (c OR KERNBASE) (?r OR KERNBASE) = flevel 3 (c OR KERNBASE) (?r OR KERNBASE)"
    by (simp only: fork_levels(4) numeral_3_eq_3)
  have "cowed 3 c ?r (set (idx512 510)) s t"
    unfolding t_def f using R idx512_props(2) [of 510] by (intro cowed_all step_all) (simp_all add: I)
  then have C: "cowed 3 c ?r ?I s t" unfolding I .
  note u = readyD [OF R]
  have "walk (frames s) ?r xs \<noteq> Some ?r" if "length xs = 3" "ix xs" for xs
    using belowD(3) [OF B, of "[]" ?r xs] that by auto
  then have "frames t ?r = frames s ?r" using cowedD(4) [OF C u(3,4)] by simp
  then have "fork_tables c s = t\<lparr>frames := (frames t)(c := (frames t c)(511 := frames s ?r 511, 510 := frames s ?r 510))\<rparr>"
    using u(4) unfolding fork_tables_def getCR3_def Let_def or.commute [of KERNBASE ?r] t_def [symmetric]
    by (simp add: entries_window [OF u(2)] set_entry_window [OF u(1)])
  then show ?thesis by (rule that [OF C B])
qed

lemma fork_tables_facts:
  assumes "vm_inv (CR3 s) s" "c \<in> used s - tables (frames s) (CR3 s)" "\<forall>i < 510. frames s c i = 0"
    "card (tables (frames s) (CR3 s)) \<le> card (free_pages s)"
  defines "s' \<equiv> fork_tables c s"
  shows "vm_inv (CR3 s) s'" "vm_frame s s'" "tables (frames s') (CR3 s) = tables (frames s) (CR3 s)" "used s \<subseteq> used s'"
    "pt_lookup (frames s') c v =
       (if getIndex v 39 < 510 then cow_child (pt_lookup (frames s) (CR3 s) v) else pt_lookup (frames s) (CR3 s) v)"
    "pt_lookup (frames s') (CR3 s) v =
       (if getIndex v 39 < 510 then cow_parent (pt_lookup (frames s) (CR3 s) v) else pt_lookup (frames s) (CR3 s) v)"
    "q \<in> used s - tables (frames s) (CR3 s) - {c} \<Longrightarrow> frames s' q = frames s q"
    "getIndex v 39 < 510 \<Longrightarrow> walk (frames s') c (take n (vidx v)) = Some b \<Longrightarrow>
       b = c \<or> b \<in> used s' - used s"
    "card (free_pages s) \<le> card (free_pages s') + card (tables (frames s) (CR3 s))"
proof -
  let ?r = "CR3 s" and ?I = "{i. i < 510} :: u64 set"
  obtain t where C: "cowed 3 c ?r ?I s t" and B: "below 3 c ?r (frames s) (used s)"
    and run: "fork_tables c s = t\<lparr>frames := (frames t)(c := (frames t c)(511 := frames s ?r 511, 510 := frames s ?r 510))\<rparr>"
    by (rule fork_tables_eq [OF assms(1,2)]) (use assms(3,4) in blast, rule assms(4), rule that)
  note d = cowedD [OF C]
  have f': "frames s' = (frames t)(c := (frames t c)(511 := frames s ?r 511, 510 := frames s ?r 510))" by (simp add: s'_def run)
  have us: "used s' = used t" "pa_inv s'" "lastPage s' = lastPage s" "vm_frame s s'"
    using d(2) vm_frameD(4) [OF d(1)] vm_frame_trans [OF d(1) vm_frame_frames]
    unfolding s'_def run by (auto simp: used_def pa_inv_def free_pages_def)
  have B': "below 3 c ?r (frames t) (used t)" by (rule below_step [OF C B])
  have same: "walk (frames s') ?r xs = walk (frames t) ?r xs" if "ix xs" "length xs \<le> 3" for xs
  proof (rule walk_same)
    fix m b
    assume "walk (frames t) ?r (take m xs) = Some b"
    moreover have "ix (take m xs)" "length (take m xs) \<le> 3" using that by (auto dest: in_set_takeD)
    ultimately have "b \<noteq> c" using belowD(2) [OF B'] by blast
    then show "frames s' b (xs ! m) = frames t b (xs ! m)" by (simp add: f')
  qed
  have w: "walk (frames s') ?r xs = walk (frames s) ?r xs" if "ix xs" "length xs \<le> 3" for xs
    using same [OF that] cowed_parent_walk [OF C B that] by simp
  have "below 3 c ?r (frames s') (used s')"
    using B' same unfolding below_def us(1) by simp
  then show "vm_inv ?r s'" using below_tree us(2,3) vm_invD(2) [OF assms(1)] by (simp add: vm_inv_def)
  have v: "ix (vidx v)" "length (vidx v) = 3" "ix (vidx v @ [getIndex v 12])" "hd (vidx v @ [getIndex v 12]) = getIndex v 39"
    "hd (vidx v) = getIndex v 39" "vidx v \<noteq> []" for v
    by (simp_all add: vidx_def getIndex_less)
  show "vm_frame s s'" by (rule us(4))
  show "used s \<subseteq> used s'" using d(3) us(1) by simp
  show "tables (frames s') ?r = tables (frames s) ?r" using w unfolding tables_def idx_def by auto
  have par: "pt_lookup (frames s') ?r v = (if getIndex v 39 < 510 then cow_parent (pt_lookup (frames s) ?r v) else pt_lookup (frames s) ?r v)" for v
  proof (cases "walk (frames s) ?r (vidx v)")
    case None
    then show ?thesis using w [OF v(1)] v(2) by (simp add: pt_lookup_def cow_parent_def)
  next
    case (Some b)
    have "frames s' b (getIndex v 12) = frames t b (getIndex v 12)" using belowD(2) [OF B v(1) _ Some] v(2) by (simp add: f')
    then show ?thesis using w [OF v(1)] v(2,4) d(6) [OF v(3) v(2) Some] Some by (simp add: pt_lookup_def)
  qed
  then show "pt_lookup (frames s') ?r v = (if getIndex v 39 < 510 then cow_parent (pt_lookup (frames s) ?r v) else pt_lookup (frames s) ?r v)" .
  have cI: "frames s' c j = frames t c j" if "j \<in> ?I" for j using that by (auto simp: f')
  have cn: "frames s' b = frames t b" if "b \<in> used t - used s" for b using that assms(2) by (auto simp: f')
  show "pt_lookup (frames s') c v = (if getIndex v 39 < 510 then cow_child (pt_lookup (frames s) ?r v) else pt_lookup (frames s) ?r v)"
  proof (cases "getIndex v 39 < 510")
    case True
    have "look (frames s') c (vidx v) (getIndex v 12) = look (frames t) c (vidx v) (getIndex v 12)"
    proof (rule look_cong)
      show "walk (frames s') c (vidx v) = walk (frames t) c (vidx v)"
        by (rule child_walk_same [OF C v(1) _ v(6) _ cn cI]) (use v(2,5) True in simp_all)
      show "frames s' b (getIndex v 12) = frames t b (getIndex v 12)" if "walk (frames t) c (vidx v) = Some b" for b
        using d(8) [OF v(1,6) _ _ that] v(2,5) True cn by simp
    qed
    then show ?thesis using d(7) [OF v(3,2)] v(4) True by (simp add: pt_lookup_look)
  next
    case False
    have "getIndex v 39 = 510 \<or> getIndex v 39 = 511"
      using False getIndex_less [of v 39] by (auto simp: word_less_nat_alt word_unat_eq_iff)
    then have "frames s' c (getIndex v 39) = frames s ?r (getIndex v 39)" by (auto simp: f')
    moreover have "frames s' ?r (getIndex v 39) = frames s ?r (getIndex v 39)"
      using d(4) [of ?r] belowD [OF B, of "[]" ?r] by (fastforce simp: f')
    ultimately have "pt_lookup (frames s') c v = pt_lookup (frames s') ?r v" by (simp add: pt_lookup_def vidx_def)
    then show ?thesis using par False by simp
  qed
  show "frames s' q = frames s q" if "q \<in> used s - tables (frames s) ?r - {c}"
  proof -
    have "walk (frames s) ?r xs \<noteq> Some q" if "ix xs" "length xs = 3" for xs
    proof -
      have "idx xs" using that by (simp add: idx_def)
      then show ?thesis using \<open>q \<in> _\<close> unfolding tables_def by blast
    qed
    then show ?thesis using that d(4) [of q] by (simp add: f')
  qed
  show "b = c \<or> b \<in> used s' - used s" if g: "getIndex v 39 < 510" "walk (frames s') c (take n (vidx v)) = Some b"
  proof (cases n)
    case 0
    then show ?thesis using g(2) by simp
  next
    case (Suc m)
    let ?xs = "take n (vidx v)"
    have "ix ?xs" using v(1) by (blast dest: in_set_takeD)
    moreover have "length ?xs \<le> 3" "?xs \<noteq> []" "hd ?xs \<in> ?I" using Suc g(1) by (simp_all add: vidx_def)
    ultimately have x: "ix ?xs" "length ?xs \<le> 3" "?xs \<noteq> []" "hd ?xs \<in> ?I" by blast+
    have "walk (frames t) c ?xs = Some b" using child_walk_same [OF C x cn cI] g(2) by simp
    then show ?thesis using d(8) [OF x(1,3,2,4)] us(1) by simp
  qed
  have "finite (used s)" by (rule finite_subset [OF subset_UNIV]) simp
  with vm_invD(3) [OF assms(1)] have "card (paths_in 3 ?r (frames s) ?I) \<le> card (tables (frames s) ?r)" by (rule paths_in_tables)
  moreover have "free_pages s' = free_pages t" unfolding s'_def run by (simp add: free_pages_def)
  ultimately show "card (free_pages s) \<le> card (free_pages s') + card (tables (frames s) ?r)" using d(10) by simp
qed

text \<open>C10. A fork shares every page of the parent copy on write.  After the table loops of \<^verbatim>\<open>forkSyscall\<close>, with a zeroed
  top-level table for the child and a free page for each table of the parent: at every user address the child's entry is
  the parent's page, present, for the user, marked copy on write and no longer writable, and empty where the parent's
  was; the parent's own entry has become the same; above them the kernel's part is shared and as it was; no page outside
  the tables is touched, and the parent's address space is still well-formed.\<close>

theorem fork_tables_cow:
  assumes "vm_inv (CR3 s) s" "c \<in> used s - tables (frames s) (CR3 s)" "\<And>i. i < 510 \<Longrightarrow> frames s c i = 0"
    "card (tables (frames s) (CR3 s)) \<le> card (free_pages s)"
  shows "let s' = fork_tables c s; old = pt_lookup (frames s) (CR3 s) in
    vm_inv (CR3 s) s' \<and> vm_frame s s' \<and>
    (\<forall>v. pt_lookup (frames s') c v = (if getIndex v 39 < 510 then cow_child (old v) else old v)) \<and>
    (\<forall>v. pt_lookup (frames s') (CR3 s) v = (if getIndex v 39 < 510 then cow_parent (old v) else old v)) \<and>
    (\<forall>q \<in> used s - tables (frames s) (CR3 s) - {c}. frames s' q = frames s q)"
proof -
  have "\<forall>i < 510. frames s c i = 0" using assms(3) by blast
  note F = fork_tables_facts [OF assms(1,2) this assms(4)]
  show ?thesis unfolding Let_def using F(1,2) F(5-7) by blast
qed

text \<open>The machine with one user page mapped, and the idle frame 0 as the child's top-level table.\<close>

lemma card_used_le: "card (used s) \<le> unat (lastPage s) - card (free_pages s)"
proof -
  let ?A = "{p. p < lastPage s}"
  have "inj_on unat ?A" "unat ` ?A \<subseteq> {..<unat (lastPage s)}"
    by (auto simp: inj_on_def word_unat_eq_iff word_less_nat_alt)
  then have A: "card ?A \<le> unat (lastPage s)" using card_inj_on_le [of unat ?A "{..<unat (lastPage s)}"] by simp
  have "card (used s) \<le> card (?A - free_pages s)"
    unfolding used_def set_diff_eq mem_Collect_eq by (rule card_image_le) simp
  also have "\<dots> = card ?A - card (free_pages s)" by (rule card_Diff_subset) (auto simp: free_pages_def)
  finally show ?thesis using A by simp
qed

lemma fork_cow_proc:
  "vm_inv (CR3 cow_proc) cow_proc" "0 \<in> used cow_proc - tables (frames cow_proc) (CR3 cow_proc)" "frames cow_proc 0 i = 0"
  "card (tables (frames cow_proc) (CR3 cow_proc)) \<le> 6"
proof -
  have r: "CR3 cow_proc = 0x1000" and inv: "vm_inv 0x1000 cow_proc" by (rule cow_proc_facts)+
  then show "vm_inv (CR3 cow_proc) cow_proc" by simp
  have k: "vm_keeps 0x1000 user_proc cow_proc" by (rule cow_proc_facts)
  have u0: "0 \<in> used user_proc" unfolding used_def user_proc_free by (auto intro!: image_eqI [of _ _ 0])
  have t0: "0 \<notin> tables (frames user_proc) 0x1000" by (rule user_proc_tables) simp
  show "0 \<in> used cow_proc - tables (frames cow_proc) (CR3 cow_proc)" using vm_keepsD(2,3) [OF k] u0 t0 r by auto
  show "frames cow_proc 0 i = 0" using k u0 t0 by (simp add: vm_keeps_def)
  have "tables (frames cow_proc) 0x1000 \<subseteq> used cow_proc" by (rule tables_used [OF inv])
  then have "card (tables (frames cow_proc) (CR3 cow_proc)) \<le> card (used cow_proc)" using r by (simp add: card_mono)
  also have "\<dots> \<le> 6" using card_used_le [of cow_proc] cow_proc_facts(7) vm_frameD(4) [OF vm_keepsD(1) [OF k]] by simp
  finally show "card (tables (frames cow_proc) (CR3 cow_proc)) \<le> 6" .
qed

theorem fork_tables_cow_witness:
  "let s' = fork_tables 0 cow_proc in
     pt_lookup (frames s') 0 0x400000 = 0x2000 OR P_BIT OR U_BIT OR COW_BIT \<and>
     pt_lookup (frames s') 0x1000 0x400000 = 0x2000 OR P_BIT OR U_BIT OR COW_BIT"
proof -
  have r: "CR3 cow_proc = 0x1000" by (rule cow_proc_facts)
  have m: "card (tables (frames cow_proc) (CR3 cow_proc)) \<le> card (free_pages cow_proc)"
    using fork_cow_proc(4) cow_proc_facts(7) by simp
  have g: "getIndex 0x400000 39 < 510" by (simp add: getIndex_def)
  have e: "cow_child 0x2107 = 0x2000 OR P_BIT OR U_BIT OR COW_BIT" "cow_parent 0x2107 = 0x2000 OR P_BIT OR U_BIT OR COW_BIT"
    by (simp_all add: cow_child_def cow_parent_def cow_def)
  show ?thesis
    using fork_tables_cow [of cow_proc 0, OF fork_cow_proc(1-3) m] g cow_proc_facts(4) unfolding Let_def r by (simp add: e)
qed

end
