(* ===== verification/Isolation.thy ===== *)
theory Isolation
  imports ForkTables
begin

text \<open>
  Memory as a user program sees it, and the isolation of the two processes after a fork.

  The processor translates a user access through the page tables: a page that is not present, that is not for the user
  or, on a write, that is not writable raises a page fault with the error code that says which, and the access is
  repeated when \<^verbatim>\<open>pageFault\<close> returns.
\<close>

section \<open>Accesses of a user program\<close>

partial_function (option) uload :: "u64 \<Rightarrow> 'a proc_scheme \<Rightarrow> (u8 \<times> 'a proc_scheme) option" where
  "uload v s =
     (let e = pt_lookup (frames s) (CR3 s) v in
      if present e \<and> e AND U_BIT \<noteq> 0 then Option.bind (vload_byte v s) (\<lambda>b. Some (b, s))
      else Option.bind (pageFault (if present e then 5 else 4) v s) (\<lambda>(halted, s). if halted then None else uload v s))"

partial_function (option) ustore :: "u64 \<Rightarrow> u8 \<Rightarrow> 'a proc_scheme \<Rightarrow> 'a proc_scheme option" where
  "ustore v b s =
     (let e = pt_lookup (frames s) (CR3 s) v in
      if present e \<and> e AND U_BIT \<noteq> 0 \<and> e AND W_BIT \<noteq> 0 then vstore_byte v b s
      else Option.bind (pageFault (if present e then 7 else 6) v s) (\<lambda>(halted, s). if halted then None else ustore v b s))"

text \<open>The byte at an address in the address space with the given top-level table.\<close>

definition view :: "u64 \<Rightarrow> 'a vm_scheme \<Rightarrow> u64 \<Rightarrow> u8 option" where
  "view r s v = vload_byte v (s\<lparr>CR3 := r\<rparr>)"

lemma view_lookup:
  "view r s v = (let e = pt_lookup (frames s) r v in
     if present e then Some (ucast (drop_bit (8 * unat (v AND 7)) (frames s (tbl e) (drop_bit 3 (v AND 0xFFF))))) else None)"
  by (simp add: view_def vload_byte_def Let_def)

lemma view_self: "view (CR3 s) s v = vload_byte v s"
  by (simp add: view_lookup vload_byte_def)

lemma view_cong:
  "pt_lookup (frames s') r' v = e' \<Longrightarrow> pt_lookup (frames s) r v = e \<Longrightarrow> present e' \<longleftrightarrow> present e \<Longrightarrow>
   (present e \<Longrightarrow> frames s' (tbl e') = frames s (tbl e)) \<Longrightarrow> view r' s' v = view r s v"
  by (simp add: view_lookup Let_def)

section \<open>A write after a fork\<close>

lemma lookup_same:
  assumes "\<And>n b. walk fr r (take n (vidx v)) = Some b \<Longrightarrow> fr' b = fr b"
  shows "pt_lookup fr' r v = pt_lookup fr r v"
proof -
  have "walk fr' r (vidx v) = walk fr r (vidx v)" by (rule walk_same) (use assms in simp)
  moreover have "fr' b (getIndex v 12) = fr b (getIndex v 12)" if "walk fr r (vidx v) = Some b" for b
    using assms [of 3 b] that by (simp add: vidx_def)
  ultimately show ?thesis unfolding pt_lookup_look by (intro look_cong)
qed

lemma cow_flags:
  "present (cow e)" "cow e AND COW_BIT \<noteq> 0" "cow e AND W_BIT = 0" "tbl (cow e) = tbl e"
  by (simp_all add: cow_def bit.conj_disj_distrib2 and.assoc)

lemma or7_flags: "(a OR 7) AND U_BIT \<noteq> 0" "(a OR 7) AND W_BIT \<noteq> 0"
  by (simp_all add: bit.conj_disj_distrib2 or_eq_0_iff)

lemma low_half:
  assumes "w < (2 ^ 47 :: u64)"
  shows "getIndex w 39 < 510"
proof -
  have b: "n < 47" if "bit w n" for n using assms that by (intro low_bits [of w 47]) (simp_all add: word_less_nat_alt)
  have "getIndex w 39 = take_bit 8 (getIndex w 39)"
    by (rule bit_eqI) (auto simp: bit_getIndex bit_take_bit_iff dest: b)
  then have "unat (getIndex w 39) = take_bit 8 (unat (getIndex w 39))" by (metis unsigned_take_bit_eq)
  then have "unat (getIndex w 39) < 2 ^ 8" by (metis take_bit_nat_less_exp)
  then show ?thesis by (simp add: word_less_nat_alt)
qed

text \<open>The first write of a user program to a page that the fork left copy on write.\<close>

lemma ustore_cow:
  assumes s: "vm_inv (CR3 s) s" "pcb_cr3 (pcbs s (current s)) = CR3 s" "4 \<le> card (free_pages s)" and v: "v < 2 ^ 47"
    and e: "pt_lookup (frames s) (CR3 s) v = cow e" "tbl e \<in> used s - tables (frames s) (CR3 s)"
  obtains s' where "ustore v b s = Some s'" "CR3 s' = CR3 s" "view (CR3 s) s' v = Some b"
    "\<And>q. q \<in> used s - tables (frames s) (CR3 s) \<Longrightarrow> frames s' q = frames s q"
proof -
  let ?r = "CR3 s"
  have m: "card (missing (frames s) ?r {Min (free_pages s) * PAGE_SIZE OR KERNBASE}) < card (free_pages s)"
    using s(3) missing_le_3 [of "frames s" ?r "Min (free_pages s) * PAGE_SIZE OR KERNBASE"] by simp
  have nb: "\<not> bit v 47"
    using v low_bits [of v 47 47] by (auto simp: word_less_nat_alt)
  have te: "tbl (cow e) \<in> used s" "tbl (cow e) \<notin> tables (frames s) ?r" using e(2) by (simp_all add: cow_flags)
  obtain t a where t: "pageFault 7 v s = Some (False, t)" "vm_inv ?r t" "CR3 t = ?r" "a \<notin> used s" "a \<in> used t"
    "a \<notin> tables (frames t) ?r" "pt_lookup (frames t) ?r v = a OR (P_BIT OR U_BIT OR W_BIT)"
    "\<forall>q \<in> used s - tables (frames s) ?r. frames t q = frames s q"
    by (rule cow_pageFault [OF s(1,2) m _ _ nb e(1) cow_flags(1,2) te, where err = 7]) (simp, simp, rule that)
  have ta: "tbl (a OR 7) = a" "present (a OR 7)" "(a OR 7) AND U_BIT \<noteq> 0" "(a OR 7) AND W_BIT \<noteq> 0"
  proof -
    show "tbl (a OR 7) = a" using used_addr(2) [OF t(5) vm_invD(2) [OF t(2)]] by (intro frame_mask_or) simp_all
    show "present (a OR 7)" by (rule present_or [OF variants(2)])
    show "(a OR 7) AND U_BIT \<noteq> 0" "(a OR 7) AND W_BIT \<noteq> 0" by (rule or7_flags)+
  qed
  have L: "pt_lookup (frames t) (CR3 t) v = a OR 7" using t(3,7) by simp
  have "umem {v} t" unfolding umem_def ball_simps insert_iff empty_iff simp_thms L using v t(3,6) ta by auto
  then obtain s' where s': "vstore_byte v b t = Some s'" "mem_only t s'" "vload_byte v s' = Some b"
    by (rule vstore_ok [of "{v}" t v b]) (simp_all add: that)
  have f': "frames s' q = frames t q" if "q \<noteq> a" for q
    using s'(1) ta that by (auto simp: vstore_byte_def L Let_def)
  have "ustore v b s = Some s'"
    using t(1) s'(1) ta e(1) cow_flags L by (subst ustore.simps, subst ustore.simps) (simp add: Let_def)
  moreover have "CR3 s' = ?r" using mem_onlyD(2) [OF s'(2)] t(3) by simp
  moreover have "view ?r s' v = Some b" using s'(3) view_self [of s' v] calculation(2) by simp
  moreover have "frames s' q = frames s q" if "q \<in> used s - tables (frames s) ?r" for q
    using that t(4,8) f' [of q] by auto
  ultimately show ?thesis by (rule that)
qed

text \<open>C25. A fork isolates the two processes.  Let \<^verbatim>\<open>forkSyscall\<close> have copied the page tables of the running process, and let the
  process then write a byte to one of its pages: the write returns, after the fault that copies the page, the process
  reads the new byte, and the child still reads at every user address what the parent had there when it forked.\<close>

theorem fork_isolates:
  assumes "vm_inv (CR3 s) s" "c \<in> used s - tables (frames s) (CR3 s)" "\<And>i. i < 510 \<Longrightarrow> frames s c i = 0"
    "card (tables (frames s) (CR3 s)) + 4 \<le> card (free_pages s)" "pcb_cr3 (pcbs s (current s)) = CR3 s"
    "\<And>w. w < 2 ^ 47 \<Longrightarrow> present (pt_lookup (frames s) (CR3 s) w) \<Longrightarrow>
       tbl (pt_lookup (frames s) (CR3 s) w) \<in> used s - tables (frames s) (CR3 s) - {c}"
    "v < 2 ^ 47" "present (pt_lookup (frames s) (CR3 s) v)"
  shows "\<exists>s'. ustore v b (fork_tables c s) = Some s' \<and> view (CR3 s) s' v = Some b \<and>
    (\<forall>w. 2 ^ 47 \<le> w \<or> view c s' w = view (CR3 s) s w)"
proof -
  let ?r = "CR3 s" and ?e = "\<lambda>w. pt_lookup (frames s) (CR3 s) w"
  define s1 where "s1 = fork_tables c s"
  have room: "card (tables (frames s) ?r) \<le> card (free_pages s)" using assms(4) by simp
  have z: "\<forall>i < 510. frames s c i = 0" using assms(3) by blast
  note F = fork_tables_facts [OF assms(1,2) z room, folded s1_def]
  have r1: "CR3 s1 = ?r" "pcb_cr3 (pcbs s1 (current s1)) = CR3 s1"
    using vm_frameD(1) [OF F(2)] proc_frameD [OF F(2)] assms(5) by simp_all
  have keep: "q \<in> used s1 - tables (frames s1) (CR3 s1)" "frames s1 q = frames s q" if "q \<in> used s - tables (frames s) ?r - {c}" for q
    using that F(3,4) F(7) [OF that] r1(1) by auto
  have "pt_lookup (frames s1) (CR3 s1) v = cow (?e v)" using F(6) [of v] low_half [OF assms(7)] assms(8) r1(1) by (simp add: cow_parent_def)
  moreover have "tbl (?e v) \<in> used s1 - tables (frames s1) (CR3 s1)" by (rule keep(1)) (rule assms(6-8))+
  moreover have "4 \<le> card (free_pages s1)" "vm_inv (CR3 s1) s1" using F(1,9) assms(4) r1 by simp_all
  ultimately obtain s' where s': "ustore v b s1 = Some s'" "CR3 s' = CR3 s1" "view (CR3 s1) s' v = Some b"
    "\<And>q. q \<in> used s1 - tables (frames s1) (CR3 s1) \<Longrightarrow> frames s' q = frames s1 q"
    using ustore_cow [OF _ r1(2) _ assms(7), of "?e v" b] by blast
  have child: "view c s' w = view ?r s w" if w: "w < 2 ^ 47" for w
  proof (rule view_cong [OF _ refl])
    have "pt_lookup (frames s') c w = pt_lookup (frames s1) c w"
    proof (rule lookup_same)
      fix n q
      assume "walk (frames s1) c (take n (vidx w)) = Some q"
      then have "q = c \<or> q \<in> used s1 - used s" by (rule F(8) [OF low_half [OF w]])
      then have "q \<in> used s1 - tables (frames s1) (CR3 s1)"
        using F(3,4) r1(1) assms(2) tables_used [OF assms(1)] by auto
      then show "frames s' q = frames s1 q" by (rule s'(4))
    qed
    then show "pt_lookup (frames s') c w = cow_child (?e w)" using F(5) [of w] low_half [OF w] by simp
    show "present (cow_child (?e w)) \<longleftrightarrow> present (?e w)" using cow_flags(1) by (simp add: cow_child_def)
    show "frames s' (tbl (cow_child (?e w))) = frames s (tbl (?e w))" if p: "present (?e w)"
      using s'(4) [OF keep(1) [OF assms(6) [OF w p]]] keep(2) [OF assms(6) [OF w p]] p by (simp add: cow_child_def cow_flags(4))
  qed
  have "2 ^ 47 \<le> w \<or> view c s' w = view ?r s w" for w using child [of w] linorder_not_less by blast
  then show ?thesis using s'(1,3) r1(1) unfolding s1_def by auto
qed

theorem fork_isolates_witness:
  "\<exists>s'. ustore 0x400000 7 (fork_tables 0 cow_proc) = Some s' \<and> view 0x1000 s' 0x400000 = Some 7 \<and>
     view 0 s' 0x400000 = view 0x1000 cow_proc 0x400000"
proof -
  have r: "CR3 cow_proc = 0x1000" by (rule cow_proc_facts)
  note P = fork_cow_proc
  have m: "card (tables (frames cow_proc) (CR3 cow_proc)) + 4 \<le> card (free_pages cow_proc)"
    using P(4) cow_proc_facts(7) by simp
  have c: "pcb_cr3 (pcbs cow_proc (current cow_proc)) = CR3 cow_proc" using cow_proc_facts(3) r by simp
  have p: "present (pt_lookup (frames cow_proc) (CR3 cow_proc) 0x400000)" using cow_proc_facts(4) r by simp
  have w: "tbl (pt_lookup (frames cow_proc) (CR3 cow_proc) w) \<in> used cow_proc - tables (frames cow_proc) (CR3 cow_proc) - {0}"
    if "present (pt_lookup (frames cow_proc) (CR3 cow_proc) w)" for w
    using that cow_proc_facts(5,6) unfolding r cow_proc_facts(9) by (auto split: if_splits)
  have low: "(0x400000 :: u64) < 2 ^ 47" "\<not> (2 ^ 47 :: u64) \<le> 0x400000" by simp_all
  obtain s' where s': "ustore 0x400000 7 (fork_tables 0 cow_proc) = Some s'" "view (CR3 cow_proc) s' 0x400000 = Some 7"
    "\<forall>w. 2 ^ 47 \<le> w \<or> view 0 s' w = view (CR3 cow_proc) cow_proc w"
    using fork_isolates [of cow_proc 0 "0x400000" 7, OF P(1-3) m c w low(1) p] by blast
  have "view 0 s' 0x400000 = view (CR3 cow_proc) cow_proc 0x400000" using s'(3) low(2) by blast
  then show ?thesis using s'(1,2) unfolding r by blast
qed

end
