(* ===== verification/Libc.thy ===== *)
theory Libc
  imports Isolation
begin

text \<open>
  The bottom of the user library: the system call stubs of \<^verbatim>\<open>libc/syscall.c\<close>, the wrappers of \<^verbatim>\<open>libc/unistd.c\<close>,
  \<^verbatim>\<open>libc/wait.c\<close> and \<^verbatim>\<open>libc/dirent.c\<close>, and the character output of \<^verbatim>\<open>libc/stdio.c\<close>.

  A stub executes \<^verbatim>\<open>int $0x80\<close>: the processor enters \<open>irq_handler2\<close> with the registers that the stub has set, and the
  stub returns what it finds in \<^verbatim>\<open>rax\<close>.  Registers that a stub leaves alone hold whatever the program had there; no
  handler reads them, and they are zero here.  A call that switches to another process has the outcome \<open>Away\<close>.

  The global arrays of \<^verbatim>\<open>include/sysdef.h\<close> live in user memory; their addresses are given by the linker and are a
  parameter.
\<close>

record uglob =
  g_s :: u64
  g_p :: u64
  g_buf :: u64
  g_temp :: u64
  g_pwd :: u64
  g_temp1 :: u64
  g_direc :: u64
  g_buffer :: u64

section \<open>System call stubs\<close>

definition int80 :: "kenv \<Rightarrow> u64 \<Rightarrow> u64 \<Rightarrow> u64 \<Rightarrow> u64 \<Rightarrow> 'a sysc_scheme \<Rightarrow> (outcome \<times> 'a sysc_scheme) option" where
  "int80 env a b c d s =
     map_option (\<lambda>(r, s). (case r of None \<Rightarrow> Away | Some regs \<Rightarrow> Ret (rax regs), s))
       (irq_handler2 env 0 \<lparr>r9 = 0, r8 = 0, rsi = 0, rbp = 0, rdx = d, rcx = c, rbx = b, rax = a, rdi = 0, int_no = 128,
          err_code = 0, r_rip = 0, r_cs = 0, r_rflags = 0, r_rsp = 0, r_ss = 0\<rparr> s)"

definition u_execve :: "kenv \<Rightarrow> u64 \<Rightarrow> u64 \<Rightarrow> u64 \<Rightarrow> u64 \<Rightarrow> 'a sysc_scheme \<Rightarrow> (outcome \<times> 'a sysc_scheme) option" where
  "u_execve env sysn fdn strp count s = int80 env sysn fdn strp count s"

definition u_getdents :: "kenv \<Rightarrow> u64 \<Rightarrow> u64 \<Rightarrow> u64 \<Rightarrow> u64 \<Rightarrow> 'a sysc_scheme \<Rightarrow> (outcome \<times> 'a sysc_scheme) option" where
  "u_getdents env sysn fdn buf count s = int80 env sysn fdn buf count s"

definition u_dup2 :: "kenv \<Rightarrow> u64 \<Rightarrow> u64 \<Rightarrow> u64 \<Rightarrow> 'a sysc_scheme \<Rightarrow> (outcome \<times> 'a sysc_scheme) option" where
  "u_dup2 env sysn ofd nfd s = int80 env sysn ofd nfd 0 s"

definition u_malloc :: "kenv \<Rightarrow> u64 \<Rightarrow> u64 \<Rightarrow> 'a sysc_scheme \<Rightarrow> (outcome \<times> 'a sysc_scheme) option" where
  "u_malloc env sysn sz s = int80 env sysn sz 0 0 s"

definition u_clearscreen :: "kenv \<Rightarrow> u64 \<Rightarrow> 'a sysc_scheme \<Rightarrow> (outcome \<times> 'a sysc_scheme) option" where
  "u_clearscreen env sysn s = int80 env sysn 0 0 0 s"

definition u_pipe :: "kenv \<Rightarrow> u64 \<Rightarrow> u64 \<Rightarrow> 'a sysc_scheme \<Rightarrow> (outcome \<times> 'a sysc_scheme) option" where
  "u_pipe env sysn fdn s = int80 env sysn fdn 0 0 s"

definition u_sleep :: "kenv \<Rightarrow> u64 \<Rightarrow> u64 \<Rightarrow> 'a sysc_scheme \<Rightarrow> (outcome \<times> 'a sysc_scheme) option" where
  "u_sleep env sysn time s = int80 env sysn time 0 0 s"

definition u_write :: "kenv \<Rightarrow> u64 \<Rightarrow> u64 \<Rightarrow> u64 \<Rightarrow> u64 \<Rightarrow> 'a sysc_scheme \<Rightarrow> (outcome \<times> 'a sysc_scheme) option" where
  "u_write env sysn fdn strp count s = int80 env sysn fdn strp count s"

definition u_read :: "kenv \<Rightarrow> u64 \<Rightarrow> u64 \<Rightarrow> u64 \<Rightarrow> u64 \<Rightarrow> 'a sysc_scheme \<Rightarrow> (outcome \<times> 'a sysc_scheme) option" where
  "u_read env sysn fdn strp count s = int80 env sysn fdn strp count s"

definition u_open :: "kenv \<Rightarrow> u64 \<Rightarrow> u64 \<Rightarrow> u64 \<Rightarrow> 'a sysc_scheme \<Rightarrow> (outcome \<times> 'a sysc_scheme) option" where
  "u_open env sysn strp count s = int80 env sysn strp count 0 s"

definition u_close :: "kenv \<Rightarrow> u64 \<Rightarrow> u64 \<Rightarrow> 'a sysc_scheme \<Rightarrow> (outcome \<times> 'a sysc_scheme) option" where
  "u_close env sysn fdn s = int80 env sysn fdn 0 0 s"

definition u_exit :: "kenv \<Rightarrow> u64 \<Rightarrow> u32 \<Rightarrow> 'a sysc_scheme \<Rightarrow> (outcome \<times> 'a sysc_scheme) option" where
  "u_exit env sysn code s = int80 env sysn (ucast code) 0 0 s"

definition u_chdir :: "kenv \<Rightarrow> u64 \<Rightarrow> u64 \<Rightarrow> 'a sysc_scheme \<Rightarrow> (outcome \<times> 'a sysc_scheme) option" where
  "u_chdir env sysn path s = int80 env sysn path 0 0 s"

definition u_pwd :: "kenv \<Rightarrow> u64 \<Rightarrow> u64 \<Rightarrow> u64 \<Rightarrow> 'a sysc_scheme \<Rightarrow> (outcome \<times> 'a sysc_scheme) option" where
  "u_pwd env sysn path sz s = int80 env sysn path sz 0 s"

definition u_fork :: "kenv \<Rightarrow> u64 \<Rightarrow> 'a sysc_scheme \<Rightarrow> (outcome \<times> 'a sysc_scheme) option" where
  "u_fork env sysn s = int80 env sysn 0 0 0 s"

definition sys_waitpid :: "kenv \<Rightarrow> u64 \<Rightarrow> u64 \<Rightarrow> u64 \<Rightarrow> u64 \<Rightarrow> 'a sysc_scheme \<Rightarrow> (outcome \<times> 'a sysc_scheme) option" where
  "sys_waitpid env sysn wpid status options s = int80 env sysn wpid status options s"

definition u_yield :: "kenv \<Rightarrow> u64 \<Rightarrow> 'a sysc_scheme \<Rightarrow> (outcome \<times> 'a sysc_scheme) option" where
  "u_yield env sysn s = int80 env sysn 0 0 0 s"

section \<open>Wrappers\<close>

text \<open>A \<^verbatim>\<open>long\<close> that is stored in an \<^verbatim>\<open>int\<close> and read back.\<close>

definition as_int :: "outcome \<Rightarrow> outcome" where
  "as_int r = (case r of Ret v \<Rightarrow> Ret (scast (ucast v :: u32)) | Away \<Rightarrow> Away)"

definition sb_chdir :: "kenv \<Rightarrow> u64 \<Rightarrow> 'a sysc_scheme \<Rightarrow> (outcome \<times> 'a sysc_scheme) option" where
  "sb_chdir env strp s = map_option (apfst as_int) (u_chdir env 0x0c strp s)"

definition sb_pipe :: "kenv \<Rightarrow> u32 \<Rightarrow> 'a sysc_scheme \<Rightarrow> (outcome \<times> 'a sysc_scheme) option" where
  "sb_pipe env fdn s = u_pipe env 0x2a (scast fdn) s"

definition sb_dup2 :: "kenv \<Rightarrow> u32 \<Rightarrow> u32 \<Rightarrow> 'a sysc_scheme \<Rightarrow> (outcome \<times> 'a sysc_scheme) option" where
  "sb_dup2 env ofd nfd s = u_dup2 env 0x3f (scast ofd) (scast nfd) s"

definition sb_fork :: "kenv \<Rightarrow> 'a sysc_scheme \<Rightarrow> (outcome \<times> 'a sysc_scheme) option" where
  "sb_fork env s = u_fork env 2 s"

definition sb_malloc :: "kenv \<Rightarrow> u32 \<Rightarrow> 'a sysc_scheme \<Rightarrow> (outcome \<times> 'a sysc_scheme) option" where
  "sb_malloc env sz s = u_malloc env 0x5A (scast sz) s"

definition sb_exit :: "kenv \<Rightarrow> u32 \<Rightarrow> 'a sysc_scheme \<Rightarrow> (outcome \<times> 'a sysc_scheme) option" where
  "sb_exit env code s = u_exit env 1 code s"

definition sb_close :: "kenv \<Rightarrow> u64 \<Rightarrow> 'a sysc_scheme \<Rightarrow> (outcome \<times> 'a sysc_scheme) option" where
  "sb_close env fdn s = u_close env 0x06 fdn s"

definition sb_yield :: "kenv \<Rightarrow> 'a sysc_scheme \<Rightarrow> (outcome \<times> 'a sysc_scheme) option" where
  "sb_yield env s = map_option (apfst as_int) (u_yield env 0x9e s)"

definition sb_execve :: "kenv \<Rightarrow> u64 \<Rightarrow> u64 \<Rightarrow> u64 \<Rightarrow> 'a sysc_scheme \<Rightarrow> (outcome \<times> 'a sysc_scheme) option" where
  "sb_execve env fdn argv envp s = map_option (apfst as_int) (u_execve env 11 fdn argv envp s)"

definition sb_waitpid :: "kenv \<Rightarrow> u64 \<Rightarrow> u64 \<Rightarrow> u64 \<Rightarrow> 'a sysc_scheme \<Rightarrow> (outcome \<times> 'a sysc_scheme) option" where
  "sb_waitpid env wpid status options s = map_option (apfst as_int) (sys_waitpid env 7 wpid status options s)"

definition lib_sleep :: "kenv \<Rightarrow> u32 \<Rightarrow> 'a sysc_scheme \<Rightarrow> (outcome \<times> 'a sysc_scheme) option" where
  "lib_sleep env sec s = u_sleep env 162 (scast sec) s"

section \<open>Strings in user memory\<close>

partial_function (option) uload_str :: "u64 \<Rightarrow> 'a proc_scheme \<Rightarrow> (u8 list \<times> 'a proc_scheme) option" where
  "uload_str a s =
     Option.bind (uload a s) (\<lambda>(b, s).
       if b = 0 then Some ([], s)
       else Option.bind (uload_str (a + 1) s) (\<lambda>(bs, s). Some (b # bs, s)))"

fun ustore_bytes :: "u64 \<Rightarrow> u8 list \<Rightarrow> 'a proc_scheme \<Rightarrow> 'a proc_scheme option" where
  "ustore_bytes a [] s = Some s"
| "ustore_bytes a (b # bs) s = Option.bind (ustore a b s) (ustore_bytes (a + 1) bs)"

section \<open>Character input and output\<close>

definition get_ch :: "kenv \<Rightarrow> uglob \<Rightarrow> 'a sysc_scheme \<Rightarrow> (u8 \<times> 'a sysc_scheme) option" where
  "get_ch env g s = do {
     (r, s) \<leftarrow> u_read env 3 0 (g_s g) 1 s;
     uload (g_s g) s
   }"

definition u_gets :: "kenv \<Rightarrow> u64 \<Rightarrow> 'a sysc_scheme \<Rightarrow> (outcome \<times> 'a sysc_scheme) option" where
  "u_gets env strp s = u_read env 3 0 strp 1 s"

definition put_ch :: "kenv \<Rightarrow> uglob \<Rightarrow> u8 \<Rightarrow> 'a sysc_scheme \<Rightarrow> 'a sysc_scheme option" where
  "put_ch env g strp s = do {
     s \<leftarrow> ustore (g_p g) strp s;
     map_option snd (u_write env 4 1 (g_p g) 1 s)
   }"

partial_function (option) put_s_loop :: "kenv \<Rightarrow> uglob \<Rightarrow> u64 \<Rightarrow> 'a sysc_scheme \<Rightarrow> 'a sysc_scheme option" where
  "put_s_loop env g a s =
     Option.bind (uload a s) (\<lambda>(c, s).
       Option.bind (put_ch env g c s) (\<lambda>s.
         Option.bind (uload (a + 1) s) (\<lambda>(c', s).
           if c' \<noteq> 0 then put_s_loop env g (a + 1) s else Some s)))"

definition put_s :: "kenv \<Rightarrow> uglob \<Rightarrow> u64 \<Rightarrow> 'a sysc_scheme \<Rightarrow> 'a sysc_scheme option" where
  "put_s env g strp s = put_s_loop env g strp s"

definition sb_fopen :: "kenv \<Rightarrow> u64 \<Rightarrow> 'a sysc_scheme \<Rightarrow> (outcome \<times> 'a sysc_scheme) option" where
  "sb_fopen env path s = u_open env 0x05 path 2 s"

definition sb_fread :: "kenv \<Rightarrow> uglob \<Rightarrow> u64 \<Rightarrow> 'a sysc_scheme \<Rightarrow> (outcome \<times> 'a sysc_scheme) option" where
  "sb_fread env g fdn s = u_read env 0x03 fdn (g_buf g) 1000 s"

section \<open>Memory a program may write\<close>

definition wmem :: "u64 set \<Rightarrow> 'a vm_scheme \<Rightarrow> bool" where
  "wmem A s \<longleftrightarrow> umem A s \<and>
     (\<forall>v \<in> A. pt_lookup (frames s) (CR3 s) v AND U_BIT \<noteq> 0 \<and> pt_lookup (frames s) (CR3 s) v AND W_BIT \<noteq> 0)"

lemma wmemD: "wmem A s \<Longrightarrow> umem A s"
  by (simp add: wmem_def)

lemma wmem_mono: "wmem A s \<Longrightarrow> B \<subseteq> A \<Longrightarrow> wmem B s"
  using umem_mono unfolding wmem_def by blast

lemma vload_cong: "frames s' = frames s \<Longrightarrow> CR3 s' = CR3 s \<Longrightarrow> vload_byte v s' = vload_byte v s"
  by (simp add: vload_byte_def Let_def)

lemma wmem_cong: "frames s' = frames s \<Longrightarrow> CR3 s' = CR3 s \<Longrightarrow> wmem A s' = wmem A s"
  by (simp add: wmem_def umem_def)

lemma mem_only_wmem: "mem_only s s' \<Longrightarrow> wmem A s' = wmem A s"
  using mem_only_umem [of s s' A] mem_onlyD(2,3) [of s s'] by (simp add: wmem_def)

lemma ustore_ok:
  assumes W: "wmem A s" and v: "v \<in> A"
  obtains s' where "ustore v b s = Some s'" "mem_only s s'"
    "\<And>w. w \<in> A \<Longrightarrow> vload_byte w s' = (if w = v then Some b else vload_byte w s)"
proof -
  obtain s' where s': "vstore_byte v b s = Some s'" "mem_only s s'"
    "\<And>w. w \<in> A \<Longrightarrow> vload_byte w s' = (if w = v then Some b else vload_byte w s)"
    by (rule vstore_ok [OF wmemD [OF W] v]) (rule that)
  moreover have "ustore v b s = Some s'"
    using s'(1) W v umemD(2) [OF wmemD [OF W] v] by (subst ustore.simps) (simp add: wmem_def)
  ultimately show ?thesis by (intro that)
qed

lemma uload_ok: "wmem A s \<Longrightarrow> v \<in> A \<Longrightarrow> vload_byte v s = Some b \<Longrightarrow> uload v s = Some (b, s)"
  using umemD(2) [of A s v] by (subst uload.simps) (simp add: wmem_def)

section \<open>What the screen shows\<close>

definition screen :: "'a console_scheme \<Rightarrow> unit console_scheme" where
  "screen s = \<lparr>vram = vram s, video = video s, xp = xp s, yp = yp s, color = color s, x_buf = [], d_buf = []\<rparr>"

definition show_char :: "u8 \<Rightarrow> 'a console_scheme \<Rightarrow> 'a console_scheme" where
  "show_char c s = (if c = 10 then newline s else if c = 13 then car_return s else kwrite c s)"

lemma screen_show:
  "screen (kwrite c s) = kwrite c (screen s)" "screen (newline s) = newline (screen s)" "screen (car_return s) = car_return (screen s)"
  by (simp_all add: screen_def kwrite_def newline_def car_return_def scroll_def Let_def)

lemma screen_show_char: "screen (show_char c s) = show_char c (screen s)"
  by (simp add: show_char_def screen_show)

lemma screen_show_all: "screen (fold show_char cs s) = fold show_char cs (screen s)"
  by (induction cs arbitrary: s) (simp_all add: screen_show_char)

lemma byte_char: "of_char (char_of (unat (c :: u8)) :: char) = c" "char_of (unat c) = k \<longleftrightarrow> c = of_char k"
proof -
  have b: "of_char (char_of (unat c) :: char) = c" for c :: u8
  proof -
    have "(of_char (char_of (unat c) :: char) :: u8) = of_nat (of_char (char_of (unat c) :: char))" by (simp only: of_nat_of_char)
    also have "\<dots> = of_nat (unat c mod 256)" by (simp only: of_char_of)
    also have "unat c mod 256 = unat c" using unat_lt2p [of c] by (intro mod_less) simp
    finally show ?thesis by simp
  qed
  then show "of_char (char_of (unat c) :: char) = c" .
  have "char_of (unat (of_char k :: u8)) = k"
  proof -
    have "unat (of_nat (of_char k) :: u8) = of_char k" by (rule unat_of_nat_eq) (use nat_of_char_less_256 [of k] in simp)
    then show ?thesis by (simp add: of_nat_of_char char_of_char)
  qed
  then show "char_of (unat c) = k \<longleftrightarrow> c = of_char k" using b by auto
qed

lemma kprintf_plain: "37 \<notin> set cs \<Longrightarrow> kprintf (map (\<lambda>b. char_of (unat (b :: u8))) cs) args s = fold show_char cs s"
proof (induction cs arbitrary: s)
  case (Cons c cs)
  then show ?case by (simp add: kprintf.simps show_char_def byte_char printc_def)
qed (simp add: kprintf.simps)

section \<open>Writing through the kernel\<close>

lemma writeSyscall_char:
  assumes "vload_byte a s = Some c" "vload_byte (a + 1) s = Some 0" "c \<noteq> 37"
  shows "writeSyscall env 1 a n s = Some (n, if c = 0 then s else show_char c s)"
proof -
  have "ustring a (if c = 0 then [] else [c]) s"
    using assms(1,2) by (auto simp: ustring_def less_Suc_eq_le le_Suc_eq)
  from kload_str_ok [OF this] show ?thesis using assms(3) kprintf_plain [of "[c]" "k_va env" s]
    by (simp add: writeSyscall_def kprintf.simps)
qed

lemma int80_write:
  assumes "vload_byte a s = Some c" "vload_byte (a + 1) s = Some 0" "c \<noteq> 37" "childFlag s \<noteq> 1"
  shows "u_write env 4 1 a n s = Some (Ret n, outb 0x20 0x20 (outb 0xA0 0x20 (if c = 0 then s else show_char c s)))"
proof -
  have "childFlag (if c = 0 then s else show_char c s) \<noteq> 1"
    using assms(4) by (simp add: show_char_def kwrite_def newline_def car_return_def scroll_def Let_def)
  then show ?thesis
    by (simp add: u_write_def int80_def irq_handler2_def syscall_def ret_def writeSyscall_char [OF assms(1-3)])
qed

lemma show_char_frame [kframe]:
  "frames (show_char c s) = frames s" "CR3 (show_char c s) = CR3 s" "childFlag (show_char c t) = childFlag t"
  "sysc.more (show_char c t) = sysc.more t"
  by (simp_all add: show_char_def kwrite_def newline_def car_return_def scroll_def Let_def)

text \<open>What output leaves alone: the memory \<open>A\<close> apart from the byte at \<open>p\<close>, the kernel's flag, and the variables of the library.\<close>

definition quiet :: "u64 set \<Rightarrow> u64 \<Rightarrow> 'a sysc_scheme \<Rightarrow> 'a sysc_scheme \<Rightarrow> bool" where
  "quiet A p s s' \<longleftrightarrow> wmem A s' \<and> childFlag s' = childFlag s \<and> sysc.more s' = sysc.more s \<and>
     (\<forall>w \<in> A - {p}. vload_byte w s' = vload_byte w s)"

lemma quietD:
  assumes "quiet A p s s'"
  shows "wmem A s'" "childFlag s' = childFlag s" "sysc.more s' = sysc.more s" "w \<in> A \<Longrightarrow> w \<noteq> p \<Longrightarrow> vload_byte w s' = vload_byte w s"
  using assms by (simp_all add: quiet_def)

lemma quiet_trans: "quiet A p s t \<Longrightarrow> quiet A p t u \<Longrightarrow> quiet A p s u"
  by (simp add: quiet_def)

text \<open>The library's one-character buffer.\<close>

definition out_ready :: "u64 set \<Rightarrow> uglob \<Rightarrow> 'a sysc_scheme \<Rightarrow> bool" where
  "out_ready A g s \<longleftrightarrow> wmem A s \<and> g_p g \<in> A \<and> g_p g + 1 \<in> A \<and> vload_byte (g_p g + 1) s = Some 0 \<and> childFlag s \<noteq> 1"

lemma out_ready_quiet: "out_ready A g s \<Longrightarrow> quiet A (g_p g) s s' \<Longrightarrow> out_ready A g s'"
  by (simp add: out_ready_def quiet_def)

lemma put_ch_ok:
  assumes R: "out_ready A g s" and c: "c \<noteq> 37"
  obtains s' where "put_ch env g c s = Some s'" "quiet A (g_p g) s s'"
    "screen s' = (if c = 0 then screen s else show_char c (screen s))"
proof -
  let ?p = "g_p g"
  note r = R [unfolded out_ready_def]
  obtain s1 where s1: "ustore ?p c s = Some s1" "mem_only s s1"
    "\<And>w. w \<in> A \<Longrightarrow> vload_byte w s1 = (if w = ?p then Some c else vload_byte w s)"
    by (rule ustore_ok [of A s ?p c]) (use r in \<open>simp_all add: that\<close>)
  have e1: "childFlag s1 = childFlag s" "sysc.more s1 = sysc.more s" "screen s1 = screen s"
    by (subst mem_onlyD(1) [OF s1(2)], simp add: screen_def)+
  define s2 where "s2 = (if c = 0 then s1 else show_char c s1)"
  define s' where "s' = outb 0x20 0x20 (outb 0xA0 0x20 s2)"
  have "vload_byte ?p s1 = Some c" "vload_byte (?p + 1) s1 = Some 0" using s1(3) r by simp_all
  then have "put_ch env g c s = Some s'"
    using int80_write [of ?p s1 c env 1] c r e1(1) s1(1) by (simp add: put_ch_def s'_def s2_def)
  moreover have f: "frames s' = frames s1" "CR3 s' = CR3 s1" "childFlag s' = childFlag s1" "sysc.more s' = sysc.more s1"
    by (simp_all add: s'_def s2_def outb_def kframe)
  then have "quiet A ?p s s'"
    using wmem_cong [OF f(1,2)] vload_cong [OF f(1,2)] mem_only_wmem [OF s1(2)] s1(3) r e1 by (simp add: quiet_def)
  moreover have "screen s' = screen s2" by (simp add: s'_def outb_def screen_def)
  then have "screen s' = (if c = 0 then screen s else show_char c (screen s))"
    by (simp add: s2_def screen_show_char e1(3))
  ultimately show ?thesis by (rule that)
qed

text \<open>A string that the program may read, and that the one-character buffer does not touch.\<close>

definition out_string :: "u64 set \<Rightarrow> uglob \<Rightarrow> u64 \<Rightarrow> u8 list \<Rightarrow> 'a vm_scheme \<Rightarrow> bool" where
  "out_string A g a cs s \<longleftrightarrow> ustring a cs s \<and> range_of a (Suc (length cs)) \<subseteq> A - {g_p g}"

lemma out_string_Cons:
  assumes "out_string A g a (c # cs) s"
  shows "out_string A g (a + 1) cs s" "vload_byte a s = Some c" "c \<noteq> 0" "a \<in> A" "a + 1 \<in> A" "a + 1 \<noteq> g_p g"
    "vload_byte (a + 1) s = Some (hd (cs @ [0]))"
proof -
  have u: "ustring a (c # cs) s" and A: "insert a (range_of (a + 1) (Suc (length cs))) \<subseteq> A - {g_p g}"
    using assms unfolding out_string_def list.size(4) add_Suc_right add_0_right range_of_Suc by blast+
  have "\<forall>i \<le> length (c # cs). vload_byte (a + of_nat i) s = Some ((c # cs @ [0]) ! i)" using u by (simp add: ustring_def)
  then have v: "vload_byte (a + of_nat i) s = Some ((c # cs @ [0]) ! i)" if "i \<le> Suc (length cs)" for i using that by simp
  show "vload_byte a s = Some c" "vload_byte (a + 1) s = Some (hd (cs @ [0]))" using v [of 0] v [of 1] by (auto simp: hd_conv_nth)
  have "ustring (a + 1) cs s"
    using u v [of "Suc _"] by (simp add: ustring_def algebra_simps)
  then show "out_string A g (a + 1) cs s" using A by (simp add: out_string_def)
  show "c \<noteq> 0" using u by (auto simp: ustring_def)
  have "a + 1 \<in> range_of (a + 1) (Suc (length cs))" by (rule image_eqI [of _ _ 0]) simp_all
  then show "a \<in> A" "a + 1 \<in> A" "a + 1 \<noteq> g_p g" using A by auto
qed

lemma out_string_quiet: "out_string A g a cs s \<Longrightarrow> quiet A (g_p g) s s' \<Longrightarrow> out_string A g a cs s'"
proof -
  assume o: "out_string A g a cs s" and q: "quiet A (g_p g) s s'"
  have "a + of_nat i \<in> A - {g_p g}" if "i \<le> length cs" for i
  proof -
    have "a + of_nat i \<in> range_of a (Suc (length cs))" using that by (intro image_eqI [of _ _ i]) simp_all
    then show ?thesis using o unfolding out_string_def by blast
  qed
  then show ?thesis using o quietD(4) [OF q] by (auto simp: out_string_def ustring_def)
qed

lemma put_s_ok:
  assumes "out_ready A g s" "out_string A g a cs s" "cs \<noteq> []" "37 \<notin> set cs"
  shows "\<exists>s'. put_s env g a s = Some s' \<and> quiet A (g_p g) s s' \<and> screen s' = fold show_char cs (screen s)"
  using assms
proof (induction cs arbitrary: a s)
  case (Cons c cs)
  note o = out_string_Cons [OF Cons.prems(2)]
  obtain s1 where s1: "put_ch env g c s = Some s1" "quiet A (g_p g) s s1" "screen s1 = show_char c (screen s)"
    by (rule put_ch_ok [OF Cons.prems(1), of c env]) (use Cons.prems(4) o(3) in \<open>auto intro: that\<close>)
  have r1: "out_ready A g s1" "out_string A g (a + 1) cs s1"
    by (rule out_ready_quiet [OF Cons.prems(1) s1(2)] out_string_quiet [OF o(1) s1(2)])+
  have u: "uload a s = Some (c, s)"
    using Cons.prems(1) o(2,4) by (auto simp: out_ready_def intro: uload_ok)
  have u1: "uload (a + 1) s1 = Some (hd (cs @ [0]), s1)"
    using uload_ok [OF quietD(1) [OF s1(2)] o(5)] quietD(4) [OF s1(2) o(5,6)] o(7) by simp
  have step: "put_s env g a s = (if hd (cs @ [0]) \<noteq> 0 then put_s env g (a + 1) s1 else Some s1)"
    unfolding put_s_def using u s1(1) u1 by (subst put_s_loop.simps) simp
  show ?case
  proof (cases cs)
    case Nil
    then show ?thesis using step s1 by simp
  next
    case (Cons d ds)
    then have "hd (cs @ [0]) \<noteq> 0" using out_string_Cons(3) r1(2) by simp
    moreover obtain s' where "put_s env g (a + 1) s1 = Some s'" "quiet A (g_p g) s1 s'" "screen s' = fold show_char cs (screen s1)"
      using Cons.IH [OF r1] Cons Cons.prems(4) by auto
    ultimately show ?thesis using step s1(2,3) quiet_trans by fastforce
  qed
qed simp

section \<open>Calls that the kernel does not know\<close>

text \<open>The kernel's dispatcher has no entry for the numbers with which the library sleeps, closes a descriptor, duplicates one
  and makes a pipe: each of these calls returns 0 at once, and the only trace is the acknowledgement sent to the
  interrupt controllers.\<close>

theorem undispatched_calls:
  assumes "childFlag s \<noteq> 1"
  shows "let s' = outb 0x20 0x20 (outb 0xA0 0x20 s) in
    lib_sleep env sec s = Some (Ret 0, s') \<and> sb_close env f s = Some (Ret 0, s') \<and>
    sb_dup2 env m n s = Some (Ret 0, s') \<and> sb_pipe env m s = Some (Ret 0, s')"
  using assms
  by (simp add: Let_def lib_sleep_def u_sleep_def sb_close_def u_close_def sb_dup2_def u_dup2_def sb_pipe_def u_pipe_def
      int80_def irq_handler2_def syscall_def)

text \<open>A library over the mapped page of the example process.\<close>

definition lib_glob :: uglob where
  "lib_glob = \<lparr>g_s = 0x400000, g_p = 0x400000, g_buf = 0x400100, g_temp = 0x400100, g_pwd = 0x400100, g_temp1 = 0x400100,
     g_direc = 0x400100, g_buffer = 0x400100\<rparr>"

lemma str_sys_ready: "out_ready (range_of 0x400000 4096) lib_glob (str_sys [120])"
proof -
  note F = str_sys_facts [of "[120]", simplified]
  note M = mem_onlyD [OF F(5)]
  have c: "childFlag (str_sys [120]) \<noteq> 1" by (subst M(1)) simp
  have r: "CR3 (str_sys [120]) = 0x1000" using M(2) cow_proc_facts(2) by simp
  have L: "pt_lookup (frames (str_sys [120])) 0x1000 v = (if vpage v = vpage 0x400000 then 0x2107 else 0)" for v
    using fun_cong [OF M(3), of v] cow_proc_facts(2) cow_proc_facts(9) [of v] by simp
  have "pt_lookup (frames (str_sys [120])) (CR3 (str_sys [120])) v = 0x2107" if "v \<in> range_of 0x400000 4096" for v
    using umemD(2) [OF F(1) that] unfolding r L by (simp split: if_splits)
  then have "wmem (range_of 0x400000 4096) (str_sys [120])" using F(1) by (simp add: wmem_def)
  moreover have "vload_byte (0x400000 + of_nat 1) (str_sys [120]) = Some 0"
    using F(2) [unfolded ustring_def, THEN conjunct2, rule_format, of 1] by simp
  moreover have "0x400000 \<in> range_of 0x400000 4096" "0x400001 \<in> range_of 0x400000 4096"
    by (rule image_eqI [of _ _ 0] image_eqI [of _ _ 1]; simp)+
  ultimately show ?thesis using c by (simp add: out_ready_def lib_glob_def)
qed

theorem undispatched_calls_witness:
  "lib_sleep test_env 5 (str_sys [120]) = Some (Ret 0, outb 0x20 0x20 (outb 0xA0 0x20 (str_sys [120])))"
  using undispatched_calls [of "str_sys [120]" test_env 5 0 0 0] str_sys_ready by (simp add: out_ready_def Let_def)

end
