(* ===== verification/Printf.thy ===== *)
theory Printf
  imports Libc
begin

text \<open>
  Formatted output of the user library, \<^verbatim>\<open>libc/printf.c\<close>: the text is collected in a global buffer in user memory and
  then written to the screen character by character through the kernel.

  The scratch arrays \<^verbatim>\<open>x\<close> and \<^verbatim>\<open>d\<close> and the fill level of the buffer are variables of the library; the buffer itself lies
  at an address that the linker gives.  The format is a literal of the program.
\<close>

record ulib = sysc +
  u_x :: "u8 list"
  u_d :: "u8 list"
  u_index :: nat

section \<open>Filling the buffer\<close>

definition u_printc :: "uglob \<Rightarrow> u8 \<Rightarrow> 'a ulib_scheme \<Rightarrow> 'a ulib_scheme option" where
  "u_printc g fmt s = do {
     s \<leftarrow> ustore (g_buffer g + of_nat (u_index s)) fmt s;
     Some (s\<lparr>u_index := u_index s + 1\<rparr>)
   }"

fun put_buffer :: "uglob \<Rightarrow> u8 list \<Rightarrow> 'a ulib_scheme \<Rightarrow> 'a ulib_scheme option" where
  "put_buffer g [] s = Some s"
| "put_buffer g (c # cs) s = Option.bind (u_printc g c s) (put_buffer g cs)"

definition u_convert :: "uglob \<Rightarrow> u64 \<Rightarrow> u64 \<Rightarrow> char \<Rightarrow> 'a ulib_scheme \<Rightarrow> 'a ulib_scheme option" where
  "u_convert g dec base type s =
     (let out = rev (convert_fmt dec base type) in
      if type = CHR ''c'' then put_buffer g out s
      else if type = CHR ''d'' then Some (s\<lparr>u_d := put_array (out @ [0]) (u_d s)\<rparr>)
      else if type = CHR ''x'' then Some (s\<lparr>u_x := put_array (out @ [0]) (u_x s)\<rparr>)
      else Some (s\<lparr>u_x := put_array out (u_x s)\<rparr>))"

definition u_printx :: "uglob \<Rightarrow> u32 \<Rightarrow> 'a ulib_scheme \<Rightarrow> 'a ulib_scheme option" where
  "u_printx g num s = do {
     s \<leftarrow> u_convert g (scast num) 16 CHR ''x'' s;
     put_buffer g (upto_nul (u_x s)) s
   }"

definition u_printd :: "uglob \<Rightarrow> u32 \<Rightarrow> 'a ulib_scheme \<Rightarrow> 'a ulib_scheme option" where
  "u_printd g num s = do {
     s \<leftarrow> u_convert g (scast num) 10 CHR ''d'' s;
     put_buffer g (upto_nul (u_d s)) s
   }"

definition u_prints :: "uglob \<Rightarrow> u8 list option \<Rightarrow> 'a ulib_scheme \<Rightarrow> 'a ulib_scheme option" where
  "u_prints g fmt s = (case fmt of None \<Rightarrow> Some s | Some cs \<Rightarrow> put_buffer g cs s)"

definition u_printp :: "uglob \<Rightarrow> u64 \<Rightarrow> 'a ulib_scheme \<Rightarrow> 'a ulib_scheme option" where
  "u_printp g p s = do {
     s \<leftarrow> u_prints g (Some (map of_char ''0x'')) s;
     s \<leftarrow> u_convert g p 16 CHR ''x'' s;
     put_buffer g (upto_nul (u_x s)) s
   }"

text \<open>One conversion, with the arguments that are left; as in the kernel's formatter, a conversion that does not fit its
  argument prints nothing, and a format that ends in a single \<^verbatim>\<open>%\<close> ends there.\<close>

fun u_print_arg :: "uglob \<Rightarrow> char \<Rightarrow> karg list \<Rightarrow> 'a ulib_scheme \<Rightarrow> (karg list \<times> 'a ulib_scheme) option" where
  "u_print_arg g c (KInt w # args) s =
     (if c = CHR ''x'' then map_option (Pair args) (u_printx g (ucast w) s)
      else if c = CHR ''s'' then Some (args, s)
      else if c = CHR ''c'' then map_option (Pair args) (u_printc g (ucast w) s)
      else if c = CHR ''p'' then map_option (Pair args) (u_printp g w s)
      else if c = CHR ''d'' then map_option (Pair args) (u_printd g (ucast w) s)
      else Some (KInt w # args, s))"
| "u_print_arg g c (KStr p # args) s =
     (if c = CHR ''s'' then map_option (Pair args) (u_prints g p s)
      else if c \<in> {CHR ''x'', CHR ''c'', CHR ''p'', CHR ''d''} then Some (args, s)
      else Some (KStr p # args, s))"
| "u_print_arg g c [] s = Some ([], s)"

fun u_format :: "uglob \<Rightarrow> string \<Rightarrow> karg list \<Rightarrow> 'a ulib_scheme \<Rightarrow> 'a ulib_scheme option" where
  "u_format g [] args s = Some s"
| "u_format g (c # cs) args s =
     (if c = CHR ''%''
      then case cs of [] \<Rightarrow> Some s
           | k # cs' \<Rightarrow> Option.bind (u_print_arg g k args s) (\<lambda>(args, s). u_format g cs' args s)
      else Option.bind (u_printc g (of_char c) s) (u_format g cs args))"

definition u_printf :: "kenv \<Rightarrow> uglob \<Rightarrow> string \<Rightarrow> karg list \<Rightarrow> 'a ulib_scheme \<Rightarrow> 'a ulib_scheme option" where
  "u_printf env g fmt args s = do {
     s \<leftarrow> u_format g fmt args s;
     s \<leftarrow> ustore (g_buffer g + of_nat (u_index s)) 0 s;
     let s = s\<lparr>u_index := 0\<rparr>;
     put_s env g (g_buffer g) s
   }"

definition lib_clearScreen :: "kenv \<Rightarrow> 'a sysc_scheme \<Rightarrow> (outcome \<times> 'a sysc_scheme) option" where
  "lib_clearScreen env s = u_clearscreen env 0xAA s"

definition sb_pwd :: "kenv \<Rightarrow> uglob \<Rightarrow> u32 \<Rightarrow> 'a ulib_scheme \<Rightarrow> 'a ulib_scheme option" where
  "sb_pwd env g print s = do {
     (r, s) \<leftarrow> u_pwd env 0xb7 (g_pwd g) 1000 s;
     if print = 1
     then do {
       (p, s) \<leftarrow> uload_str (g_pwd g) s;
       u_printf env g (''%s'' @ [CHR 0x0A]) [KStr (Some p)] s
     }
     else Some s
   }"

section \<open>The text of a format\<close>

text \<open>What a conversion prints, and what a format prints: each byte is marked when it comes from an argument.\<close>

fun conv_text :: "char \<Rightarrow> karg list \<Rightarrow> karg list \<times> u8 list" where
  "conv_text c (KInt w # args) =
     (if c = CHR ''x'' then (args, rev (convert_loop (scast (ucast w :: u32)) 16))
      else if c = CHR ''s'' then (args, [])
      else if c = CHR ''c'' then (args, [ucast w])
      else if c = CHR ''p'' then (args, map of_char ''0x'' @ rev (convert_loop w 16))
      else if c = CHR ''d'' then (args, rev (convert_loop (scast (ucast w :: u32)) 10))
      else (KInt w # args, []))"
| "conv_text c (KStr p # args) =
     (if c = CHR ''s'' then (args, case p of None \<Rightarrow> [] | Some cs \<Rightarrow> cs)
      else if c \<in> {CHR ''x'', CHR ''c'', CHR ''p'', CHR ''d''} then (args, [])
      else (KStr p # args, []))"
| "conv_text c [] = ([], [])"

fun fmt_items :: "string \<Rightarrow> karg list \<Rightarrow> (bool \<times> u8) list" where
  "fmt_items [] args = []"
| "fmt_items (c # cs) args =
     (if c = CHR ''%''
      then case cs of [] \<Rightarrow> []
           | k # cs' \<Rightarrow> (case conv_text k args of (args, t) \<Rightarrow> map (Pair True) t @ fmt_items cs' args)
      else (False, of_char c) # fmt_items cs args)"

abbreviation fmt_text :: "string \<Rightarrow> karg list \<Rightarrow> u8 list" where
  "fmt_text fmt args \<equiv> map snd (fmt_items fmt args)"

text \<open>No control character and no percent sign comes from an argument.\<close>

definition plain_args :: "string \<Rightarrow> karg list \<Rightarrow> bool" where
  "plain_args fmt args \<longleftrightarrow> (\<forall>(b, c) \<in> set (fmt_items fmt args). b \<longrightarrow> c \<notin> {0, 10, 13, 37})"

section \<open>The kernel's formatter shows the text\<close>

lemma write_all_fold: "write_all cs s = fold kwrite cs s"
  by (induction cs arbitrary: s) simp_all

lemma screen_write_all: "screen (write_all cs s) = fold kwrite cs (screen s)"
  by (induction cs arbitrary: s) (simp_all add: screen_show)

lemma screen_scratch [simp]: "screen (s\<lparr>x_buf := x\<rparr>) = screen s" "screen (s\<lparr>d_buf := x\<rparr>) = screen s"
  by (simp_all add: screen_def)

lemma upto_nul_digits:
  "base = 10 \<or> base = 16 \<Longrightarrow> upto_nul (put_array (rev (convert_loop n base) @ [0]) arr) = rev (convert_loop n base)"
  using convert_loop_nonzero [of base n] by (intro upto_nul_put) simp

lemma screen_print_arg:
  "print_arg k args s = (args', s') \<Longrightarrow> conv_text k args = (args', snd (conv_text k args)) \<and>
     screen s' = fold kwrite (snd (conv_text k args)) (screen s)"
  by (induction k args s rule: print_arg.induct)
    (auto simp: print_arg.simps printx_def printd_def printp_def prints_def printc_def convert_def convert_fmt_def Let_def
      upto_nul_digits screen_write_all screen_show split: if_splits option.splits)

lemma show_plain: "set cs \<inter> {10, 13} = {} \<Longrightarrow> fold kwrite cs s = fold show_char cs s"
  by (induction cs arbitrary: s) (auto simp: show_char_def)

lemma ctl_char:
  "of_char c = (10 :: u8) \<longleftrightarrow> c = CHR 0x0A" "of_char c = (13 :: u8) \<longleftrightarrow> c = CHR 0x0D"
  "of_char c = (0 :: u8) \<longleftrightarrow> c = CHR 0x00" "of_char c = (37 :: u8) \<longleftrightarrow> c = CHR ''%''"
proof -
  have e: "of_char c = (of_char k :: u8) \<longleftrightarrow> c = k" for k using byte_char(2) [of "of_char c" c] byte_char(2) [of "of_char c" k] by auto
  show "of_char c = (10 :: u8) \<longleftrightarrow> c = CHR 0x0A" "of_char c = (13 :: u8) \<longleftrightarrow> c = CHR 0x0D"
    "of_char c = (0 :: u8) \<longleftrightarrow> c = CHR 0x00" "of_char c = (37 :: u8) \<longleftrightarrow> c = CHR ''%''"
    using e [of "CHR 0x0A"] e [of "CHR 0x0D"] e [of "CHR 0x00"] e [of "CHR ''%''"] by simp_all
qed

lemma show_of_char:
  "show_char (of_char c) s = (if c = CHR 0x0A then newline s else if c = CHR 0x0D then car_return s else kwrite (of_char c) s)"
  by (simp add: show_char_def ctl_char)

lemma screen_kprintf:
  assumes "plain_args fmt args"
  shows "screen (kprintf fmt args s) = fold show_char (fmt_text fmt args) (screen s)"
  using assms
proof (induction fmt args s rule: kprintf.induct)
  case (1 args s)
  show ?case by (simp add: kprintf.simps)
next
  case (2 c cs args s)
  show ?case
  proof (cases "c = CHR ''%''")
    case True
    show ?thesis
    proof (cases cs)
      case Nil
      then show ?thesis using True by (simp add: kprintf.simps)
    next
      case (Cons k cs')
      obtain args' s' where p: "print_arg k args s = (args', s')" by force
      define u where "u = snd (conv_text k args)"
      have c: "conv_text k args = (args', u)" "screen s' = fold kwrite u (screen s)"
        using screen_print_arg [OF p] by (simp_all add: u_def)
      have "set u \<inter> {10, 13} = {}" "plain_args cs' args'"
        using "2.prems" True Cons c(1) by (auto simp: plain_args_def)
      then show ?thesis using "2.IH"(1) [OF True Cons p [symmetric]] True Cons p c show_plain [of u "screen s"] by (simp add: kprintf.simps comp_def)
    qed
  next
    case False
    then have "plain_args cs args" using "2.prems" by (auto simp: plain_args_def)
    then show ?thesis using "2.IH"(2-4) False
      by (simp add: kprintf.simps printc_def screen_show show_of_char)
  qed
qed

section \<open>The buffer\<close>

text \<open>The library is ready to format: the buffer does not meet the one-character buffer, \<open>cs\<close> is what the buffer holds.\<close>

definition filled :: "u64 set \<Rightarrow> uglob \<Rightarrow> u8 list \<Rightarrow> 'a ulib_scheme \<Rightarrow> bool" where
  "filled A g cs s \<longleftrightarrow> out_ready A g s \<and> range_of (g_buffer g) 512 \<subseteq> A - {g_p g, g_p g + 1} \<and> u_index s = length cs \<and>
     (\<forall>i < length cs. vload_byte (g_buffer g + of_nat i) s = Some (cs ! i))"

lemma ulib_mem [simp]:
  "vload_byte v (s\<lparr>u_x := x\<rparr>) = vload_byte v s" "wmem A (s\<lparr>u_x := x\<rparr>) = wmem A s"
  "vload_byte v (s\<lparr>u_d := x\<rparr>) = vload_byte v s" "wmem A (s\<lparr>u_d := x\<rparr>) = wmem A s"
  "vload_byte v (s\<lparr>u_index := i\<rparr>) = vload_byte v s" "wmem A (s\<lparr>u_index := i\<rparr>) = wmem A s"
  by (rule vload_cong wmem_cong; simp)+

lemma ulib_ready [simp]:
  "out_ready A g (s\<lparr>u_x := x\<rparr>) = out_ready A g s" "out_ready A g (s\<lparr>u_d := x\<rparr>) = out_ready A g s"
  "out_ready A g (s\<lparr>u_index := i\<rparr>) = out_ready A g s"
  by (simp_all add: out_ready_def)

lemma filled_upd [simp]: "filled A g cs (s\<lparr>u_x := x\<rparr>) = filled A g cs s" "filled A g cs (s\<lparr>u_d := x\<rparr>) = filled A g cs s"
  by (simp_all add: filled_def)

lemma buffer_at: "i < 512 \<Longrightarrow> j < 512 \<Longrightarrow> a + of_nat i = a + (of_nat j :: u64) \<longleftrightarrow> i = j"
  using of_nat_u64_inj [of i j] by auto

lemma u_store_buffer:
  assumes F: "filled A g cs s" and l: "length cs < 512"
  obtains s' where "ustore (g_buffer g + of_nat (u_index s)) c s = Some s'" "mem_only s s'" "out_ready A g s'"
    "\<And>i. i \<le> length cs \<Longrightarrow> vload_byte (g_buffer g + of_nat i) s' = Some ((cs @ [c]) ! i)"
    "\<And>w. w \<in> A - range_of (g_buffer g) 512 \<Longrightarrow> vload_byte w s' = vload_byte w s"
proof -
  let ?b = "g_buffer g"
  note f = F [unfolded filled_def]
  have inA: "?b + of_nat i \<in> A - {g_p g, g_p g + 1}" if "i < 512" for i
  proof -
    have "?b + of_nat i \<in> range_of ?b 512" using that by (intro image_eqI [of _ _ i]) simp_all
    then show ?thesis using f by blast
  qed
  have W: "wmem A s" using f by (simp add: out_ready_def)
  obtain s' where s': "ustore (?b + of_nat (u_index s)) c s = Some s'" "mem_only s s'"
    "\<And>w. w \<in> A \<Longrightarrow> vload_byte w s' = (if w = ?b + of_nat (u_index s) then Some c else vload_byte w s)"
    using ustore_ok [OF W, of "?b + of_nat (u_index s)" c] inA [of "u_index s"] f l by (metis DiffD1)
  have i: "u_index s = length cs" using f by simp
  have "out_ready A g s'"
  proof -
    have "childFlag s' = childFlag s" by (subst mem_onlyD(1) [OF s'(2)]) simp
    moreover have "g_p g + 1 \<noteq> ?b + of_nat (u_index s)" using inA [of "u_index s"] i l by auto
    ultimately show ?thesis using f s'(3) [of "g_p g + 1"] mem_only_wmem [OF s'(2)] by (simp add: out_ready_def)
  qed
  moreover have "vload_byte (?b + of_nat j) s' = Some ((cs @ [c]) ! j)" if "j \<le> length cs" for j
    using s'(3) [of "?b + of_nat j"] inA [of j] that l f buffer_at [of j "length cs" ?b] i by (auto simp: nth_append le_less)
  moreover have "vload_byte w s' = vload_byte w s" if "w \<in> A - range_of ?b 512" for w
    using s'(3) [of w] that l i by auto
  ultimately show ?thesis using s'(1,2) by (intro that)
qed

text \<open>A piece of the library appends to the buffer: with room for it, the step returns with the text added, the screen as it was,
  and the rest of the memory untouched.\<close>

definition appends :: "u64 set \<Rightarrow> uglob \<Rightarrow> u8 list \<Rightarrow> u8 list \<Rightarrow> 'a ulib_scheme \<Rightarrow> 'a ulib_scheme \<Rightarrow> bool" where
  "appends A g cs t s s' \<longleftrightarrow> filled A g (cs @ t) s' \<and> screen s' = screen s \<and> ulib.more s' = ulib.more s \<and>
     (\<forall>w \<in> A - range_of (g_buffer g) 512. vload_byte w s' = vload_byte w s)"

lemma u_printc_appends:
  assumes "filled A g cs s" "length cs < 512"
  shows "\<exists>s'. u_printc g c s = Some s' \<and> appends A g cs [c] s s'"
proof -
  obtain s' where s': "ustore (g_buffer g + of_nat (u_index s)) c s = Some s'" "mem_only s s'" "out_ready A g s'"
    "\<And>i. i \<le> length cs \<Longrightarrow> vload_byte (g_buffer g + of_nat i) s' = Some ((cs @ [c]) ! i)"
    "\<And>w. w \<in> A - range_of (g_buffer g) 512 \<Longrightarrow> vload_byte w s' = vload_byte w s"
    by (rule u_store_buffer [OF assms, of c]) (rule that)
  let ?t = "s'\<lparr>u_index := u_index s' + 1\<rparr>"
  have e: "u_index s' = u_index s" "screen s' = screen s" "ulib.more s' = ulib.more s"
    by (subst mem_onlyD(1) [OF s'(2)], simp add: screen_def)+
  have "filled A g (cs @ [c]) ?t"
    using s'(3,4) assms(1) e(1) by (simp add: filled_def less_Suc_eq_le)
  moreover have "screen ?t = screen s" "ulib.more ?t = ulib.more s" using e(2,3) by (simp_all add: screen_def)
  ultimately have "appends A g cs [c] s ?t" using s'(5) by (simp add: appends_def)
  then show ?thesis using s'(1) by (simp add: u_printc_def)
qed

lemma appends_trans: "appends A g cs t s s' \<Longrightarrow> appends A g (cs @ t) u s' s'' \<Longrightarrow> appends A g cs (t @ u) s s''"
  by (simp add: appends_def)

lemma put_buffer_appends:
  assumes "filled A g cs s" "length cs + length t \<le> 512"
  shows "\<exists>s'. put_buffer g t s = Some s' \<and> appends A g cs t s s'"
  using assms
proof (induction t arbitrary: cs s)
  case Nil
  then show ?case by (simp add: appends_def)
next
  case (Cons c t)
  obtain s1 where s1: "u_printc g c s = Some s1" "appends A g cs [c] s s1"
    using u_printc_appends [OF Cons.prems(1)] Cons.prems(2) by auto
  have "\<exists>s'. put_buffer g t s1 = Some s' \<and> appends A g (cs @ [c]) t s1 s'"
    using s1(2) Cons.prems(2) by (intro Cons.IH) (simp_all add: appends_def)
  then show ?case using s1 appends_trans [OF s1(2)] by auto
qed

lemma ulib_more: "sysc.more s = sysc.more t \<Longrightarrow> u_index s = u_index t"
  by (cases s; cases t) simp

lemma appends_upd [simp]:
  "appends A g cs t (s\<lparr>u_x := x\<rparr>) s' = appends A g cs t s s'" "appends A g cs t (s\<lparr>u_d := x\<rparr>) s' = appends A g cs t s s'"
  by (simp_all add: appends_def screen_def)

lemma u_digits_appends:
  assumes "filled A g cs s"
  shows
    "length cs + length (rev (convert_loop (scast n) 16)) \<le> 512 \<Longrightarrow>
       \<exists>s'. u_printx g n s = Some s' \<and> appends A g cs (rev (convert_loop (scast n) 16)) s s'"
    "length cs + length (rev (convert_loop (scast n) 10)) \<le> 512 \<Longrightarrow>
       \<exists>s'. u_printd g n s = Some s' \<and> appends A g cs (rev (convert_loop (scast n) 10)) s s'"
proof -
  let ?x = "rev (convert_loop (scast n) 16)" and ?d = "rev (convert_loop (scast n) 10)"
  show "\<exists>s'. u_printx g n s = Some s' \<and> appends A g cs ?x s s'" if "length cs + length ?x \<le> 512"
    using put_buffer_appends [of A g cs "s\<lparr>u_x := put_array (?x @ [0]) (u_x s)\<rparr>" ?x] assms that
    by (simp add: u_printx_def u_convert_def convert_fmt_def upto_nul_digits)
  show "\<exists>s'. u_printd g n s = Some s' \<and> appends A g cs ?d s s'" if "length cs + length ?d \<le> 512"
    using put_buffer_appends [of A g cs "s\<lparr>u_d := put_array (?d @ [0]) (u_d s)\<rparr>" ?d] assms that
    by (simp add: u_printd_def u_convert_def convert_fmt_def upto_nul_digits)
qed

lemma u_printp_appends:
  assumes F: "filled A g cs s" and l: "length cs + length (map of_char ''0x'' @ rev (convert_loop w 16)) \<le> 512"
  shows "\<exists>s'. u_printp g w s = Some s' \<and> appends A g cs (map of_char ''0x'' @ rev (convert_loop w 16)) s s'"
proof -
  let ?p = "map of_char ''0x'' :: u8 list" and ?x = "rev (convert_loop w 16)"
  obtain s1 where s1: "put_buffer g ?p s = Some s1" "appends A g cs ?p s s1"
    using put_buffer_appends [OF F, of ?p] l by auto
  then have "filled A g (cs @ ?p) s1" by (simp add: appends_def)
  then obtain s2 where s2: "put_buffer g ?x (s1\<lparr>u_x := put_array (?x @ [0]) (u_x s1)\<rparr>) = Some s2" "appends A g (cs @ ?p) ?x s1 s2"
    using put_buffer_appends [of A g "cs @ ?p" "s1\<lparr>u_x := put_array (?x @ [0]) (u_x s1)\<rparr>" ?x] l by auto
  have "u_printp g w s = Some s2"
    using s1(1) s2(1) by (simp add: u_printp_def u_prints_def u_convert_def convert_fmt_def upto_nul_digits del: put_buffer.simps)
  then show ?thesis using appends_trans [OF s1(2) s2(2)] by blast
qed

lemma u_print_arg_appends:
  assumes F: "filled A g cs s" and c: "conv_text k args = (args', t)" and l: "length cs + length t \<le> 512"
  shows "\<exists>s'. u_print_arg g k args s = Some (args', s') \<and> appends A g cs t s s'"
proof -
  have refl: "appends A g cs [] s s" using F by (simp add: appends_def)
  show ?thesis
  proof (cases args)
    case Nil
    then show ?thesis using c refl by auto
  next
    case (Cons a rest)
    show ?thesis
    proof (cases a)
      case (KInt w)
      then show ?thesis using Cons c l refl u_digits_appends [OF F, of "ucast w"] u_printp_appends [OF F, of w]
          u_printc_appends [OF F, of "ucast w"] by (auto split: if_splits)
    next
      case (KStr p)
      then show ?thesis using Cons c l refl put_buffer_appends [OF F, of "case p of None \<Rightarrow> [] | Some cs \<Rightarrow> cs"]
        by (auto simp: u_prints_def split: if_splits option.splits)
    qed
  qed
qed

lemma u_format_appends:
  assumes "filled A g cs s" "length cs + length (fmt_text fmt args) \<le> 512"
  shows "\<exists>s'. u_format g fmt args s = Some s' \<and> appends A g cs (fmt_text fmt args) s s'"
  using assms
proof (induction fmt args arbitrary: cs s rule: fmt_items.induct)
  case (1 args)
  then show ?case by (simp add: appends_def)
next
  case (2 c fs args)
  show ?case
  proof (cases "c = CHR ''%''")
    case True
    show ?thesis
    proof (cases fs)
      case Nil
      then show ?thesis using True "2.prems" by (simp add: appends_def)
    next
      case (Cons k fs')
      obtain args' t where ct: "conv_text k args = (args', t)" by force
      have l: "length cs + (length t + length (fmt_text fs' args')) \<le> 512" using "2.prems"(2) True Cons ct by simp
      obtain s1 where s1: "u_print_arg g k args s = Some (args', s1)" "appends A g cs t s s1"
        using u_print_arg_appends [OF "2.prems"(1) ct] l by auto
      have "\<exists>s'. u_format g fs' args' s1 = Some s' \<and> appends A g (cs @ t) (fmt_text fs' args') s1 s'"
        by (rule "2.IH"(1) [OF True Cons ct [symmetric]]) (use s1(2) l in \<open>simp_all add: appends_def\<close>)
      then show ?thesis using True Cons ct s1 appends_trans [OF s1(2)] by (auto simp: comp_def)
    qed
  next
    case False
    obtain s1 where s1: "u_printc g (of_char c) s = Some s1" "appends A g cs [of_char c] s s1"
      using u_printc_appends [OF "2.prems"(1)] "2.prems"(2) False by auto
    have "\<exists>s'. u_format g fs args s1 = Some s' \<and> appends A g (cs @ [of_char c]) (fmt_text fs args) s1 s'"
      by (rule "2.IH"(2) [OF False]) (use s1(2) "2.prems"(2) False in \<open>simp_all add: appends_def\<close>)
    then show ?thesis using False s1 appends_trans [OF s1(2)] by auto
  qed
qed

lemma literal_item: "(False, c) \<in> set (fmt_items fmt args) \<Longrightarrow> \<exists>x \<in> set fmt. x \<noteq> CHR ''%'' \<and> c = of_char x"
proof (induction fmt args rule: fmt_items.induct)
  case (2 x fs args)
  show ?case
  proof (cases "x = CHR ''%''")
    case True
    then obtain k fs' where fs: "fs = k # fs'" using "2.prems" by (cases fs) auto
    obtain args' t where ct: "conv_text k args = (args', t)" by force
    have "(False, c) \<in> set (fmt_items fs' args')" using "2.prems" True fs ct by auto
    then show ?thesis using "2.IH"(1) [OF True fs ct [symmetric]] fs by auto
  next
    case False
    then show ?thesis using "2.prems" "2.IH"(2) by auto
  qed
qed simp

lemma text_plain:
  assumes "plain_args fmt args" "CHR 0x00 \<notin> set fmt"
  shows "0 \<notin> set (fmt_text fmt args)" "37 \<notin> set (fmt_text fmt args)"
proof -
  have "c \<noteq> 0 \<and> c \<noteq> 37" if i: "(b, c) \<in> set (fmt_items fmt args)" for b c
  proof (cases b)
    case True
    then show ?thesis using assms(1) i by (auto simp: plain_args_def)
  next
    case False
    then have "(False, c) \<in> set (fmt_items fmt args)" using i by simp
    then obtain x where "x \<in> set fmt" "x \<noteq> CHR ''%''" "c = of_char x" using literal_item by blast
    then show ?thesis using assms(2) by (auto simp: ctl_char)
  qed
  then show "0 \<notin> set (fmt_text fmt args)" "37 \<notin> set (fmt_text fmt args)" by force+
qed

text \<open>What a program sees of a call: the text is on the screen, the buffer is empty again, and no memory but the two buffers of
  the library has changed.\<close>

lemma u_printf_ok:
  assumes "filled A g [] s" "plain_args fmt args" "CHR 0x00 \<notin> set fmt" "fmt_text fmt args \<noteq> []" "length (fmt_text fmt args) < 512"
  shows "\<exists>s'. u_printf env g fmt args s = Some s' \<and> screen s' = fold show_char (fmt_text fmt args) (screen s) \<and> filled A g [] s' \<and>
    (\<forall>w \<in> A - range_of (g_buffer g) 512 - {g_p g}. vload_byte w s' = vload_byte w s)"
proof -
  let ?t = "fmt_text fmt args" and ?b = "g_buffer g"
  obtain s1 where s1: "u_format g fmt args s = Some s1" "filled A g ?t s1" "screen s1 = screen s"
      "\<forall>w \<in> A - range_of ?b 512. vload_byte w s1 = vload_byte w s"
    using u_format_appends [OF assms(1), of fmt args] assms(5) by (auto simp: appends_def)
  obtain s2 where s2: "ustore (?b + of_nat (u_index s1)) 0 s1 = Some s2" "mem_only s1 s2" "out_ready A g s2"
    "\<And>i. i \<le> length ?t \<Longrightarrow> vload_byte (?b + of_nat i) s2 = Some ((?t @ [0]) ! i)"
    "\<And>w. w \<in> A - range_of ?b 512 \<Longrightarrow> vload_byte w s2 = vload_byte w s1"
    by (rule u_store_buffer [OF s1(2) assms(5), of 0]) (rule that)
  define s3 where "s3 = s2\<lparr>u_index := 0\<rparr>"
  have "range_of ?b (Suc (length ?t)) \<subseteq> range_of ?b 512" using assms(5) by (intro image_mono) auto
  then have "range_of ?b (Suc (length ?t)) \<subseteq> A - {g_p g}" using assms(1) unfolding filled_def by blast
  moreover have "ustring ?b ?t s3" using s2(4) text_plain(1) [OF assms(2,3)] by (simp add: ustring_def s3_def)
  ultimately have "out_string A g ?b ?t s3" by (simp add: out_string_def)
  moreover have r3: "out_ready A g s3" using s2(3) by (simp add: s3_def)
  ultimately obtain s' where s': "put_s env g ?b s3 = Some s'" "quiet A (g_p g) s3 s'" "screen s' = fold show_char ?t (screen s3)"
    using put_s_ok assms(4) text_plain(2) [OF assms(2,3)] by blast
  have "screen s3 = screen s1" unfolding s3_def by (subst mem_onlyD(1) [OF s2(2)]) (simp add: screen_def)
  then have "screen s' = fold show_char ?t (screen s)" using s'(3) s1(3) by simp
  moreover have "filled A g [] s'"
    using ulib_more [OF quietD(3) [OF s'(2)]] out_ready_quiet [OF r3 s'(2)] assms(1) by (simp add: filled_def s3_def)
  moreover have "u_printf env g fmt args s = Some s'" using s1(1) s2(1) s'(1) by (simp add: u_printf_def s3_def)
  moreover have "vload_byte w s' = vload_byte w s" if "w \<in> A - range_of ?b 512 - {g_p g}" for w
    using quietD(4) [OF s'(2), of w] s2(5) [of w] s1(4) that by (simp add: s3_def)
  ultimately show ?thesis by blast
qed

section \<open>The two formatters agree\<close>

text \<open>C28. The \<^verbatim>\<open>printf\<close> of a user program and the kernel's \<^verbatim>\<open>kprintf\<close> show the same.  For a format and arguments whose text is
  not empty and fits in the 512-byte buffer, and no argument of which contributes a control character or a percent sign,
  the user's call returns, and after its one system call per character the screen is what \<^verbatim>\<open>kprintf\<close> with the same
  format and arguments would have made of it; the buffer is empty again.\<close>

theorem printf_shows_kprintf:
  assumes "filled A g [] s" "plain_args fmt args" "CHR 0x00 \<notin> set fmt" "fmt_text fmt args \<noteq> []" "length (fmt_text fmt args) < 512"
  shows "\<exists>s'. u_printf env g fmt args s = Some s' \<and> screen s' = screen (kprintf fmt args s) \<and> u_index s' = 0"
  using u_printf_ok [OF assms, of env] screen_kprintf [OF assms(2), of s] by (auto simp: filled_def)

definition lib_sys :: ulib where
  "lib_sys = sysc.extend (str_sys [120]) (ulib.fields (replicate 1000 0) (replicate 1000 0) 0)"

lemma lib_sys_sel [simp]:
  "frames lib_sys = frames (str_sys [120])" "CR3 lib_sys = CR3 (str_sys [120])" "childFlag lib_sys = childFlag (str_sys [120])"
  "u_index lib_sys = 0"
  by (simp_all add: lib_sys_def sysc.extend_def ulib.fields_def)

lemma lib_sys_filled: "filled (range_of 0x400000 4096) lib_glob [] lib_sys"
proof -
  have "out_ready (range_of 0x400000 4096) lib_glob lib_sys"
    using str_sys_ready wmem_cong [of lib_sys "str_sys [120]"] vload_cong [of lib_sys "str_sys [120]"]
    by (simp add: out_ready_def)
  moreover have "range_of 0x400100 512 \<subseteq> range_of 0x400000 4096 - {0x400000, 0x400000 + 1}"
  proof
    fix v :: u64
    assume "v \<in> range_of 0x400100 512"
    then obtain i where i: "i < 512" "v = 0x400000 + of_nat (256 + i)" by (auto simp: algebra_simps)
    have "v \<noteq> 0x400000 + of_nat 0" "v \<noteq> 0x400000 + of_nat 1"
      unfolding i(2) add_left_cancel using of_nat_u64_inj [of "256 + i" 0] of_nat_u64_inj [of "256 + i" 1] i(1) by auto
    then show "v \<in> range_of 0x400000 4096 - {0x400000, 0x400000 + 1}" using i by (auto intro: image_eqI [of _ _ "256 + i"])
  qed
  ultimately show ?thesis by (simp add: filled_def lib_glob_def)
qed

theorem printf_shows_kprintf_witness:
  "\<exists>s'. u_printf test_env lib_glob ''a%s=%d'' [KStr (Some [98, 99]), KInt 42] lib_sys = Some s' \<and>
     screen s' = screen (kprintf ''a%s=%d'' [KStr (Some [98, 99]), KInt 42] lib_sys) \<and> u_index s' = 0"
proof -
  have d: "convert_loop 42 10 = [50, 52]" by (subst convert_loop.simps, subst convert_loop.simps) (simp add: digit_char_def)
  have i: "fmt_items ''a%s=%d'' [KStr (Some [98, 99]), KInt 42] = [(False, 97), (True, 98), (True, 99), (False, 61), (True, 52), (True, 50)]"
    by (simp add: d)
  show ?thesis
    by (rule printf_shows_kprintf [OF lib_sys_filled]) (unfold plain_args_def i, simp_all)
qed

end
