(* ===== verification/Heap.thy ===== *)
theory Heap
  imports Printf
begin

text \<open>
  What the library has of a heap before it has an allocator: the variable \<^verbatim>\<open>start\<close> of \<^verbatim>\<open>libc/malloc.c\<close>, the program break of the process,
  blocks straight from the system call, and \<^verbatim>\<open>memset\<close>.
\<close>

text \<open>The library's memory with the pointer \<^verbatim>\<open>start\<close> to the first node; the nodes are in user memory.\<close>

record uheap = ulib +
  h_start :: u64

text \<open>\<^verbatim>\<open>memset(ptr,size)\<close> of the library; the size is an \<^verbatim>\<open>int\<close>.\<close>

definition lib_memset :: "u64 \<Rightarrow> u32 \<Rightarrow> 'a proc_scheme \<Rightarrow> 'a proc_scheme option" where
  "lib_memset ptr sz s = ustore_bytes ptr (replicate (nat (sint sz)) 0) s"

definition ret_val :: "outcome \<Rightarrow> u64 option" where
  "ret_val r = (case r of Ret v \<Rightarrow> Some v | Away \<Rightarrow> None)"

section \<open>The program break\<close>

definition h_brk :: "'a proc_scheme \<Rightarrow> u64" where
  "h_brk s = brk (mms s (mm (pcbs s (current s))))"

lemma uheap_more: "sysc.more s = sysc.more t \<Longrightarrow> h_start s = h_start t"
  by (cases s; cases t) simp

lemma sb_malloc_ok:
  assumes "childFlag s \<noteq> 1"
  obtains s' where "sb_malloc env sz s = Some (Ret (h_brk s), s')" "h_brk s' = h_brk s + scast sz" "childFlag s' = childFlag s"
    "sysc.more s' = sysc.more s" "frames s' = frames s" "CR3 s' = CR3 s"
proof -
  let ?s = "outb 0x20 0x20 (outb 0xA0 0x20 (snd (mallocSyscall (scast sz) s)))"
  have c: "childFlag (snd (mallocSyscall (scast sz) s)) = childFlag s" by (simp add: mallocSyscall_def Let_def upd_mm_def)
  then have "sb_malloc env sz s = Some (Ret (h_brk s), ?s)"
    using assms by (simp add: sb_malloc_def u_malloc_def int80_def irq_handler2_def syscall_def ret_def h_brk_def
        mallocSyscall_def Let_def)
  moreover have "h_brk ?s = h_brk s + scast sz" by (simp add: h_brk_def mallocSyscall_def Let_def upd_mm_def outb_def)
  moreover have "sysc.more ?s = sysc.more s" "childFlag ?s = childFlag s" "frames ?s = frames s" "CR3 ?s = CR3 s"
    by (simp_all add: mallocSyscall_def Let_def upd_mm_def outb_def)
  ultimately show ?thesis by (intro that [of ?s]) simp_all
qed

lemma int_roundtrip:
  fixes sz :: u64
  assumes "unat sz < 2 ^ 31"
  shows "scast (ucast sz :: u32) = sz"
proof -
  have l: "n < 31" if "bit sz n" for n by (rule low_bits [OF assms that])
  show ?thesis
  proof (rule bit_word_eqI)
    fix n
    assume "n < LENGTH(64)"
    then show "bit (scast (ucast sz :: u32) :: u64) n = bit sz n"
      using l [of n] l [of 31] by (auto simp: bit_signed_iff bit_unsigned_iff min_def)
  qed
qed

lemma int_small:
  fixes sz :: u64
  assumes "unat sz < 2 ^ 31"
  shows "sint (ucast sz :: u32) = int (unat sz)"
proof -
  define k where "k = int (unat sz)"
  have "k < int (2 ^ 31)" unfolding k_def using assms by (simp only: of_nat_less_iff)
  then have "k < 2 ^ 31" by simp
  moreover have "k = (if 0 \<le> sint (ucast sz :: u32) then sint (ucast sz :: u32) else sint (ucast sz :: u32) + 2 ^ 64)"
    using int_scast [of "ucast sz"] unfolding int_roundtrip [OF assms] k_def .
  ultimately show ?thesis using sint_ge [of "ucast sz :: u32"] unfolding k_def [symmetric] by (simp split: if_splits)
qed

section \<open>An example\<close>

text \<open>The example process with the program break inside its mapped page.\<close>

definition heap_sys :: uheap where
  "heap_sys = ulib.extend (upd_mm (mm (pcbs lib_sys (current lib_sys))) (\<lambda>r. r\<lparr>brk := 0x400090\<rparr>) lib_sys) (uheap.fields 0)"

lemma heap_sys_sel [simp]:
  "h_brk heap_sys = 0x400090" "frames heap_sys = frames (str_sys [120])"
  "CR3 heap_sys = CR3 (str_sys [120])" "childFlag heap_sys = childFlag (str_sys [120])"
  by (simp_all add: heap_sys_def h_brk_def upd_mm_def ulib.extend_def uheap.fields_def)

end
