(* ===== verification/UString.thy ===== *)
theory UString
  imports Heap Bytes
begin

text \<open>
  The string routines of the user library, \<^verbatim>\<open>libc/string.c\<close>, over user memory, with the stubs \<^verbatim>\<open>libc/puts.c\<close> and
  \<^verbatim>\<open>libc/putchar.c\<close>.

  Every byte is read and written as a user access, which may fault.  The memory that a program can reach without a fault is
  described by a byte memory; on it the routines compute what those of the kernel compute.
\<close>

section \<open>The routines\<close>

partial_function (option) u_strlen_loop :: "u64 \<Rightarrow> nat \<Rightarrow> 'a proc_scheme \<Rightarrow> (nat \<times> 'a proc_scheme) option" where
  "u_strlen_loop a len s =
     Option.bind (uload (a + of_nat len) s) (\<lambda>(b, s). if b \<noteq> 0 then u_strlen_loop a (len + 1) s else Some (len, s))"

definition u_strlen :: "u64 \<Rightarrow> 'a proc_scheme \<Rightarrow> (nat \<times> 'a proc_scheme) option" where
  "u_strlen a s = u_strlen_loop a 0 s"

partial_function (option) u_strcmp_loop :: "u64 \<Rightarrow> u64 \<Rightarrow> nat \<Rightarrow> 'a proc_scheme \<Rightarrow> (nat \<times> 'a proc_scheme) option" where
  "u_strcmp_loop a b len s =
     Option.bind (uload (a + of_nat len) s) (\<lambda>(x, s).
       Option.bind (uload (b + of_nat len) s) (\<lambda>(y, s).
         if x = y
         then if x = 0 \<and> y = 0 then Some (len, s) else u_strcmp_loop a b (len + 1) s
         else Some (len, s)))"

definition u_strcmp :: "u64 \<Rightarrow> u64 \<Rightarrow> nat \<Rightarrow> 'a proc_scheme \<Rightarrow> (int \<times> 'a proc_scheme) option" where
  "u_strcmp a b len s = do {
     (alen, s) \<leftarrow> u_strlen a s;
     (blen, s) \<leftarrow> u_strlen b s;
     if alen = blen
     then do {
       (l, s) \<leftarrow> u_strcmp_loop a b len s;
       if l = alen then Some (0, s) else Some (- 1, s)
     }
     else Some (- 1, s)
   }"

function u_strncmp_loop :: "u64 \<Rightarrow> u64 \<Rightarrow> nat \<Rightarrow> nat \<Rightarrow> 'a proc_scheme \<Rightarrow> (nat \<times> 'a proc_scheme) option" where
  "u_strncmp_loop a b len i s =
     (if i < len
      then do {
        (x, s) \<leftarrow> uload (a + of_nat i) s;
        (y, s) \<leftarrow> uload (b + of_nat i) s;
        if x \<noteq> y then Some (i, s) else u_strncmp_loop a b len (i + 1) s
      }
      else Some (i, s))"
  by pat_completeness auto
termination by (relation "measure (\<lambda>(a, b, len, i, s). len - i)") auto

declare u_strncmp_loop.simps [simp del]

definition u_strncmp :: "u64 \<Rightarrow> u64 \<Rightarrow> nat \<Rightarrow> 'a proc_scheme \<Rightarrow> (int \<times> 'a proc_scheme) option" where
  "u_strncmp a b len s = do {
     (i, s) \<leftarrow> u_strncmp_loop a b len 0 s;
     if i = len then Some (1, s) else Some (- 1, s)
   }"

partial_function (option) u_strcpy_loop :: "u64 \<Rightarrow> u64 \<Rightarrow> nat \<Rightarrow> 'a proc_scheme \<Rightarrow> 'a proc_scheme option" where
  "u_strcpy_loop src dest i s =
     Option.bind (uload (src + of_nat i) s) (\<lambda>(b, s).
       if b \<noteq> 0
       then Option.bind (ustore (dest + of_nat i) b s) (\<lambda>s. u_strcpy_loop src dest (i + 1) s)
       else ustore (dest + of_nat i) 0 s)"

definition u_strcpy :: "u64 \<Rightarrow> u64 \<Rightarrow> 'a proc_scheme \<Rightarrow> 'a proc_scheme option" where
  "u_strcpy src dest s = u_strcpy_loop src dest 0 s"

partial_function (option) u_strstr_inner :: "u64 \<Rightarrow> u64 \<Rightarrow> nat \<Rightarrow> nat \<Rightarrow> 'a proc_scheme \<Rightarrow> (bool \<times> 'a proc_scheme) option" where
  "u_strstr_inner hay sub i j s =
     Option.bind (uload (hay + of_nat (i + j)) s) (\<lambda>(x, s).
       Option.bind (uload (sub + of_nat j) s) (\<lambda>(y, s).
         if x = y
         then Option.bind (uload (sub + of_nat (j + 1)) s) (\<lambda>(z, s).
                if z = 0 then Some (True, s) else u_strstr_inner hay sub i (j + 1) s)
         else Some (False, s)))"

function u_strstr_outer :: "u64 \<Rightarrow> u64 \<Rightarrow> nat \<Rightarrow> nat \<Rightarrow> 'a proc_scheme \<Rightarrow> (int \<times> 'a proc_scheme) option" where
  "u_strstr_outer hay sub n i s =
     (if i < n
      then do {
        (found, s) \<leftarrow> u_strstr_inner hay sub i 0 s;
        if found then Some (1, s) else u_strstr_outer hay sub n (i + 1) s
      }
      else Some (0, s))"
  by pat_completeness auto
termination by (relation "measure (\<lambda>(hay, sub, n, i, s). n - i)") auto

declare u_strstr_outer.simps [simp del]

definition u_strstr :: "u64 \<Rightarrow> u64 \<Rightarrow> 'a proc_scheme \<Rightarrow> (int \<times> 'a proc_scheme) option" where
  "u_strstr hay sub s = do {
     (slen, s) \<leftarrow> u_strlen hay s;
     (sublen, s) \<leftarrow> u_strlen sub s;
     if slen \<ge> sublen then u_strstr_outer hay sub (slen - sublen) 0 s else Some (0, s)
   }"

text \<open>\<^verbatim>\<open>putchar\<close> returns its argument and writes nothing; \<^verbatim>\<open>puts\<close> reads the string and calls it.\<close>

definition u_putchar :: "int \<Rightarrow> int" where
  "u_putchar c = c"

partial_function (option) u_puts :: "u64 \<Rightarrow> 'a proc_scheme \<Rightarrow> (int \<times> 'a proc_scheme) option" where
  "u_puts a s =
     Option.bind (uload a s) (\<lambda>(b, s).
       if b \<noteq> 0
       then if u_putchar (sint b) \<noteq> sint b then Some (- 1, s) else u_puts (a + 1) s
       else Some (if u_putchar 10 = 10 then 0 else - 1, s))"

text \<open>Numbers of several bytes in user memory.\<close>

fun ustoren :: "nat \<Rightarrow> u64 \<Rightarrow> u64 \<Rightarrow> 'a proc_scheme \<Rightarrow> 'a proc_scheme option" where
  "ustoren 0 a v s = Some s"
| "ustoren (Suc n) a v s = Option.bind (ustore a (ucast v) s) (ustoren n (a + 1) (drop_bit 8 v))"

fun uloadn :: "nat \<Rightarrow> u64 \<Rightarrow> 'a proc_scheme \<Rightarrow> (u64 \<times> 'a proc_scheme) option" where
  "uloadn 0 a s = Some (0, s)"
| "uloadn (Suc n) a s =
     Option.bind (uload a s) (\<lambda>(b, s). Option.bind (uloadn n (a + 1) s) (\<lambda>(v, s). Some (ucast b OR push_bit 8 v, s)))"

section \<open>User memory as a byte memory\<close>

text \<open>In the state \<open>s\<close> the addresses \<open>A\<close> can be read and written without a fault, and hold the bytes of \<open>m\<close>.\<close>

definition umap :: "u64 set \<Rightarrow> bmem \<Rightarrow> 'a vm_scheme \<Rightarrow> bool" where
  "umap A m s \<longleftrightarrow> wmem A s \<and> (\<forall>v \<in> A. vload_byte v s = Some (m v))"

lemma umap_load [simp]: "umap A m s \<Longrightarrow> v \<in> A \<Longrightarrow> uload v s = Some (m v, s)"
  by (auto simp: umap_def intro: uload_ok)

lemma umap_store:
  assumes "umap A m s" "v \<in> A"
  obtains s' where "ustore v b s = Some s'" "umap A (m(v := b)) s'" "mem_only s s'"
proof -
  have W: "wmem A s" using assms(1) by (simp add: umap_def)
  obtain s' where s': "ustore v b s = Some s'" "mem_only s s'"
    "\<And>w. w \<in> A \<Longrightarrow> vload_byte w s' = (if w = v then Some b else vload_byte w s)"
    by (rule ustore_ok [OF W assms(2)]) (rule that)
  moreover have "umap A (m(v := b)) s'"
    using assms(1) s'(3) mem_only_wmem [OF s'(2), of A] by (simp add: umap_def)
  ultimately show ?thesis by (intro that)
qed

lemma umap_mem: "umap A m s \<Longrightarrow> frames s' = frames s \<Longrightarrow> CR3 s' = CR3 s \<Longrightarrow> umap A m s'"
  by (simp add: umap_def wmem_cong [of s' s] vload_cong [of s' s])

lemma umap_sub: "umap A m s \<Longrightarrow> B \<subseteq> A \<Longrightarrow> umap B m s"
  using wmem_mono unfolding umap_def by blast

lemma umap_cong: "umap A m s \<Longrightarrow> (\<And>v. v \<in> A \<Longrightarrow> m' v = m v) \<Longrightarrow> umap A m' s"
  by (simp add: umap_def)

lemma cstr_ustring:
  assumes "umap A m s" "range_of a (Suc (length cs)) \<subseteq> A"
  shows "cstr m a cs \<longleftrightarrow> ustring a cs s"
proof -
  have v: "vload_byte (a + of_nat i) s = Some (m (a + of_nat i))" if "i \<le> length cs" for i
  proof -
    have "a + of_nat i \<in> range_of a (Suc (length cs))" using that by (intro image_eqI [of _ _ i]) simp_all
    then show ?thesis using assms unfolding umap_def by blast
  qed
  show ?thesis
  proof
    assume "cstr m a cs"
    then show "ustring a cs s" using v cstr_at by (auto simp: ustring_def cstr_def)
  next
    assume u: "ustring a cs s"
    then have "m (a + of_nat i) = (cs @ [0]) ! i" if "i \<le> length cs" for i using v [OF that] that by (simp add: ustring_def)
    from this [of "length cs"] this [of "_ :: nat"] show "cstr m a cs"
      using u by (auto simp: cstr_def ustring_def nth_append)
  qed
qed

section \<open>The routines on a byte memory\<close>

text \<open>The addresses of a string with its terminator.\<close>

abbreviation str_of :: "u64 \<Rightarrow> u8 list \<Rightarrow> u64 set" where
  "str_of a cs \<equiv> range_of a (Suc (length cs))"

lemma range_memb [intro]: "i < n \<Longrightarrow> a + of_nat i \<in> range_of a n"
  by blast

lemma range_inside: "k + n \<le> l \<Longrightarrow> range_of (B + of_nat k) n \<subseteq> range_of B l"
  by (auto simp: add.assoc simp flip: of_nat_add)

lemma u_strlen_loop_sim:
  assumes "strlen_loop m a i = Some n"
  shows "i \<le> n \<and> ((\<forall>j. i \<le> j \<and> j \<le> n \<longrightarrow> a + of_nat j \<in> A) \<longrightarrow> umap A m s \<longrightarrow> u_strlen_loop a i s = Some (n, s))"
  using assms
proof (induction rule: strlen_loop.raw_induct [rotated 1, consumes 1, case_names step])
  case (step f m a i n)
  show ?case
  proof (cases "m (a + of_nat i) = 0")
    case True
    then show ?thesis using step by (subst u_strlen_loop.simps) simp
  next
    case False
    then have "f m a (i + 1) = Some n" using step(2) by simp
    from step(1) [OF this] show ?thesis using False by (subst u_strlen_loop.simps) (auto simp del: of_nat_add)
  qed
qed

lemma u_strlen_ok:
  assumes "umap A m s" "cstr m a cs" "str_of a cs \<subseteq> A"
  shows "u_strlen a s = Some (length cs, s)"
proof -
  have "a + of_nat j \<in> A" if "j \<le> length cs" for j using assms(3) that by (intro subsetD [OF assms(3)] range_memb) simp
  then show ?thesis
    using u_strlen_loop_sim [of m a 0 "length cs" A s] strlen_loop_cstr [OF assms(2), of 0] assms(1) by (simp add: u_strlen_def)
qed

lemma u_strcmp_loop_sim:
  assumes "strcmp_loop m a b i = Some n"
  shows "i \<le> n \<and> ((\<forall>j. i \<le> j \<and> j \<le> n \<longrightarrow> a + of_nat j \<in> A \<and> b + of_nat j \<in> A) \<longrightarrow> umap A m s \<longrightarrow> u_strcmp_loop a b i s = Some (n, s))"
  using assms
proof (induction rule: strcmp_loop.raw_induct [rotated 1, consumes 1, case_names step])
  case (step f m a b i n)
  show ?case
  proof (cases "m (a + of_nat i) = m (b + of_nat i) \<and> m (b + of_nat i) \<noteq> 0")
    case False
    then show ?thesis using step(2) by (subst u_strcmp_loop.simps) (auto split: if_splits)
  next
    case True
    then have "f m a b (i + 1) = Some n" using step(2) by simp
    from step(1) [OF this] show ?thesis using True by (subst u_strcmp_loop.simps) (auto simp del: of_nat_add)
  qed
qed

lemma u_strcmp_ok:
  assumes "umap A m s" "cstr m a cs" "cstr m b ds" "str_of a cs \<subseteq> A" "str_of b ds \<subseteq> A" "len \<le> length cs"
  shows "u_strcmp a b len s = Some (if length cs = length ds \<and> drop len cs = drop len ds then 0 else - 1, s)"
proof (cases "length cs = length ds")
  case False
  then show ?thesis using u_strlen_ok [OF assms(1,2,4)] u_strlen_ok [OF assms(1,3,5)] by (simp add: u_strcmp_def)
next
  case True
  obtain l where l: "strcmp_loop m a b len = Some l" "l = length cs \<longleftrightarrow> drop len cs = drop len ds" "l \<le> length cs"
    using strcmp_loop_cstr [OF assms(2,3) True assms(6)] by blast
  have "a + of_nat j \<in> A \<and> b + of_nat j \<in> A" if "j \<le> length cs" for j
    using that True by (intro conjI subsetD [OF assms(4)] subsetD [OF assms(5)] range_memb) simp_all
  then have "u_strcmp_loop a b len s = Some (l, s)"
    using u_strcmp_loop_sim [OF l(1), of A s] assms(1) l(3) by auto
  then show ?thesis
    using u_strlen_ok [OF assms(1,2,4)] u_strlen_ok [OF assms(1,3,5)] True l(2) by (simp add: u_strcmp_def)
qed

text \<open>Bytes written from an address on.\<close>

definition poke :: "u64 \<Rightarrow> u8 list \<Rightarrow> bmem \<Rightarrow> bmem" where
  "poke a bs m = (\<lambda>x. if unat (x - a) < length bs then bs ! unat (x - a) else m x)"

lemma u_strcpy_loop_sim:
  assumes "fwd_ok dest src (n + 1)" "n < 2 ^ 64" "\<And>k. k \<le> n \<Longrightarrow> src + of_nat k \<in> A \<and> dest + of_nat k \<in> A"
    and "i \<le> n" "\<forall>k. i \<le> k \<and> k < n \<longrightarrow> m (src + of_nat k) \<noteq> 0" "m (src + of_nat n) = 0" "umap A m s"
  shows "\<exists>m' s'. strcpy_loop m src dest i = Some m' \<and> u_strcpy_loop src dest i s = Some s' \<and> umap A m' s' \<and> mem_only s s'"
  using assms(4-7)
proof (induction "n - i" arbitrary: i m s)
  case 0
  then have i: "i = n" by simp
  obtain s' where s': "ustore (dest + of_nat n) 0 s = Some s'" "umap A (m(dest + of_nat n := 0)) s'" "mem_only s s'"
    by (rule umap_store [OF "0.prems"(4), of "dest + of_nat n" 0]) (use assms(3) in \<open>auto intro: that\<close>)
  have "u_strcpy_loop src dest i s = Some s'"
    using "0.prems" i assms(3) [of n] s'(1) by (subst u_strcpy_loop.simps) simp
  moreover have "strcpy_loop m src dest i = Some (m(dest + of_nat n := 0))" using "0.prems" i by (subst strcpy_loop.simps) simp
  ultimately show ?case using s' by blast
next
  case (Suc k)
  then have i: "i < n" and k: "k = n - (i + 1)" by simp_all
  let ?b = "m (src + of_nat i)"
  let ?m = "m(dest + of_nat i := ?b)"
  obtain t where t: "ustore (dest + of_nat i) ?b s = Some t" "umap A ?m t" "mem_only s t"
    by (rule umap_store [OF Suc.prems(4), of "dest + of_nat i" ?b]) (use assms(3) i in \<open>auto intro: that\<close>)
  have keep: "src + of_nat j \<noteq> dest + of_nat i" if "i < j" "j \<le> n" for j
    using fwd_ok_neq [OF assms(1), of i j] that assms(2) by simp
  obtain m' s' where s': "strcpy_loop ?m src dest (i + 1) = Some m'" "u_strcpy_loop src dest (i + 1) t = Some s'" "umap A m' s'" "mem_only t s'"
    using Suc.hyps(1) [of "i + 1" ?m t] k Suc.prems i keep t(2) by auto
  have "u_strcpy_loop src dest i s = Some s'"
    using Suc.prems(2,4) i assms(3) [of i] t(1) s'(2) by (subst u_strcpy_loop.simps) simp
  moreover have "strcpy_loop m src dest i = Some m'" using Suc.prems(2) i s'(1) by (subst strcpy_loop.simps) simp
  ultimately show ?case using s'(3,4) mem_only_trans [OF t(3)] by blast
qed

lemma u_strcpy_ok:
  assumes "umap A m s" "cstr m src cs" "length cs < 2 ^ 64 - 1" "fwd_ok dest src (length cs + 1)" "str_of src cs \<subseteq> A" "str_of dest cs \<subseteq> A"
  obtains s' where "u_strcpy src dest s = Some s'" "umap A (poke dest (cs @ [0]) m) s'" "mem_only s s'"
    "strcpy m src dest = Some (poke dest (cs @ [0]) m)"
proof -
  have A: "src + of_nat k \<in> A \<and> dest + of_nat k \<in> A" if "k \<le> length cs" for k
    using that by (intro conjI subsetD [OF assms(5)] subsetD [OF assms(6)] range_memb) simp_all
  have nz: "m (src + of_nat k) \<noteq> 0" if "k < length cs" for k using cstr_nth_nonzero [OF assms(2) that] .
  have n: "length cs < 2 ^ 64" using assms(3) by simp
  have e: "strcpy_loop m src dest 0 = Some (poke dest (cs @ [0]) m)"
    using strcpy_loop_eq [OF assms(4) n, of 0 m] nz cstr_end [OF assms(2)] cstr_at [OF assms(2), of "unat (x - dest)" for x]
    by (auto simp: poke_def fun_eq_iff less_Suc_eq_le)
  moreover obtain m' s' where "strcpy_loop m src dest 0 = Some m'" "u_strcpy_loop src dest 0 s = Some s'" "umap A m' s'" "mem_only s s'"
    using u_strcpy_loop_sim [OF assms(4) n A, of 0 m s] nz cstr_end [OF assms(2)] assms(1) by auto
  ultimately show ?thesis using that by (simp add: u_strcpy_def strcpy_def)
qed

lemma u_strstr_inner_sim:
  assumes "strstr_inner m hay sub i j = Some r" "umap A m s"
    and "\<And>k. k \<le> j + n \<Longrightarrow> hay + of_nat (i + k) \<in> A \<and> sub + of_nat k \<in> A" "m (sub + of_nat (j + n)) = 0" "0 < n"
  shows "u_strstr_inner hay sub i j s = Some (r, s)"
  using assms
proof (induction n arbitrary: j)
  case (Suc n)
  have x: "hay + of_nat (i + j) \<in> A" "sub + of_nat j \<in> A" "sub + of_nat (j + 1) \<in> A"
    using Suc.prems(3) [of j] Suc.prems(3) [of "j + 1"] by simp_all
  show ?case
  proof (cases "m (hay + of_nat (i + j)) = m (sub + of_nat j) \<and> m (sub + of_nat (j + 1)) \<noteq> 0")
    case False
    then show ?thesis
      using Suc.prems(1,2) x by (subst u_strstr_inner.simps) (subst (asm) strstr_inner.simps, auto split: if_splits simp del: of_nat_add)
  next
    case True
    then have n: "0 < n" using Suc.prems(4) by (cases n) auto
    have "strstr_inner m hay sub i (j + 1) = Some r"
      using True Suc.prems(1) by (subst (asm) strstr_inner.simps) (simp del: of_nat_add)
    then have "u_strstr_inner hay sub i (j + 1) s = Some (r, s)"
      using Suc.IH [of "j + 1"] Suc.prems(2-4) n by (simp del: of_nat_add)
    then show ?thesis using True Suc.prems(2) x by (subst u_strstr_inner.simps) (simp del: of_nat_add)
  qed
qed simp

lemma u_strstr_outer_sim:
  assumes "umap A m s" "cstr m hay cs" "cstr m sub ds" "str_of hay cs \<subseteq> A" "str_of sub ds \<subseteq> A" "n = length cs - length ds"
  shows "u_strstr_outer hay sub n i s = map_option (\<lambda>r. (r, s)) (strstr_outer m hay sub n i)"
proof (induction "n - i" arbitrary: i)
  case 0
  then show ?case by (subst u_strstr_outer.simps, subst strstr_outer.simps) simp
next
  case (Suc d)
  then have i: "i < n" and il: "i + length ds < length cs" using assms(6) by simp_all
  have A: "hay + of_nat (i + k) \<in> A \<and> sub + of_nat k \<in> A" if "k \<le> length ds" for k
    using that il by (intro conjI subsetD [OF assms(4)] subsetD [OF assms(5)] range_memb) simp_all
  define r where "r = (ds \<noteq> [] \<and> take (length ds) (drop i cs) = ds)"
  have r: "strstr_inner m hay sub i 0 = Some r" unfolding r_def by (rule strstr_inner_match [OF assms(2,3) il])
  have "u_strstr_inner hay sub i 0 s = Some (r, s)"
  proof (cases "ds = []")
    case True
    have "m sub = 0" "m (hay + of_nat i) \<noteq> 0"
      using True cstr_end [OF assms(3)] cstr_nth_nonzero [OF assms(2), of i] il by auto
    then show ?thesis using True A [of 0] assms(1) by (subst u_strstr_inner.simps) (simp add: r_def)
  next
    case False
    then show ?thesis
      using u_strstr_inner_sim [OF r assms(1), of "length ds"] A cstr_end [OF assms(3)] by simp
  qed
  moreover have "u_strstr_outer hay sub n (i + 1) s = map_option (\<lambda>r. (r, s)) (strstr_outer m hay sub n (i + 1))"
    using Suc by simp
  ultimately show ?case
    using i r by (subst u_strstr_outer.simps, subst strstr_outer.simps) (simp split: bool.splits)
qed

lemma u_strstr_ok:
  assumes "umap A m s" "cstr m hay cs" "cstr m sub ds" "str_of hay cs \<subseteq> A" "str_of sub ds \<subseteq> A"
  shows "u_strstr hay sub s = map_option (\<lambda>r. (r, s)) (strstr m hay sub)"
  using u_strstr_outer_sim [OF assms refl, of 0] u_strlen_ok [OF assms(1,2,4)] u_strlen_ok [OF assms(1,3,5)]
    strlen_cstr [OF assms(2)] strlen_cstr [OF assms(3)]
  by (simp add: u_strstr_def strstr_def)

lemma u_strstr_text:
  assumes "umap A m s" "cstr m a cs" "cstr m b ds" "str_of a cs \<subseteq> A" "str_of b ds \<subseteq> A"
  shows "u_strstr a b s = Some (if ds \<noteq> [] \<and> (\<exists>us vs. vs \<noteq> [] \<and> cs = us @ ds @ vs) then 1 else 0, s)"
  using u_strstr_ok [OF assms] strstr_cstr [OF assms(2,3)] by simp

section \<open>The contract of a string library\<close>

text \<open>What a caller relies on, for the routines of the kernel and of the library alike: \<open>holds s a cs\<close> says that in the state \<open>s\<close> the
  string \<open>cs\<close> can be read at \<open>a\<close>.\<close>

locale string_lib =
  fixes len :: "u64 \<Rightarrow> 's \<Rightarrow> (nat \<times> 's) option"
    and cmp :: "u64 \<Rightarrow> u64 \<Rightarrow> nat \<Rightarrow> 's \<Rightarrow> (int \<times> 's) option"
    and sub :: "u64 \<Rightarrow> u64 \<Rightarrow> 's \<Rightarrow> (int \<times> 's) option"
    and holds :: "'s \<Rightarrow> u64 \<Rightarrow> u8 list \<Rightarrow> bool"
  assumes len_ok: "holds s a cs \<Longrightarrow> len a s = Some (length cs, s)"
    and cmp_ok: "holds s a cs \<Longrightarrow> holds s b ds \<Longrightarrow> n \<le> length cs \<Longrightarrow>
      cmp a b n s = Some (if length cs = length ds \<and> drop n cs = drop n ds then 0 else - 1, s)"
    and sub_ok: "holds s a cs \<Longrightarrow> holds s b ds \<Longrightarrow>
      sub a b s = Some (if ds \<noteq> [] \<and> (\<exists>us vs. vs \<noteq> [] \<and> cs = us @ ds @ vs) then 1 else 0, s)"
begin

lemma cmp_whole: "holds s a cs \<Longrightarrow> holds s b ds \<Longrightarrow> cmp a b 0 s = Some (if cs = ds then 0 else - 1, s)"
  using cmp_ok [of s a cs b ds 0] by auto

text \<open>A comparison that starts at the end of the first string only compares the lengths.\<close>

lemma cmp_end: "holds s a cs \<Longrightarrow> holds s b ds \<Longrightarrow> cmp a b (length cs) s = Some (if length cs = length ds then 0 else - 1, s)"
  using cmp_ok [of s a cs b ds "length cs"] by auto

text \<open>The search misses an occurrence at the end, and finds it once a character has been appended.\<close>

lemma sub_self: "holds s a cs \<Longrightarrow> sub a a s = Some (0, s)"
proof -
  assume h: "holds s a cs"
  have "\<nexists>us vs. vs \<noteq> [] \<and> cs = us @ cs @ vs"
  proof (intro notI, elim exE conjE)
    fix us vs :: "u8 list"
    assume "vs \<noteq> []" and e: "cs = us @ cs @ vs"
    have "length cs = length us + (length cs + length vs)" unfolding length_append [symmetric] by (rule arg_cong [OF e])
    then show False using \<open>vs \<noteq> []\<close> by simp
  qed
  then show ?thesis using sub_ok [OF h h] by simp
qed

lemma sub_followed: "holds s a (us @ ds @ [c]) \<Longrightarrow> holds s b ds \<Longrightarrow> ds \<noteq> [] \<Longrightarrow> sub a b s = Some (1, s)"
  using sub_ok [of s a "us @ ds @ [c]" b ds] by auto

end

text \<open>The kernel's routines on a byte memory, and the library's on reachable user memory.\<close>

interpretation kstr: string_lib "\<lambda>a m. map_option (\<lambda>n. (n, m)) (strlen m a)" "\<lambda>a b n m. map_option (\<lambda>r. (r, m)) (strcmp m a b n)"
  "\<lambda>a b m. map_option (\<lambda>r. (r, m)) (strstr m a b)" cstr
  by unfold_locales (simp_all add: strlen_cstr strcmp_cstr strstr_cstr)

interpretation ustr: string_lib u_strlen u_strcmp u_strstr "\<lambda>s a cs. umap A m s \<and> cstr m a cs \<and> str_of a cs \<subseteq> A"
  for A m
  by unfold_locales (blast intro: u_strlen_ok u_strcmp_ok u_strstr_text)+

text \<open>\<^verbatim>\<open>strncmp\<close> answers 1 for equal and -1 for different bytes: never 0.\<close>

lemma u_strncmp_loop_ok:
  assumes "umap A m s" "\<And>j. j < len \<Longrightarrow> a + of_nat j \<in> A \<and> b + of_nat j \<in> A" "i \<le> len"
  shows "\<exists>n. u_strncmp_loop a b len i s = Some (n, s) \<and> (n = len \<longleftrightarrow> (\<forall>j. i \<le> j \<and> j < len \<longrightarrow> m (a + of_nat j) = m (b + of_nat j)))"
  using assms(3)
proof (induction "len - i" arbitrary: i)
  case 0
  then show ?case by (subst u_strncmp_loop.simps) auto
next
  case (Suc d)
  then have i: "i < len" and d: "d = len - (i + 1)" by simp_all
  show ?case
  proof (cases "m (a + of_nat i) = m (b + of_nat i)")
    case False
    then show ?thesis using assms(1) assms(2) [OF i] i by (subst u_strncmp_loop.simps) auto
  next
    case True
    obtain n where n: "u_strncmp_loop a b len (i + 1) s = Some (n, s)"
      "n = len \<longleftrightarrow> (\<forall>j. i + 1 \<le> j \<and> j < len \<longrightarrow> m (a + of_nat j) = m (b + of_nat j))"
      using Suc.hyps(1) [OF d] i by auto
    have "u_strncmp_loop a b len i s = Some (n, s)"
      using True assms(1) assms(2) [OF i] i n(1) by (subst u_strncmp_loop.simps) simp
    moreover have "(\<forall>j. i \<le> j \<and> j < len \<longrightarrow> m (a + of_nat j) = m (b + of_nat j)) \<longleftrightarrow>
        (\<forall>j. i + 1 \<le> j \<and> j < len \<longrightarrow> m (a + of_nat j) = m (b + of_nat j))"
      using True by (metis Suc_eq_plus1 Suc_leD le_antisym not_less_eq_eq)
    ultimately show ?thesis using n(2) by blast
  qed
qed

lemma u_strncmp_ok:
  assumes "umap A m s" "\<And>j. j < len \<Longrightarrow> a + of_nat j \<in> A \<and> b + of_nat j \<in> A"
  shows "u_strncmp a b len s = Some (if \<forall>j < len. m (a + of_nat j) = m (b + of_nat j) then 1 else - 1, s)"
  using u_strncmp_loop_ok [OF assms(1), of len a b 0] assms(2) by (auto simp: u_strncmp_def)

lemma u_puts_ok:
  assumes "umap A m s" "cstr m a cs" "str_of a cs \<subseteq> A"
  shows "u_puts a s = Some (0, s)"
  using assms
proof (induction cs arbitrary: a)
  case Nil
  have "a \<in> A" using subsetD [OF Nil.prems(3) range_memb [of 0]] by simp
  then show ?case using Nil.prems by (subst u_puts.simps) (simp add: cstr_Nil u_putchar_def)
next
  case (Cons c cs)
  have "a \<in> A" "str_of (a + 1) cs \<subseteq> A" using Cons.prems(3) range_of_Suc [of a "Suc (length cs)"] by auto
  then show ?case using Cons by (subst u_puts.simps) (simp add: cstr_Cons u_putchar_def)
qed

section \<open>Bytes and numbers\<close>

lemma poke_Nil [simp]: "poke a [] m = m"
  by (simp add: poke_def)

lemma poke_Cons:
  assumes "length bs < 2 ^ 64 - 1"
  shows "poke a (b # bs) m = poke (a + 1) bs (m(a := b))"
proof
  fix x
  show "poke a (b # bs) m x = poke (a + 1) bs (m(a := b)) x"
  proof (cases "x = a")
    case True
    then show ?thesis using assms unat_self_offset [of a] by (simp add: poke_def)
  next
    case False
    then show ?thesis using unat_pred_offset [OF False] by (simp add: poke_def)
  qed
qed

lemma poke_out: "\<not> unat (x - a) < length bs \<Longrightarrow> poke a bs m x = m x"
  by (simp add: poke_def)

lemma poke_in: "i < length bs \<Longrightarrow> length bs \<le> 2 ^ 64 \<Longrightarrow> poke a bs m (a + of_nat i) = bs ! i"
  by (simp add: poke_def unat_of_nat_eq)

lemma poke_cstr:
  assumes "0 \<notin> set cs" "length cs < 2 ^ 64 - 1"
  shows "cstr (poke a (cs @ [0]) m) a cs"
proof -
  have "poke a (cs @ [0]) m (a + of_nat i) = (cs @ [0]) ! i" if "i \<le> length cs" for i
    using that assms(2) by (intro poke_in) simp_all
  then show ?thesis using assms(1) by (auto simp: cstr_def nth_append)
qed

lemma cstr_cong: "cstr m a cs \<Longrightarrow> (\<And>i. i \<le> length cs \<Longrightarrow> m' (a + of_nat i) = m (a + of_nat i)) \<Longrightarrow> cstr m' a cs"
  by (auto simp: cstr_def)

lemma ustore_bytes_umap:
  assumes "umap A m s" "range_of a (length bs) \<subseteq> A" "length bs < 2 ^ 64"
  shows "\<exists>s'. ustore_bytes a bs s = Some s' \<and> umap A (poke a bs m) s' \<and> mem_only s s'"
  using assms
proof (induction bs arbitrary: a m s)
  case (Cons b bs)
  have A: "a \<in> A" "range_of (a + 1) (length bs) \<subseteq> A" using Cons.prems(2) range_of_Suc [of a "length bs"] by auto
  obtain t where t: "ustore a b s = Some t" "umap A (m(a := b)) t" "mem_only s t"
    by (rule umap_store [OF Cons.prems(1) A(1)]) (rule that)
  obtain s' where "ustore_bytes (a + 1) bs t = Some s'" "umap A (poke (a + 1) bs (m(a := b))) s'" "mem_only t s'"
    using Cons.IH [OF t(2) A(2)] Cons.prems(3) by (auto simp del: fun_upd_apply)
  moreover have "poke a (b # bs) m = poke (a + 1) bs (m(a := b))" using Cons.prems(3) by (intro poke_Cons) simp
  ultimately show ?case using t(1,3) mem_only_trans by (metis ustore_bytes.simps(2) bind.bind_lunit)
qed simp

lemma ustoren_umap:
  assumes "umap A m s" "range_of a n \<subseteq> A"
  shows "\<exists>s'. ustoren n a v s = Some s' \<and> umap A (stn n a v m) s' \<and> mem_only s s'"
  using assms
proof (induction n arbitrary: a v m s)
  case (Suc n)
  have A: "a \<in> A" "range_of (a + 1) n \<subseteq> A" using Suc.prems(2) range_of_Suc [of a n] by auto
  obtain t where t: "ustore a (ucast v) s = Some t" "umap A (m(a := ucast v)) t" "mem_only s t"
    by (rule umap_store [OF Suc.prems(1) A(1)]) (rule that)
  then show ?case using Suc.IH [OF t(2) A(2), of "drop_bit 8 v"] mem_only_trans by (metis ustoren.simps(2) stn.simps(2) bind.bind_lunit)
qed simp

lemma uloadn_umap:
  assumes "umap A m s" "range_of a n \<subseteq> A"
  shows "uloadn n a s = Some (ldn n m a, s)"
  using assms
proof (induction n arbitrary: a)
  case (Suc n)
  have "a \<in> A" "range_of (a + 1) n \<subseteq> A" using Suc.prems(2) range_of_Suc [of a n] by auto
  then show ?case using Suc by simp
qed simp

lemma umap_ex: "wmem A s \<Longrightarrow> umap A (\<lambda>v. the (vload_byte v s)) s"
  using umemD(2) by (fastforce simp: umap_def wmem_def vload_byte_def Let_def)

section \<open>Library and kernel agree\<close>

text \<open>C34. On strings in memory that a program can reach, the string routines of the library return and compute what those of
  the kernel compute on the same bytes: length, comparison from a position on, search and copy.\<close>

theorem library_strings_agree:
  assumes "umap A m s" "cstr m a cs" "cstr m b ds" "str_of a cs \<subseteq> A" "str_of b ds \<subseteq> A" "len \<le> length cs"
    and "length cs < 2 ^ 64 - 1" "fwd_ok b a (length cs + 1)" "str_of b cs \<subseteq> A"
  shows "u_strlen a s = map_option (\<lambda>n. (n, s)) (strlen m a) \<and>
    u_strcmp a b len s = map_option (\<lambda>r. (r, s)) (strcmp m a b len) \<and>
    u_strstr a b s = map_option (\<lambda>r. (r, s)) (strstr m a b) \<and>
    (\<exists>m' s'. strcpy m a b = Some m' \<and> u_strcpy a b s = Some s' \<and> umap A m' s' \<and> mem_only s s')"
proof -
  have a: "umap A m s \<and> cstr m a cs \<and> str_of a cs \<subseteq> A" and b: "umap A m s \<and> cstr m b ds \<and> str_of b ds \<subseteq> A"
    using assms(1-5) by blast+
  show ?thesis
  proof (intro conjI)
    show "u_strlen a s = map_option (\<lambda>n. (n, s)) (strlen m a)"
      unfolding ustr.len_ok [OF a] using kstr.len_ok [OF assms(2)] by auto
    show "u_strcmp a b len s = map_option (\<lambda>r. (r, s)) (strcmp m a b len)"
      unfolding ustr.cmp_ok [OF a b assms(6)] using kstr.cmp_ok [OF assms(2,3,6)] by auto
    show "u_strstr a b s = map_option (\<lambda>r. (r, s)) (strstr m a b)"
      unfolding ustr.sub_ok [OF a b] using kstr.sub_ok [OF assms(2,3)] by auto
    show "\<exists>m' s'. strcpy m a b = Some m' \<and> u_strcpy a b s = Some s' \<and> umap A m' s' \<and> mem_only s s'"
      using u_strcpy_ok [OF assms(1,2,7,8,4,9)] by metis
  qed
qed

text \<open>A program with given bytes at the start of its page and the end of its heap inside it.\<close>

definition prog_sys :: "u64 \<Rightarrow> u8 list \<Rightarrow> uheap" where
  "prog_sys b bs = (let s = the (ustore_bytes 0x400000 bs heap_sys) in upd_mm (mm (pcbs s (current s))) (\<lambda>r. r\<lparr>brk := b\<rparr>) s)"

abbreviation page :: "u64 set" where "page \<equiv> range_of 0x400000 4096"

lemma prog_sys_facts:
  assumes "length bs \<le> 4096"
  obtains m where "umap page (poke 0x400000 bs m) (prog_sys b bs)" "childFlag (prog_sys b bs) \<noteq> 1" "h_brk (prog_sys b bs) = b"
    "u_index (prog_sys b bs) = 0"
proof -
  have W: "wmem page heap_sys" using str_sys_ready wmem_cong [of heap_sys "str_sys [120]" page] by (simp add: out_ready_def)
  have sub: "range_of 0x400000 (length bs) \<subseteq> page" using assms by (intro image_mono) auto
  obtain s m where s: "ustore_bytes 0x400000 bs heap_sys = Some s" "umap page (poke 0x400000 bs m) s" "mem_only heap_sys s"
    using ustore_bytes_umap [OF umap_ex [OF W] sub] assms by auto
  have e: "prog_sys b bs = upd_mm (mm (pcbs s (current s))) (\<lambda>r. r\<lparr>brk := b\<rparr>) s" by (simp add: prog_sys_def s(1))
  have "childFlag heap_sys \<noteq> 1" using str_sys_ready by (simp add: out_ready_def)
  moreover have "childFlag s = childFlag heap_sys" "u_index s = u_index heap_sys" by (subst mem_onlyD(1) [OF s(3)], simp)+
  moreover have "u_index heap_sys = 0" by (simp add: heap_sys_def lib_sys_def upd_mm_def ulib.extend_def sysc.extend_def ulib.fields_def)
  ultimately show ?thesis
    using s(2) umap_mem [OF s(2), of "prog_sys b bs"] by (intro that [of m]) (simp_all add: e upd_mm_def h_brk_def)
qed

lemmas page_sub = range_inside [of _ _ 4096 "0x400000"]

theorem library_strings_agree_witness:
  "\<exists>s'. u_strcmp 0x400000 0x400008 0 (prog_sys 0 ([97, 98, 0, 0, 0, 0, 0, 0, 97, 98, 0] :: u8 list)) = Some (0, s')"
proof -
  let ?bs = "[97, 98, 0, 0, 0, 0, 0, 0, 97, 98, 0] :: u8 list"
  obtain m where m: "umap page (poke 0x400000 ?bs m) (prog_sys 0 ?bs)" by (rule prog_sys_facts [of ?bs 0]) simp
  have c: "cstr (poke 0x400000 ?bs m) 0x400000 [97, 98]" "cstr (poke 0x400000 ?bs m) 0x400008 [97, 98]"
    by (simp_all add: cstr_Cons cstr_Nil poke_def)
  have p: "str_of 0x400000 [97, 98 :: u8] \<subseteq> page" "str_of 0x400008 [97, 98 :: u8] \<subseteq> page"
    using page_sub [of 0 "Suc (Suc (Suc 0))"] page_sub [of 8 "Suc (Suc (Suc 0))"] by simp_all
  show ?thesis
    using library_strings_agree [OF m c p, of 0] p strcmp_eq [OF c] by (auto simp: fwd_ok_def)
qed

end
