(* ===== verification/Tokens.thy ===== *)
theory Tokens
  imports UString
begin

text \<open>
  The tokenizer \<^verbatim>\<open>split\<close> of \<^verbatim>\<open>libc/string.c\<close>.

  It allocates a table of pointers and ten blocks of 20 bytes, appends a separator to the string it is given, copies the
  pieces into the blocks and returns one of them.  The address of a string literal of the program is a parameter.
\<close>

section \<open>The code\<close>

fun alloc_tokens :: "kenv \<Rightarrow> u64 \<Rightarrow> nat list \<Rightarrow> 'a sysc_scheme \<Rightarrow> 'a sysc_scheme option" where
  "alloc_tokens env argv2 [] s = Some s"
| "alloc_tokens env argv2 (i # is) s = do {
     (r, s) \<leftarrow> sb_malloc env 20 s;
     p \<leftarrow> ret_val r;
     s \<leftarrow> ustoren 8 (argv2 + 8 * of_nat i) p s;
     alloc_tokens env argv2 is s
   }"

text \<open>The loop over the string; \<open>sp\<close> is the loop variable \<^verbatim>\<open>s\<close>.\<close>

partial_function (option) split_loop ::
  "u64 \<Rightarrow> u8 \<Rightarrow> u64 \<Rightarrow> nat \<Rightarrow> nat \<Rightarrow> nat \<Rightarrow> nat \<Rightarrow> bool \<Rightarrow> 'a sysc_scheme \<Rightarrow> (nat \<times> bool \<times> 'a sysc_scheme) option" where
  "split_loop argv1 separator argv2 sp ss d d1 fflag s =
     Option.bind (u_strlen argv1 s) (\<lambda>(n, s).
       if sp < n
       then Option.bind (uload (argv1 + of_nat sp) s) (\<lambda>(c, s).
         if c = separator
         then Option.bind (uloadn 8 (argv2 + 8 * of_nat ss) s) (\<lambda>(p, s).
           Option.bind (ustore (p + of_nat d) 0 s) (\<lambda>s.
             Option.bind (uloadn 8 (argv2 + 8 * of_nat ss) s) (\<lambda>(p, s).
               Option.bind (u_puts p s) (\<lambda>(r, s). split_loop argv1 separator argv2 (sp + 1) (ss + 1) 0 (d1 + 1) True s))))
         else if c = 0 \<or> c = of_char CHR ''0'' then split_loop argv1 separator argv2 (sp + 1) ss d d1 fflag s
         else Option.bind (uload (argv1 + of_nat d1) s) (\<lambda>(x, s).
           Option.bind (uloadn 8 (argv2 + 8 * of_nat ss) s) (\<lambda>(p, s).
             Option.bind (ustore (p + of_nat d) x s) (\<lambda>s. split_loop argv1 separator argv2 (sp + 1) ss (d + 1) (d1 + 1) fflag s))))
       else Some (ss, fflag, s))"

fun clear_tokens :: "u64 \<Rightarrow> nat list \<Rightarrow> 'a sysc_scheme \<Rightarrow> 'a sysc_scheme option" where
  "clear_tokens argv2 [] s = Some s"
| "clear_tokens argv2 (i # is) s = do {
     (p, s) \<leftarrow> uloadn 8 (argv2 + 8 * of_nat i) s;
     s \<leftarrow> ustore p 0 s;
     clear_tokens argv2 is s
   }"

definition u_split :: "kenv \<Rightarrow> (string \<Rightarrow> u64) \<Rightarrow> nat \<Rightarrow> u64 \<Rightarrow> u8 \<Rightarrow> 'a sysc_scheme \<Rightarrow> (u64 \<times> 'a sysc_scheme) option" where
  "u_split env lit toknum argv1 separator s = do {
     (r, s) \<leftarrow> sb_malloc env (20 * 8) s;
     argv2 \<leftarrow> ret_val r;
     s \<leftarrow> alloc_tokens env argv2 [0..<10] s;
     (n, s) \<leftarrow> u_strlen argv1 s;
     s \<leftarrow> ustore (argv1 + of_nat n) separator s;
     (n, s) \<leftarrow> u_strlen argv1 s;
     s \<leftarrow> ustore (argv1 + of_nat n) 0 s;
     (c, s) \<leftarrow> uload argv1 s;
     let argv1 = (if c = separator then argv1 + 1 else argv1);
     (ss, fflag, s) \<leftarrow> split_loop argv1 separator argv2 0 0 0 0 False s;
     if \<not> fflag then Some (argv1, s)
     else do {
       let ss = (if ss = 1 \<or> ss = 0 then 2 else ss);
       s \<leftarrow> clear_tokens argv2 [ss - 1..<10] s;
       (ans, s) \<leftarrow> uloadn 8 (argv2 + 8 * (of_nat toknum - 1)) s;
       (r, s) \<leftarrow> u_strcmp ans (lit '''') 1 s;
       if r \<noteq> 0 then uloadn 8 (argv2 + 8 * (of_nat toknum - 1)) s else Some (0, s)
     }
   }"

section \<open>The pieces\<close>

text \<open>What the loop computes: \<open>xs\<close> is the rest that it looks at, \<open>r\<close> the rest that it copies from, and \<open>cur\<close> the piece so far.  A
  character \<^verbatim>\<open>0\<close> is skipped without advancing the second position.\<close>

fun pieces :: "u8 \<Rightarrow> u8 list \<Rightarrow> u8 list \<Rightarrow> u8 list \<Rightarrow> u8 list list" where
  "pieces c [] r cur = []"
| "pieces c (x # xs) r cur =
     (if x = c then cur # pieces c xs (tl r) []
      else if x = 0 \<or> x = of_char CHR ''0'' then pieces c xs r cur
      else pieces c xs (tl r) (cur @ [hd r]))"

text \<open>The fields of a string between separators.\<close>

fun fields :: "u8 \<Rightarrow> u8 list \<Rightarrow> u8 list list" where
  "fields c [] = [[]]"
| "fields c (x # xs) = (if x = c then [] # fields c xs else (x # hd (fields c xs)) # tl (fields c xs))"

lemma fields_ne [simp]: "fields c xs \<noteq> []"
  by (cases xs) auto

lemma pieces_fields:
  assumes "0 \<notin> set xs" "of_char CHR ''0'' \<notin> set xs"
  shows "pieces c (xs @ [c]) (xs @ [c]) cur = (cur @ hd (fields c xs)) # tl (fields c xs)"
  using assms
proof (induction xs arbitrary: cur)
  case (Cons x xs)
  then show ?case by (cases "x = c") auto
qed simp

section \<open>The blocks\<close>

text \<open>Offsets from the start of the table: pointer \<open>i\<close> is at \<open>8 * i\<close>, byte \<open>j\<close> of block \<open>i\<close> at \<open>blk i + j\<close>.\<close>

definition blk :: "nat \<Rightarrow> nat" where
  "blk i = 160 + 20 * i"

abbreviation heap_of :: "u64 \<Rightarrow> u64 set" where
  "heap_of B \<equiv> range_of B 360"

lemma off_eq: "j < 360 \<Longrightarrow> k < 360 \<Longrightarrow> B + of_nat j = (B + of_nat k :: u64) \<longleftrightarrow> j = k"
  using of_nat_u64_inj [of j k] by auto

lemma blk_less: "i < 10 \<Longrightarrow> j < 20 \<Longrightarrow> blk i + j < 360"
  by (simp add: blk_def)

lemma blk_eq:
  assumes "j < 20" "k < 20"
  shows "blk i + j = blk l + k \<longleftrightarrow> i = l \<and> j = k"
proof
  assume "blk i + j = blk l + k"
  then have e: "j + i * 20 = k + l * 20" by (simp add: blk_def)
  have "(j + i * 20) div 20 = i" "(k + l * 20) div 20 = l" using assms by simp_all
  then have "i = l" unfolding e by simp
  then show "i = l \<and> j = k" using e by simp
qed simp

text \<open>The table points to the blocks, the first blocks hold \<open>ts\<close> and the next one starts with \<open>cur\<close>.\<close>

definition table_ok :: "u64 \<Rightarrow> bmem \<Rightarrow> bool" where
  "table_ok B m \<longleftrightarrow> (\<forall>i < 10. ldn 8 m (B + of_nat (8 * i)) = B + of_nat (blk i))"

definition blocks :: "u64 \<Rightarrow> u8 list list \<Rightarrow> u8 list \<Rightarrow> bmem \<Rightarrow> bool" where
  "blocks B ts cur m \<longleftrightarrow> table_ok B m \<and> (\<forall>i < length ts. \<forall>j \<le> length (ts ! i). m (B + of_nat (blk i + j)) = (ts ! i @ [0]) ! j) \<and>
     (\<forall>j < length cur. m (B + of_nat (blk (length ts) + j)) = cur ! j)"

lemma table_upd:
  assumes "table_ok B m" "160 \<le> k" "k < 360"
  shows "table_ok B (m(B + of_nat k := v))"
proof -
  have "ldn 8 (m(B + of_nat k := v)) (B + of_nat (8 * i)) = ldn 8 m (B + of_nat (8 * i))" if i: "i < 10" for i
  proof (rule ldn_cong)
    fix x :: u64
    assume "unat (x - (B + of_nat (8 * i))) < 8"
    then have "unat (x - B) < 160" using range_sub [of "8 * i" 8 x B] i by simp
    moreover have "unat (B + of_nat k - B) = k" using assms(3) by (intro range_off) simp
    ultimately show "(m(B + of_nat k := v)) x = m x" using assms(2) by auto
  qed simp
  then show ?thesis using assms(1) by (simp add: table_ok_def)
qed

lemma blocks_add:
  assumes "blocks B ts cur m" "length ts < 10" "length cur < 19" "\<forall>t \<in> set ts. length t < 20"
  shows "blocks B ts (cur @ [c]) (m(B + of_nat (blk (length ts) + length cur) := c))"
proof -
  let ?k = "blk (length ts) + length cur"
  have k: "160 \<le> ?k" "?k < 360" using blk_less [of "length ts" "length cur"] assms(2,3) by (simp_all add: blk_def)
  have t: "length (ts ! i) < 20" if "i < length ts" for i using assms(4) that by simp
  have "B + of_nat (blk i + j) \<noteq> B + of_nat ?k" if "i < length ts" "j \<le> length (ts ! i)" for i j
    using off_eq [of "blk i + j" ?k B] blk_less [of i j] blk_eq [of j "length cur" i "length ts"] t [OF that(1)] that assms(2,3) k(2) by simp
  moreover have "B + of_nat (blk (length ts) + j) \<noteq> B + of_nat ?k" if "j < length cur" for j
    using off_eq [of "blk (length ts) + j" ?k B] that k(2) by simp
  ultimately show ?thesis
    using assms(1) table_upd [of B m ?k c] k by (auto simp: blocks_def less_Suc_eq nth_append simp del: of_nat_add)
qed

lemma blocks_close:
  assumes "blocks B ts cur m" "length ts < 10" "length cur < 20" "\<forall>t \<in> set ts. length t < 20"
  shows "blocks B (ts @ [cur]) [] (m(B + of_nat (blk (length ts) + length cur) := 0))"
proof -
  let ?k = "blk (length ts) + length cur"
  have k: "160 \<le> ?k" "?k < 360" using blk_less [of "length ts" "length cur"] assms(2,3) by (simp_all add: blk_def)
  have t: "length (ts ! i) < 20" if "i < length ts" for i using assms(4) that by simp
  have "B + of_nat (blk i + j) \<noteq> B + of_nat ?k" if "i < length ts" "j \<le> length (ts ! i)" for i j
    using off_eq [of "blk i + j" ?k B] blk_less [of i j] blk_eq [of j "length cur" i "length ts"] t [OF that(1)] that assms(2,3) k(2) by simp
  moreover have "B + of_nat (blk (length ts) + j) \<noteq> B + of_nat ?k" if "j < length cur" for j
    using off_eq [of "blk (length ts) + j" ?k B] that k(2) by simp
  ultimately show ?thesis
    using assms(1) table_upd [of B m ?k 0] k
    by (auto simp: blocks_def less_Suc_eq less_Suc_eq_le le_less nth_append simp del: of_nat_add)
qed

section \<open>The loop\<close>

definition prog_ok :: "u64 set \<Rightarrow> bmem \<Rightarrow> u64 \<Rightarrow> 'a sysc_scheme \<Rightarrow> bool" where
  "prog_ok A m b s \<longleftrightarrow> umap A m s \<and> childFlag s \<noteq> 1 \<and> h_brk s = b"

text \<open>What a routine that only works on memory leaves alone: the variables of the library and the screen.\<close>

definition outside :: "'a sysc_scheme \<Rightarrow> 'a \<times> unit console_scheme" where
  "outside s = (sysc.more s, screen s)"

lemma prog_okD:
  assumes "prog_ok A m b s"
  shows "umap A m s" "childFlag s \<noteq> 1" "h_brk s = b"
  using assms by (simp_all add: prog_ok_def)

lemma prog_ok_mem:
  assumes "prog_ok A m b s" "mem_only s s'" "umap A m' s'"
  shows "prog_ok A m' b s'" "outside s' = outside s"
proof -
  have "childFlag s' = childFlag s" "h_brk s' = h_brk s" "outside s' = outside s"
    by (subst mem_onlyD(1) [OF assms(2)], simp add: h_brk_def outside_def screen_def)+
  then show "prog_ok A m' b s'" "outside s' = outside s" using assms(1,3) by (simp_all add: prog_ok_def)
qed

lemma prog_ok_store:
  assumes "prog_ok A m b s" "v \<in> A"
  obtains s' where "ustore v x s = Some s'" "prog_ok A (m(v := x)) b s'" "outside s' = outside s"
proof -
  obtain s' where s': "ustore v x s = Some s'" "umap A (m(v := x)) s'" "mem_only s s'"
    by (rule umap_store [OF prog_okD(1) [OF assms(1)] assms(2)]) (rule that)
  then show ?thesis using that prog_ok_mem [OF assms(1) s'(3,2)] by blast
qed

lemma heap_in: "heap_of B \<subseteq> A \<Longrightarrow> k < 360 \<Longrightarrow> B + of_nat k \<in> A"
  by (auto intro: subsetD)

lemma table_load:
  assumes "table_ok B m" "umap A m s" "heap_of B \<subseteq> A" "i < 10"
  shows "uloadn 8 (B + 8 * of_nat i) s = Some (B + of_nat (blk i), s)"
proof -
  have "range_of (B + of_nat (8 * i)) 8 \<subseteq> heap_of B"
    using assms(4) by (intro range_inside) simp
  then have "uloadn 8 (B + of_nat (8 * i)) s = Some (ldn 8 m (B + of_nat (8 * i)), s)"
    using uloadn_umap [OF umap_sub [OF assms(2,3)]] by blast
  then show ?thesis using assms(1,4) by (simp add: table_ok_def)
qed

lemma pieces_hd:
  "xs \<noteq> [] \<Longrightarrow> last xs = c \<Longrightarrow> \<exists>u ps. pieces c xs r cur = (cur @ u) # ps"
proof (induction xs arbitrary: r cur)
  case (Cons x xs)
  show ?case
  proof (cases "x = c")
    case False
    then have "xs \<noteq> []" "last xs = c" using Cons.prems by (auto split: if_splits)
    then show ?thesis using Cons.IH [of r cur] Cons.IH [of "tl r" "cur @ [hd r]"] False by auto
  qed simp
qed simp

lemma blocks_block:
  assumes "blocks B ts cur m" "i < length ts" "0 \<notin> set (ts ! i)"
  shows "cstr m (B + of_nat (blk i)) (ts ! i)"
proof -
  have "m (B + of_nat (blk i) + of_nat j) = (ts ! i @ [0]) ! j" if "j \<le> length (ts ! i)" for j
    using assms(1,2) that by (simp add: blocks_def add.assoc)
  then show ?thesis using assms(3) by (auto simp: cstr_def nth_append)
qed

lemma split_loop_ok:
  assumes "prog_ok A m b s" "cstr m a w" "str_of a w \<subseteq> A - heap_of B" "heap_of B \<subseteq> A" "blocks B ts cur m" "c \<noteq> 0"
    and "drop sp w = xs" "d1 \<le> sp" "sp \<le> length w" "xs = [] \<or> last xs = c" "xs = [] \<longrightarrow> cur = []" "0 \<notin> set cur"
    and "length (ts @ pieces c xs (drop d1 w) cur) \<le> 10" "\<forall>t \<in> set (ts @ pieces c xs (drop d1 w) cur). length t < 20"
  shows "\<exists>m' s'. split_loop a c B sp (length ts) (length cur) d1 fl s =
      Some (length (ts @ pieces c xs (drop d1 w) cur), fl \<or> c \<in> set xs, s') \<and> prog_ok A m' b s' \<and>
    blocks B (ts @ pieces c xs (drop d1 w) cur) [] m' \<and> (\<forall>x. x \<notin> heap_of B \<longrightarrow> m' x = m x) \<and> outside s' = outside s"
  using assms(1,2,5,7-)
proof (induction xs arbitrary: sp ts cur d1 fl m s)
  case Nil
  have "u_strlen a s = Some (length w, s)"
    using u_strlen_ok [OF prog_okD(1) [OF Nil.prems(1)] Nil.prems(2)] assms(3) by blast
  then show ?case using Nil.prems by (subst split_loop.simps) auto
next
  case (Cons x xs)
  have U: "umap A m s" by (rule prog_okD(1) [OF Cons.prems(1)])
  have sp: "sp < length w" using Cons.prems(4,6) by (cases "sp = length w") auto
  then have "drop sp w = w ! sp # drop (Suc sp) w" by (rule Cons_nth_drop_Suc [symmetric])
  then have x: "x = w ! sp" and xs: "drop (sp + 1) w = xs" using Cons.prems(4) by simp_all
  have last: "xs = [] \<longrightarrow> x = c" "xs = [] \<or> last xs = c" using Cons.prems(7) by (auto split: if_splits)
  have in_str: "a + of_nat i \<in> A" "a + of_nat i \<notin> heap_of B" if "i \<le> length w" for i
    using subsetD [OF assms(3) range_memb [of i]] that by auto
  have ld: "u_strlen a s = Some (length w, s)" "uload (a + of_nat i) s = Some (w ! i, s)" "w ! i \<noteq> 0" if "i < length w" for i
    using u_strlen_ok [OF U Cons.prems(2)] assms(3) U in_str(1) [of i] that cstr_nth [OF Cons.prems(2) that]
      cstr_nth_nonzero [OF Cons.prems(2) that] by auto
  have keep: "cstr (m(B + of_nat k := v)) a w" if "k < 360" for k v
  proof (rule cstr_cong [OF Cons.prems(2)])
    fix i assume "i \<le> length w"
    then have "a + of_nat i \<noteq> B + of_nat k" using in_str(2) [of i] range_memb [OF that, of B] by auto
    then show "(m(B + of_nat k := v)) (a + of_nat i) = m (a + of_nat i)" by simp
  qed
  let ?P = "pieces c (x # xs) (drop d1 w) cur" and ?p = "B + of_nat (blk (length ts))"
  have tl: "tl (drop d1 w) = drop (d1 + 1) w" by (simp add: drop_Suc tl_drop)
  obtain u ps where P: "?P = (cur @ u) # ps" using pieces_hd [of "x # xs" c] Cons.prems(7) by blast
  have n: "length ts < 10" "length cur < 20" "\<forall>t \<in> set ts. length t < 20" using Cons.prems(10,11) unfolding P by auto
  have k: "blk (length ts) + length cur < 360" by (rule blk_less [OF n(1,2)])
  have p: "uloadn 8 (B + 8 * of_nat (length ts)) s' = Some (?p, s')" if "table_ok B m'" "umap A m' s'" for m' and s' :: "'a sysc_scheme"
    by (rule table_load [OF that assms(4) n(1)])
  have q: "?p + of_nat (length cur) = B + of_nat (blk (length ts) + length cur)" by simp
  have out: "(m(B + of_nat (blk (length ts) + length cur) := v)) y = m y" if "y \<notin> heap_of B" for v y
    using range_memb [OF k, of B] that by auto
  have T: "table_ok B m" using Cons.prems(3) by (simp add: blocks_def)
  show ?case
  proof (cases "x = c")
    case True
    let ?m = "m(B + of_nat (blk (length ts) + length cur) := 0)"
    obtain t where t: "ustore (B + of_nat (blk (length ts) + length cur)) 0 s = Some t" "prog_ok A ?m b t" "outside t = outside s"
      by (rule prog_ok_store [OF Cons.prems(1) heap_in [OF assms(4) k]]) (rule that)
    have bl: "blocks B (ts @ [cur]) [] ?m" by (rule blocks_close [OF Cons.prems(3) n])
    have "cstr ?m ?p cur" using blocks_block [OF bl, of "length ts"] Cons.prems(9) by simp
    moreover have "str_of ?p cur \<subseteq> A"
      using range_inside [of "blk (length ts)" "Suc (length cur)" 360 B] k assms(4) by simp
    ultimately have pu: "u_puts ?p t = Some (0, t)" by (rule u_puts_ok [OF prog_okD(1) [OF t(2)]])
    have P': "(ts @ [cur]) @ pieces c xs (drop (d1 + 1) w) [] = ts @ ?P" using True tl by simp
    obtain m' s' where s': "split_loop a c B (sp + 1) (length (ts @ [cur])) (length []) (d1 + 1) True t =
        Some (length (ts @ ?P), True \<or> c \<in> set xs, s')" "prog_ok A m' b s'" "blocks B (ts @ ?P) [] m'"
        "\<forall>x. x \<notin> heap_of B \<longrightarrow> m' x = ?m x" "outside s' = outside t"
      using Cons.IH [OF t(2) keep [OF k] bl xs, of "d1 + 1" True] Cons.prems(5,10,11) sp last(2) unfolding P' by auto
    have "split_loop a c B sp (length ts) (length cur) d1 fl s = Some (length (ts @ ?P), True, s')"
      using ld [OF sp] x True p [OF T U] t(1) [folded q] p [OF _ prog_okD(1) [OF t(2)]] bl [unfolded blocks_def, THEN conjunct1] pu s'(1) sp
      by (subst split_loop.simps) (simp del: pieces.simps of_nat_add)
    moreover have "m' y = m y" if "y \<notin> heap_of B" for y
        using s'(4) [rule_format, OF that] out [OF that] by (simp only: )
    ultimately show ?thesis using s'(2,3,5) t(3) True by auto
  next
    case False
    then have ne: "xs \<noteq> []" using last(1) by blast
    let ?m = "m(B + of_nat (blk (length ts) + length cur) := w ! d1)"
    have d1: "d1 < length w" using Cons.prems(5) sp by simp
    then have hd: "hd (drop d1 w) = w ! d1" "w ! d1 \<noteq> 0" using ld(3) [OF d1] by (simp_all add: hd_drop_conv_nth)
    show ?thesis
    proof (cases "x = of_char CHR ''0''")
      case True
      have P': "ts @ pieces c xs (drop d1 w) cur = ts @ ?P" using True False by simp
      obtain m' s' where s': "split_loop a c B (sp + 1) (length ts) (length cur) d1 fl s =
          Some (length (ts @ ?P), fl \<or> c \<in> set xs, s')" "prog_ok A m' b s'" "blocks B (ts @ ?P) [] m'"
          "\<forall>x. x \<notin> heap_of B \<longrightarrow> m' x = m x" "outside s' = outside s"
        using Cons.IH [OF Cons.prems(1,2,3) xs, of d1 fl] Cons.prems(5,9-11) sp last(2) ne unfolding P' by auto
      have "split_loop a c B sp (length ts) (length cur) d1 fl s = split_loop a c B (sp + 1) (length ts) (length cur) d1 fl s"
        using ld [OF sp] x False True sp by (subst split_loop.simps) simp
      then show ?thesis using s' False by auto
    next
      case nz: False
      obtain t where t: "ustore (B + of_nat (blk (length ts) + length cur)) (w ! d1) s = Some t" "prog_ok A ?m b t" "outside t = outside s"
        by (rule prog_ok_store [OF Cons.prems(1) heap_in [OF assms(4) k]]) (rule that)
      have P': "ts @ pieces c xs (drop (d1 + 1) w) (cur @ [w ! d1]) = ts @ ?P"
        using nz False tl hd(1) ld(3) [OF sp] x by simp
      obtain u ps where P: "?P = ((cur @ [w ! d1]) @ u) # ps"
        using pieces_hd [OF ne, of c "drop (d1 + 1) w" "cur @ [w ! d1]"] last(2) ne P' by auto
      have "length cur < 19" using Cons.prems(11) unfolding P by auto
      then have bl: "blocks B ts (cur @ [w ! d1]) ?m" by (rule blocks_add [OF Cons.prems(3) n(1) _ n(3)])
      obtain m' s' where s': "split_loop a c B (sp + 1) (length ts) (length (cur @ [w ! d1])) (d1 + 1) fl t =
          Some (length (ts @ ?P), fl \<or> c \<in> set xs, s')" "prog_ok A m' b s'" "blocks B (ts @ ?P) [] m'"
          "\<forall>x. x \<notin> heap_of B \<longrightarrow> m' x = ?m x" "outside s' = outside t"
        using Cons.IH [OF t(2) keep [OF k] bl xs, of "d1 + 1" fl] Cons.prems(5,9-11) sp last(2) ne hd(2) unfolding P' by auto
      have "split_loop a c B sp (length ts) (length cur) d1 fl s = Some (length (ts @ ?P), fl \<or> c \<in> set xs, s')"
        using ld [OF sp] ld(2) [OF d1] x False nz p [OF T U] t(1) [folded q] s'(1) sp
        by (subst split_loop.simps) (simp del: pieces.simps of_nat_add)
      moreover have "m' y = m y" if "y \<notin> heap_of B" for y
        using s'(4) [rule_format, OF that] out [OF that] by (simp only: )
      ultimately show ?thesis using s'(2,3,5) t(3) False by auto
    qed
  qed
qed

section \<open>Allocating and clearing the blocks\<close>

lemma sb_malloc_prog:
  assumes "prog_ok A m b s"
  obtains s' where "sb_malloc env sz s = Some (Ret b, s')" "prog_ok A m (b + scast sz) s'" "outside s' = outside s"
proof -
  let ?s = "outb 0x20 0x20 (outb 0xA0 0x20 (snd (mallocSyscall (scast sz) s)))"
  have f: "childFlag ?s = childFlag s" "childFlag (snd (mallocSyscall (scast sz) s)) = childFlag s" "h_brk ?s = h_brk s + scast sz"
    "frames ?s = frames s" "CR3 ?s = CR3 s" "outside ?s = outside s"
    by (simp_all add: mallocSyscall_def Let_def upd_mm_def h_brk_def outb_def outside_def screen_def)
  have "sb_malloc env sz s = Some (Ret (h_brk s), ?s)"
    using prog_okD(2) [OF assms] f(2) by (simp add: sb_malloc_def u_malloc_def int80_def irq_handler2_def syscall_def ret_def h_brk_def
        mallocSyscall_def Let_def)
  then show ?thesis
    using that [of ?s] assms f umap_mem [of A m s ?s] unfolding prog_ok_def by simp
qed

lemma alloc_tokens_ok:
  assumes "prog_ok A m (B + of_nat (blk i)) s" "heap_of B \<subseteq> A" "i \<le> 10" "\<forall>l < i. ldn 8 m (B + of_nat (8 * l)) = B + of_nat (blk l)"
  shows "\<exists>m' s'. alloc_tokens env B [i..<10] s = Some s' \<and> prog_ok A m' (B + 360) s' \<and> table_ok B m' \<and>
    (\<forall>x. x \<notin> heap_of B \<longrightarrow> m' x = m x) \<and> outside s' = outside s"
  using assms(1,3,4)
proof (induction "10 - i" arbitrary: i m s)
  case 0
  then have "i = 10" by simp
  then show ?case using "0.prems" by (auto simp: table_ok_def blk_def)
next
  case (Suc d)
  then have i: "i < 10" and d: "d = 10 - Suc i" by simp_all
  let ?b = "B + of_nat (blk i)" and ?a = "B + of_nat (8 * i)"
  let ?m = "stn 8 ?a ?b m"
  obtain t where t: "sb_malloc env 20 s = Some (Ret ?b, t)" "prog_ok A m (?b + scast (20 :: u32)) t" "outside t = outside s"
    by (rule sb_malloc_prog [OF Suc.prems(1), of env 20]) (rule that)
  have b: "?b + scast (20 :: u32) = B + of_nat (blk (Suc i))" by (simp add: blk_def)
  have in_A: "range_of ?a 8 \<subseteq> heap_of B" using i by (intro range_inside) simp
  obtain u where u: "ustoren 8 ?a ?b t = Some u" "umap A ?m u" "mem_only t u"
    using ustoren_umap [OF prog_okD(1) [OF t(2)], of ?a 8 ?b] in_A assms(2) by blast
  have "ldn 8 ?m (B + of_nat (8 * l)) = B + of_nat (blk l)" if l: "l < Suc i" for l
  proof (cases "l = i")
    case True
    then show ?thesis using ldn_stn [of 8 ?a ?b m] take_bit_length_eq [of ?b] by simp
  next
    case False
    have "ldn 8 ?m (B + of_nat (8 * l)) = ldn 8 m (B + of_nat (8 * l))"
    proof (rule ldn_stn_other)
      fix x :: u64 assume "unat (x - (B + of_nat (8 * l))) < 8"
      then show "\<not> unat (x - ?a) < 8" using range_sub [of "8 * l" 8 x B] range_sub [of "8 * i" 8 x B] l False i by simp
    qed simp_all
    then show ?thesis using Suc.prems(3) l False by simp
  qed
  moreover have R: "prog_ok A ?m (B + of_nat (blk (Suc i))) u" using prog_ok_mem(1) [OF t(2) u(3,2)] unfolding b .
  ultimately obtain m' s' where s': "alloc_tokens env B [Suc i..<10] u = Some s'" "prog_ok A m' (B + 360) s'" "table_ok B m'"
      "\<forall>x. x \<notin> heap_of B \<longrightarrow> m' x = ?m x" "outside s' = outside u"
    using Suc.hyps(1) [OF d R] i by auto
  have "alloc_tokens env B [i..<10] s = Some s'"
    using t(1) u(1) s'(1) i by (simp add: upt_conv_Cons ret_val_def)
  moreover have "?m x = m x" if "x \<notin> heap_of B" for x
  proof -
    have "\<not> unat (x - ?a) < 8"
    proof
      assume "unat (x - ?a) < 8"
      then have "?a + of_nat (unat (x - ?a)) \<in> heap_of B" by (intro subsetD [OF in_A] range_memb)
      then show False using that by simp
    qed
    then show ?thesis by (simp add: stn_apply)
  qed
  ultimately show ?case using s'(2-5) prog_ok_mem(2) [OF t(2) u(3,2)] t(3) by auto
qed

lemma clear_tokens_ok:
  assumes "prog_ok A m b s" "heap_of B \<subseteq> A" "blocks B ts [] m" "length ts \<le> k" "\<forall>t \<in> set ts. length t < 20" "\<forall>i \<in> set is. k \<le> i \<and> i < 10"
  shows "\<exists>m' s'. clear_tokens B is s = Some s' \<and> prog_ok A m' b s' \<and> blocks B ts [] m' \<and>
    (\<forall>i. i \<in> set is \<or> i < 10 \<and> m (B + of_nat (blk i)) = 0 \<longrightarrow> m' (B + of_nat (blk i)) = 0) \<and>
    (\<forall>x. x \<notin> heap_of B \<longrightarrow> m' x = m x) \<and> outside s' = outside s"
  using assms(1,3,6)
proof (induction "is" arbitrary: m s)
  case (Cons i "is")
  have i: "length ts \<le> i" "i < 10" "blk i < 360" using Cons.prems(3) assms(4) blk_less [of i 0] by auto
  let ?m = "m(B + of_nat (blk i) := 0)"
  obtain t where t: "ustore (B + of_nat (blk i)) 0 s = Some t" "prog_ok A ?m b t" "outside t = outside s"
    by (rule prog_ok_store [OF Cons.prems(1) heap_in [OF assms(2) i(3)]]) (rule that)
  have T: "table_ok B m" using Cons.prems(2) by (simp add: blocks_def)
  have "B + of_nat (blk l + j) \<noteq> B + of_nat (blk i)" if "l < length ts" "j \<le> length (ts ! l)" for l j
  proof -
    have "j < 20" using that assms(5) by (metis le_less_trans nth_mem)
    then show ?thesis using off_eq [of "blk l + j" "blk i" B] blk_less [of l j] blk_eq [of j 0 l i] that(1) i by simp
  qed
  then have bl: "blocks B ts [] ?m"
    using Cons.prems(2) table_upd [OF T _ i(3)] by (auto simp: blocks_def blk_def simp del: of_nat_add)
  have "uloadn 8 (B + 8 * of_nat i) s = Some (B + of_nat (blk i), s)"
    by (rule table_load [OF T prog_okD(1) [OF Cons.prems(1)] assms(2) i(2)])
  moreover obtain m' s' where "clear_tokens B is t = Some s'" "prog_ok A m' b s'" "blocks B ts [] m'"
      "\<forall>i. i \<in> set is \<or> i < 10 \<and> ?m (B + of_nat (blk i)) = 0 \<longrightarrow> m' (B + of_nat (blk i)) = 0"
      "\<forall>x. x \<notin> heap_of B \<longrightarrow> m' x = ?m x" "outside s' = outside t"
    using Cons.IH [OF t(2) bl] Cons.prems(3) by auto
  moreover have "?m x = m x" if "x \<notin> heap_of B" for x using range_memb [OF i(3), of B] that by auto
  ultimately show ?case using t i(2) by auto
qed auto

section \<open>The tokenizer\<close>

text \<open>The string that the loop works on: the separator appended, a leading one skipped.\<close>

definition work :: "u8 \<Rightarrow> u8 list \<Rightarrow> u8 list" where
  "work c cs = (if hd (cs @ [c]) = c then tl (cs @ [c]) else cs @ [c])"

definition tokens :: "u8 \<Rightarrow> u8 list \<Rightarrow> u8 list list" where
  "tokens c cs = pieces c (work c cs) (work c cs) []"

text \<open>The string to split, outside the blocks from \<open>B\<close> and with a spare byte behind it, and the empty literal at \<open>e\<close>.\<close>

definition splittable :: "u64 set \<Rightarrow> bmem \<Rightarrow> u64 \<Rightarrow> u64 \<Rightarrow> u64 \<Rightarrow> u8 list \<Rightarrow> bool" where
  "splittable A m B e a cs \<longleftrightarrow> cstr m a cs \<and> m (a + of_nat (Suc (length cs))) = 0 \<and> length cs < 2 ^ 63 \<and>
     range_of a (length cs + 2) \<subseteq> A - heap_of B \<and> heap_of B \<subseteq> A \<and> m e = 0 \<and> e \<in> A - heap_of B - range_of a (length cs + 2)"

lemma splittableD:
  assumes "splittable A m B e a cs"
  shows "cstr m a cs" "m (a + of_nat (Suc (length cs))) = 0" "length cs < 2 ^ 63" "heap_of B \<subseteq> A" "m e = 0" "e \<in> A" "e \<notin> heap_of B"
    and "range_of a (length cs + 2) \<subseteq> A - heap_of B" "e \<notin> range_of a (length cs + 2)" "str_of a cs \<subseteq> A"
    and "\<And>i. i < length cs + 2 \<Longrightarrow> a + of_nat i \<in> A" "\<And>i. i < length cs + 2 \<Longrightarrow> a + of_nat i \<notin> heap_of B"
    and "\<And>i. i < length cs + 2 \<Longrightarrow> e \<noteq> a + of_nat i"
proof -
  show "cstr m a cs" "m (a + of_nat (Suc (length cs))) = 0" "length cs < 2 ^ 63" "heap_of B \<subseteq> A" "m e = 0" "e \<in> A" "e \<notin> heap_of B"
    by (use assms in \<open>simp add: splittable_def\<close>)+
  show sub: "range_of a (length cs + 2) \<subseteq> A - heap_of B" and e: "e \<notin> range_of a (length cs + 2)"
    by (use assms in \<open>simp add: splittable_def\<close>)+
  have "str_of a cs \<subseteq> range_of a (length cs + 2)" by (rule image_mono) auto
  then show "str_of a cs \<subseteq> A" using sub by (meson Diff_subset order_trans)
  fix i assume "i < length cs + 2"
  then have r: "a + of_nat i \<in> range_of a (length cs + 2)" by (rule range_memb)
  from subsetD [OF sub r] show "a + of_nat i \<in> A" "a + of_nat i \<notin> heap_of B" by simp_all
  from r e show "e \<noteq> a + of_nat i" by metis
qed

lemma splittable_cong:
  assumes "splittable A m B e a cs" "\<And>x. x \<notin> heap_of B \<Longrightarrow> m' x = m x"
  shows "splittable A m' B e a cs"
proof -
  note S = splittableD [OF assms(1)]
  have k: "m' (a + of_nat i) = m (a + of_nat i)" if "i < length cs + 2" for i
    using S(12) [OF that] by (rule assms(2))
  have "cstr m' a cs" by (rule cstr_cong [OF S(1)]) (use k in simp)
  moreover have "m' e = 0" using S(5) assms(2) [OF S(7)] by simp
  moreover have "m' (a + of_nat (Suc (length cs))) = 0" using k [of "Suc (length cs)"] S(2) by simp
  ultimately show ?thesis unfolding splittable_def using S(3,4,6-9) by (simp only: Diff_iff simp_thms)
qed

lemma append_sep:
  assumes "splittable A m B e a cs" "c \<noteq> 0"
  shows "cstr (m(a + of_nat (length cs) := c)) a (cs @ [c])" "a + of_nat (length cs) \<in> A - heap_of B" "str_of a (cs @ [c]) \<subseteq> A - heap_of B"
    "e \<noteq> a + of_nat (length cs)" "a + of_nat (Suc (length cs)) \<noteq> a + of_nat (length cs)" "a \<in> A"
proof -
  note S = splittableD [OF assms(1)]
  let ?m = "m(a + of_nat (length cs) := c)"
  have ne: "a + of_nat i \<noteq> a + of_nat (length cs)" if "i \<le> Suc (length cs)" "i \<noteq> length cs" for i
  proof
    assume "a + of_nat i = a + of_nat (length cs)"
    then have "of_nat i = (of_nat (length cs) :: u64)" by (simp only: add_left_cancel)
    then show False using of_nat_u64_inj [of i "length cs"] that S(3) by simp
  qed
  have "?m (a + of_nat i) = (cs @ [c]) ! i" if "i < length (cs @ [c])" for i
  proof (cases "i = length cs")
    case False
    then have "i < length cs" using that by simp
    then show ?thesis using ne [of i] cstr_nth [OF S(1)] by (simp add: nth_append)
  qed simp
  moreover have "?m (a + of_nat (length (cs @ [c]))) = 0" using ne [of "Suc (length cs)"] S(2) by simp
  ultimately show "cstr ?m a (cs @ [c])" using S(1) assms(2) by (simp add: cstr_def)
  show "a + of_nat (length cs) \<in> A - heap_of B" "e \<noteq> a + of_nat (length cs)" using S(11-13) [of "length cs"] by simp_all
  show "str_of a (cs @ [c]) \<subseteq> A - heap_of B" using S(8) by simp
  show "a + of_nat (Suc (length cs)) \<noteq> a + of_nat (length cs)" by (rule ne) simp_all
  show "a \<in> A" using S(11) [of 0] by simp
qed

text \<open>Everything up to the loop: the blocks are there and the separator is appended.\<close>

lemma u_split_start:
  assumes "prog_ok A m B s" "splittable A m B (lit '''') a cs" "c \<noteq> 0"
  obtains m1 s1 where "prog_ok A m1 (B + 360) s1" "table_ok B m1" "outside s1 = outside s" "m1 (lit '''') = 0"
    "cstr m1 a (cs @ [c])" "\<forall>x. x \<notin> heap_of B \<longrightarrow> x \<noteq> a + of_nat (length cs) \<longrightarrow> m1 x = m x"
    "u_split env lit n a c s = do {
       let argv1 = (if hd (cs @ [c]) = c then a + 1 else a);
       (ss, fflag, s) \<leftarrow> split_loop argv1 c B 0 0 0 0 False s1;
       if \<not> fflag then Some (argv1, s)
       else do {
         let ss = (if ss = 1 \<or> ss = 0 then 2 else ss);
         s \<leftarrow> clear_tokens B [ss - 1..<10] s;
         (ans, s) \<leftarrow> uloadn 8 (B + 8 * (of_nat n - 1)) s;
         (r, s) \<leftarrow> u_strcmp ans (lit '''') 1 s;
         if r \<noteq> 0 then uloadn 8 (B + 8 * (of_nat n - 1)) s else Some (0, s)
       }
     }"
proof -
  obtain t where t: "sb_malloc env 160 s = Some (Ret B, t)" "prog_ok A m (B + scast (160 :: u32)) t" "outside t = outside s"
    by (rule sb_malloc_prog [OF assms(1), of env 160]) (rule that)
  have "prog_ok A m (B + of_nat (blk 0)) t" using t(2) by (simp add: blk_def)
  then obtain m0 u where u: "alloc_tokens env B [0..<10] t = Some u" "prog_ok A m0 (B + 360) u" "table_ok B m0"
      "\<forall>x. x \<notin> heap_of B \<longrightarrow> m0 x = m x" "outside u = outside t"
    using alloc_tokens_ok [of A m B 0 t env] splittableD(4) [OF assms(2)] by auto
  have S0: "splittable A m0 B (lit '''') a cs" using splittable_cong [OF assms(2)] u(4) by blast
  note P = append_sep [OF S0 assms(3)]
  let ?x = "a + of_nat (length cs)" and ?y = "a + of_nat (Suc (length cs))"
  let ?m1 = "m0(?x := c)"
  have l0: "u_strlen a u = Some (length cs, u)"
    by (rule u_strlen_ok [OF prog_okD(1) [OF u(2)] splittableD(1,10) [OF S0]])
  obtain v where v: "ustore ?x c u = Some v" "prog_ok A ?m1 (B + 360) v" "outside v = outside u"
    by (rule prog_ok_store [OF u(2), of ?x c]) (use P(2) that in auto)
  have l1: "u_strlen a v = Some (Suc (length cs), v)" using u_strlen_ok [OF prog_okD(1) [OF v(2)] P(1)] P(3) by auto
  have y: "?y \<in> A" using splittableD(11) [OF S0, of "Suc (length cs)"] by simp
  obtain s1 where s1: "ustore ?y 0 v = Some s1" "prog_ok A (?m1(?y := 0)) (B + 360) s1" "outside s1 = outside v"
    by (rule prog_ok_store [OF v(2) y, of 0]) (rule that)
  have e: "?m1(?y := 0) = ?m1" using splittableD(2) [OF S0] P(5) by (intro fun_upd_idem) simp
  note R = s1(2) [unfolded e]
  have ld: "uload a s1 = Some (hd (cs @ [c]), s1)"
    using umap_load [OF prog_okD(1) [OF R] P(6)] cstr_nth [OF P(1), of 0] by (simp add: hd_conv_nth)
  show thesis
  proof (rule that [OF R])
    show "table_ok B ?m1"
    proof -
      have "ldn 8 ?m1 (B + of_nat (8 * i)) = ldn 8 m0 (B + of_nat (8 * i))" if i: "i < 10" for i
      proof (rule ldn_cong)
        fix z :: u64 assume l: "unat (z - (B + of_nat (8 * i))) < 8"
        then have "B + of_nat (8 * i) + of_nat (unat (z - (B + of_nat (8 * i)))) \<in> range_of (B + of_nat (8 * i)) 8" by (rule range_memb)
        then have "z \<in> heap_of B" using range_inside [of "8 * i" 8 360 B] i by auto
        then have "z \<noteq> ?x" using P(2) by (metis DiffD2)
        then show "?m1 z = m0 z" by simp
      qed simp
      then show ?thesis using u(3) by (simp add: table_ok_def)
    qed
    show "outside s1 = outside s" using s1(3) v(3) u(5) t(3) by simp
    show "?m1 (lit '''') = 0" using P(4) splittableD(5) [OF S0] by simp
    show "cstr ?m1 a (cs @ [c])" by (rule P(1))
    show "\<forall>x. x \<notin> heap_of B \<longrightarrow> x \<noteq> ?x \<longrightarrow> ?m1 x = m x" using u(4) by simp
    show "u_split env lit n a c s = do {
       let argv1 = (if hd (cs @ [c]) = c then a + 1 else a);
       (ss, fflag, s) \<leftarrow> split_loop argv1 c B 0 0 0 0 False s1;
       if \<not> fflag then Some (argv1, s)
       else do {
         let ss = (if ss = 1 \<or> ss = 0 then 2 else ss);
         s \<leftarrow> clear_tokens B [ss - 1..<10] s;
         (ans, s) \<leftarrow> uloadn 8 (B + 8 * (of_nat n - 1)) s;
         (r, s) \<leftarrow> u_strcmp ans (lit '''') 1 s;
         if r \<noteq> 0 then uloadn 8 (B + 8 * (of_nat n - 1)) s else Some (0, s)
       }
     }"
      using t(1) u(1) l0 v(1) l1 s1(1) ld by (simp add: u_split_def ret_val_def)
  qed
qed

lemma pieces_set: "length xs \<le> length r \<Longrightarrow> t \<in> set (pieces c xs r cur) \<Longrightarrow> set t \<subseteq> set cur \<union> set r"
proof (induction xs arbitrary: r cur)
  case (Cons x xs)
  then obtain y r' where r: "r = y # r'" by (cases r) auto
  have l: "length xs \<le> length r'" "length xs \<le> length r" using Cons.prems(1) r by simp_all
  show ?case
    using Cons.prems(2) Cons.IH [OF l(1), of "[]"] Cons.IH [OF l(1), of "cur @ [y]"] Cons.IH [OF l(2), of cur]
    by (auto simp: r split: if_splits)
qed simp

lemma piece_index:
  assumes "0 < l" "l \<le> 10" "1 \<le> n" "n < max 2 l"
  shows "n - 1 < (if l = 1 \<or> l = 0 then 2 else l) - 1 \<and> n - 1 < l \<and> n - 1 < (10 :: nat)"
proof (cases "l = 1")
  case False
  then have "2 \<le> l" using assms(1) by simp
  then have "max 2 l = l" by (rule max_absorb2)
  then show ?thesis using assms False by auto
qed (use assms in simp)

lemma blocks_take: "blocks B ts [] m \<Longrightarrow> blocks B (take k ts) [] m"
  by (auto simp: blocks_def)

lemma work_string:
  assumes "cstr m a (cs @ [c])" "str_of a (cs @ [c]) \<subseteq> S" "work c cs \<noteq> []"
  defines "a' \<equiv> if hd (cs @ [c]) = c then a + 1 else a"
  shows "cstr m a' (work c cs)" "str_of a' (work c cs) \<subseteq> S" "last (work c cs) = c" "set (work c cs) \<subseteq> set (cs @ [c])"
proof -
  obtain x xs where x: "cs @ [c] = x # xs" by (cases "cs @ [c]") auto
  have "last (x # xs) = c" using x by (metis last_snoc)
  moreover have "str_of a (x # xs) = insert a (str_of (a + 1) xs)" using range_of_Suc [of a "Suc (length xs)"] by simp
  ultimately show "cstr m a' (work c cs)" "str_of a' (work c cs) \<subseteq> S" "last (work c cs) = c" "set (work c cs) \<subseteq> set (cs @ [c])"
    using assms(1-3) unfolding a'_def work_def x by (auto simp: cstr_Cons split: if_splits simp del: of_nat_Suc length_Cons)
qed

text \<open>What the ten blocks hold after a call: the pieces, but the last one of several and everything behind it are empty.\<close>

definition kept :: "u8 list list \<Rightarrow> nat \<Rightarrow> u8 list" where
  "kept ts i = (if i + 1 < max 2 (length ts) then ts ! i else [])"

lemma u_split_blocks:
  assumes "prog_ok A m B s" "splittable A m B (lit '''') a cs" "c \<noteq> 0" "work c cs \<noteq> []"
    and "length (tokens c cs) \<le> 10" "\<forall>t \<in> set (tokens c cs). length t < 20"
    and "1 \<le> n" "n < max 2 (length (tokens c cs))" "tokens c cs ! (n - 1) \<noteq> []"
  shows "\<exists>m' s'. u_split env lit n a c s = Some (B + of_nat (blk (n - 1)), s') \<and> prog_ok A m' (B + 360) s' \<and>
    (\<forall>i < 10. cstr m' (B + of_nat (blk i)) (kept (tokens c cs) i)) \<and> str_of (B + of_nat (blk (n - 1))) (tokens c cs ! (n - 1)) \<subseteq> heap_of B \<and>
    cstr m' a (cs @ [c]) \<and> (\<forall>x. x \<notin> heap_of B \<longrightarrow> x \<noteq> a + of_nat (length cs) \<longrightarrow> m' x = m x) \<and> outside s' = outside s"
proof -
  let ?w = "work c cs" and ?ts = "tokens c cs" and ?a = "if hd (cs @ [c]) = c then a + 1 else a"
  note S = splittableD [OF assms(2)]
  obtain m1 s1 where 1: "prog_ok A m1 (B + 360) s1" "table_ok B m1" "outside s1 = outside s" "m1 (lit '''') = 0"
    "cstr m1 a (cs @ [c])" "\<forall>x. x \<notin> heap_of B \<longrightarrow> x \<noteq> a + of_nat (length cs) \<longrightarrow> m1 x = m x"
    "u_split env lit n a c s = do {
       let argv1 = ?a;
       (ss, fflag, s) \<leftarrow> split_loop argv1 c B 0 0 0 0 False s1;
       if \<not> fflag then Some (argv1, s)
       else do {
         let ss = (if ss = 1 \<or> ss = 0 then 2 else ss);
         s \<leftarrow> clear_tokens B [ss - 1..<10] s;
         (ans, s) \<leftarrow> uloadn 8 (B + 8 * (of_nat n - 1)) s;
         (r, s) \<leftarrow> u_strcmp ans (lit '''') 1 s;
         if r \<noteq> 0 then uloadn 8 (B + 8 * (of_nat n - 1)) s else Some (0, s)
       }
     }"
    by (rule u_split_start [where n = n and env = env and lit = lit, OF assms(1-3)]) (rule that)
  note W = work_string [OF 1(5) append_sep(3) [OF assms(2,3)] assms(4)]
  have "blocks B [] [] m1" using 1(2) by (simp add: blocks_def)
  then obtain m2 s2 where 2: "split_loop ?a c B 0 0 0 0 False s1 = Some (length ?ts, True, s2)" "prog_ok A m2 (B + 360) s2"
      "blocks B ?ts [] m2" "\<forall>x. x \<notin> heap_of B \<longrightarrow> m2 x = m1 x" "outside s2 = outside s1"
    using split_loop_ok [where ts = "[]" and cur = "[]" and sp = 0 and xs = ?w and ?d1.0 = 0 and fl = False,
        OF 1(1) W(1,2) S(4) _ assms(3)] W(3) assms(4-6) last_in_set [OF assms(4)]
    unfolding tokens_def by auto
  have ne: "?ts \<noteq> []" using pieces_hd [OF assms(4) W(3), of ?w "[]"] by (auto simp: tokens_def)
  define k where "k = (if length ?ts = 1 \<or> length ?ts = 0 then 2 else length ?ts) - 1"
  have "0 < length ?ts" using ne by simp
  from piece_index [OF this assms(5,7,8), folded k_def] have k: "n - 1 < k" "n - 1 < length (take k ?ts)" "n - 1 < 10" by simp_all
  have short: "length (take k ?ts) \<le> k" "\<forall>t \<in> set (take k ?ts). length t < 20" "\<forall>i \<in> set [k..<10]. k \<le> i \<and> i < 10"
    by (simp, use assms(6) in \<open>auto dest!: in_set_takeD simp del: set_take_subset_set_take\<close>)
  obtain m3 s3 where 3: "clear_tokens B [k..<10] s2 = Some s3" "prog_ok A m3 (B + 360) s3" "blocks B (take k ?ts) [] m3"
      "\<forall>x. x \<notin> heap_of B \<longrightarrow> m3 x = m2 x" "outside s3 = outside s2"
      "\<forall>i. i \<in> set [k..<10] \<or> i < 10 \<and> m2 (B + of_nat (blk i)) = 0 \<longrightarrow> m3 (B + of_nat (blk i)) = 0"
    using clear_tokens_ok [OF 2(2) S(4) blocks_take [OF 2(3)] short] by (elim exE conjE) (rule that)
  note U = prog_okD(1) [OF 3(2)]
  let ?p = "B + of_nat (blk (n - 1))" and ?t = "?ts ! (n - 1)"
  have ld: "uloadn 8 (B + 8 * (of_nat n - 1)) s3 = Some (?p, s3)"
    using table_load [OF _ U S(4) k(3)] 3(3) assms(7) by (simp add: blocks_def of_nat_diff)
  have "0 \<notin> set ?w" using W(1) by (simp add: cstr_def)
  then have nz: "0 \<notin> set t" if "t \<in> set ?ts" for t using that pieces_set [of ?w ?w t c "[]"] unfolding tokens_def by auto
  have kk: "i < k \<longleftrightarrow> i + 1 < max 2 (length ?ts)" "i < k \<Longrightarrow> i < length ?ts" for i
  proof -
    have "2 \<le> length ?ts \<or> length ?ts = 1" using \<open>0 < length ?ts\<close> by linarith
    then show "i < k \<longleftrightarrow> i + 1 < max 2 (length ?ts)" "i < k \<Longrightarrow> i < length ?ts" unfolding k_def by (auto split: if_splits)
  qed
  have all: "cstr m3 (B + of_nat (blk i)) (kept ?ts i)" if "i < 10" for i
  proof (cases "i < k")
    case True
    then show ?thesis using blocks_block [OF 3(3), of i] nz [of "?ts ! i"] kk [of i] by (simp add: kept_def)
  next
    case False
    then show ?thesis using 3(6) kk(1) [of i] that by (simp add: kept_def cstr_Nil)
  qed
  have tin: "?t \<in> set ?ts" using k(2) by simp
  have ct: "cstr m3 ?p ?t" using all [OF k(3)] kk(1) [of "n - 1"] k(1) by (simp add: kept_def)
  have "length ?t < 20" by (rule bspec [OF assms(6) tin])
  then have kt: "blk (n - 1) + Suc (length ?t) \<le> 360" using blk_less [OF k(3)] by (simp add: Suc_le_eq)
  have inH: "str_of ?p ?t \<subseteq> heap_of B" by (rule range_inside [OF kt])
  then have inA: "str_of ?p ?t \<subseteq> A" using S(4) by (rule order_trans)
  have out: "m3 x = m1 x" if "x \<notin> heap_of B" for x using 3(4) 2(4) that by simp
  have cl: "cstr m3 (lit '''') []" using out [OF S(7)] 1(4) by (simp add: cstr_Nil)
  have "str_of (lit '''') ([] :: u8 list) \<subseteq> A" using S(6) by (simp add: lessThan_Suc)
  from u_strlen_ok [OF U cl this] have "u_strlen (lit '''') s3 = Some (0, s3)" by simp
  then have cmp: "u_strcmp ?p (lit '''') 1 s3 = Some (- 1, s3)"
    using u_strlen_ok [OF U ct inA] assms(9) by (simp add: u_strcmp_def)
  have run: "u_split env lit n a c s = Some (?p, s3)"
    unfolding 1(7) using 2(1) 3(1) ld cmp by (simp add: k_def)
  have a: "cstr m3 a (cs @ [c])"
  proof (rule cstr_cong [OF 1(5)])
    fix i assume "i \<le> length (cs @ [c])"
    then show "m3 (a + of_nat i) = m1 (a + of_nat i)" using out S(12) [of i] by simp
  qed
  show ?thesis
  proof (intro exI conjI)
    show "u_split env lit n a c s = Some (?p, s3)" "prog_ok A m3 (B + 360) s3" "str_of ?p ?t \<subseteq> heap_of B" "cstr m3 a (cs @ [c])"
      by (rule run 3(2) inH a)+
    show "\<forall>i < 10. cstr m3 (B + of_nat (blk i)) (kept ?ts i)" using all by blast
    show "\<forall>x. x \<notin> heap_of B \<longrightarrow> x \<noteq> a + of_nat (length cs) \<longrightarrow> m3 x = m x" using out 1(6) by simp
    show "outside s3 = outside s" using 3(5) 2(5) 1(3) by simp
  qed
qed

lemma u_split_step:
  assumes "prog_ok A m B s" "splittable A m B (lit '''') a cs" "c \<noteq> 0" "work c cs \<noteq> []"
    and "length (tokens c cs) \<le> 10" "\<forall>t \<in> set (tokens c cs). length t < 20"
    and "1 \<le> n" "n < max 2 (length (tokens c cs))" "tokens c cs ! (n - 1) \<noteq> []"
  shows "\<exists>p m' s'. u_split env lit n a c s = Some (p, s') \<and> prog_ok A m' (B + 360) s' \<and> cstr m' p (tokens c cs ! (n - 1)) \<and>
    str_of p (tokens c cs ! (n - 1)) \<subseteq> heap_of B \<and> cstr m' a (cs @ [c]) \<and> (\<forall>x. x \<notin> heap_of B \<longrightarrow> x \<noteq> a + of_nat (length cs) \<longrightarrow> m' x = m x) \<and> outside s' = outside s"
proof -
  have "n - 1 < 10" "kept (tokens c cs) (n - 1) = tokens c cs ! (n - 1)" using assms(5,7,8) by (auto simp: kept_def)
  then show ?thesis using u_split_blocks [where lit = lit and n = n and env = env, OF assms] by metis
qed

text \<open>C35. \<^verbatim>\<open>split\<close> on a string that fits into its ten blocks of 20 bytes returns the block of the piece asked for, unless that is the
  last of several or empty.  After the call the ten blocks hold the pieces in order, except that the last of several is
  erased, and the blocks behind it are empty.  The pieces are those of the scan that skips the digit 0 without moving the
  position it copies from.  The string has a separator more than before, and no other memory outside the new blocks changes.\<close>

theorem u_split_piece:
  assumes "prog_ok A m B s" "splittable A m B (lit '''') a cs" "c \<noteq> 0" "work c cs \<noteq> []"
    and "length (tokens c cs) \<le> 10" "\<forall>t \<in> set (tokens c cs). length t < 20"
    and "1 \<le> n" "n < max 2 (length (tokens c cs))" "tokens c cs ! (n - 1) \<noteq> []"
  shows "\<exists>m' s'. u_split env lit n a c s = Some (B + of_nat (blk (n - 1)), s') \<and> prog_ok A m' (B + 360) s' \<and>
    (\<forall>i < 10. cstr m' (B + of_nat (blk i)) (kept (tokens c cs) i)) \<and> str_of (B + of_nat (blk (n - 1))) (tokens c cs ! (n - 1)) \<subseteq> heap_of B \<and>
    cstr m' a (cs @ [c]) \<and> (\<forall>x. x \<notin> heap_of B \<longrightarrow> x \<noteq> a + of_nat (length cs) \<longrightarrow> m' x = m x) \<and> outside s' = outside s"
  using assms by (rule u_split_blocks)

lemma fields_snoc: "fields c (cs @ [c]) = fields c cs @ [[]]"
  by (induction cs) (auto simp: neq_Nil_conv)

lemma fields_replicate: "fields c (cs @ replicate j c) = fields c cs @ replicate j []"
proof (induction j)
  case (Suc j)
  have e: "cs @ replicate (Suc j) c = (cs @ replicate j c) @ [c]" by (simp add: replicate_append_same)
  show ?case unfolding e fields_snoc Suc by (simp add: replicate_append_same)
qed simp

lemma tokens_fields:
  assumes "cs \<noteq> []" "hd cs \<noteq> c" "0 \<notin> set cs" "of_char CHR ''0'' \<notin> set cs"
  shows "tokens c cs = fields c cs"
proof -
  have "work c cs = cs @ [c]" using assms(1,2) by (simp add: work_def hd_append)
  then show ?thesis unfolding tokens_def using pieces_fields [OF assms(3,4), of c "[]"] by (simp add: hd_Cons_tl)
qed

text \<open>C36. Successive calls give successive fields: after the calls for the fields before it, the call for field \<open>k\<close> of a string
  without the digit 0 returns that field, and leaves the string with one more separator for the next call.\<close>

theorem u_split_fields:
  assumes "prog_ok A m B s" "splittable A m B (lit '''') a (cs @ replicate (k - 1) c)" "c \<noteq> 0" "c \<noteq> of_char CHR ''0''"
    and "cs \<noteq> []" "hd cs \<noteq> c" "of_char CHR ''0'' \<notin> set cs"
    and "1 \<le> k" "k \<le> length (fields c cs)" "length (fields c cs) + k \<le> 11" "\<forall>t \<in> set (fields c cs). length t < 20" "fields c cs ! (k - 1) \<noteq> []"
  shows "\<exists>p m' s'. u_split env lit k a c s = Some (p, s') \<and> prog_ok A m' (B + 360) s' \<and> cstr m' p (fields c cs ! (k - 1)) \<and>
    cstr m' a (cs @ replicate k c)"
proof -
  let ?cs = "cs @ replicate (k - 1) c"
  have "0 \<notin> set ?cs" using splittableD(1) [OF assms(2)] by (simp add: cstr_def)
  moreover have nz: "of_char CHR ''0'' \<notin> set ?cs" "hd ?cs \<noteq> c" "?cs \<noteq> []" using assms(4-7) by auto
  ultimately have ts: "tokens c ?cs = fields c cs @ replicate (k - 1) []" using tokens_fields [of ?cs c] fields_replicate by metis
  have w: "work c ?cs \<noteq> []" using nz by (auto simp: work_def tl_append split: list.splits)
  have nth: "tokens c ?cs ! (k - 1) = fields c cs ! (k - 1)" unfolding ts using less_le_trans [OF diff_less [of 1 k] assms(9)] assms(8) by (simp add: nth_append)
  have len: "length (tokens c ?cs) = length (fields c cs) + (k - 1)" unfolding ts by simp
  have short: "\<forall>t \<in> set (tokens c ?cs). length t < 20" unfolding ts using assms(11) by auto
  have "?cs @ [c] = cs @ replicate k c"
    using assms(8) replicate_append_same [of "k - 1" c] by (metis Suc_diff_1 append_assoc less_le_trans replicate_Suc zero_less_one)
  moreover have "length (tokens c ?cs) \<le> 10" "k < max 2 (length (tokens c ?cs))" using len assms(8-10) by auto
  ultimately show ?thesis
    using u_split_step [where lit = lit and n = k and env = env, OF assms(1-3) w _ short assms(8)] assms(12) unfolding nth by auto
qed

text \<open>The zero of \<^verbatim>\<open>sleep 10\<close> is lost: the second call returns 1.\<close>

lemma split_example:
  fixes bs :: "u8 list"
  assumes "0 \<notin> set bs" "length bs < 100"
  obtains m where "prog_ok page m 0x400100 (prog_sys 0x400100 (bs @ replicate (128 - length bs) 0))"
    "splittable page m 0x400100 0x40007f 0x400000 bs"
proof -
  let ?bs = "bs @ replicate (128 - length bs) 0"
  obtain m where m: "umap page (poke 0x400000 ?bs m) (prog_sys 0x400100 ?bs)" "childFlag (prog_sys 0x400100 ?bs) \<noteq> 1"
      "h_brk (prog_sys 0x400100 ?bs) = 0x400100"
    by (rule prog_sys_facts [of ?bs "0x400100"]) (use assms(2) in simp)
  let ?m = "poke 0x400000 ?bs m"
  have nth: "?m (0x400000 + of_nat i) = ?bs ! i" if "i < 128" for i using that assms(2) by (intro poke_in) simp_all
  have "cstr ?m 0x400000 bs"
    using nth assms by (auto simp: cstr_def nth_append)
  moreover have "?m (0x400000 + of_nat (Suc (length bs))) = 0" "?m 0x40007f = 0"
    using nth [of "Suc (length bs)"] nth [of 127] assms(2) by (simp_all add: nth_append)
  moreover have dis: "0x400000 + of_nat i \<noteq> (0x400100 + of_nat j :: u64)" if "i < 256" "j < 360" for i j
  proof
    assume "0x400000 + of_nat i = (0x400100 + of_nat j :: u64)"
    then have "of_nat i = (of_nat (256 + j) :: u64)" by (simp add: algebra_simps)
    then show False using of_nat_u64_inj [of i "256 + j"] that by simp
  qed
  have out: "0x400000 + of_nat i \<notin> heap_of 0x400100" if "i < 256" for i
    using dis [OF that] by (auto simp only: image_iff lessThan_iff)
  have "range_of 0x400000 (length bs + 2) \<subseteq> page - heap_of 0x400100"
  proof
    fix x :: u64
    assume x: "x \<in> range_of 0x400000 (length bs + 2)"
    then obtain i where "x = 0x400000 + of_nat i" "i < length bs + 2" by (auto simp only: image_iff lessThan_iff)
    then have "x \<notin> heap_of 0x400100" using out [of i] assms(2) by simp
    moreover have "x \<in> page" using page_sub [of 0 "length bs + 2"] x assms(2) by auto
    ultimately show "x \<in> page - heap_of 0x400100" by (rule DiffI [rotated])
  qed
  moreover have "heap_of 0x400100 \<subseteq> page" using page_sub [of 256 360] by simp
  moreover have "0x40007f \<in> page - heap_of 0x400100 - range_of 0x400000 (length bs + 2)"
  proof -
    have e: "0x40007f = (0x400000 + of_nat 127 :: u64)" by simp
    have "0x400000 + of_nat 127 \<noteq> (0x400000 + of_nat i :: u64)" if "i < length bs + 2" for i
      using of_nat_u64_inj [of 127 i] that assms(2) by auto
    then have "0x400000 + of_nat 127 \<notin> range_of 0x400000 (length bs + 2)" by (auto simp only: image_iff lessThan_iff)
    moreover have "0x400000 + of_nat 127 \<in> page" using page_sub [of 127 1] by (simp add: lessThan_Suc)
    ultimately show ?thesis using out [of 127] unfolding e by simp
  qed
  ultimately show ?thesis using m assms(2) by (intro that [of ?m]) (simp_all add: prog_ok_def splittable_def)
qed

theorem u_split_piece_witness:
  "\<exists>p m' s'. u_split test_env (\<lambda>_. 0x40007f) 2 0x400000 32 (prog_sys 0x400100 (str ''sleep 10 '' @ replicate (128 - length (str ''sleep 10 '')) 0)) = Some (p, s') \<and>
     umap page m' s' \<and> cstr m' p (str ''1'') \<and> cstr m' (0x400100 + 160) (str ''sleep'') \<and> cstr m' (0x400100 + 200) []"
proof -
  obtain m where m: "prog_ok page m 0x400100 (prog_sys 0x400100 (str ''sleep 10 '' @ replicate (128 - length (str ''sleep 10 '')) 0))"
    "splittable page m 0x400100 0x40007f 0x400000 (str ''sleep 10 '')"
    by (rule split_example [of "str ''sleep 10 ''"]) (simp_all)
  have t: "tokens 32 (str ''sleep 10 '') = [str ''sleep'', str ''1'', []]" by (simp add: tokens_def work_def)
  have "work 32 (str ''sleep 10 '') \<noteq> []" by (simp add: work_def)
  then obtain m' s' where r: "u_split test_env (\<lambda>_. 0x40007f) 2 0x400000 32
      (prog_sys 0x400100 (str ''sleep 10 '' @ replicate (128 - length (str ''sleep 10 '')) 0)) = Some (0x400100 + of_nat (blk (2 - 1)), s')"
      "prog_ok page m' (0x400100 + 360) s'"
      "\<forall>i < 10. cstr m' (0x400100 + of_nat (blk i)) (kept (tokens 32 (str ''sleep 10 '')) i)"
    using u_split_piece [where lit = "\<lambda>_. 0x40007f" and n = 2 and c = 32 and env = test_env, OF m] unfolding t by auto
  have "cstr m' (0x400100 + of_nat (blk 1)) (str ''1'')" "cstr m' (0x400100 + of_nat (blk 0)) (str ''sleep'')"
      "cstr m' (0x400100 + of_nat (blk 2)) []"
    using r(3) [rule_format, of 1] r(3) [rule_format, of 0] r(3) [rule_format, of 2] unfolding t by (simp_all add: kept_def)
  then show ?thesis using r(1,2) unfolding prog_ok_def blk_def by auto
qed

theorem u_split_fields_witness:
  "\<exists>p m' s'. u_split test_env (\<lambda>_. 0x40007f) 2 0x400000 32 (prog_sys 0x400100 (str ''cat a '' @ replicate (128 - length (str ''cat a '')) 0)) = Some (p, s') \<and>
     umap page m' s' \<and> cstr m' p (str ''a'') \<and> cstr m' 0x400000 (str ''cat a  '')"
proof -
  obtain m where m: "prog_ok page m 0x400100 (prog_sys 0x400100 (str ''cat a '' @ replicate (128 - length (str ''cat a '')) 0))"
    "splittable page m 0x400100 0x40007f 0x400000 (str ''cat a '')"
    by (rule split_example [of "str ''cat a ''"]) (simp_all)
  have t: "fields 32 (str ''cat a'') = [str ''cat'', str ''a'']" by simp
  have e: "str ''cat a '' = str ''cat a'' @ replicate (2 - 1) 32" "str ''cat a  '' = str ''cat a'' @ replicate 2 32"
    by (simp_all add: numeral_2_eq_2)
  obtain p m' s' where "u_split test_env (\<lambda>_. 0x40007f) 2 0x400000 32
      (prog_sys 0x400100 (str ''cat a '' @ replicate (128 - length (str ''cat a '')) 0)) = Some (p, s')"
      "prog_ok page m' (0x400100 + 360) s'" "cstr m' p (fields 32 (str ''cat a'') ! (2 - 1))" "cstr m' 0x400000 (str ''cat a'' @ replicate 2 32)"
    using u_split_fields [where lit = "\<lambda>_. 0x40007f" and k = 2 and c = 32 and cs = "str ''cat a''" and env = test_env,
        OF m(1) m(2) [unfolded e(1)]] unfolding t by auto
  then show ?thesis unfolding t e(2) prog_ok_def by auto
qed

end
