(* ===== verification/Programs.thy ===== *)
theory Programs
  imports Tokens
begin

text \<open>
  The programs \<^verbatim>\<open>bin/cat\<close>, \<^verbatim>\<open>bin/echo\<close>, \<^verbatim>\<open>bin/sleep\<close>, \<^verbatim>\<open>bin/ls\<close> and \<^verbatim>\<open>bin/ps\<close>, and the commands of the library that are linked
  into the shell: \<^verbatim>\<open>libc/dirent.c\<close>, \<^verbatim>\<open>libc/cat.c\<close>, \<^verbatim>\<open>libc/echo.c\<close>, \<^verbatim>\<open>libc/shell.c\<close> and \<^verbatim>\<open>libc/ls.c\<close>.

  A program is a function of its arguments, the number \<open>argc\<close> and the address \<open>argv\<close> of the table of pointers, and of the
  state; its value is what \<^verbatim>\<open>main\<close> returns and the state at that point.  The addresses of its string literals are the
  parameter \<open>lit\<close>.  An \<^verbatim>\<open>int\<close> of the source is a 32-bit word, and a \<^verbatim>\<open>char\<close> is signed.
\<close>

section \<open>Arguments\<close>

text \<open>\<^verbatim>\<open>argv[i]\<close>.\<close>

definition arg_at :: "u64 \<Rightarrow> nat \<Rightarrow> 'a proc_scheme \<Rightarrow> (u64 \<times> 'a proc_scheme) option" where
  "arg_at argv i s = uloadn 8 (argv + 8 * of_nat i) s"

text \<open>A pointer passed to the formatter for \<^verbatim>\<open>%s\<close>.\<close>

definition str_arg :: "u64 \<Rightarrow> 'a proc_scheme \<Rightarrow> (karg \<times> 'a proc_scheme) option" where
  "str_arg a s = (if a = 0 then Some (KStr None, s) else map_option (apfst (KStr \<circ> Some)) (uload_str a s))"

section \<open>Directories\<close>

definition u_readdir :: "kenv \<Rightarrow> uglob \<Rightarrow> u64 \<Rightarrow> 'a sysc_scheme \<Rightarrow> (u64 \<times> 'a sysc_scheme) option" where
  "u_readdir env g dd s = do {
     (r, s) \<leftarrow> u_getdents env 0xdc dd (g_direc g) 1000 s;
     v \<leftarrow> ret_val r;
     Some (v, s)
   }"

definition u_opendir :: "kenv \<Rightarrow> uglob \<Rightarrow> u64 \<Rightarrow> 'a sysc_scheme \<Rightarrow> (u32 \<times> 'a sysc_scheme) option" where
  "u_opendir env g dir s = do {
     s \<leftarrow> u_strcpy dir (g_direc g) s;
     (r, s) \<leftarrow> u_open env 0x05 (g_direc g) 4 s;
     v \<leftarrow> ret_val r;
     Some (ucast v, s)
   }"

section \<open>The program cat\<close>

definition cat_file :: "kenv \<Rightarrow> uglob \<Rightarrow> u64 \<Rightarrow> 'a sysc_scheme \<Rightarrow> 'a sysc_scheme option" where
  "cat_file env g inp s = do {
     s \<leftarrow> u_strcpy inp (g_temp g) s;
     (r, s) \<leftarrow> u_open env 0x05 (g_temp g) 0 s;
     v \<leftarrow> ret_val r;
     let n = (ucast v :: u32);
     if n \<noteq> - 1
     then do {
       (r, s) \<leftarrow> u_read env 3 (scast n) (g_buf g) 1000 s;
       put_s env g (g_buf g) s
     }
     else Some s
   }"

fun cat_loop :: "kenv \<Rightarrow> uglob \<Rightarrow> u64 \<Rightarrow> nat list \<Rightarrow> 'a sysc_scheme \<Rightarrow> 'a sysc_scheme option" where
  "cat_loop env g argv [] s = Some s"
| "cat_loop env g argv (i # is) s = do {
     (a, s) \<leftarrow> arg_at argv i s;
     s \<leftarrow> cat_file env g a s;
     cat_loop env g argv is s
   }"

definition cat_main :: "kenv \<Rightarrow> uglob \<Rightarrow> (string \<Rightarrow> u64) \<Rightarrow> nat \<Rightarrow> u64 \<Rightarrow> 'a sysc_scheme \<Rightarrow> (u32 \<times> 'a sysc_scheme) option" where
  "cat_main env g lit argc argv s = do {
     s \<leftarrow> (if argc = 1 then put_s env g (lit ''No Files Passed'') s else Some s);
     s \<leftarrow> cat_loop env g argv [1..<argc] s;
     Some (0, s)
   }"

section \<open>The program echo\<close>

fun echo_loop :: "kenv \<Rightarrow> uglob \<Rightarrow> u64 \<Rightarrow> nat list \<Rightarrow> 'a ulib_scheme \<Rightarrow> 'a ulib_scheme option" where
  "echo_loop env g argv [] s = Some s"
| "echo_loop env g argv (i # is) s = do {
     (a, s) \<leftarrow> arg_at argv i s;
     (x, s) \<leftarrow> str_arg a s;
     s \<leftarrow> u_printf env g ''%s '' [x] s;
     echo_loop env g argv is s
   }"

definition echo_main :: "kenv \<Rightarrow> uglob \<Rightarrow> nat \<Rightarrow> u64 \<Rightarrow> 'a ulib_scheme \<Rightarrow> (u32 \<times> 'a ulib_scheme) option" where
  "echo_main env g argc argv s = do {
     s \<leftarrow> u_printf env g (''-------------%d'' @ [CHR 0x0A]) [KInt (of_nat argc)] s;
     s \<leftarrow> (if argc > 1 then echo_loop env g argv [1..<argc] s else Some s);
     s \<leftarrow> u_printf env g [CHR 0x0A] [] s;
     Some (0, s)
   }"

section \<open>The program sleep\<close>

definition sleep_seconds :: "kenv \<Rightarrow> uglob \<Rightarrow> u32 \<Rightarrow> 'a ulib_scheme \<Rightarrow> 'a ulib_scheme option" where
  "sleep_seconds env g sec s = do {
     (r, s) \<leftarrow> u_sleep env 162 (scast sec) s;
     v \<leftarrow> ret_val r;
     u_printf env g ([CHR 0x0A] @ ''After %d seconds'' @ [CHR 0x0A]) [KInt (scast sec)] s
   }"

text \<open>The power of ten for the digit \<open>inn\<close>: the inner loop, with the variables \<^verbatim>\<open>in\<close>, \<^verbatim>\<open>j\<close> and \<^verbatim>\<open>m\<close>.\<close>

partial_function (option) sleep_power :: "u64 \<Rightarrow> nat \<Rightarrow> nat \<Rightarrow> u32 \<Rightarrow> 'a proc_scheme \<Rightarrow> (u32 \<times> 'a proc_scheme) option" where
  "sleep_power argv inn j m s =
     Option.bind (arg_at argv 1 s) (\<lambda>(a, s).
       Option.bind (u_strlen a s) (\<lambda>(n, s).
         if int j < int n - int inn then sleep_power argv inn (j + 1) (m * 10) s else Some (m, s)))"

partial_function (option) sleep_digits :: "u64 \<Rightarrow> u8 \<Rightarrow> nat \<Rightarrow> u32 \<Rightarrow> 'a proc_scheme \<Rightarrow> (u32 \<times> 'a proc_scheme) option" where
  "sleep_digits argv i inn sec s =
     Option.bind (sleep_power argv inn 0 1 s) (\<lambda>(m, s).
       Option.bind (arg_at argv 1 s) (\<lambda>(a, s).
         Option.bind (u_strlen a s) (\<lambda>(n, s).
           if inn = n then Some (sec + (scast i - 48) * m, s)
           else Option.bind (arg_at argv 1 s) (\<lambda>(a, s).
             Option.bind (uload (a + of_nat inn) s) (\<lambda>(c, s).
               if c = 0 then Some (sec + (scast i - 48) * m, s)
               else sleep_digits argv c (inn + 1) (sec + (scast i - 48) * m) s)))))"

definition sleep_main :: "kenv \<Rightarrow> uglob \<Rightarrow> u64 \<Rightarrow> 'a ulib_scheme \<Rightarrow> (u32 \<times> 'a ulib_scheme) option" where
  "sleep_main env g argv s = do {
     (r, s) \<leftarrow> sb_malloc env 10 s;
     seconds \<leftarrow> ret_val r;
     (a, s) \<leftarrow> arg_at argv 1 s;
     s \<leftarrow> u_strcpy a seconds s;
     (i, s) \<leftarrow> uload seconds s;
     (sec, s) \<leftarrow> sleep_digits argv i 1 0 s;
     s \<leftarrow> sleep_seconds env g sec s;
     Some (0, s)
   }"

section \<open>The program ls\<close>

definition ls_dir :: "kenv \<Rightarrow> uglob \<Rightarrow> (string \<Rightarrow> u64) \<Rightarrow> 'a ulib_scheme \<Rightarrow> 'a ulib_scheme option" where
  "ls_dir env g lit s = do {
     (n, s) \<leftarrow> u_opendir env g (g_temp1 g) s;
     s \<leftarrow> u_printf env g (''1------------------ %d'' @ [CHR 0x0A]) [KInt (scast n)] s;
     s \<leftarrow> (if n \<noteq> - 1 then map_option snd (u_readdir env g (scast n) s) else Some s);
     put_s env g (lit [CHR 0x0A]) s
   }"

text \<open>The two loops of \<^verbatim>\<open>main\<close> differ in the number of bytes they skip.\<close>

partial_function (option) ls_copy :: "uglob \<Rightarrow> u64 \<Rightarrow> nat \<Rightarrow> nat \<Rightarrow> 'a proc_scheme \<Rightarrow> 'a proc_scheme option" where
  "ls_copy g pw off i s =
     Option.bind (uload (pw + of_nat (i + off)) s) (\<lambda>(c, s).
       if c \<noteq> 0
       then Option.bind (uload (pw + of_nat (i + off)) s) (\<lambda>(c, s).
         Option.bind (ustore (g_temp1 g + of_nat i) c s) (\<lambda>s. ls_copy g pw off (i + 1) s))
       else Some s)"

definition ls_main :: "kenv \<Rightarrow> uglob \<Rightarrow> (string \<Rightarrow> u64) \<Rightarrow> nat \<Rightarrow> u64 \<Rightarrow> 'a ulib_scheme \<Rightarrow> (u32 \<times> 'a ulib_scheme) option" where
  "ls_main env g lit argc argv s = do {
     (r, s) \<leftarrow> sb_malloc env 20 s;
     pw \<leftarrow> ret_val r;
     s \<leftarrow> (if argc > 1 then Option.bind (arg_at argv 1 s) (\<lambda>(a, s). u_strcpy a pw s) else Some s);
     (firstToken, s) \<leftarrow> u_split env lit 1 pw slash s;
     (r, s) \<leftarrow> u_strncmp firstToken (lit ''rootfs'') 6 s;
     s \<leftarrow> (if r \<noteq> 0
          then Option.bind (uload pw s) (\<lambda>(c, s). if c = slash then ls_copy g pw 8 0 s else ls_copy g pw 7 0 s)
          else Some s);
     (n, s) \<leftarrow> u_strlen (g_temp1 g) s;
     s \<leftarrow> ustore (g_temp1 g + of_nat n - 1) 0 s;
     (n, s) \<leftarrow> u_strlen (g_temp1 g) s;
     s \<leftarrow> (if n = 0 then Option.bind (ustore (g_temp1 g) slash s) (ustore (g_temp1 g + 1) 0) else Some s);
     s \<leftarrow> ls_dir env g lit s;
     Some (0, s)
   }"

section \<open>The program ps\<close>

definition ps_main :: "'a sysc_scheme \<Rightarrow> (u32 \<times> 'a sysc_scheme) option" where
  "ps_main s = Some (0, s)"

section \<open>The commands of the library\<close>

definition lib_cat :: "kenv \<Rightarrow> uglob \<Rightarrow> u64 \<Rightarrow> 'a ulib_scheme \<Rightarrow> 'a ulib_scheme option" where
  "lib_cat env g inp s = do {
     s \<leftarrow> u_strcpy inp (g_temp g) s;
     s \<leftarrow> put_s env g inp s;
     (r, s) \<leftarrow> u_open env 0x05 (g_temp g) 0 s;
     v \<leftarrow> ret_val r;
     let n = (ucast v :: u32);
     s \<leftarrow> u_printf env g ''%d abcd'' [KInt (scast n)] s;
     (r, s) \<leftarrow> u_read env 3 (scast n) (g_buf g) 1000 s;
     put_s env g (g_buf g) s
   }"

definition lib_echo :: "kenv \<Rightarrow> uglob \<Rightarrow> u64 \<Rightarrow> 'a ulib_scheme \<Rightarrow> 'a ulib_scheme option" where
  "lib_echo env g a s = do {
     (x, s) \<leftarrow> str_arg a s;
     u_printf env g ''%s'' [x] s
   }"

definition lib_shell :: "kenv \<Rightarrow> uglob \<Rightarrow> u64 \<Rightarrow> 'a ulib_scheme \<Rightarrow> (u64 \<times> 'a ulib_scheme) option" where
  "lib_shell env g inp s = do {
     s \<leftarrow> u_strcpy inp (g_temp g) s;
     s \<leftarrow> put_s env g inp s;
     (r, s) \<leftarrow> u_open env 0x05 (g_temp g) 0 s;
     v \<leftarrow> ret_val r;
     let n = (ucast v :: u32);
     s \<leftarrow> u_printf env g ''%d abcd'' [KInt (scast n)] s;
     (r, s) \<leftarrow> u_read env 3 (scast n) (g_buf g) 1000 s;
     Some (g_buf g, s)
   }"

definition lib_ls :: "kenv \<Rightarrow> uglob \<Rightarrow> (string \<Rightarrow> u64) \<Rightarrow> 'a ulib_scheme \<Rightarrow> 'a ulib_scheme option" where
  "lib_ls env g lit s = do {
     (n, s) \<leftarrow> u_opendir env g (lit ''bin/'') s;
     s \<leftarrow> u_printf env g ''%d in between'' [KInt (scast n)] s;
     (v, s) \<leftarrow> u_readdir env g (scast n) s;
     put_s env g (lit [CHR 0x0A]) s
   }"

section \<open>What sleep reads\<close>

text \<open>The value that the digits of a string have for the program, by their places, with the wrap-around of an \<^verbatim>\<open>int\<close>.\<close>

fun place_value :: "u8 list \<Rightarrow> u32" where
  "place_value [] = 0"
| "place_value (c # cs) = (scast c - 48) * 10 ^ length cs + place_value cs"

lemma place_value_snoc: "place_value (cs @ [c]) = place_value cs * 10 + (scast c - 48)"
  by (induction cs) (simp_all add: algebra_simps)

text \<open>Horner's rule gives the same value.\<close>

lemma place_value_horner: "place_value cs = foldl (\<lambda>v c. v * 10 + (scast c - 48)) 0 cs"
  by (induction cs rule: rev_induct) (simp_all add: place_value_snoc)

text \<open>The memory of a program with one argument.\<close>

definition one_arg :: "u64 set \<Rightarrow> bmem \<Rightarrow> u64 \<Rightarrow> u64 \<Rightarrow> u8 list \<Rightarrow> bool" where
  "one_arg A m argv a cs \<longleftrightarrow> range_of (argv + 8) 8 \<subseteq> A \<and> ldn 8 m (argv + 8) = a \<and> cstr m a cs \<and> str_of a cs \<subseteq> A"

lemma one_arg_at: "one_arg A m argv a cs \<Longrightarrow> umap A m s \<Longrightarrow> arg_at argv 1 s = Some (a, s)"
  using uloadn_umap [of A m s "argv + 8" 8] by (simp add: arg_at_def one_arg_def)

lemma one_arg_strlen: "one_arg A m argv a cs \<Longrightarrow> umap A m s \<Longrightarrow> u_strlen a s = Some (length cs, s)"
  using u_strlen_ok [of A m s a cs] by (simp add: one_arg_def)

lemma one_arg_load:
  assumes "one_arg A m argv a cs" "umap A m s" "i < length cs"
  shows "uload (a + of_nat i) s = Some (cs ! i, s)" "cs ! i \<noteq> 0"
proof -
  have "cstr m a cs" "a + of_nat i \<in> A"
    using assms(1,3) subsetD [OF _ range_memb [of i "Suc (length cs)" a], of A] by (simp_all add: one_arg_def)
  then show "uload (a + of_nat i) s = Some (cs ! i, s)" "cs ! i \<noteq> 0"
    using umap_load [OF assms(2)] cstr_nth [OF _ assms(3)] cstr_nth_nonzero [OF _ assms(3)] by auto
qed

lemma sleep_power_ok:
  assumes "one_arg A m argv a cs" "umap A m s" "k \<le> length cs" "j \<le> length cs - k"
  shows "sleep_power argv k j v s = Some (v * 10 ^ (length cs - k - j), s)"
  using assms(4)
proof (induction "length cs - k - j" arbitrary: j v)
  case 0
  then show ?case using one_arg_at [OF assms(1,2)] one_arg_strlen [OF assms(1,2)] assms(3) by (subst sleep_power.simps) auto
next
  case (Suc d)
  then have "sleep_power argv k (j + 1) (v * 10) s = Some (v * 10 * 10 ^ (length cs - k - (j + 1)), s)" by (intro Suc.hyps(1)) simp_all
  moreover have "length cs - k - j = Suc (length cs - k - (j + 1))" using Suc.hyps(2) by simp
  moreover have "int j < int (length cs) - int k" using Suc.hyps(2) by arith
  ultimately show ?case
    using one_arg_at [OF assms(1,2)] one_arg_strlen [OF assms(1,2)] by (subst sleep_power.simps) (simp add: mult.assoc)
qed

lemma sleep_digits_ok:
  assumes "one_arg A m argv a cs" "umap A m s" "drop k cs = c # ds"
  shows "sleep_digits argv c (Suc k) sec s = Some (sec + place_value (c # ds), s)"
  using assms(3)
proof (induction ds arbitrary: k c sec)
  case Nil
  have "length (drop k cs) = 1" unfolding Nil by simp
  then have k: "Suc k = length cs" unfolding length_drop by arith
  have "sleep_power argv (Suc k) 0 1 s = Some (1, s)" using sleep_power_ok [OF assms(1,2), of "Suc k" 0 1] k by simp
  then show ?case using one_arg_at [OF assms(1,2)] one_arg_strlen [OF assms(1,2)] k by (subst sleep_digits.simps) simp
next
  case (Cons d ds)
  have "length (drop k cs) = Suc (Suc (length ds))" unfolding Cons.prems by simp
  then have l: "length cs = Suc (Suc k) + length ds" unfolding length_drop by arith
  have dr: "drop (Suc k) cs = d # ds" using Cons.prems by (simp add: drop_Suc tl_drop [symmetric])
  then have d: "cs ! Suc k = d" "Suc k < length cs" using l nth_via_drop by auto
  have "sleep_power argv (Suc k) 0 1 s = Some (10 ^ length (d # ds), s)" using sleep_power_ok [OF assms(1,2), of "Suc k" 0 1] l by simp
  then show ?case
    using one_arg_at [OF assms(1,2)] one_arg_strlen [OF assms(1,2)] one_arg_load [OF assms(1,2) d(2)] d Cons.IH [OF dr]
    by (subst sleep_digits.simps) (simp add: algebra_simps del: of_nat_Suc)
qed

lemma digit_char_ten:
  assumes "r < 10"
  shows "scast (digit_char r) - 48 = (ucast r :: u32)"
proof -
  have "r < 16" using assms by (rule less_trans) simp
  from small_u64_cases [OF this] assms show ?thesis by (auto simp: digit_char_def)
qed

lemma digit_value: "place_value (rev (convert_loop n 10)) = ucast n"
proof (induction n "10 :: u64" rule: convert_loop.induct)
  case (1 n)
  have s: "scast (digit_char (n mod 10)) - 48 = (ucast (n mod 10) :: u32)"
    by (rule digit_char_ten) (simp add: word_mod_less_divisor)
  have m: "(ucast (n div 10) :: u32) * 10 + ucast (n mod 10) = ucast n"
  proof -
    have "(ucast (n div 10) :: u32) * 10 + ucast (n mod 10) = word_of_int (uint (n div 10)) * word_of_int 10 + word_of_int (uint (n mod 10))"
      unfolding ucast_eq by (simp only: word_of_int_numeral)
    also have "\<dots> = word_of_int (uint n div 10 * 10 + uint n mod 10)" 
      unfolding uint_div_distrib uint_mod_distrib wi_hom_add wi_hom_mult by simp
    also have "uint n div 10 * 10 + uint n mod 10 = uint n" by (rule div_mult_mod_eq)
    finally show ?thesis by (simp only: ucast_eq)
  qed
  show ?case
  proof (cases "n div 10 > 0")
    case True
    then show ?thesis using 1 s m by (subst convert_loop.simps) (simp add: place_value_snoc)
  next
    case False
    then have "n div 10 = 0" by (simp add: word_gt_0)
    then show ?thesis using s m by (subst convert_loop.simps) simp
  qed
qed

section \<open>A run of sleep\<close>

lemma digit_char_plain: "r < 16 \<Longrightarrow> digit_char r \<notin> {0, 10, 13, 37}"
  using small_u64_cases [of r] by (auto simp: digit_char_def)

lemma digit_plain: "c \<in> set (convert_loop n 10) \<Longrightarrow> c \<notin> {0, 10, 13, 37}"
proof (induction n "10 :: u64" rule: convert_loop.induct)
  case (1 n)
  have "n mod 10 < 16" by (rule less_trans [of _ 10]) (simp_all add: word_mod_less_divisor)
  from digit_char_plain [OF this] have "digit_char (n mod 10) \<notin> {0, 10, 13, 37}" .
  moreover have "c = digit_char (n mod 10) \<or> (0 < n div 10 \<and> c \<in> set (convert_loop (n div 10) 10))"
    using "1.prems" by (subst (asm) convert_loop.simps) (auto split: if_splits)
  ultimately show ?case using "1.hyps" by auto
qed

lemma scast_small: "n < 2 ^ 31 \<Longrightarrow> scast (of_nat n :: u32) = (of_nat n :: u64)"
  by (simp add: scast_eq signed_of_nat signed_take_bit_int_eq_self)

lemma u_sleep_ok: "childFlag s \<noteq> 1 \<Longrightarrow> u_sleep env 162 v s = Some (Ret 0, outb 0x20 0x20 (outb 0xA0 0x20 s))"
  by (simp add: u_sleep_def int80_def irq_handler2_def syscall_def)


text \<open>What output needs survives when the one byte that it relies on does.\<close>

lemma filled_umap:
  assumes "filled A g [] s" "umap A m s" "umap A m' s'" "childFlag s' \<noteq> 1" "m' (g_p g + 1) = m (g_p g + 1)" "sysc.more s' = sysc.more s"
  shows "filled A g [] s'"
  using assms ulib_more [OF assms(6)] by (auto simp: filled_def out_ready_def umap_def)

lemma sleep_seconds_ok:
  assumes "filled A g [] s" "n < 10 ^ 9"
  shows "\<exists>s'. sleep_seconds env g (of_nat n) s = Some s' \<and> filled A g [] s' \<and>
    screen s' = fold show_char (10 # str ''After '' @ rev (convert_loop (of_nat n) 10) @ str '' seconds'' @ [10]) (screen s)"
proof -
  let ?fmt = "[CHR 0x0A] @ ''After %d seconds'' @ [CHR 0x0A]" and ?args = "[KInt (scast (of_nat n :: u32))]"
  let ?s = "outb 0x20 0x20 (outb 0xA0 0x20 s)"
  have "ucast (of_nat n :: u64) = (of_nat n :: u32)" using assms(2) by (simp add: unsigned_of_nat take_bit_nat_eq_self)
  then have w: "scast (of_nat n :: u32) = (of_nat n :: u64)" "scast (ucast (of_nat n :: u64) :: u32) = (of_nat n :: u64)"
    using assms(2) scast_small [of n] by simp_all
  have sl: "u_sleep env 162 (of_nat n) s = Some (Ret 0, ?s)" using assms(1) by (intro u_sleep_ok) (simp add: filled_def out_ready_def)
  have F: "filled A g [] ?s"
    using assms(1) wmem_cong [of ?s s A] vload_cong [of ?s s] by (simp add: filled_def out_ready_def outb_def)
  have i: "fmt_items ?fmt ?args = map (Pair False) (10 # str ''After '') @ map (Pair True) (rev (convert_loop (of_nat n) 10)) @
      map (Pair False) (str '' seconds'' @ [10])"
    by (simp add: w)
  then have t: "fmt_text ?fmt ?args = 10 # str ''After '' @ rev (convert_loop (of_nat n) 10) @ str '' seconds'' @ [10]"
    by (simp add: comp_def)
  have "length (convert_loop (of_nat n :: u64) 10) \<le> 9"
    using assms(2) by (intro convert_loop_length) (simp_all add: unat_of_nat)
  then have l: "length (fmt_text ?fmt ?args) < 512" unfolding t by simp
  have "plain_args ?fmt ?args" unfolding plain_args_def i using digit_plain by auto
  from u_printf_ok [OF F this _ _ l, of env] show ?thesis
    using sl unfolding t by (auto simp: sleep_seconds_def w ret_val_def screen_def outb_def)
qed

text \<open>A block that does not meet the memory of the argument.\<close>

lemma one_arg_cong:
  assumes "one_arg (A - H) m argv a cs" "\<And>x. x \<notin> H \<Longrightarrow> m' x = m x"
  shows "one_arg A m' argv a cs"
proof -
  note O = assms(1) [unfolded one_arg_def]
  have "m (a + of_nat i) = m' (a + of_nat i)" if "i \<le> length cs" for i
    using subsetD [OF _ range_memb [of i "Suc (length cs)" a], of "A - H"] O that assms(2) by (simp add: less_Suc_eq_le)
  then have "cstr m' a cs" using O cstr_cong [of m a cs m'] by metis
  moreover have "ldn 8 m' (argv + 8) = ldn 8 m (argv + 8)"
  proof (rule ldn_cong)
    fix x :: u64
    assume "unat (x - (argv + 8)) < 8"
    then have "x \<in> range_of (argv + 8) 8" by (intro image_eqI [of _ _ "unat (x - (argv + 8))"]) simp_all
    then show "m' x = m x" using O assms(2) by blast
  qed simp
  ultimately show ?thesis using O by (auto simp: one_arg_def)
qed

lemma sleep_main_runs:
  assumes "prog_ok A m B s" "filled A g [] s" "range_of B 10 \<subseteq> A" "g_p g + 1 \<notin> range_of B 10"
    and "one_arg (A - range_of B 10) m argv a cs" "cs = rev (convert_loop (of_nat n) 10)" "n < 10 ^ 9"
  shows "\<exists>s'. sleep_main env g argv s = Some (0, s') \<and>
    screen s' = fold show_char (10 # str ''After '' @ cs @ str '' seconds'' @ [10]) (screen s)"
proof -
  let ?m = "poke B (cs @ [0]) m"
  have cl: "length cs \<le> 9" unfolding assms(6) length_rev using assms(7) by (intro convert_loop_length) (simp_all add: unat_of_nat)
  note O = one_arg_cong [OF assms(5)]
  obtain t where t: "sb_malloc env 10 s = Some (Ret B, t)" "prog_ok A m (B + scast (10 :: u32)) t" "outside t = outside s"
    by (rule sb_malloc_prog [OF assms(1)]) (rule that)
  note T = prog_okD(1) [OF t(2)]
  have ot: "one_arg A m argv a cs" by (rule O) simp
  note ot' = ot [unfolded one_arg_def]
  have blk: "str_of B cs \<subseteq> A" using range_inside [of 0 "Suc (length cs)" 10 B] cl assms(3) by auto
  have fw: "fwd_ok B a (length cs + 1)"
  proof (rule ccontr)
    assume "\<not> fwd_ok B a (length cs + 1)"
    then have "unat (B - a) < Suc (length cs)" by (simp add: fwd_ok_def)
    then have "a + of_nat (unat (B - a)) \<in> str_of a cs" by (rule range_memb)
    moreover have "B + of_nat 0 \<in> range_of B 10" by (rule range_memb) simp
    ultimately show False using assms(5) unfolding one_arg_def by auto
  qed
  have "cstr m a cs" "length cs < 2 ^ 64 - 1" "str_of a cs \<subseteq> A" using ot' cl by simp_all
  from u_strcpy_ok [OF T this(1,2) fw this(3) blk]
  obtain u where u: "u_strcpy a B t = Some u" "umap A ?m u" "mem_only t u" by metis
  have eu: "childFlag u = childFlag t" "sysc.more u = sysc.more t" "screen u = screen t"
    by (subst mem_onlyD(1) [OF u(3)], simp add: screen_def)+
  have pk: "?m x = m x" if "x \<notin> range_of B 10" for x
  proof (rule poke_out)
    show "\<not> unat (x - B) < length (cs @ [0])"
      using that cl image_eqI [of x "\<lambda>i. B + of_nat i" "unat (x - B)" "{..<10}"] by auto
  qed
  have ou: "one_arg A ?m argv a cs" by (rule O [OF pk])
  have "cs \<noteq> []" unfolding assms(6) by (subst convert_loop.simps) simp
  then obtain c ds where cs: "cs = c # ds" by (cases cs) auto
  have "B + of_nat 0 \<in> A" using subsetD [OF assms(3) range_memb [of 0 10 B]] by simp
  then have ld: "uload B u = Some (c, u)" using umap_load [OF u(2), of B] poke_in [of 0 "cs @ [0]" B m] cs cl by simp
  have "(ucast (of_nat n :: u64) :: u32) = of_nat n" using assms(7) by (simp add: unsigned_of_nat take_bit_nat_eq_self)
  then have pv: "sleep_digits argv c 1 0 u = Some (of_nat n, u)"
    using sleep_digits_ok [OF ou u(2), of 0 c ds 0] cs digit_value [of "of_nat n"] assms(6) by simp
  have "filled A g [] u"
    using filled_umap [OF assms(2) prog_okD(1) [OF assms(1)] u(2)] pk [OF assms(4)] prog_okD(2) [OF t(2)] eu t(3) by (simp add: outside_def)
  then obtain s' where s': "sleep_seconds env g (of_nat n) u = Some s'"
      "screen s' = fold show_char (10 # str ''After '' @ cs @ str '' seconds'' @ [10]) (screen u)"
    using sleep_seconds_ok [of A g u n env] assms(6,7) by auto
  have "sleep_main env g argv s = Some (0, s')"
    using t(1) one_arg_at [OF ot T] u(1) ld pv s'(1) by (simp add: sleep_main_def ret_val_def)
  then show ?thesis using s'(2) eu(3) t(3) by (simp add: outside_def)
qed

text \<open>C37. \<^verbatim>\<open>sleep\<close> with a decimal number below a thousand million as its argument returns 0 and reports exactly this number of seconds: the
  program parses what its own formatter prints.\<close>

theorem sleep_reports_argument:
  assumes "prog_ok A m B s" "filled A g [] s" "range_of B 10 \<subseteq> A" "g_p g + 1 \<notin> range_of B 10"
    and "one_arg (A - range_of B 10) m argv a cs" "cs = rev (convert_loop (of_nat n) 10)" "n < 10 ^ 9"
  shows "\<exists>s'. sleep_main env g argv s = Some (0, s') \<and>
    screen s' = fold show_char (10 # str ''After '' @ cs @ str '' seconds'' @ [10]) (screen s)"
  using assms by (rule sleep_main_runs)

text \<open>A program with the argument 42: the table of pointers at the start of the page, the string behind it.\<close>

definition prog_glob :: uglob where
  "prog_glob = \<lparr>g_s = 0x400022, g_p = 0x400020, g_buf = 0x400600, g_temp = 0x400a00, g_pwd = 0x400a00, g_temp1 = 0x400a00,
     g_direc = 0x400a00, g_buffer = 0x400200\<rparr>"

definition arg_bytes :: "u8 list" where
  "arg_bytes = replicate 8 0 @ [0x10, 0, 0x40, 0, 0, 0, 0, 0, 52, 50] @ replicate 32 0"

lemma prog_glob_filled:
  assumes "umap page m s" "childFlag s \<noteq> 1" "u_index s = 0" "m 0x400021 = 0"
  shows "filled page prog_glob [] s"
proof -
  have "0x400000 + of_nat 32 \<in> page" "0x400000 + of_nat 33 \<in> page" by (rule range_memb; simp)+
  then have p: "0x400020 \<in> page" "0x400021 \<in> page" by simp_all
  have u: "wmem page s" "\<forall>v \<in> page. vload_byte v s = Some (m v)" using assms(1) unfolding umap_def by blast+
  have "out_ready page prog_glob s" using p u(1) bspec [OF u(2) p(2)] assms(2,4) by (simp add: out_ready_def prog_glob_def)
  moreover have "range_of 0x400200 512 \<subseteq> page - {0x400020, 0x400020 + 1}"
  proof
    fix v :: u64
    assume "v \<in> range_of 0x400200 512"
    then obtain i where i: "i < 512" "v = 0x400000 + of_nat (512 + i)" by (auto simp: algebra_simps)
    have "v \<noteq> 0x400000 + of_nat 32" "v \<noteq> 0x400000 + of_nat 33"
      unfolding i(2) add_left_cancel using of_nat_u64_inj [of "512 + i" 32] of_nat_u64_inj [of "512 + i" 33] i(1) by auto
    moreover have "v \<in> page" unfolding i(2) using i(1) by (intro range_memb) simp
    ultimately show "v \<in> page - {0x400020, 0x400020 + 1}" by simp
  qed
  ultimately show ?thesis using assms(3) by (simp add: filled_def prog_glob_def)
qed

lemma low_range:
  assumes "k + n \<le> j" "j + l \<le> 4096"
  shows "range_of (0x400000 + of_nat k) n \<subseteq> page - range_of (0x400000 + of_nat j) l"
proof (intro subsetI DiffI)
  fix x :: u64
  assume x: "x \<in> range_of (0x400000 + of_nat k) n"
  show "x \<in> page" by (rule subsetD [OF page_sub x]) (use assms in simp)
  show "x \<notin> range_of (0x400000 + of_nat j) l"
  proof
    assume "x \<in> range_of (0x400000 + of_nat j) l"
    then obtain i where i: "x = 0x400000 + of_nat j + of_nat i" "i < l" by (auto simp only: image_iff lessThan_iff)
    obtain h where h: "x = 0x400000 + of_nat k + of_nat h" "h < n" using x by (auto simp only: image_iff lessThan_iff)
    have "of_nat (k + h) = (of_nat (j + i) :: u64)" using i(1) h(1) by (simp add: algebra_simps)
    then show False using of_nat_u64_inj [of "k + h" "j + i"] i(2) h(2) assms by simp
  qed
qed

lemma arg_example:
  obtains m where "prog_ok page m 0x400100 (prog_sys 0x400100 arg_bytes)" "filled page prog_glob [] (prog_sys 0x400100 arg_bytes)"
    "ldn 8 m 0x400008 = 0x400010" "cstr m 0x400010 (str ''42'')"
proof -
  let ?s = "prog_sys 0x400100 arg_bytes"
  obtain m where m: "umap page (poke 0x400000 arg_bytes m) ?s" "childFlag ?s \<noteq> 1" "h_brk ?s = 0x400100" "u_index ?s = 0"
    by (rule prog_sys_facts [of arg_bytes "0x400100"]) (simp_all add: arg_bytes_def)
  let ?m = "poke 0x400000 arg_bytes m"
  have v: "?m (0x400000 + of_nat i) = arg_bytes ! i" if "i < 48" for i using that by (intro poke_in) (simp_all add: arg_bytes_def)
  have "?m 0x400021 = 0" using v [of 33] by (simp add: arg_bytes_def nth_append)
  then have F: "filled page prog_glob [] ?s" using m by (intro prog_glob_filled)
  have "?m 0x400008 = 0x10" "?m 0x400009 = 0" "?m 0x40000a = 0x40" "?m 0x40000b = 0" "?m 0x40000c = 0" "?m 0x40000d = 0"
    "?m 0x40000e = 0" "?m 0x40000f = 0"
    using v [of 8] v [of 9] v [of 10] v [of 11] v [of 12] v [of 13] v [of 14] v [of 15] by (simp_all add: arg_bytes_def nth_append)
  then have "ldn (Suc (Suc (Suc (Suc (Suc (Suc (Suc (Suc 0)))))))) ?m 0x400008 = 0x400010" by simp
  then have "ldn 8 ?m 0x400008 = 0x400010" by (simp only: eval_nat_numeral BitM.simps One_nat_def)
  moreover have "cstr ?m 0x400010 (str ''42'')"
    using v [of 16] v [of 17] v [of 18] by (simp add: cstr_Cons cstr_Nil arg_bytes_def nth_append)
  moreover have "prog_ok page ?m 0x400100 ?s" using m by (simp add: prog_ok_def)
  ultimately show ?thesis using F by (intro that)
qed

theorem sleep_reports_argument_witness:
  "\<exists>s'. sleep_main test_env prog_glob 0x400000 (prog_sys 0x400100 arg_bytes) = Some (0, s') \<and>
     screen s' = fold show_char (10 # str ''After '' @ str ''42'' @ str '' seconds'' @ [10]) (screen (prog_sys 0x400100 arg_bytes))"
proof -
  let ?s = "prog_sys 0x400100 arg_bytes"
  obtain m where m: "prog_ok page m 0x400100 ?s" "filled page prog_glob [] ?s" "ldn 8 m 0x400008 = 0x400010" "cstr m 0x400010 (str ''42'')"
    by (rule arg_example) (rule that)
  have O: "one_arg (page - range_of 0x400100 10) m 0x400000 0x400010 (str ''42'')"
    using m(3,4) low_range [of 8 8 256 10] low_range [of 16 "Suc (Suc (Suc 0))" 256 10] by (simp add: one_arg_def)
  have d: "str ''42'' = rev (convert_loop (of_nat 42) 10)"
    by (subst convert_loop.simps, subst convert_loop.simps) (simp add: digit_char_def)
  have H: "range_of 0x400100 10 \<subseteq> page" using page_sub [of 256 10] by simp
  have g: "g_p prog_glob + 1 \<notin> range_of 0x400100 10" using low_range [of 33 1 256 10] by (simp add: prog_glob_def lessThan_Suc)
  show ?thesis by (rule sleep_reports_argument [OF m(1,2) H g O d]) simp
qed

section \<open>A run of echo\<close>

text \<open>The memory that output writes.\<close>

abbreviation out_mem :: "uglob \<Rightarrow> u64 set" where
  "out_mem g \<equiv> insert (g_p g) (range_of (g_buffer g) 512)"

text \<open>The program's arguments after its name: addresses and strings, which the formatter can print and output does not touch.\<close>

definition args_at :: "u64 set \<Rightarrow> bmem \<Rightarrow> u64 \<Rightarrow> (u64 \<times> u8 list) list \<Rightarrow> bool" where
  "args_at A m argv as \<longleftrightarrow> (\<forall>i < length as. case as ! i of (a, cs) \<Rightarrow>
     range_of (argv + 8 * of_nat (Suc i)) 8 \<subseteq> A \<and> ldn 8 m (argv + 8 * of_nat (Suc i)) = a \<and> a \<noteq> 0 \<and> cstr m a cs \<and> str_of a cs \<subseteq> A \<and>
     set cs \<inter> {10, 13, 37} = {} \<and> length cs < 500)"

lemma uload_str_ok:
  assumes "umap A m s" "cstr m a cs" "str_of a cs \<subseteq> A"
  shows "uload_str a s = Some (cs, s)"
  using assms
proof (induction cs arbitrary: a)
  case Nil
  have "a \<in> A" using subsetD [OF Nil.prems(3) range_memb [of 0]] by simp
  then show ?case using Nil.prems by (subst uload_str.simps) (simp add: cstr_Nil)
next
  case (Cons c cs)
  have "a \<in> A" "str_of (a + 1) cs \<subseteq> A" using Cons.prems(3) range_of_Suc [of a "Suc (length cs)"] by auto
  then show ?case using Cons by (subst uload_str.simps) (simp add: cstr_Cons)
qed

lemma printf_keeps:
  assumes "umap (A - out_mem g) m s" "filled A g [] s'" "\<forall>w \<in> A - range_of (g_buffer g) 512 - {g_p g}. vload_byte w s' = vload_byte w s"
  shows "umap (A - out_mem g) m s'"
proof -
  have "wmem A s'" using assms(2) by (simp add: filled_def out_ready_def)
  then have "wmem (A - out_mem g) s'" by (rule wmem_mono) blast
  then show ?thesis using assms(1,3) unfolding umap_def by auto
qed

definition echo_text :: "u8 list list \<Rightarrow> u8 list" where
  "echo_text css = concat (map (\<lambda>cs. cs @ [32]) css)"

lemma echo_loop_ok:
  assumes "args_at (A - out_mem g) m argv as" "filled A g [] s" "umap (A - out_mem g) m s" "k \<le> length as"
  shows "\<exists>s'. echo_loop env g argv [Suc k..<Suc (length as)] s = Some s' \<and> filled A g [] s' \<and> umap (A - out_mem g) m s' \<and>
    screen s' = fold show_char (echo_text (map snd (drop k as))) (screen s)"
  using assms(2-4)
proof (induction "length as - k" arbitrary: k s)
  case 0
  then show ?case by (auto simp: echo_text_def)
next
  case (Suc d)
  then have k: "k < length as" by simp
  obtain a cs where e: "as ! k = (a, cs)" by force
  have a: "range_of (argv + 8 * of_nat (Suc k)) 8 \<subseteq> A - out_mem g" "ldn 8 m (argv + 8 * of_nat (Suc k)) = a" "a \<noteq> 0"
    "cstr m a cs" "str_of a cs \<subseteq> A - out_mem g" "set cs \<inter> {10, 13, 37} = {}" "length cs < 500"
    using assms(1) [unfolded args_at_def, rule_format, OF k] e by simp_all
  have "arg_at argv (Suc k) s = Some (a, s)" using uloadn_umap [OF Suc.prems(2) a(1)] a(2) by (simp add: arg_at_def del: of_nat_Suc)
  moreover have "str_arg a s = Some (KStr (Some cs), s)" using uload_str_ok [OF Suc.prems(2) a(4,5)] a(3) by (simp add: str_arg_def)
  moreover obtain s1 where s1: "u_printf env g ''%s '' [KStr (Some cs)] s = Some s1" "screen s1 = fold show_char (cs @ [32]) (screen s)"
    "filled A g [] s1" "\<forall>w \<in> A - range_of (g_buffer g) 512 - {g_p g}. vload_byte w s1 = vload_byte w s"
    using u_printf_ok [OF Suc.prems(1), of "''%s ''" "[KStr (Some cs)]" env] a(4,6,7)
    by (auto simp: plain_args_def comp_def cstr_def)
  moreover have m1: "umap (A - out_mem g) m s1" by (rule printf_keeps [OF Suc.prems(2) s1(3,4)])
  moreover obtain s' where "echo_loop env g argv [Suc (Suc k)..<Suc (length as)] s1 = Some s'" "filled A g [] s'" "umap (A - out_mem g) m s'"
    "screen s' = fold show_char (echo_text (map snd (drop (Suc k) as))) (screen s1)"
  proof -
    have "d = length as - Suc k" "Suc k \<le> length as" using Suc.hyps(2) k by arith+
    from Suc.hyps(1) [OF this(1) s1(3) m1 this(2)] show ?thesis using that by blast
  qed
  moreover have "[Suc k..<Suc (length as)] = Suc k # [Suc (Suc k)..<Suc (length as)]" using k by (simp add: upt_conv_Cons)
  moreover have "echo_text (map snd (drop k as)) = cs @ [32] @ echo_text (map snd (drop (Suc k) as))"
    using Cons_nth_drop_Suc [OF k, symmetric] e by (simp add: echo_text_def)
  ultimately show ?case by simp
qed

text \<open>C38. \<^verbatim>\<open>echo\<close> returns 0 and shows the number of its arguments, then each of them followed by a space, in their order.\<close>

theorem echo_shows_arguments:
  assumes "args_at (A - out_mem g) m argv as" "filled A g [] s" "umap (A - out_mem g) m s" "length as < 2 ^ 31 - 1"
  shows "\<exists>s'. echo_main env g (Suc (length as)) argv s = Some (0, s') \<and>
    screen s' = fold show_char (str ''-------------'' @ rev (convert_loop (of_nat (Suc (length as))) 10) @ [10] @ echo_text (map snd as) @ [10]) (screen s)"
proof -
  let ?n = "Suc (length as)" and ?f1 = "''-------------%d'' @ [CHR 0x0A]"
  let ?ds = "rev (convert_loop (of_nat ?n) 10) :: u8 list"
  have w: "scast (ucast (of_nat ?n :: u64) :: u32) = (of_nat ?n :: u64)"
    using assms(4) scast_small [of ?n] by (simp add: unsigned_of_nat take_bit_nat_eq_self del: of_nat_Suc)
  have i: "fmt_items ?f1 [KInt (of_nat ?n)] = map (Pair False) (str ''-------------'') @ map (Pair True) ?ds @ [(False, 10)]"
    by (simp add: w del: of_nat_Suc)
  have t: "fmt_text ?f1 [KInt (of_nat ?n)] = str ''-------------'' @ ?ds @ [10]" unfolding i by (simp add: comp_def)
  have "length ?ds \<le> 10"
    unfolding length_rev using assms(4) by (intro convert_loop_length) (simp_all add: unat_of_nat del: of_nat_Suc)
  then have l: "length (fmt_text ?f1 [KInt (of_nat ?n)]) < 512" unfolding t by simp
  have "plain_args ?f1 [KInt (of_nat ?n)]" unfolding plain_args_def i using digit_plain by auto
  from u_printf_ok [OF assms(2) this _ _ l, of env] obtain s1 where s1: "u_printf env g ?f1 [KInt (of_nat ?n)] s = Some s1"
    "screen s1 = fold show_char (str ''-------------'' @ ?ds @ [10]) (screen s)" "filled A g [] s1"
    "\<forall>w \<in> A - range_of (g_buffer g) 512 - {g_p g}. vload_byte w s1 = vload_byte w s"
    unfolding t by auto
  obtain s2 where s2: "echo_loop env g argv [1..<?n] s1 = Some s2" "filled A g [] s2"
    "screen s2 = fold show_char (echo_text (map snd as)) (screen s1)"
    using echo_loop_ok [OF assms(1) s1(3) printf_keeps [OF assms(3) s1(3,4)], of 0 env] by auto
  obtain s3 where s3: "u_printf env g [CHR 0x0A] [] s2 = Some s3" "screen s3 = fold show_char [10] (screen s2)"
    using u_printf_ok [OF s2(2), of "[CHR 0x0A]" "[]" env] by (auto simp: plain_args_def)
  have "as = [] \<Longrightarrow> s2 = s1" using s2(1) by simp
  then have "echo_main env g ?n argv s = Some (0, s3)"
    using s1(1) s2(1) s3(1) by (auto simp: echo_main_def)
  then show ?thesis using s1(2) s2(3) s3(2) by simp
qed

theorem echo_shows_arguments_witness:
  "\<exists>s'. echo_main test_env prog_glob 2 0x400000 (prog_sys 0x400100 arg_bytes) = Some (0, s') \<and>
     screen s' = fold show_char (str ''-------------2'' @ [10] @ str ''42 '' @ [10]) (screen (prog_sys 0x400100 arg_bytes))"
proof -
  let ?s = "prog_sys 0x400100 arg_bytes" and ?as = "[(0x400010 :: u64, str ''42'')]"
  obtain m where m: "prog_ok page m 0x400100 ?s" "filled page prog_glob [] ?s" "ldn 8 m 0x400008 = 0x400010" "cstr m 0x400010 (str ''42'')"
    by (rule arg_example) (rule that)
  have low: "range_of (0x400000 + of_nat k) n \<subseteq> page - out_mem prog_glob" if "k + n \<le> 32" for k n
    using low_range [of k n 32 1] low_range [of k n 512 512] that by (auto simp: prog_glob_def)
  have "args_at (page - out_mem prog_glob) m 0x400000 ?as"
    using low [of 8 8] low [of 16 "Suc (Suc (Suc 0))"] m(3,4) by (simp add: args_at_def)
  moreover have "umap (page - out_mem prog_glob) m ?s" by (rule umap_sub [OF prog_okD(1) [OF m(1)]]) blast
  moreover have "rev (convert_loop 2 10) = str ''2''" by (subst convert_loop.simps) (simp add: digit_char_def)
  moreover have "length ?as < 2 ^ 31 - 1" by simp
  ultimately show ?thesis
    using echo_shows_arguments [OF _ m(2), of m "0x400000" ?as test_env] unfolding numeral_2_eq_2 by (simp add: echo_text_def)
qed

section \<open>A run of cat\<close>

lemma int80_ret:
  assumes "syscall env a b c d s = Some (Ret v, t)" "childFlag t \<noteq> 1"
  shows "int80 env a b c d s = Some (Ret v, outb 0x20 0x20 (outb 0xA0 0x20 t))"
  using assms by (simp add: int80_def irq_handler2_def)

lemma acknowledged:
  "frames (outb p v s) = frames s" "CR3 (outb p v s) = CR3 s" "childFlag (outb p v t) = childFlag t" "sysc.more (outb p v t) = sysc.more t"
  "root (outb p v r) = root r" "pcbs (outb p v q) = pcbs q" "current (outb p v q) = current q" "screen (outb p v c) = screen c"
  by (simp_all add: outb_def screen_def)

lemma kload_bytes_vload:
  assumes "umem A s" "range_of a n \<subseteq> A" "kload_bytes a n s = Some (bs, s')" "i < n"
  shows "vload_byte (a + of_nat i) s = Some (bs ! i)"
proof -
  let ?bs = "map (\<lambda>i. the (vload_byte (a + of_nat i) s)) [0..<n]"
  have v: "vload_byte (a + of_nat i) s = Some (?bs ! i)" if "i < length ?bs" for i
  proof -
    have "a + of_nat i \<in> A" using subsetD [OF assms(2) range_memb [of i n a]] that by simp
    then show ?thesis using vload_some [OF assms(1)] that by fastforce
  qed
  then have "kload_bytes a (length ?bs) s = Some (?bs, s)" by (rule kload_bytes_ok)
  then have "bs = ?bs" using assms(3) by simp
  then show ?thesis using v [of i] assms(4) by simp
qed

text \<open>The call that opens a file, and the one that reads it, as the program sees them.\<close>

lemma u_open_file:
  assumes "umap A m s" "cstr m a p" "str_of a p \<subseteq> A" "childFlag s \<noteq> 1"
    and "first_node FILE p j s" "first_slot (pcbs s (current s)) n" "n < MAX_FD"
  obtains s' where "u_open env 5 a 0 s = Some (Ret (of_nat n), s')" "umap A m s'" "childFlag s' \<noteq> 1" "sysc.more s' = sysc.more s"
    "screen s' = screen s" "root s' = root s" "fd (pcbs s' (current s')) n = of_nat j"
proof -
  let ?t = "upd_pcb (current s) (set_fd n (of_nat j)) s"
  have "ustring a p s" using cstr_ustring [OF assms(1,3)] assms(2) by simp
  then have "openSyscall a 0 s = Some (of_nat n, ?t)"
    using kload_str_ok [of a p s] open_file_found [OF assms(5,6)] assms(7) by (simp add: openSyscall_def)
  then have "u_open env 5 a 0 s = Some (Ret (of_nat n), outb 0x20 0x20 (outb 0xA0 0x20 ?t))"
    unfolding u_open_def by (intro int80_ret) (simp_all add: syscall_def ret_def upd_pcb_def assms(4))
  moreover have "umap A m ?t" by (rule umap_mem [OF assms(1)]) (simp_all add: upd_pcb_def)
  then have "umap A m (outb 0x20 0x20 (outb 0xA0 0x20 ?t))" by (rule umap_mem) (simp_all add: acknowledged)
  ultimately show ?thesis
    by (rule that) (use assms(4,7) in \<open>simp_all add: acknowledged set_fd_def\<close>, simp_all add: upd_pcb_def screen_def)
qed

lemma u_read_file:
  fixes env :: kenv
  assumes "umap A m s" "childFlag s \<noteq> 1" "fd (pcbs s (current s)) n = of_nat j" "0 < n" "n < MAX_FD" "j < 2 ^ 64"
    and "f_start (root s j) \<noteq> 0" "sint (f_size (root s j)) \<le> 1000" "range_of b 1001 \<subseteq> A"
  defines "bytes \<equiv> map (\<lambda>i. k_tar env (f_start (root s j) + 512 + of_nat i)) [0..<1000]"
  obtains m' s' where "u_read env 3 (of_nat n) b 1000 s = Some (Ret 1001, s')" "umap A m' s'" "childFlag s' \<noteq> 1"
    "sysc.more s' = sysc.more s" "screen s' = screen s" "\<And>i. i < 1001 \<Longrightarrow> m' (b + of_nat i) = (bytes @ [0]) ! i"
    "\<And>w. w \<in> A \<Longrightarrow> w \<notin> range_of b 1001 \<Longrightarrow> m' w = m w"
proof -
  have un: "unat (of_nat n :: u64) = n" "(of_nat n :: u64) \<noteq> 0"
    using assms(4,5) unat_of_nat_eq [of n, where 'a = 64] by (auto simp: unat_eq_zero [symmetric])
  have U: "umem A s" using assms(1) by (auto simp: umap_def dest: wmemD)
  have R: "range_of b (Suc (nat 1000)) \<subseteq> A" using assms(9) by simp
  have F: "unat (of_nat n :: u64) \<le> MAX_FD" "fd_at (pcbs s (current s)) (unat (of_nat n :: u64)) = of_nat j"
    using un assms(3,5) by (simp_all add: fd_at_def)
  have mx: "1000 = max (sint (f_size (root s j))) (sint (1000 :: u64))" using assms(8) by simp
  obtain t where t: "read_file env (of_nat n) b 1000 s = Some (word_of_int 1000 + 1, t)" "mem_only s t"
    "kload_bytes b (Suc (nat 1000)) t = Some (map (\<lambda>i. k_tar env (f_start (root s j) + 512 + of_nat i)) [0..<nat 1000] @ [0], t)"
    "\<And>w. w \<in> A \<Longrightarrow> w \<notin> range_of b (Suc (nat 1000)) \<Longrightarrow> vload_byte w t = vload_byte w s"
    by (rule read_file_ok [OF U R _ _ F assms(6,7) mx, of env]) (simp, simp, rule that)
  define s' where "s' = outb 0x20 0x20 (outb 0xA0 0x20 t)"
  have ct: "childFlag t = childFlag s" "sysc.more t = sysc.more s" "screen t = screen s"
    by (subst mem_onlyD(1) [OF t(2)], simp add: screen_def)+
  have "syscall env 3 (of_nat n) b 1000 s = Some (Ret 1001, t)"
    using t(1) un(2) by (simp add: syscall_def ret_def readSyscall_def)
  then have "u_read env 3 (of_nat n) b 1000 s = Some (Ret 1001, s')"
    unfolding u_read_def s'_def by (rule int80_ret) (simp add: ct assms(2))
  moreover have fr: "frames s' = frames t" "CR3 s' = CR3 t" by (simp_all add: s'_def acknowledged)
  have "wmem A s'" using mem_only_wmem [OF t(2), of A] assms(1) wmem_cong [OF fr, of A] by (simp add: umap_def)
  then have um: "umap A (\<lambda>v. the (vload_byte v s')) s'" by (rule umap_ex)
  moreover have "the (vload_byte (b + of_nat i) s') = (bytes @ [0]) ! i" if "i < 1001" for i
  proof -
    have "umem A t" using mem_only_umem [OF t(2)] U by simp
    from kload_bytes_vload [OF this R t(3), of i] that show ?thesis by (simp add: vload_cong [OF fr] bytes_def)
  qed
  moreover have "the (vload_byte w s') = m w" if "w \<in> A" "w \<notin> range_of b 1001" for w
    using t(4) [of w] that assms(1) by (simp add: vload_cong [OF fr] umap_def)
  ultimately show ?thesis
    by (intro that [of s' "\<lambda>v. the (vload_byte v s')"]) (simp_all add: s'_def acknowledged ct assms(2))
qed

text \<open>A program that has a path, room for a copy of it, and the buffer for the contents, apart from the output buffer.\<close>

definition cat_ready :: "u64 set \<Rightarrow> uglob \<Rightarrow> bmem \<Rightarrow> u64 \<Rightarrow> u8 list \<Rightarrow> 'a sysc_scheme \<Rightarrow> bool" where
  "cat_ready A g m a p s \<longleftrightarrow> umap A m s \<and> out_ready A g s \<and> cstr m a p \<and> str_of a p \<subseteq> A \<and>
     str_of (g_temp g) p \<subseteq> A - {g_p g + 1} \<and> fwd_ok (g_temp g) a (length p + 1) \<and> length p < 2 ^ 64 - 1 \<and>
     range_of (g_buf g) 1001 \<subseteq> A - {g_p g, g_p g + 1}"

text \<open>The index has the file, and a descriptor is free.\<close>

definition file_ready :: "kenv \<Rightarrow> u8 list \<Rightarrow> nat \<Rightarrow> nat \<Rightarrow> u8 list \<Rightarrow> 'a sysc_scheme \<Rightarrow> bool" where
  "file_ready env p j n cs s \<longleftrightarrow> first_node FILE p j s \<and> j < 2 ^ 64 \<and> first_slot (pcbs s (current s)) n \<and> n < MAX_FD \<and>
     f_start (root s j) \<noteq> 0 \<and> sint (f_size (root s j)) \<le> 1000 \<and> cstr (k_tar env) (f_start (root s j) + 512) cs \<and> length cs \<le> 1000"

lemma file_ready_mem: "mem_only s s' \<Longrightarrow> file_ready env p j n cs s \<Longrightarrow> file_ready env p j n cs s'"
proof -
  assume m: "mem_only s s'" and f: "file_ready env p j n cs s"
  have "root s' = root s" "t_index s' = t_index s" "pcbs s' = pcbs s" "current s' = current s"
    by (subst mem_onlyD(1) [OF m], simp)+
  then show ?thesis using f by (simp add: file_ready_def first_node_def)
qed

lemma cat_file_ok:
  assumes "cat_ready A g m a p s" "file_ready env p j n cs s" "cs \<noteq> []" "37 \<notin> set cs"
  shows "\<exists>s'. cat_file env g a s = Some s' \<and> screen s' = fold show_char cs (screen s)"
proof -
  note C = assms(1) [unfolded cat_ready_def]
  note R = C [THEN conjunct2, THEN conjunct1, unfolded out_ready_def]
  let ?m = "poke (g_temp g) (p @ [0]) m" and ?b = "g_buf g"
  have c: "umap A m s" "cstr m a p" "length p < 2 ^ 64 - 1" "fwd_ok (g_temp g) a (length p + 1)" "str_of a p \<subseteq> A" "str_of (g_temp g) p \<subseteq> A"
    "g_p g + 1 \<notin> str_of (g_temp g) p" "range_of ?b 1001 \<subseteq> A" "range_of ?b 1001 \<subseteq> A - {g_p g}" "g_p g + 1 \<notin> range_of ?b 1001"
    using C by auto
  from u_strcpy_ok [OF c(1-6)] obtain s1 where s1: "u_strcpy a (g_temp g) s = Some s1" "umap A ?m s1" "mem_only s s1" by metis
  have e1: "childFlag s1 \<noteq> 1" "screen s1 = screen s" using R by (subst mem_onlyD(1) [OF s1(3)], simp add: screen_def)+
  note F = file_ready_mem [OF s1(3) assms(2), unfolded file_ready_def]
  have p: "cstr ?m (g_temp g) p" using c(2,3) by (intro poke_cstr) (simp_all add: cstr_def)
  obtain s2 where s2: "u_open env 5 (g_temp g) 0 s1 = Some (Ret (of_nat n), s2)" "umap A ?m s2" "childFlag s2 \<noteq> 1"
      "sysc.more s2 = sysc.more s1" "screen s2 = screen s1" "root s2 = root s1" "fd (pcbs s2 (current s2)) n = of_nat j"
    by (rule u_open_file [OF s1(2) p c(6) e1(1), of j n env]) (use F in \<open>auto intro: that\<close>)
  have n: "0 < n" "n < MAX_FD" "j < 2 ^ 64" "f_start (root s2 j) \<noteq> 0" "sint (f_size (root s2 j)) \<le> 1000"
    "cstr (k_tar env) (f_start (root s2 j) + 512) cs" "length cs \<le> 1000"
    using F s2(6) by (simp_all add: first_slot_def)
  obtain m3 s3 where s3: "u_read env 3 (of_nat n) ?b 1000 s2 = Some (Ret 1001, s3)" "umap A m3 s3" "childFlag s3 \<noteq> 1"
      "sysc.more s3 = sysc.more s2" "screen s3 = screen s2"
      "\<And>i. i < 1001 \<Longrightarrow> m3 (?b + of_nat i) = (map (\<lambda>i. k_tar env (f_start (root s2 j) + 512 + of_nat i)) [0..<1000] @ [0]) ! i"
      "\<And>w. w \<in> A \<Longrightarrow> w \<notin> range_of ?b 1001 \<Longrightarrow> m3 w = ?m w"
    by (rule u_read_file [OF s2(2,3,7) n(1-5) c(8), of env]) (rule that)
  have "m3 (?b + of_nat i) = (cs @ [0]) ! i" if "i \<le> length cs" for i
    using s3(6) [of i] that n(7) cstr_at [OF n(6) that] by (cases "i = 1000") (simp_all add: nth_append)
  then have b: "cstr m3 ?b cs" using n(6) by (auto simp: cstr_def nth_append)
  have rb: "str_of ?b cs \<subseteq> A - {g_p g}" using range_inside [of 0 "Suc (length cs)" 1001 ?b] n(7) c(9) by auto
  then have "out_string A g ?b cs s3" using cstr_ustring [OF s3(2), of ?b cs] b by (auto simp: out_string_def)
  moreover have "m3 (g_p g + 1) = m (g_p g + 1)"
  proof -
    have "g_p g + 1 \<in> A" using R by simp
    then have "m3 (g_p g + 1) = ?m (g_p g + 1)" by (rule s3(7)) (rule c(10))
    also have "\<dots> = m (g_p g + 1)"
      using c(7) range_memb [of "unat (g_p g + 1 - g_temp g)" "Suc (length p)" "g_temp g"] by (intro poke_out) auto
    finally show ?thesis .
  qed
  then have "out_ready A g s3" using R c(1) s3(2,3) by (auto simp: out_ready_def umap_def)
  ultimately obtain s' where s': "put_s env g ?b s3 = Some s'" "screen s' = fold show_char cs (screen s3)"
    using put_s_ok assms(3,4) by blast
  have "(ucast (of_nat n :: u64) :: u32) = of_nat n" using n(2) by (simp add: unsigned_of_nat take_bit_nat_eq_self)
  moreover have "(of_nat n :: u32) \<noteq> - 1"
  proof
    assume "(of_nat n :: u32) = - 1"
    then have "of_nat (n + 1) = (0 :: u32)" by simp
    then have "unat (of_nat (n + 1) :: u32) = 0" by simp
    then show False using n(2) unat_of_nat_eq [of "n + 1", where 'a = 32] by simp
  qed
  moreover have "scast (of_nat n :: u32) = (of_nat n :: u64)" using n(2) by (intro scast_small) simp
  ultimately have "cat_file env g a s = Some s'"
    using s1(1) s2(1) s3(1) s'(1) by (simp add: cat_file_def ret_val_def)
  then show ?thesis using s'(2) s3(5) s2(5) e1(2) by simp
qed

text \<open>C39. \<^verbatim>\<open>cat\<close> of one file of the archive, no longer than its buffer, returns 0 and shows the text of the file up to the first zero byte: the
  path goes through the library's copy to the kernel, the descriptor back to the program, and the contents through the
  buffer to the screen.\<close>

theorem cat_shows_file:
  assumes "cat_ready A g m a p s" "file_ready env p j n cs s" "cs \<noteq> []" "37 \<notin> set cs" "range_of (argv + 8) 8 \<subseteq> A" "ldn 8 m (argv + 8) = a"
  shows "\<exists>s'. cat_main env g lit 2 argv s = Some (0, s') \<and> screen s' = fold show_char cs (screen s)"
proof -
  have "arg_at argv 1 s = Some (a, s)"
    using uloadn_umap [of A m s "argv + 8" 8] assms(1,5,6) by (simp add: arg_at_def cat_ready_def)
  moreover have "[1..<2] = [1]" by (simp add: upt_rec)
  ultimately show ?thesis using cat_file_ok [OF assms(1-4)] by (auto simp: cat_main_def)
qed

text \<open>The example program with a path as its argument, and the archive with one file.\<close>

definition cat_bytes :: "u8 list" where
  "cat_bytes = replicate 8 0 @ [0x10, 0, 0x40, 0, 0, 0, 0, 0] @ str ''bin/a.txt'' @ replicate 32 0"

definition cat_sys :: uheap where
  "cat_sys = (prog_sys 0x400100 cat_bytes)
     \<lparr>root := (\<lambda>_. \<lparr>f_name = [], f_size = 0, f_typeflag = 0, f_start = 0, f_parent = 0\<rparr>)
        (1 := \<lparr>f_name = str ''bin/a.txt'', f_size = 3, f_typeflag = FILE, f_start = 0x1000, f_parent = 0\<rparr>), t_index := 2\<rparr>"

lemma prog_sys_pcbs:
  assumes "length bs \<le> 4096"
  shows "pcbs (prog_sys b bs) = pcbs cow_proc" "current (prog_sys b bs) = current cow_proc"
proof -
  have W: "wmem page heap_sys" using str_sys_ready wmem_cong [of heap_sys "str_sys [120]" page] by (simp add: out_ready_def)
  have sub: "range_of 0x400000 (length bs) \<subseteq> page" using assms by (intro image_mono) auto
  obtain s where s: "ustore_bytes 0x400000 bs heap_sys = Some s" "mem_only heap_sys s"
    using ustore_bytes_umap [OF umap_ex [OF W] sub] assms by auto
  have "pcbs heap_sys = pcbs cow_proc" "current heap_sys = current cow_proc"
    using str_sys_facts [of "[120]"] by (simp_all add: heap_sys_def lib_sys_def upd_mm_def ulib.extend_def sysc.extend_def)
  moreover have "pcbs s = pcbs heap_sys" "current s = current heap_sys" by (subst mem_onlyD(1) [OF s(2)], simp)+
  ultimately show "pcbs (prog_sys b bs) = pcbs cow_proc" "current (prog_sys b bs) = current cow_proc"
    by (simp_all add: prog_sys_def s(1) upd_mm_def)
qed

lemma cat_sys_file: "file_ready test_env (str ''bin/a.txt'') 1 3 [104, 105] cat_sys"
proof -
  have "length cat_bytes \<le> 4096" by (simp add: cat_bytes_def)
  from prog_sys_pcbs [OF this] have "pcbs cat_sys (current cat_sys) = pcbs file_sys (current file_sys)"
    by (simp add: cat_sys_def file_sys_facts)
  then have "first_slot (pcbs cat_sys (current cat_sys)) 3" by (simp add: first_slot_def file_sys_open)
  moreover have "first_node FILE (str ''bin/a.txt'') 1 cat_sys" by (auto simp: first_node_def cat_sys_def)
  moreover have "cstr (k_tar test_env) 0x1200 [104, 105]" by (simp add: cstr_Cons cstr_Nil test_env_def)
  ultimately show ?thesis by (simp add: file_ready_def cat_sys_def)
qed

theorem cat_shows_file_witness:
  "\<exists>s'. cat_main test_env prog_glob (\<lambda>_. 0) 2 0x400000 cat_sys = Some (0, s') \<and> screen s' = fold show_char (str ''hi'') (screen cat_sys)"
proof -
  let ?s = "prog_sys 0x400100 cat_bytes"
  obtain m where m: "umap page (poke 0x400000 cat_bytes m) ?s" "childFlag ?s \<noteq> 1" "u_index ?s = 0"
    by (rule prog_sys_facts [of cat_bytes "0x400100"]) (simp_all add: cat_bytes_def)
  let ?m = "poke 0x400000 cat_bytes m"
  have v: "?m (0x400000 + of_nat i) = cat_bytes ! i" if "i < 57" for i using that by (intro poke_in) (simp_all add: cat_bytes_def)
  have u: "umap page ?m cat_sys" by (rule umap_mem [OF m(1)]) (simp_all add: cat_sys_def)
  have "?m 0x400021 = 0" using v [of 33] by (simp add: cat_bytes_def nth_append)
  then have "filled page prog_glob [] cat_sys" using m(2,3) by (intro prog_glob_filled [OF u]) (simp_all add: cat_sys_def)
  then have R: "out_ready page prog_glob cat_sys" by (simp add: filled_def)
  have "?m 0x400008 = 0x10" "?m 0x400009 = 0" "?m 0x40000a = 0x40" "?m 0x40000b = 0" "?m 0x40000c = 0" "?m 0x40000d = 0"
    "?m 0x40000e = 0" "?m 0x40000f = 0"
    using v [of 8] v [of 9] v [of 10] v [of 11] v [of 12] v [of 13] v [of 14] v [of 15] by (simp_all add: cat_bytes_def nth_append)
  then have "ldn (Suc (Suc (Suc (Suc (Suc (Suc (Suc (Suc 0)))))))) ?m 0x400008 = 0x400010" by simp
  then have l: "ldn 8 ?m (0x400000 + 8) = 0x400010" by (simp only: eval_nat_numeral BitM.simps One_nat_def) simp
  have c: "cstr ?m 0x400010 (str ''bin/a.txt'')"
    using v [of 16] v [of 17] v [of 18] v [of 19] v [of 20] v [of 21] v [of 22] v [of 23] v [of 24] v [of 25]
    by (simp add: cstr_Cons cstr_Nil cat_bytes_def nth_append)
  have two: "range_of (0x400000 + of_nat 32) 2 = ({0x400020, 0x400021} :: u64 set)"
    by (simp add: numeral_2_eq_2 range_of_Suc lessThan_Suc insert_commute)
  have hi: "range_of (0x400000 + of_nat j) n \<subseteq> page - {0x400020, 0x400021}" if "34 \<le> j" "j + n \<le> 4096" for j n
    using low_range [of 32 2 j n] page_sub [of j n] that unfolding two by auto
  have "cat_ready page prog_glob ?m 0x400010 (str ''bin/a.txt'') cat_sys"
    unfolding cat_ready_def
  proof (intro conjI)
    show "str_of 0x400010 (str ''bin/a.txt'') \<subseteq> page" using page_sub [of 16 "Suc (length (str ''bin/a.txt''))"] by simp
    show "str_of (g_temp prog_glob) (str ''bin/a.txt'') \<subseteq> page - {g_p prog_glob + 1}"
      using hi [of 2560 "Suc (length (str ''bin/a.txt''))"] by (auto simp: prog_glob_def)
    show "range_of (g_buf prog_glob) 1001 \<subseteq> page - {g_p prog_glob, g_p prog_glob + 1}"
      using hi [of 1536 1001] by (simp add: prog_glob_def)
  qed (use u R c in \<open>simp_all add: fwd_ok_def prog_glob_def\<close>)
  moreover have "range_of (0x400000 + 8) 8 \<subseteq> page" using page_sub [of 8 8] by simp
  ultimately show ?thesis
    using cat_shows_file [where lit = "\<lambda>_. 0", OF _ cat_sys_file _ _ _ l] by simp
qed

end
