(* ===== verification/Cd.thy ===== *)
theory Cd
  imports Programs
begin

text \<open>
  The command \<^verbatim>\<open>cd\<close> of the user library (\<^verbatim>\<open>src/libc/cd.c\<close>): its loops, its three branches and the
  whole function over user memory.  The lemmas lead to \<open>cd_loop_back\<close>: on the path \<^verbatim>\<open>name/..\<close> the loop returns after two
  rounds, calls of \<^verbatim>\<open>split\<close> included, and gives the working directory back.
\<close>

section \<open>The command cd\<close>

text \<open>The result of \<^verbatim>\<open>sb_malloc\<close>, which always returns.\<close>

definition u_alloc :: "kenv \<Rightarrow> u32 \<Rightarrow> 'a sysc_scheme \<Rightarrow> (u64 \<times> 'a sysc_scheme) option" where
  "u_alloc env n s = do {
     (r, s) \<leftarrow> sb_malloc env n s;
     a \<leftarrow> ret_val r;
     Some (a, s)
   }"

text \<open>The loop that removes the last component; its value is \<^verbatim>\<open>i\<close>.\<close>

partial_function (option) cd_up :: "u64 \<Rightarrow> u64 \<Rightarrow> nat \<Rightarrow> nat \<Rightarrow> 'a proc_scheme \<Rightarrow> (nat \<times> 'a proc_scheme) option" where
  "cd_up tempbuf newpath buflen i s =
     Option.bind (uload (tempbuf + (of_nat buflen - of_nat i)) s) (\<lambda>(c, s).
       if c \<noteq> slash
       then Option.bind (ustore (newpath + (of_nat buflen - of_nat i)) 0 s) (\<lambda>s. cd_up tempbuf newpath buflen (i + 1) s)
       else Some (i, s))"

text \<open>The loop that copies an absolute path without its slash.\<close>

fun cd_shift :: "u64 \<Rightarrow> u64 \<Rightarrow> nat list \<Rightarrow> 'a proc_scheme \<Rightarrow> 'a proc_scheme option" where
  "cd_shift path tempbuf [] s = Some s"
| "cd_shift path tempbuf (q # qs) s = do {
     (c, s) \<leftarrow> uload (path + of_nat q) s;
     s \<leftarrow> ustore (tempbuf + of_nat q - 1) c s;
     cd_shift path tempbuf qs s
   }"

text \<open>The loop that appends a component; its value is \<^verbatim>\<open>i\<close>.\<close>

partial_function (option) cd_append :: "u64 \<Rightarrow> u64 \<Rightarrow> nat \<Rightarrow> nat \<Rightarrow> 'a proc_scheme \<Rightarrow> (nat \<times> 'a proc_scheme) option" where
  "cd_append newpath token buflen i s =
     Option.bind (u_strlen token s) (\<lambda>(n, s).
       if i < n + buflen + 1
       then Option.bind (uload (token + of_nat (i - buflen - 1)) s) (\<lambda>(c, s).
         Option.bind (ustore (newpath + of_nat i) c s) (\<lambda>s. cd_append newpath token buflen (i + 1) s))
       else Some (i, s))"

text \<open>The three branches of the loop's body; the absolute one ends the loop.\<close>

definition cd_dotdot :: "u64 \<Rightarrow> nat \<Rightarrow> 'a proc_scheme \<Rightarrow> 'a proc_scheme option" where
  "cd_dotdot tempbuf buflen s = do {
     let newpath = tempbuf;
     (i, s) \<leftarrow> cd_up tempbuf newpath buflen 1 s;
     s \<leftarrow> ustore (newpath + (of_nat buflen - of_nat i)) 0 s;
     (n, s) \<leftarrow> u_strlen newpath s;
     if n = 0 then ustore newpath slash s else Some s
   }"

definition cd_absolute :: "u64 \<Rightarrow> u64 \<Rightarrow> u64 \<Rightarrow> 'a proc_scheme \<Rightarrow> 'a proc_scheme option" where
  "cd_absolute path tempbuf token s = do {
     let newpath = token;
     (n, s) \<leftarrow> u_strlen token s;
     s \<leftarrow> ustore (newpath + of_nat n) 0 s;
     (len, s) \<leftarrow> u_strlen path s;
     s \<leftarrow> cd_shift path tempbuf [1..<len] s;
     s \<leftarrow> ustore (tempbuf + of_nat (max 1 len) - 1) 0 s;
     (n, s) \<leftarrow> u_strlen tempbuf s;
     if n = 0 then Option.bind (ustore tempbuf slash s) (ustore (tempbuf + 1) 0) else Some s
   }"

definition cd_relative ::
  "kenv \<Rightarrow> (string \<Rightarrow> u64) \<Rightarrow> u64 \<Rightarrow> u64 \<Rightarrow> nat \<Rightarrow> nat \<Rightarrow> u64 \<Rightarrow> 'a sysc_scheme \<Rightarrow> (nat \<times> u64 \<times> 'a sysc_scheme) option" where
  "cd_relative env lit path newpath buflen j token s = do {
     (r, s) \<leftarrow> u_strcmp token (lit ''.'') 0 s;
     (j, token, s) \<leftarrow> (if r = 0 then map_option (Pair (j + 1)) (u_split env lit (j + 1) path slash s) else Some (j, token, s));
     s \<leftarrow> ustore (newpath + of_nat buflen) slash s;
     (i, s) \<leftarrow> cd_append newpath token buflen (buflen + 1) s;
     s \<leftarrow> ustore (newpath + of_nat i) 0 s;
     Some (j, token, s)
   }"

text \<open>The end of the body: whether the loop ends there, and the new length.\<close>

definition cd_settle :: "u64 \<Rightarrow> u64 \<Rightarrow> u64 \<Rightarrow> 'a proc_scheme \<Rightarrow> (bool \<times> nat \<times> 'a proc_scheme) option" where
  "cd_settle path newpath tempbuf s = do {
     s \<leftarrow> u_strcpy newpath tempbuf s;
     (buflen, s) \<leftarrow> u_strlen tempbuf s;
     (n, s) \<leftarrow> u_strlen path s;
     (c, s) \<leftarrow> uload (path + of_nat n - 1) s;
     if c = slash
     then do {
       (n, s) \<leftarrow> u_strlen path s;
       (c, s) \<leftarrow> uload (path + of_nat n - 2) s;
       Some (c = slash, buflen, s)
     }
     else Some (False, buflen, s)
   }"

definition cd_body ::
  "kenv \<Rightarrow> (string \<Rightarrow> u64) \<Rightarrow> u64 \<Rightarrow> u64 \<Rightarrow> u64 \<Rightarrow> nat \<Rightarrow> nat \<Rightarrow> u64 \<Rightarrow> 'a sysc_scheme \<Rightarrow> (bool \<times> u64 \<times> nat \<times> nat \<times> 'a sysc_scheme) option"
where
  "cd_body env lit path tempbuf newpath buflen j token s = do {
     (r, s) \<leftarrow> u_strcmp token (lit ''..'') 0 s;
     if r = 0
     then do {
       s \<leftarrow> cd_dotdot tempbuf buflen s;
       (stop, buflen, s) \<leftarrow> cd_settle path tempbuf tempbuf s;
       Some (stop, tempbuf, buflen, j, s)
     }
     else do {
       (c, s) \<leftarrow> uload path s;
       if c = slash
       then do {
         s \<leftarrow> cd_absolute path tempbuf token s;
         Some (True, token, buflen, j, s)
       }
       else do {
         (j, token, s) \<leftarrow> cd_relative env lit path newpath buflen j token s;
         (stop, buflen, s) \<leftarrow> cd_settle path newpath tempbuf s;
         Some (stop, newpath, buflen, j, s)
       }
     }
   }"

partial_function (option) cd_loop ::
  "kenv \<Rightarrow> (string \<Rightarrow> u64) \<Rightarrow> u64 \<Rightarrow> u64 \<Rightarrow> u64 \<Rightarrow> nat \<Rightarrow> nat \<Rightarrow> u64 \<Rightarrow> 'a sysc_scheme \<Rightarrow> 'a sysc_scheme option" where
  "cd_loop env lit path tempbuf newpath buflen j token s =
     (if token = 0 then Some s
      else Option.bind (cd_body env lit path tempbuf newpath buflen j token s) (\<lambda>(stop, newpath, buflen, j, s).
        if stop then Some s
        else Option.bind (u_split env lit (j + 1) path slash s) (\<lambda>(token, s).
          cd_loop env lit path tempbuf newpath buflen (j + 1) token s)))"

definition lib_cd :: "kenv \<Rightarrow> (string \<Rightarrow> u64) \<Rightarrow> u64 \<Rightarrow> u64 \<Rightarrow> 'a sysc_scheme \<Rightarrow> (u64 \<times> 'a sysc_scheme) option" where
  "lib_cd env lit b path s = do {
     (n, s) \<leftarrow> u_strlen b s;
     (c, s) \<leftarrow> uload (b + of_nat n - 1) s;
     s \<leftarrow> (if c = slash then Option.bind (u_strlen b s) (\<lambda>(n, s). ustore (b + of_nat n - 1) 0 s) else Some s);
     (c, s) \<leftarrow> uload b s;
     s \<leftarrow> (if c \<noteq> slash
          then do {
            (temp, s) \<leftarrow> u_alloc env 20 s;
            let temp1 = temp + 1;
            s \<leftarrow> u_strcpy b temp1 s;
            s \<leftarrow> ustore temp slash s;
            u_strcpy temp b s
          }
          else Some s);
     (r, s) \<leftarrow> u_strcmp b (lit ''//'') 0 s;
     s \<leftarrow> (if r = 0 then ustore (b + 1) 0 s else Some s);
     (tempbuf, s) \<leftarrow> u_alloc env (20 * 8) s;
     s \<leftarrow> u_strcpy b tempbuf s;
     let newpath = tempbuf;
     (buflen, s) \<leftarrow> u_strlen b s;
     (token, s) \<leftarrow> u_split env lit 1 path slash s;
     s \<leftarrow> cd_loop env lit path tempbuf newpath buflen 1 token s;
     Some (tempbuf, s)
   }"

section \<open>Strings that grow and shrink\<close>

text \<open>A terminator stored inside a string cuts it there.\<close>

lemma cstr_cut:
  assumes "cstr m a (xs @ ys)" "length (xs @ ys) < 2 ^ 63"
  shows "cstr (m(a + of_nat (length xs) := 0)) a xs"
proof -
  have "(m(a + of_nat (length xs) := 0)) (a + of_nat i) = xs ! i" if i: "i < length xs" for i
  proof -
    have "(of_nat i :: u64) \<noteq> of_nat (length xs)" using of_nat_u64_inj [of i "length xs"] i assms(2) by auto
    then show ?thesis using cstr_nth [OF assms(1), of i] i by (simp add: nth_append)
  qed
  then show ?thesis using assms(1) by (simp add: cstr_def)
qed

text \<open>A string among bytes that have just been written.\<close>

lemma poke_cstr_at:
  assumes "take (Suc (length cs)) (drop k bs) = cs @ [0]" "0 \<notin> set cs" "length bs < 4096"
  shows "cstr (poke a bs m) (a + of_nat k) cs"
proof -
  have "length (take (Suc (length cs)) (drop k bs)) = Suc (length cs)" unfolding assms(1) by simp
  then have l: "k + Suc (length cs) \<le> length bs" by simp
  have "poke a bs m (a + of_nat k + of_nat i) = (cs @ [0]) ! i" if i: "i \<le> length cs" for i
  proof -
    have "poke a bs m (a + of_nat (k + i)) = bs ! (k + i)" using l i assms(3) by (intro poke_in) simp_all
    also have "\<dots> = take (Suc (length cs)) (drop k bs) ! i" using l i by simp
    finally show ?thesis unfolding assms(1) by (simp add: add.assoc)
  qed
  then show ?thesis using assms(2) by (auto simp: cstr_def nth_append)
qed

text \<open>Characters and a terminator written behind a string extend it.\<close>

lemma poke_snoc:
  assumes "length bs < 2 ^ 64 - 1"
  shows "(poke a bs m)(a + of_nat (length bs) := b) = poke a (bs @ [b]) m"
  using assms
proof (induction bs arbitrary: a m)
  case Nil
  then show ?case by (simp add: poke_Cons)
next
  case (Cons c bs)
  have "(poke a (c # bs) m)(a + of_nat (length (c # bs)) := b) = (poke (a + 1) bs (m(a := c)))(a + 1 + of_nat (length bs) := b)"
    using poke_Cons [of bs a c m] Cons.prems by (simp add: add.assoc del: fun_upd_apply)
  also have "\<dots> = poke (a + 1) (bs @ [b]) (m(a := c))" by (rule Cons.IH) (use Cons.prems in simp)
  also have "\<dots> = poke a ((c # bs) @ [b]) m" using poke_Cons [of "bs @ [b]" a c m] Cons.prems by simp
  finally show ?case .
qed

lemma cstr_extend:
  assumes "cstr m a xs" "0 \<notin> set ys" "length (xs @ ys) < 2 ^ 63"
  shows "cstr (poke (a + of_nat (length xs)) (ys @ [0]) m) a (xs @ ys)"
proof -
  let ?m = "poke (a + of_nat (length xs)) (ys @ [0]) m"
  have l: "?m (a + of_nat i) = xs ! i" if i: "i < length xs" for i
  proof -
    let ?k = "unat (a + of_nat i - (a + of_nat (length xs)))"
    have "(of_nat i :: u64) = of_nat (length xs + ?k)" by simp
    then have "\<not> ?k < length (ys @ [0])" using of_nat_u64_inj [of i "length xs + ?k"] i assms(3) by auto
    then show ?thesis using poke_out [of "a + of_nat i"] cstr_nth [OF assms(1) i] by simp
  qed
  have r: "?m (a + of_nat (length xs) + of_nat k) = (ys @ [0]) ! k" if "k \<le> length ys" for k
    using that assms(3) by (intro poke_in) simp_all
  have "?m (a + of_nat i) = (xs @ ys) ! i" if "i < length (xs @ ys)" for i
  proof (cases "i < length xs")
    case False
    then have e: "a + of_nat i = a + of_nat (length xs) + of_nat (i - length xs)" by simp
    have "?m (a + of_nat i) = (ys @ [0]) ! (i - length xs)" unfolding e by (rule r) (use that in simp)
    moreover have "i - length xs < length ys" using that False by (simp add: less_diff_conv2)
    ultimately show ?thesis using False by (simp add: nth_append)
  qed (simp add: l nth_append)
  moreover have "?m (a + of_nat (length (xs @ ys))) = 0" using r [of "length ys"] by (simp add: add.assoc)
  ultimately show ?thesis using assms(1,2) by (simp add: cstr_def)
qed

section \<open>Down and up\<close>

text \<open>Removing the last component of a path, byte by byte.\<close>

lemma cd_up_ok:
  assumes "umap A m s" "cstr m T (p @ slash # cs)" "str_of T (p @ slash # cs) \<subseteq> A" "slash \<notin> set cs"
    and "buflen + 1 = length (p @ slash # cs) + i" "length (p @ slash # cs) < 2 ^ 63"
  shows "\<exists>m' s'. cd_up T T buflen i s = Some (i + length cs, s') \<and> umap A m' s' \<and> mem_only s s' \<and> cstr m' T (p @ [slash]) \<and>
    (\<forall>x. x \<notin> str_of T (p @ slash # cs) \<longrightarrow> m' x = m x)"
  using assms
proof (induction cs arbitrary: m s i rule: rev_induct)
  case Nil
  have b: "(of_nat buflen :: u64) - of_nat i = of_nat (length p)"
    using arg_cong [OF Nil.prems(5), of "of_nat :: nat \<Rightarrow> u64"] by (simp add: algebra_simps)
  have "uload (T + of_nat (length p)) s = Some (slash, s)"
    using umap_load [OF Nil.prems(1), of "T + of_nat (length p)"] subsetD [OF Nil.prems(3) range_memb [of "length p"]]
      cstr_nth [OF Nil.prems(2), of "length p"] by simp
  then show ?case using Nil.prems(1,2) b by (subst cd_up.simps) auto
next
  case (snoc c cs)
  let ?w = "p @ slash # cs" and ?n = "length (p @ slash # cs)"
  have b: "(of_nat buflen :: u64) - of_nat i = of_nat ?n"
    using arg_cong [OF snoc.prems(5), of "of_nat :: nat \<Rightarrow> u64"] by (simp add: algebra_simps)
  have inA: "T + of_nat ?n \<in> A" by (rule subsetD [OF snoc.prems(3) range_memb]) simp
  have inT: "T + of_nat ?n \<in> str_of T (?w @ [c])" by (rule range_memb) simp
  have "m (T + of_nat ?n) = c" using cstr_nth [OF snoc.prems(2), of ?n] by (simp add: nth_append)
  then have ld: "uload (T + of_nat ?n) s = Some (c, s)" using umap_load [OF snoc.prems(1) inA] by simp
  obtain t where t: "ustore (T + of_nat ?n) 0 s = Some t" "umap A (m(T + of_nat ?n := 0)) t" "mem_only s t"
    by (rule umap_store [OF snoc.prems(1) inA]) (rule that)
  have c: "cstr (m(T + of_nat ?n := 0)) T ?w" using snoc.prems(2,6) by (intro cstr_cut [where ys = "[c]"]) simp_all
  have sub: "str_of T ?w \<subseteq> str_of T (?w @ [c])" by (intro image_mono) auto
  have A: "str_of T ?w \<subseteq> A" using sub snoc.prems(3) by simp
  obtain m' s' where s': "cd_up T T buflen (i + 1) t = Some (i + 1 + length cs, s')" "umap A m' s'" "mem_only t s'" "cstr m' T (p @ [slash])"
    and fr: "\<forall>x. x \<notin> str_of T ?w \<longrightarrow> m' x = (m(T + of_nat ?n := 0)) x"
    using snoc.IH [OF t(2) c A, of "i + 1"] snoc.prems(4-6) by auto
  have "m' x = m x" if x: "x \<notin> str_of T (?w @ [c])" for x
  proof -
    have "m' x = (m(T + of_nat ?n := 0)) x" by (rule mp [OF spec [OF fr]], rule contra_subsetD [OF sub x])
    moreover have "x \<noteq> T + of_nat ?n" by (rule contrapos_nn [OF x], erule ssubst, rule inT)
    ultimately show ?thesis by simp
  qed
  then have fr': "\<forall>x. x \<notin> str_of T (p @ slash # cs @ [c]) \<longrightarrow> m' x = m x" by simp
  have "cd_up T T buflen i s = Some (i + length (cs @ [c]), s')"
    using ld t(1) s'(1) snoc.prems(4) b by (subst cd_up.simps) simp
  then show ?case using s'(2,4) mem_only_trans [OF t(3) s'(3)] fr' by (intro exI conjI)
qed

text \<open>Leaving a directory: the last component goes, and of a path with only one component the root is left.\<close>

lemma cd_dotdot_ok:
  assumes "umap A m s" "cstr m T (p @ slash # cs)" "str_of T (p @ slash # cs) \<subseteq> A" "slash \<notin> set cs" "length (p @ slash # cs) < 2 ^ 63"
  obtains m' s' where "cd_dotdot T (length (p @ slash # cs)) s = Some s'" "umap A m' s'" "mem_only s s'"
    "cstr m' T (if p = [] then [slash] else p)" "\<And>x. x \<notin> str_of T (p @ slash # cs) \<Longrightarrow> m' x = m x"
proof -
  let ?n = "length (p @ slash # cs)" and ?R = "str_of T (p @ slash # cs)"
  obtain m1 s1 where s1: "cd_up T T ?n 1 s = Some (1 + length cs, s1)" "umap A m1 s1" "mem_only s s1" "cstr m1 T (p @ [slash])"
    and f1: "\<forall>x. x \<notin> ?R \<longrightarrow> m1 x = m x"
    using cd_up_ok [OF assms(1-4), of ?n 1] assms(5) by auto
  have b: "(of_nat ?n :: u64) - of_nat (1 + length cs) = of_nat (length p)" by simp
  have inR: "T + of_nat (length p) \<in> ?R" "T \<in> ?R" using range_memb [of "length p" "length (p @ slash # cs) + 1" T] range_memb [of 0 "length (p @ slash # cs) + 1" T] by simp_all
  define m2 where "m2 = m1(T + of_nat (length p) := 0)"
  obtain s2 where s2: "ustore (T + of_nat (length p)) 0 s1 = Some s2" "umap A (m1(T + of_nat (length p) := 0)) s2" "mem_only s1 s2"
    by (rule umap_store [OF s1(2) subsetD [OF assms(3) inR(1)]]) (rule that)
  note s2 = s2 [folded m2_def]
  have c2: "cstr m2 T p" unfolding m2_def by (rule cstr_cut [OF s1(4)]) (use assms(5) in simp)
  have "str_of T p \<subseteq> ?R" by (intro image_mono) auto
  then have l: "u_strlen T s2 = Some (length p, s2)" by (intro u_strlen_ok [OF s2(2) c2]) (use assms(3) in simp)
  have f2: "m2 x = m x" if "x \<notin> ?R" for x
    unfolding m2_def using f1 that inR(1) by (cases "x = T + of_nat (length p)") simp_all
  note ms = mem_only_trans [OF s1(3) s2(3)]
  show ?thesis
  proof (cases "p = []")
    case False
    have "cd_dotdot T ?n s = Some s2" using s1(1) s2(1) l b False by (simp add: cd_dotdot_def)
    then show ?thesis by (rule that [OF _ s2(2) ms]) (use c2 f2 False in simp_all)
  next
    case True
    obtain s3 where s3: "ustore T slash s2 = Some s3" "umap A (m2(T := slash)) s3" "mem_only s2 s3"
      by (rule umap_store [OF s2(2) subsetD [OF assms(3) inR(2)]]) (rule that)
    have "m2 (T + 1) = 0" using cstr_end [OF s1(4)] True by (simp add: m2_def)
    then have c3: "cstr (m2(T := slash)) T [slash]" by (simp add: cstr_def)
    have "cd_dotdot T ?n s = Some s3" using s1(1) s2(1) l b True s3(1) by (simp add: cd_dotdot_def)
    then show ?thesis
    proof (rule that [OF _ s3(2) mem_only_trans [OF ms s3(3)]])
      show "(m2(T := slash)) x = m x" if "x \<notin> ?R" for x using f2 [OF that] that inR(2) by (cases "x = T") simp_all
    qed (use c3 True in simp)
  qed
qed

text \<open>Appending a component, character by character.\<close>

lemma cd_append_ok:
  assumes "umap A m s" "cstr m t ts" "str_of t ts \<subseteq> A" "range_of (N + of_nat (L + 1)) (length ts) \<subseteq> A - str_of t ts"
    and "L + length ts < 2 ^ 63" "k \<le> length ts"
  shows "\<exists>s'. cd_append N t L (L + 1 + k) s = Some (L + 1 + length ts, s') \<and>
    umap A (poke (N + of_nat (L + 1 + k)) (drop k ts) m) s' \<and> mem_only s s'"
  using assms
proof (induction "length ts - k" arbitrary: k m s)
  case 0
  then show ?case using u_strlen_ok [OF 0(2-4)] by (subst cd_append.simps) simp
next
  case (Suc d)
  note l = u_strlen_ok [OF Suc.prems(1-3)]
  have k: "k < length ts" using Suc.hyps(2) by simp
  let ?d = "N + of_nat (L + 1 + k)"
  have d: "?d \<in> A - str_of t ts" using subsetD [OF Suc.prems(4) range_memb [OF k]] by (simp add: algebra_simps)
  have "t + of_nat k \<in> A" by (rule subsetD [OF Suc.prems(3) range_memb]) (use k in simp)
  then have ld: "uload (t + of_nat k) s = Some (ts ! k, s)" using umap_load [OF Suc.prems(1)] cstr_nth [OF Suc.prems(2) k] by simp
  obtain s1 where s1: "ustore ?d (ts ! k) s = Some s1" "umap A (m(?d := ts ! k)) s1" "mem_only s s1"
    by (rule umap_store [OF Suc.prems(1), of ?d]) (use d that in blast)+
  have "cstr (m(?d := ts ! k)) t ts"
  proof (rule cstr_cong [OF Suc.prems(2)])
    fix i assume "i \<le> length ts"
    then have "t + of_nat i \<in> str_of t ts" by (intro range_memb) simp
    then show "(m(?d := ts ! k)) (t + of_nat i) = m (t + of_nat i)" using d by (cases "t + of_nat i = ?d") simp_all
  qed
  moreover have "d = length ts - (k + 1)" "k + 1 \<le> length ts" using Suc.hyps(2) k by simp_all
  ultimately obtain s' where
    s': "cd_append N t L (L + 1 + (k + 1)) s1 = Some (L + 1 + length ts, s')"
      "umap A (poke (N + of_nat (L + 1 + (k + 1))) (drop (k + 1) ts) (m(?d := ts ! k))) s'" "mem_only s1 s'"
    using Suc.hyps(1) [OF _ s1(2) _ Suc.prems(3,4,5), of "k + 1"] that by blast
  have "poke ?d (drop k ts) m = poke (?d + 1) (drop (k + 1) ts) (m(?d := ts ! k))"
    using poke_Cons [of "drop (k + 1) ts" ?d "ts ! k" m] Suc.prems(5) by (simp add: Cons_nth_drop_Suc [OF k])
  then have "umap A (poke ?d (drop k ts) m) s'" using s'(2) by (simp add: add.assoc)
  moreover have "cd_append N t L (L + 1 + k) s = Some (L + 1 + length ts, s')"
    using l ld s1(1) s'(1) k by (subst cd_append.simps) simp
  ultimately show ?case using mem_only_trans [OF s1(3) s'(3)] by blast
qed

text \<open>
  The step from one component to the next copies the path onto itself.  The loop stops there when the path that is split
  ends with two separators, which it does after two calls of \<open>split\<close>.
\<close>

definition ended :: "u8 list \<Rightarrow> bool" where
  "ended ps \<longleftrightarrow> ps ! (length ps - 1) = slash \<and> ps ! (length ps - 2) = slash"

lemma ended_snoc: "ps \<noteq> [] \<Longrightarrow> ended (ps @ [c]) \<longleftrightarrow> c = slash \<and> last ps = slash"
  by (auto simp: ended_def nth_append last_conv_nth)

lemma poke_same:
  assumes "cstr m a cs"
  shows "poke a (cs @ [0]) m = m"
proof
  fix x
  show "poke a (cs @ [0]) m x = m x"
  proof (cases "unat (x - a) < length (cs @ [0])")
    case True
    then show ?thesis using cstr_at [OF assms, of "unat (x - a)"] by (simp add: poke_def)
  qed (rule poke_out)
qed

lemma cd_settle_ok:
  assumes "umap A m s" "cstr m T w" "str_of T w \<subseteq> A" "cstr m path ps" "str_of path ps \<subseteq> A"
    and "2 \<le> length ps" "length w < 2 ^ 63"
  obtains s' where "cd_settle path T T s = Some (ended ps, length w, s')" "umap A m s'" "mem_only s s'"
proof -
  obtain s1 where s1: "u_strcpy T T s = Some s1" "umap A (poke T (w @ [0]) m) s1" "mem_only s s1"
    by (rule u_strcpy_ok [OF assms(1,2) _ _ assms(3,3)]) (use assms(7) that in \<open>simp_all add: fwd_ok_def\<close>)
  note u = s1(2) [unfolded poke_same [OF assms(2)]]
  have ld: "uload (path + of_nat (length ps) - of_nat k) s1 = Some (ps ! (length ps - k), s1)" if "k \<in> {1, 2}" for k
  proof -
    have k: "k \<le> length ps" "1 \<le> k" using that assms(6) by auto
    then have e: "path + of_nat (length ps) - of_nat k = path + of_nat (length ps - k)" by (simp add: of_nat_diff)
    have "path + of_nat (length ps - k) \<in> A" by (rule subsetD [OF assms(5) range_memb]) simp
    then show ?thesis unfolding e using umap_load [OF u] cstr_nth [OF assms(4), of "length ps - k"] k by simp
  qed
  have "cd_settle path T T s = Some (ended ps, length w, s1)"
    using s1(1) u_strlen_ok [OF u assms(2,3)] u_strlen_ok [OF u assms(4,5)] ld [of 1] ld [of 2]
    by (simp add: cd_settle_def ended_def)
  then show thesis by (rule that [OF _ u s1(3)])
qed

text \<open>Strings that lie in a region of memory, and their frame rule.\<close>

definition texts_in :: "u64 set \<Rightarrow> bmem \<Rightarrow> (u64 \<times> u8 list) list \<Rightarrow> bool" where
  "texts_in X m ws \<longleftrightarrow> (\<forall>(a, w) \<in> set ws. cstr m a w \<and> str_of a w \<subseteq> X)"

lemma texts_inD:
  assumes "texts_in X m ws" "(a, w) \<in> set ws"
  shows "cstr m a w" "str_of a w \<subseteq> X"
  using bspec [OF assms(1) [unfolded texts_in_def] assms(2)] by simp_all

lemma texts_in_Nil: "texts_in X m []"
  by (simp add: texts_in_def)

lemma texts_in_Cons: "cstr m a w \<Longrightarrow> str_of a w \<subseteq> X \<Longrightarrow> texts_in X m ws \<Longrightarrow> texts_in X m ((a, w) # ws)"
  by (simp add: texts_in_def)

lemma texts_in_keep:
  assumes "texts_in X m ws" "\<And>x. x \<in> X \<Longrightarrow> m' x = m x"
  shows "texts_in X m' ws"
  unfolding texts_in_def
proof (intro ballI, clarify, rule conjI)
  fix a w assume "(a, w) \<in> set ws"
  note w = texts_inD [OF assms(1) this]
  show "cstr m' a w" by (rule cstr_cong [OF w(1)], rule assms(2), rule subsetD [OF w(2)], rule range_memb) simp
  show "str_of a w \<subseteq> X" by (rule w(2))
qed

lemma poke_tail:
  assumes "x \<in> A - str_of T (p @ ws)"
  shows "poke (T + of_nat (length p)) (ws @ [0]) m x = m x"
proof (rule poke_out, rule notI)
  let ?k = "unat (x - (T + of_nat (length p)))"
  assume "?k < length (ws @ [0])"
  then have "T + of_nat (length p + ?k) \<in> str_of T (p @ ws)" by (intro range_memb) simp
  moreover have "T + of_nat (length p + ?k) = x" by simp
  ultimately show False using assms by simp
qed

text \<open>One round of the loop for a component that is a name.\<close>

lemma cd_body_down:
  assumes "umap A m s" "cstr m T p" "str_of T (p @ slash # ts) \<subseteq> A" "length (p @ slash # ts) < 2 ^ 63"
    and "texts_in (A - str_of T (p @ slash # ts)) m [(t, ts), (path, ps), (lit ''.'', str ''.''), (lit ''..'', str ''..'')]"
    and "ts \<noteq> str ''.''" "ts \<noteq> str ''..''" "2 \<le> length ps" "hd ps \<noteq> slash"
  obtains s' where "cd_body env lit path T T (length p) j t s = Some (ended ps, T, length (p @ slash # ts), j, s')"
    "umap A (poke (T + of_nat (length p)) (slash # ts @ [0]) m) s'" "mem_only s s'"
    "cstr (poke (T + of_nat (length p)) (slash # ts @ [0]) m) T (p @ slash # ts)"
proof -
  let ?R = "str_of T (p @ slash # ts)" and ?d = "T + of_nat (length p)"
  let ?m = "poke ?d (slash # ts @ [0]) m"
  note W = texts_inD [OF assms(5)]
  have w: "cstr m a v" "str_of a v \<subseteq> A" if "(a, v) \<in> set [(t, ts), (path, ps), (lit ''.'', str ''.''), (lit ''..'', str ''..'')]" for a v
    by (rule W(1) [OF that]) (rule subset_trans [OF W(2) [OF that] Diff_subset])
  have cmp: "u_strcmp t (lit l) 0 s = Some (- 1, s)" if "l \<in> {''.'', ''..''}" for l
  proof -
    have "(t, ts) \<in> set [(t, ts), (path, ps), (lit ''.'', str ''.''), (lit ''..'', str ''..'')]"
      "(lit l, str l) \<in> set [(t, ts), (path, ps), (lit ''.'', str ''.''), (lit ''..'', str ''..'')]" using that by auto
    then have "u_strcmp t (lit l) 0 s = Some (if ts = str l then 0 else - 1, s)"
      by (intro ustr.cmp_whole [where A = A and m = m] conjI assms(1) w)
    moreover have "ts \<noteq> str l" using that assms(6,7) by auto
    ultimately show ?thesis by simp
  qed
  have rd: "uload path s = Some (hd ps, s)"
  proof -
    have "path \<in> A" using subsetD [OF w(2) [of path ps] range_memb [of 0]] by simp
    moreover have "ps \<noteq> []" using assms(8) by auto
    then have "m path = hd ps" using cstr_nth [OF w(1) [of path ps], of 0] by (simp add: hd_conv_nth)
    ultimately show ?thesis using umap_load [OF assms(1)] by simp
  qed
  have z: "0 \<notin> set (slash # ts)" using w(1) [of t ts] by (simp add: cstr_def)
  have inR: "?d + of_nat i \<in> ?R" if "i \<le> length ts + 1" for i
    using range_memb [of "length p + i" "Suc (length (p @ slash # ts))" T] that by (simp add: add.assoc)
  have inA: "?d \<in> A" using subsetD [OF assms(3) inR [of 0]] by simp
  obtain s1 where s1: "ustore ?d slash s = Some s1" "umap A (m(?d := slash)) s1" "mem_only s s1"
    by (rule umap_store [OF assms(1) inA]) (rule that)
  have T1: "texts_in (A - ?R) (m(?d := slash)) [(t, ts), (path, ps), (lit ''.'', str ''.''), (lit ''..'', str ''..'')]"
    by (rule texts_in_keep [OF assms(5)]) (use inR [of 0] in auto)
  note t1 = texts_inD [OF T1, of t ts]
  have sub: "range_of (T + of_nat (length p + 1)) (length ts) \<subseteq> A - str_of t ts"
  proof
    fix x assume "x \<in> range_of (T + of_nat (length p + 1)) (length ts)"
    then obtain i where i: "x = T + of_nat (length p + 1) + of_nat i" "i < length ts" by blast
    then have "x \<in> ?R" using inR [of "Suc i"] by (simp add: algebra_simps)
    then show "x \<in> A - str_of t ts" using subsetD [OF assms(3)] subsetD [OF W(2) [of t ts]] by auto
  qed
  obtain s2 where s2: "cd_append T t (length p) (length p + 1) s1 = Some (length p + 1 + length ts, s2)"
    "umap A (poke (T + of_nat (length p + 1)) ts (m(?d := slash))) s2" "mem_only s1 s2"
    using cd_append_ok [OF s1(2) t1(1) w(2) [of t ts] sub, of 0] assms(4) by auto
  have e: "(poke (T + of_nat (length p + 1)) ts (m(?d := slash)))(T + of_nat (length p + 1 + length ts) := 0) = ?m"
    using poke_snoc [of ts "T + of_nat (length p + 1)" "m(?d := slash)" 0] poke_Cons [of "ts @ [0]" ?d slash m] assms(4)
    by (simp add: algebra_simps del: fun_upd_apply)
  have "T + of_nat (length p + 1 + length ts) \<in> A" using subsetD [OF assms(3) inR [of "length ts + 1"]] by (simp add: algebra_simps)
  from umap_store [OF s2(2) this] obtain s3 where
    s3: "ustore (T + of_nat (length p + 1 + length ts)) 0 s2 = Some s3" "umap A ?m s3" "mem_only s2 s3"
    by (metis e)
  have r: "cd_relative env lit path T (length p) j t s = Some (j, t, s3)"
    using cmp [of "''.''"] s1(1) s2(1) s3(1) by (simp add: cd_relative_def)
  have c: "cstr ?m T (p @ slash # ts)" using cstr_extend [OF assms(2) z assms(4)] by simp
  have T3: "texts_in (A - ?R) ?m [(t, ts), (path, ps), (lit ''.'', str ''.''), (lit ''..'', str ''..'')]"
    by (rule texts_in_keep [OF assms(5)], rule poke_tail [where ws = "slash # ts", unfolded append_Cons])
  obtain s4 where s4: "cd_settle path T T s3 = Some (ended ps, length (p @ slash # ts), s4)" "umap A ?m s4" "mem_only s3 s4"
    by (rule cd_settle_ok [OF s3(2) c assms(3) texts_inD(1) [OF T3, of path ps] w(2) [of path ps] assms(8,4)]) (simp_all add: that)
  have "cd_body env lit path T T (length p) j t s = Some (ended ps, T, length (p @ slash # ts), j, s4)"
    using cmp [of "''..''"] rd assms(9) r s4(1) by (simp add: cd_body_def)
  then show thesis
    by (rule that [OF _ s4(2) mem_only_trans [OF mem_only_trans [OF mem_only_trans [OF s1(3) s2(3)] s3(3)] s4(3)] c])
qed

text \<open>One round of the loop for the component \<^verbatim>\<open>..\<close>.\<close>

abbreviation parent :: "u8 list \<Rightarrow> u8 list" where
  "parent p \<equiv> (if p = [] then [slash] else p)"

lemma cd_body_up:
  assumes "umap A m s" "cstr m T (p @ slash # ts)" "str_of T (p @ slash # ts) \<subseteq> A" "slash \<notin> set ts" "length (p @ slash # ts) < 2 ^ 63"
    and "texts_in (A - str_of T (p @ slash # ts)) m [(u, str ''..''), (path, ps), (lit ''..'', str ''..'')]"
    and "2 \<le> length ps"
  obtains m' s' where "cd_body env lit path T newpath (length (p @ slash # ts)) j u s = Some (ended ps, T, length (parent p), j, s')"
    "umap A m' s'" "mem_only s s'" "cstr m' T (parent p)"
proof -
  let ?R = "str_of T (p @ slash # ts)"
  let ?ws = "[(u, str ''..''), (path, ps), (lit ''..'', str ''..'')]"
  note W = texts_inD [OF assms(6)]
  have w: "cstr m a v" "str_of a v \<subseteq> A" if "(a, v) \<in> set ?ws" for a v
    by (rule W(1) [OF that]) (rule subset_trans [OF W(2) [OF that] Diff_subset])
  have cmp: "u_strcmp u (lit ''..'') 0 s = Some (0, s)"
    using ustr.cmp_whole [where A = A and m = m and s = s and a = u and cs = "str ''..''" and b = "lit ''..''" and ds = "str ''..''"]
      assms(1) w [of u "str ''..''"] w [of "lit ''..''" "str ''..''"] by simp
  obtain m1 s1 where s1: "cd_dotdot T (length (p @ slash # ts)) s = Some s1" "umap A m1 s1" "mem_only s s1" "cstr m1 T (parent p)"
    and f: "\<And>x. x \<notin> ?R \<Longrightarrow> m1 x = m x"
    by (rule cd_dotdot_ok [OF assms(1-5)]) (rule that)
  have T1: "texts_in (A - ?R) m1 ?ws" by (rule texts_in_keep [OF assms(6)], rule f) simp
  have "str_of T (parent p) \<subseteq> ?R" by (intro image_mono) auto
  then have r: "str_of T (parent p) \<subseteq> A" using assms(3) by simp
  obtain s2 where s2: "cd_settle path T T s1 = Some (ended ps, length (parent p), s2)" "umap A m1 s2" "mem_only s1 s2"
    by (rule cd_settle_ok [OF s1(2,4) r texts_inD(1) [OF T1, of path ps] w(2) [of path ps] assms(7)]) (use assms(5) in \<open>simp_all add: that split: if_splits\<close>)
  have "cd_body env lit path T newpath (length (p @ slash # ts)) j u s = Some (ended ps, T, length (parent p), j, s2)"
    using cmp s1(1) s2(1) by (simp add: cd_body_def)
  then show thesis by (rule that [OF _ s2(2) mem_only_trans [OF s1(3) s2(3)] s1(4)])
qed

section \<open>There and back\<close>

lemma texts_in_mono: "texts_in X m ws \<Longrightarrow> X \<subseteq> Y \<Longrightarrow> set vs \<subseteq> set ws \<Longrightarrow> texts_in Y m vs"
  unfolding texts_in_def by blast

lemma fields_name: "slash \<notin> set ts \<Longrightarrow> fields slash (ts @ slash # str ''..'') = [ts, str ''..'']"
  by (induction ts) auto

text \<open>A name that \<^verbatim>\<open>split\<close> keeps whole: it has at most 19 characters, and no digit 0.\<close>

definition dir_name :: "u8 list \<Rightarrow> bool" where
  "dir_name ts \<longleftrightarrow> ts \<noteq> [] \<and> slash \<notin> set ts \<and> of_char CHR ''0'' \<notin> set ts \<and> length ts < 20 \<and> ts \<noteq> str ''.'' \<and> ts \<noteq> str ''..''"

abbreviation to_and_fro :: "u8 list \<Rightarrow> nat \<Rightarrow> u8 list" where
  "to_and_fro ts k \<equiv> ts @ slash # str ''..'' @ replicate k slash"

lemma tokens_back:
  assumes "dir_name ts" "0 \<notin> set ts"
  shows "tokens slash (to_and_fro ts k) = [ts, str ''..''] @ replicate k []" "work slash (to_and_fro ts k) \<noteq> []"
proof -
  note n = assms(1) [unfolded dir_name_def]
  have "hd (to_and_fro ts k) \<noteq> slash" using n by (cases ts) auto
  then show "tokens slash (to_and_fro ts k) = [ts, str ''..''] @ replicate k []" "work slash (to_and_fro ts k) \<noteq> []"
    using tokens_fields [of "to_and_fro ts k" slash] fields_replicate [of slash "ts @ slash # str ''..''" k] fields_name [of ts] n assms(2)
    by (auto simp: work_def)
qed

text \<open>The call of \<^verbatim>\<open>split\<close> for one of the two components.\<close>

lemma split_back:
  assumes "prog_ok A m B s" "splittable A m B (lit '''') path (to_and_fro ts k)" "dir_name ts" "n = 1 \<or> n = 2 \<and> k = 1" "k \<le> 1"
  obtains u m' s' where "u_split env lit n path slash s = Some (u, s')" "prog_ok A m' (B + 360) s'" "cstr m' u ([ts, str ''..''] ! (n - 1))"
    "str_of u ([ts, str ''..''] ! (n - 1)) \<subseteq> heap_of B" "cstr m' path (to_and_fro ts (k + 1))"
    "\<And>x. x \<notin> heap_of B \<Longrightarrow> x \<noteq> path + of_nat (length (to_and_fro ts k)) \<Longrightarrow> m' x = m x" "outside s' = outside s"
proof -
  note N = assms(3) [unfolded dir_name_def]
  have z: "0 \<notin> set ts" using splittableD(1) [OF assms(2)] by (simp add: cstr_def)
  note t = tokens_back [OF assms(3) z, of k]
  have i: "tokens slash (to_and_fro ts k) ! (n - 1) = [ts, str ''..''] ! (n - 1)" unfolding t(1) using assms(4) by auto
  have c: "length (tokens slash (to_and_fro ts k)) \<le> 10" "\<forall>t \<in> set (tokens slash (to_and_fro ts k)). length t < 20" "1 \<le> n"
    "n < max 2 (length (tokens slash (to_and_fro ts k)))" "tokens slash (to_and_fro ts k) ! (n - 1) \<noteq> []"
    unfolding i unfolding t(1) using N assms(4,5) by auto
  have e: "to_and_fro ts k @ [slash] = to_and_fro ts (k + 1)" by (simp add: replicate_append_same)
  from u_split_step [where lit = lit and env = env, OF assms(1,2) _ t(2) c] show thesis unfolding i e using that by auto
qed

text \<open>
  The regions: the path that grows at \<open>T\<close>, the string to split with the separators it gets, the next block of the heap;
  the literals are elsewhere.
\<close>

definition cd_apart :: "u64 set \<Rightarrow> bmem \<Rightarrow> (string \<Rightarrow> u64) \<Rightarrow> u64 set \<Rightarrow> u64 set \<Rightarrow> u64 set \<Rightarrow> bool" where
  "cd_apart A m lit R P H \<longleftrightarrow> R \<subseteq> A - H \<and> P \<subseteq> A - R - H \<and> H \<subseteq> A \<and> 0 \<notin> H \<and>
     texts_in (A - R - H - P) m [(lit '''', []), (lit ''.'', str ''.''), (lit ''..'', str ''..'')]"

lemma cd_apartD:
  assumes "cd_apart A m lit R P H"
  shows "R \<subseteq> A - H" "P \<subseteq> A - R - H" "H \<subseteq> A" "0 \<notin> H"
    "texts_in (A - R - H - P) m [(lit '''', []), (lit ''.'', str ''.''), (lit ''..'', str ''..'')]"
  using assms [unfolded cd_apart_def] by blast+

lemma cd_apart_keep:
  assumes "cd_apart A m lit R P H" "\<And>x. x \<in> A - R \<Longrightarrow> m' x = m x"
  shows "cd_apart A m' lit R P H"
proof -
  note Z = cd_apartD [OF assms(1)]
  have "texts_in (A - R - H - P) m' [(lit '''', []), (lit ''.'', str ''.''), (lit ''..'', str ''..'')]"
    by (rule texts_in_keep [OF Z(5)], rule assms(2)) blast
  then show ?thesis unfolding cd_apart_def using Z(1-4) by blast
qed

lemma cd_splittable:
  assumes "cd_apart A m lit R P (heap_of B)" "str_of path (to_and_fro ts (Suc k)) \<subseteq> P" "cstr m path (to_and_fro ts k)"
    and "m (path + of_nat (length (to_and_fro ts (Suc k)))) = 0" "length ts < 20" "k \<le> 1"
  shows "splittable A m B (lit '''') path (to_and_fro ts k)"
  unfolding splittable_def
proof (intro conjI)
  note Z = cd_apartD [OF assms(1)] and e = texts_inD [OF cd_apartD(5) [OF assms(1)], of "lit ''''" "[]"]
  have e0: "lit '''' \<in> A - R - heap_of B - P" by (rule subsetD [OF e(2)]) simp_all
  show "m (lit '''') = 0" using e(1) by (simp add: cstr_Nil)
  have l: "length (to_and_fro ts (Suc k)) = Suc (length (to_and_fro ts k))" "length (to_and_fro ts k) + 2 = Suc (length (to_and_fro ts (Suc k)))"
    by simp_all
  show "m (path + of_nat (Suc (length (to_and_fro ts k)))) = 0" using assms(4) unfolding l(1) .
  show "range_of path (length (to_and_fro ts k) + 2) \<subseteq> A - heap_of B"
    unfolding l(2) using subset_trans [OF assms(2) Z(2)] by (meson Diff_mono Diff_subset order_refl subset_trans)
  show "lit '''' \<in> A - heap_of B - range_of path (length (to_and_fro ts k) + 2)"
    unfolding l(2) using e0 contra_subsetD [OF assms(2)] by (simp only: Diff_iff simp_thms)
  show "heap_of B \<subseteq> A" "cstr m path (to_and_fro ts k)" by (rule Z(3), rule assms(3))
qed (use assms(5,6) in simp)

text \<open>The first round, for the name.\<close>

lemma cd_first:
  assumes "prog_ok A m B s" "cstr m T p" "cstr m path (to_and_fro ts 1)"
    and "cd_apart A m lit (str_of T (p @ slash # ts)) (str_of path (to_and_fro ts 2)) H"
    and "cstr m t ts" "str_of t ts \<subseteq> A - str_of T (p @ slash # ts)" "dir_name ts" "length (p @ slash # ts) < 2 ^ 63"
  obtains m1 s1 where "cd_body env lit path T T (length p) 1 t s = Some (False, T, length (p @ slash # ts), 1, s1)"
    "prog_ok A m1 B s1" "cstr m1 T (p @ slash # ts)" "\<And>x. x \<in> A - str_of T (p @ slash # ts) \<Longrightarrow> m1 x = m x" "outside s1 = outside s"
proof -
  let ?R = "str_of T (p @ slash # ts)" and ?m = "poke (T + of_nat (length p)) (slash # ts @ [0]) m"
  note Z = cd_apartD [OF assms(4)] and N = assms(7) [unfolded dir_name_def]
  have "str_of path (to_and_fro ts 1) \<subseteq> str_of path (to_and_fro ts 2)" by (intro image_mono) auto
  then have p1: "str_of path (to_and_fro ts 1) \<subseteq> A - ?R" using Z(2) by (meson Diff_subset subset_trans)
  have L: "texts_in (A - ?R) m [(lit ''.'', str ''.''), (lit ''..'', str ''..'')]" by (rule texts_in_mono [OF Z(5)]) auto
  have hd: "2 \<le> length (to_and_fro ts 1)" "hd (to_and_fro ts 1) \<noteq> slash" using N by (cases ts; auto)+
  have R: "?R \<subseteq> A" using Z(1) by (meson Diff_subset subset_trans)
  have "ended (to_and_fro ts 1) \<longleftrightarrow> False" using ended_snoc [of "ts @ slash # str ''..''" slash] by simp
  then obtain s1 where s1: "cd_body env lit path T T (length p) 1 t s = Some (False, T, length (p @ slash # ts), 1, s1)"
    "umap A ?m s1" "mem_only s s1" "cstr ?m T (p @ slash # ts)"
    using cd_body_down [where t = t and ts = ts and path = path and ps = "to_and_fro ts 1" and lit = lit and env = env and j = 1,
          OF prog_okD(1) [OF assms(1)] assms(2) R assms(8) texts_in_Cons [OF assms(5,6) texts_in_Cons [OF assms(3) p1 L]]] N hd by metis
  show thesis
    by (rule that [OF s1(1) prog_ok_mem(1) [OF assms(1) s1(3,2)] s1(4) poke_tail [where ws = "slash # ts", unfolded append_Cons]
          prog_ok_mem(2) [OF assms(1) s1(3,2)]])
qed

text \<open>The second round, for the component \<^verbatim>\<open>..\<close>; the string that is split now ends with two separators.\<close>

lemma cd_second:
  assumes "prog_ok A m B s" "cstr m T (p @ slash # ts)" "splittable A m B (lit '''') path (to_and_fro ts 1)"
    and "cd_apart A m lit (str_of T (p @ slash # ts)) (str_of path (to_and_fro ts 2)) (heap_of B)"
    and "dir_name ts" "length (p @ slash # ts) < 2 ^ 63"
  obtains u t m' s' where "u_split env lit 2 path slash s = Some (u, t)" "u \<noteq> 0"
    "cd_body env lit path T T (length (p @ slash # ts)) 2 u t = Some (True, T, length (parent p), 2, s')"
    "prog_ok A m' (B + 360) s'" "cstr m' T (parent p)" "outside s' = outside s"
proof -
  let ?R = "str_of T (p @ slash # ts)" and ?P = "str_of path (to_and_fro ts 2)"
  note Z = cd_apartD [OF assms(4)] and N = assms(5) [unfolded dir_name_def]
  obtain u m2 t where t: "u_split env lit 2 path slash s = Some (u, t)" "prog_ok A m2 (B + 360) t" "cstr m2 u (str ''..'')"
    "str_of u (str ''..'') \<subseteq> heap_of B" "cstr m2 path (to_and_fro ts 2)"
    and f: "\<And>x. x \<notin> heap_of B \<Longrightarrow> x \<noteq> path + of_nat (length (to_and_fro ts 1)) \<Longrightarrow> m2 x = m x" and o: "outside t = outside s"
    by (rule split_back [where lit = lit and ts = ts and k = 1 and n = 2 and env = env, OF assms(1,3,5)]) (simp_all add: that numeral_2_eq_2)
  have last: "path + of_nat (length (to_and_fro ts 1)) \<in> ?P" by (rule range_memb) simp
  have keep: "m2 x = m x" if "x \<notin> heap_of B" "x \<notin> ?P" for x by (rule f [OF that(1)], rule notI) (use last that(2) in simp)
  have c: "cstr m2 T (p @ slash # ts)"
  proof (rule cstr_cong [OF assms(2)], rule keep)
    fix i assume "i \<le> length (p @ slash # ts)"
    then have i: "T + of_nat i \<in> ?R" by (intro range_memb) simp
    show "T + of_nat i \<notin> heap_of B" using subsetD [OF Z(1) i] by simp
    show "T + of_nat i \<notin> ?P" using subsetD [OF Z(2), of "T + of_nat i"] i by blast
  qed
  have "texts_in (A - ?R - heap_of B - ?P) m2 [(lit '''', []), (lit ''.'', str ''.''), (lit ''..'', str ''..'')]"
    by (rule texts_in_keep [OF Z(5)], rule keep) simp_all
  then have L: "texts_in (A - ?R) m2 [(lit ''..'', str ''..'')]" by (rule texts_in_mono) auto
  have HR: "heap_of B \<subseteq> A - ?R" "?P \<subseteq> A - ?R" using Z(1-3) by blast+
  have R: "?R \<subseteq> A" using Z(1) by (meson Diff_subset subset_trans)
  have e: "ended (to_and_fro ts 2) \<longleftrightarrow> True" using ended_snoc [of "to_and_fro ts 1" slash] by (simp add: numeral_2_eq_2)
  have n: "slash \<notin> set ts" "2 \<le> length (to_and_fro ts 2)" using N by simp_all
  obtain m' s' where s': "cd_body env lit path T T (length (p @ slash # ts)) 2 u t = Some (True, T, length (parent p), 2, s')"
    "umap A m' s'" "mem_only t s'" "cstr m' T (parent p)"
    by (rule cd_body_up [where p = p and ts = ts and u = u and lit = lit and path = path and ps = "to_and_fro ts 2" and env = env and j = 2 and newpath = T,
          OF prog_okD(1) [OF t(2)] c R n(1) assms(6) texts_in_Cons [OF t(3) subset_trans [OF t(4) HR(1)] texts_in_Cons [OF t(5) HR(2) L]] n(2),
          unfolded e]) (rule that)
  have "u \<in> heap_of B" using subsetD [OF t(4) range_memb [of 0]] by simp
  then have "u \<noteq> 0" by (rule contrapos_pn) (erule ssubst, rule Z(4))
  then show thesis using that [OF t(1) _ s'(1) prog_ok_mem(1) [OF t(2) s'(3,2)] s'(4)] prog_ok_mem(2) [OF t(2) s'(3,2)] o by simp
qed

text \<open>The two rounds of the loop.\<close>

lemma cd_loop_back:
  assumes "prog_ok A m B s" "cstr m T p" "cstr m path (to_and_fro ts 1)" "m (path + of_nat (length (to_and_fro ts 2))) = 0"
    and "cd_apart A m lit (str_of T (p @ slash # ts)) (str_of path (to_and_fro ts 2)) (heap_of B)"
    and "cstr m t ts" "str_of t ts \<subseteq> A - str_of T (p @ slash # ts)" "t \<noteq> 0" "dir_name ts" "length (p @ slash # ts) < 2 ^ 63"
  obtains m' s' where "cd_loop env lit path T T (length p) 1 t s = Some s'" "prog_ok A m' (B + 360) s'" "cstr m' T (parent p)"
    "outside s' = outside s"
proof -
  let ?R = "str_of T (p @ slash # ts)" and ?P = "str_of path (to_and_fro ts 2)"
  note Z = cd_apartD [OF assms(5)]
  obtain m1 s1 where s1: "cd_body env lit path T T (length p) 1 t s = Some (False, T, length (p @ slash # ts), 1, s1)"
    "prog_ok A m1 B s1" "cstr m1 T (p @ slash # ts)" and f: "\<And>x. x \<in> A - ?R \<Longrightarrow> m1 x = m x" and o1: "outside s1 = outside s"
    by (rule cd_first [where env = env and path = path and ts = ts and t = t and lit = lit and p = p, OF assms(1-3,5-7,9,10)]) (rule that)
  have Z1: "cd_apart A m1 lit ?R ?P (heap_of B)" by (rule cd_apart_keep [OF assms(5) f])
  have P: "path + of_nat i \<in> A - ?R" if "i \<le> length (to_and_fro ts 2)" for i
  proof -
    have "path + of_nat i \<in> ?P" using that by (intro range_memb) simp
    from subsetD [OF Z(2) this] show ?thesis by (simp only: Diff_iff simp_thms)
  qed
  have c: "cstr m1 path (to_and_fro ts 1)" by (rule cstr_cong [OF assms(3)], rule f, rule P) simp
  have z: "m1 (path + of_nat (length (to_and_fro ts 2))) = 0" using f [OF P [OF order_refl]] assms(4) by simp
  have S: "splittable A m1 B (lit '''') path (to_and_fro ts 1)"
    by (rule cd_splittable [OF Z1 _ c]) (use assms(9) z in \<open>simp_all add: dir_name_def numeral_2_eq_2\<close>)
  obtain u t2 m' s' where s': "u_split env lit 2 path slash s1 = Some (u, t2)" "u \<noteq> 0"
    "cd_body env lit path T T (length (p @ slash # ts)) 2 u t2 = Some (True, T, length (parent p), 2, s')"
    "prog_ok A m' (B + 360) s'" "cstr m' T (parent p)" "outside s' = outside s1"
    by (rule cd_second [where env = env and ts = ts and p = p and lit = lit, OF s1(2,3) S Z1 assms(9,10)]) (rule that)
  have "cd_loop env lit path T T (length p) 1 t s = cd_loop env lit path T T (length (p @ slash # ts)) 2 u t2"
    using s1(1) s'(1) assms(8) by (subst cd_loop.simps) (simp add: numeral_2_eq_2)
  also have "\<dots> = Some s'" using s'(2,3) by (subst cd_loop.simps) simp
  finally show thesis by (rule that [OF _ s'(4,5)]) (simp add: s'(6) o1)
qed

end
