(* ===== verification/Malloc.thy ===== *)
theory Malloc
  imports UString
begin

text \<open>
  The allocator of the user library, \<^verbatim>\<open>libc/malloc.c\<close>: blocks come from the kernel, one system call for the block and one
  for the node that describes it, and a list of the nodes lets a freed block be used again.

  The nodes are structures in user memory, 32 bytes each: \<^verbatim>\<open>size\<close> at 0, \<^verbatim>\<open>address\<close> at 8, \<^verbatim>\<open>alloc1dealloc0\<close> at 16, \<^verbatim>\<open>next\<close> at 24.  Every
  access to them is an access to paged memory, which can fault; outside the heap area that ends the machine.
\<close>

section \<open>The code\<close>

partial_function (option) free_loop :: "u64 \<Rightarrow> u64 \<Rightarrow> 'a proc_scheme \<Rightarrow> 'a proc_scheme option" where
  "free_loop add temp s =
     (if temp \<noteq> 0
      then Option.bind (uloadn 8 (temp + 8) s) (\<lambda>(a, s).
        if add = a
        then Option.bind (ustoren 4 (temp + 16) 0 s) (\<lambda>s.
          Option.bind (uloadn 8 (temp + 8) s) (\<lambda>(a, s).
            Option.bind (uloadn 8 temp s) (\<lambda>(z, s). lib_memset a (ucast z) s)))
        else Option.bind (uloadn 8 (temp + 24) s) (\<lambda>(n, s). free_loop add n s))
      else Some s)"

definition lib_free :: "u64 \<Rightarrow> 'a uheap_scheme \<Rightarrow> 'a uheap_scheme option" where
  "lib_free add s = free_loop add (h_start s) s"

text \<open>The search: the last node, the node chosen, and whether one was chosen.\<close>

partial_function (option) malloc_scan ::
  "u64 \<Rightarrow> u64 \<Rightarrow> u64 \<Rightarrow> u64 \<Rightarrow> bool \<Rightarrow> 'a proc_scheme \<Rightarrow> (u64 \<times> u64 \<times> bool \<times> 'a proc_scheme) option" where
  "malloc_scan sz temp least mintemp flag s =
     Option.bind (uloadn 8 (temp + 24) s) (\<lambda>(n, s).
       if n \<noteq> 0
       then Option.bind (uloadn 4 (temp + 16) s) (\<lambda>(al, s).
         Option.bind
           (if al = 0
            then Option.bind (uloadn 8 temp s) (\<lambda>(z, s).
              if z > sz then Option.bind (uloadn 8 temp s) (\<lambda>(z, s). Some (least > z, s)) else Some (False, s))
            else Some (False, s))
           (\<lambda>(better, s). Option.bind (uloadn 8 (temp + 24) s) (\<lambda>(n, s).
              if better then malloc_scan sz n sz temp True s else malloc_scan sz n least mintemp flag s)))
       else Some (temp, mintemp, flag, s))"

text \<open>The stores to the members of a new node.\<close>

definition fill_node :: "u64 \<Rightarrow> u64 \<Rightarrow> u64 \<Rightarrow> 'a proc_scheme \<Rightarrow> 'a proc_scheme option" where
  "fill_node n sz add s = do {
     s \<leftarrow> ustoren 8 n sz s;
     s \<leftarrow> ustoren 8 (n + 8) add s;
     s \<leftarrow> ustoren 4 (n + 16) 1 s;
     ustoren 8 (n + 24) 0 s
   }"

definition lib_malloc :: "kenv \<Rightarrow> u64 \<Rightarrow> 'a uheap_scheme \<Rightarrow> (u64 \<times> 'a uheap_scheme) option" where
  "lib_malloc env sz s =
     (if h_start s = 0
      then do {
        (r, s) \<leftarrow> sb_malloc env (ucast sz) s;
        mallocadd \<leftarrow> ret_val r;
        (r, s) \<leftarrow> sb_malloc env 32 s;
        st \<leftarrow> ret_val r;
        s \<leftarrow> fill_node st sz mallocadd (s\<lparr>h_start := st\<rparr>);
        Some (mallocadd, s)
      }
      else do {
        (temp, mintemp, flag, s) \<leftarrow> malloc_scan sz (h_start s) 10000 0 False s;
        if flag
        then do {
          s \<leftarrow> ustoren 4 (mintemp + 16) 1 s;
          uloadn 8 (mintemp + 8) s
        }
        else do {
          (r, s) \<leftarrow> sb_malloc env (ucast sz) s;
          mallocadd \<leftarrow> ret_val r;
          (r, s) \<leftarrow> sb_malloc env 32 s;
          temp1 \<leftarrow> ret_val r;
          s \<leftarrow> fill_node temp1 sz mallocadd s;
          s \<leftarrow> ustoren 8 (temp + 24) temp1 s;
          Some (mallocadd, s)
        }
      })"

section \<open>A node in memory\<close>

record mallocinfo =
  mi_size :: u64
  mi_address :: u64
  mi_alloc :: u32
  mi_next :: u64

text \<open>The structure at an address of a byte memory.\<close>

definition info :: "bmem \<Rightarrow> u64 \<Rightarrow> mallocinfo" where
  "info m n = \<lparr>mi_size = ldn 8 m n, mi_address = ldn 8 m (n + 8), mi_alloc = ucast (ldn 4 m (n + 16)), mi_next = ldn 8 m (n + 24)\<rparr>"

lemma range_iff:
  assumes "k < 2 ^ 64"
  shows "x \<in> range_of a k \<longleftrightarrow> unat (x - a) < k"
proof
  assume "x \<in> range_of a k"
  then obtain i where "i < k" "x = a + of_nat i" by auto
  then show "unat (x - a) < k" using assms range_off [of i a] by simp
next
  assume "unat (x - a) < k"
  then show "x \<in> range_of a k" using range_memb [of "unat (x - a)" k a] by simp
qed

text \<open>Membership in a range that does not wrap, as an interval of numbers.\<close>

lemma span_iff:
  fixes x a :: u64
  assumes "unat a + k \<le> 2 ^ 64"
  shows "unat (x - a) < k \<longleftrightarrow> unat x \<in> {unat a..<unat a + k}"
  using range_sub [of "unat a" k x 0] assms by simp

lemma info_cong:
  assumes "\<And>x. unat (x - n) < 32 \<Longrightarrow> m' x = m x"
  shows "info m' n = info m n"
proof -
  have "ldn l m' (n + of_nat k) = ldn l m (n + of_nat k)" if "k + l \<le> 32" for k l
    using that assms range_sub [of k l _ n] by (intro ldn_cong) auto
  from this [of 0 8] this [of 8 8] this [of 16 4] this [of 24 8] show ?thesis by (simp add: info_def)
qed

lemma field_other:
  fixes n v :: u64
  assumes "j + k \<le> i \<or> i + l \<le> j" "i + l \<le> 32" "j + k \<le> 32"
  shows "ldn l (stn k (n + of_nat j) v m) (n + of_nat i) = ldn l m (n + of_nat i)"
proof (rule ldn_stn_other)
  fix x :: u64
  assume "unat (x - (n + of_nat i)) < l"
  then show "\<not> unat (x - (n + of_nat j)) < k" using range_sub [of i l x n] range_sub [of j k x n] assms by auto
qed (use assms in simp_all)

lemma u64_take [simp]: "take_bit 64 (v :: u64) = v"
  by (rule bit_word_eqI) (simp add: bit_simps)

lemma alloc_take: "ucast (take_bit 32 v :: u64) = (ucast v :: u32)"
  by (rule bit_word_eqI) (simp add: bit_simps)

lemma info_store:
  "info (stn 8 n v m) n = (info m n)\<lparr>mi_size := v\<rparr>"
  "info (stn 8 (n + 8) v m) n = (info m n)\<lparr>mi_address := v\<rparr>"
  "info (stn 4 (n + 16) v m) n = (info m n)\<lparr>mi_alloc := ucast v\<rparr>"
  "info (stn 8 (n + 24) v m) n = (info m n)\<lparr>mi_next := v\<rparr>"
proof -
  note o = field_other [where n = n and v = v and m = m]
  show "info (stn 8 n v m) n = (info m n)\<lparr>mi_size := v\<rparr>"
    using o [of 0 8 8 8] o [of 0 8 16 4] o [of 0 8 24 8] ldn_stn [of 8 n v m] by (simp add: info_def)
  show "info (stn 8 (n + 8) v m) n = (info m n)\<lparr>mi_address := v\<rparr>"
    using o [of 8 8 0 8] o [of 8 8 16 4] o [of 8 8 24 8] ldn_stn [of 8 "n + 8" v m] by (simp add: info_def)
  show "info (stn 4 (n + 16) v m) n = (info m n)\<lparr>mi_alloc := ucast v\<rparr>"
    using o [of 16 4 0 8] o [of 16 4 8 8] o [of 16 4 24 8] ldn_stn [of 4 "n + 16" v m] by (simp add: info_def alloc_take)
  show "info (stn 8 (n + 24) v m) n = (info m n)\<lparr>mi_next := v\<rparr>"
    using o [of 24 8 0 8] o [of 24 8 8 8] o [of 24 8 16 4] ldn_stn [of 8 "n + 24" v m] by (simp add: info_def)
qed

lemma alloc_zero: "ldn 4 m (n + 16) = 0 \<longleftrightarrow> mi_alloc (info m n) = 0"
proof
  assume "mi_alloc (info m n) = 0"
  then have z: "ucast (ldn 4 m (n + 16)) = (0 :: u32)" by (simp add: info_def)
  have "take_bit 32 (ldn 4 m (n + 16)) = 0"
  proof (rule bit_word_eqI)
    fix k
    assume "k < LENGTH(64)"
    have "\<not> bit (ucast (ldn 4 m (n + 16)) :: u32) k" unfolding z by simp
    then show "bit (take_bit 32 (ldn 4 m (n + 16))) k = bit 0 k" by (auto simp: bit_simps)
  qed
  then show "ldn 4 m (n + 16) = 0" using ldn_bound [of 4 m "n + 16"] by simp
qed (simp add: info_def)

text \<open>The memory after the stores to a new node.\<close>

definition put_node :: "u64 \<Rightarrow> u64 \<Rightarrow> u64 \<Rightarrow> bmem \<Rightarrow> bmem" where
  "put_node n sz add m = stn 8 (n + 24) 0 (stn 4 (n + 16) 1 (stn 8 (n + 8) add (stn 8 n sz m)))"

lemma info_put_node: "info (put_node n sz add m) n = \<lparr>mi_size = sz, mi_address = add, mi_alloc = 1, mi_next = 0\<rparr>"
  by (simp add: put_node_def info_store)

lemma field_outside:
  fixes n v :: u64
  shows "j + k \<le> 32 \<Longrightarrow> \<not> unat (x - n) < 32 \<Longrightarrow> stn k (n + of_nat j) v m x = m x"
  using range_sub [of j k x n] by (auto simp: stn_apply)

lemma put_node_outside: "\<not> unat (x - n) < 32 \<Longrightarrow> put_node n sz add m x = m x"
  unfolding put_node_def using field_outside [of 0 8 x n] field_outside [of 8 8 x n] field_outside [of 16 4 x n] field_outside [of 24 8 x n]
  by simp

lemma field_in: "j + k \<le> 32 \<Longrightarrow> range_of n 32 \<subseteq> A \<Longrightarrow> range_of (n + of_nat j) k \<subseteq> A"
  using range_inside [of j k 32 n] by (rule order_trans)

lemma node_loads:
  assumes "umap A m s" "range_of n 32 \<subseteq> A"
  shows "uloadn 8 n s = Some (mi_size (info m n), s)" "uloadn 8 (n + 8) s = Some (mi_address (info m n), s)"
    "uloadn 4 (n + 16) s = Some (ldn 4 m (n + 16), s)" "uloadn 8 (n + 24) s = Some (mi_next (info m n), s)"
proof -
  have "uloadn l (n + of_nat k) s = Some (ldn l m (n + of_nat k), s)" if "k + l \<le> 32" for k l
    by (rule uloadn_umap [OF assms(1) field_in [OF that assms(2)]])
  from this [of 0 8] this [of 8 8] this [of 16 4] this [of 24 8]
  show "uloadn 8 n s = Some (mi_size (info m n), s)" "uloadn 8 (n + 8) s = Some (mi_address (info m n), s)"
    "uloadn 4 (n + 16) s = Some (ldn 4 m (n + 16), s)" "uloadn 8 (n + 24) s = Some (mi_next (info m n), s)"
    by (simp_all add: info_def)
qed

lemma node_store:
  assumes "umap A m s" "range_of n 32 \<subseteq> A" "j + k \<le> 32"
  obtains s' where "ustoren k (n + of_nat j) v s = Some s'" "umap A (stn k (n + of_nat j) v m) s'" "mem_only s s'"
  using ustoren_umap [OF assms(1) field_in [OF assms(3,2)]] that by blast

lemma fill_node_ok:
  assumes "umap A m s" "range_of n 32 \<subseteq> A"
  obtains s' where "fill_node n sz add s = Some s'" "umap A (put_node n sz add m) s'" "mem_only s s'"
proof -
  obtain s1 where 1: "ustoren 8 n sz s = Some s1" "umap A (stn 8 n sz m) s1" "mem_only s s1"
    by (rule node_store [OF assms, of 0 8 sz]) (simp_all add: that)
  obtain s2 where 2: "ustoren 8 (n + 8) add s1 = Some s2" "umap A (stn 8 (n + 8) add (stn 8 n sz m)) s2" "mem_only s1 s2"
    by (rule node_store [OF 1(2) assms(2), of 8 8 add]) (simp_all add: that)
  obtain s3 where 3: "ustoren 4 (n + 16) 1 s2 = Some s3" "umap A (stn 4 (n + 16) 1 (stn 8 (n + 8) add (stn 8 n sz m))) s3" "mem_only s2 s3"
    by (rule node_store [OF 2(2) assms(2), of 16 4 1]) (simp_all add: that)
  obtain s4 where 4: "ustoren 8 (n + 24) 0 s3 = Some s4" "umap A (put_node n sz add m) s4" "mem_only s3 s4"
    unfolding put_node_def by (rule node_store [OF 3(2) assms(2), of 24 8 0]) (simp_all add: that)
  have "fill_node n sz add s = Some s4" by (simp add: fill_node_def 1 2 3 4)
  then show ?thesis using that 4 mem_only_trans [OF mem_only_trans [OF mem_only_trans [OF 1(3) 2(3)] 3(3)]] by blast
qed

section \<open>The list of nodes\<close>

text \<open>\<open>ns\<close> are the nodes from \<open>p\<close> on, in the order of the list.\<close>

fun nlist :: "(u64 \<Rightarrow> mallocinfo) \<Rightarrow> u64 \<Rightarrow> u64 list \<Rightarrow> bool" where
  "nlist f p [] \<longleftrightarrow> p = 0"
| "nlist f p (n # ns) \<longleftrightarrow> p = n \<and> n \<noteq> 0 \<and> nlist f (mi_next (f n)) ns"

text \<open>The node of a free block that is large enough, and not larger than the search looks for.\<close>

definition fits :: "u64 \<Rightarrow> (u64 \<Rightarrow> mallocinfo) \<Rightarrow> u64 \<Rightarrow> bool" where
  "fits sz f n \<longleftrightarrow> mi_alloc (f n) = 0 \<and> sz < mi_size (f n) \<and> mi_size (f n) < 10000"

text \<open>One step of the search.\<close>

lemma scan_step:
  assumes "umap A m s" "range_of x 32 \<subseteq> A"
  shows "malloc_scan sz x least k flag s =
    (if mi_next (info m x) = 0 then Some (x, k, flag, s)
     else if mi_alloc (info m x) = 0 \<and> sz < mi_size (info m x) \<and> mi_size (info m x) < least
     then malloc_scan sz (mi_next (info m x)) sz x True s
     else malloc_scan sz (mi_next (info m x)) least k flag s)"
  using node_loads [OF assms] alloc_zero [of m x] by (subst malloc_scan.simps) simp

lemma scan_found:
  assumes "umap A m s" "nlist (info m) p ns" "ns \<noteq> []" "\<forall>x \<in> set ns. range_of x 32 \<subseteq> A"
  shows "malloc_scan sz p sz n True s = Some (last ns, n, True, s)"
  using assms(2-4)
proof (induction ns arbitrary: p)
  case (Cons x ns)
  have step: "malloc_scan sz x sz n True s = (if mi_next (info m x) = 0 then Some (x, n, True, s) else malloc_scan sz (mi_next (info m x)) sz n True s)"
    using Cons.prems(3) by (subst scan_step [OF assms(1)]) auto
  show ?case
  proof (cases "ns = []")
    case False
    then have "mi_next (info m x) \<noteq> 0" using Cons.prems(1) by (cases ns) auto
    then show ?thesis using Cons False step by simp
  qed (use Cons.prems step in simp)
qed simp

lemma scan_first_fit:
  assumes "umap A m s" "nlist (info m) p ns" "ns \<noteq> []" "\<forall>x \<in> set ns. range_of x 32 \<subseteq> A"
  shows "malloc_scan sz p 10000 0 False s =
     Some (case find (fits sz (info m)) (butlast ns) of None \<Rightarrow> (last ns, 0, False, s) | Some n \<Rightarrow> (last ns, n, True, s))"
  using assms(2-4)
proof (induction ns arbitrary: p)
  case (Cons x ns)
  have step: "malloc_scan sz x 10000 0 False s = (if mi_next (info m x) = 0 then Some (x, 0, False, s)
      else if fits sz (info m) x then malloc_scan sz (mi_next (info m x)) sz x True s
      else malloc_scan sz (mi_next (info m x)) 10000 0 False s)"
    using Cons.prems(3) unfolding fits_def by (subst scan_step [OF assms(1)]) auto
  show ?case
  proof (cases "ns = []")
    case False
    then have nz: "mi_next (info m x) \<noteq> 0" using Cons.prems(1) by (cases ns) auto
    show ?thesis
    proof (cases "fits sz (info m) x")
      case True
      then show ?thesis using Cons.prems False nz step scan_found [OF assms(1), of "mi_next (info m x)" ns sz x] by simp
    next
      case F: False
      then show ?thesis using Cons False nz step by (simp split: option.split)
    qed
  qed (use Cons.prems step in simp)
qed simp

section \<open>The invariant of the heap\<close>

text \<open>The bytes of a block and of a node.\<close>

definition block :: "(u64 \<Rightarrow> mallocinfo) \<Rightarrow> u64 \<Rightarrow> nat set" where
  "block f n = {unat (mi_address (f n))..<unat (mi_address (f n)) + unat (mi_size (f n))}"

definition cell :: "u64 \<Rightarrow> nat set" where
  "cell n = {unat n..<unat n + 32}"

text \<open>The bytes of the heap area, from its start to the program break.\<close>

definition area :: "u64 \<Rightarrow> nat set" where
  "area b = {unat HEAP_START..<unat b}"

definition laid_out :: "u64 set \<Rightarrow> (u64 \<Rightarrow> mallocinfo) \<Rightarrow> u64 \<Rightarrow> u64 list \<Rightarrow> bool" where
  "laid_out A f b ns \<longleftrightarrow> (\<forall>n \<in> set ns. range_of n 32 \<subseteq> A \<and> block f n \<union> cell n \<subseteq> area b)"

definition no_overlap :: "(u64 \<Rightarrow> mallocinfo) \<Rightarrow> u64 list \<Rightarrow> bool" where
  "no_overlap f ns \<longleftrightarrow> (\<forall>k \<in> set ns. \<forall>n \<in> set ns. block f k \<inter> cell n = {} \<and>
     (k \<noteq> n \<longrightarrow> block f k \<inter> block f n = {} \<and> cell k \<inter> cell n = {}))"

text \<open>The program can reach the addresses \<open>A\<close>, which hold the bytes of \<open>m\<close>, and all nodes lie there.  The list is well-formed,
  everything lies in the heap area, the program break does not pass its end, and no two of the blocks and nodes overlap.\<close>

definition heap_ok :: "u64 set \<Rightarrow> bmem \<Rightarrow> u64 list \<Rightarrow> 'a uheap_scheme \<Rightarrow> bool" where
  "heap_ok A m ns s \<longleftrightarrow> umap A m s \<and> nlist (info m) (h_start s) ns \<and> distinct ns \<and> childFlag s \<noteq> 1 \<and>
     HEAP_START \<le> h_brk s \<and> h_brk s \<le> HEAP_END \<and> laid_out A (info m) (h_brk s) ns \<and> no_overlap (info m) ns"

lemma heap_okD:
  assumes "heap_ok A m ns s"
  shows "umap A m s" "nlist (info m) (h_start s) ns" "distinct ns" "childFlag s \<noteq> 1"
    "HEAP_START \<le> h_brk s" "h_brk s \<le> HEAP_END" "laid_out A (info m) (h_brk s) ns" "no_overlap (info m) ns"
  using assms unfolding heap_ok_def by blast+

lemma laid_outD:
  assumes "laid_out A f b ns" "n \<in> set ns"
  shows "range_of n 32 \<subseteq> A" "block f n \<subseteq> area b" "cell n \<subseteq> area b"
  using assms unfolding laid_out_def by blast+

lemma no_overlapD:
  assumes "no_overlap f ns" "k \<in> set ns" "n \<in> set ns"
  shows "block f k \<inter> cell n = {}" "k \<noteq> n \<Longrightarrow> block f k \<inter> block f n = {}" "k \<noteq> n \<Longrightarrow> cell k \<inter> cell n = {}"
  using assms unfolding no_overlap_def by blast+

lemma heap_ok_brk: "heap_ok A m ns s \<Longrightarrow> unat (h_brk s) \<le> 2 ^ 28"
  using heap_okD(6) [of A m ns s] by (simp add: word_le_nat_alt)

lemma nlist_upd:
  "nlist f p ns \<Longrightarrow> (\<And>n. n \<in> set ns \<Longrightarrow> mi_next (f' n) = mi_next (f n)) \<Longrightarrow> nlist f' p ns"
  by (induction ns arbitrary: p) auto

lemma nlist_snoc:
  assumes "nlist f p ns" "ns \<noteq> []" "n \<noteq> 0" "mi_next (f' n) = 0" "mi_next (f' (last ns)) = n"
    "\<And>k. k \<in> set (butlast ns) \<Longrightarrow> mi_next (f' k) = mi_next (f k)"
  shows "nlist f' p (ns @ [n])"
  using assms
proof (induction ns arbitrary: p)
  case (Cons x ns)
  show ?case
  proof (cases "ns = []")
    case False
    have "nlist f' (mi_next (f x)) (ns @ [n])" using Cons.prems False by (intro Cons.IH) simp_all
    then show ?thesis using Cons.prems False by simp
  qed (use Cons.prems in auto)
qed simp

text \<open>A node lies where addresses do not wrap, so that being in it is an interval of numbers.\<close>

lemma heap_cell:
  assumes "heap_ok A m ns s" "n \<in> set ns"
  shows "unat n + 32 \<le> unat (h_brk s)" "unat (x - n) < 32 \<longleftrightarrow> unat x \<in> cell n"
proof -
  have "cell n \<subseteq> area (h_brk s)" by (rule laid_outD(3) [OF heap_okD(7) [OF assms(1)] assms(2)])
  moreover have "unat n + 31 \<in> cell n" by (simp add: cell_def)
  ultimately have "unat n + 31 \<in> area (h_brk s)" by (rule subsetD)
  then show l: "unat n + 32 \<le> unat (h_brk s)" by (simp add: area_def)
  show "unat (x - n) < 32 \<longleftrightarrow> unat x \<in> cell n"
    using l heap_ok_brk [OF assms(1)] span_iff [of n 32 x] by (simp add: cell_def)
qed

text \<open>The nodes keep what they hold when the memory changes elsewhere.\<close>

lemma info_keep:
  assumes "heap_ok A m ns s" "n \<in> set ns" "\<And>x. unat x \<in> cell n \<Longrightarrow> m' x = m x"
  shows "info m' n = info m n"
  using heap_cell(2) [OF assms(1,2)] assms(3) by (intro info_cong) simp

lemma heap_ok_upd:
  assumes "heap_ok A m ns s" "umap A m' s'" "h_start s' = h_start s" "h_brk s' = h_brk s" "childFlag s' = childFlag s"
    "\<And>n. n \<in> set ns \<Longrightarrow> mi_size (info m' n) = mi_size (info m n) \<and> mi_address (info m' n) = mi_address (info m n) \<and>
       mi_next (info m' n) = mi_next (info m n)"
  shows "heap_ok A m' ns s'"
proof -
  note h = heap_okD [OF assms(1)]
  have b: "block (info m') n = block (info m) n" if "n \<in> set ns" for n using assms(6) [OF that] by (simp add: block_def)
  have l: "laid_out A (info m') (h_brk s) ns"
    unfolding laid_out_def by (intro ballI conjI Un_least) (simp_all only: b laid_outD [OF h(7)])
  have o: "no_overlap (info m') ns"
    unfolding no_overlap_def by (intro ballI conjI impI) (simp_all add: b no_overlapD [OF h(8)])
  have "nlist (info m') (h_start s) ns" by (rule nlist_upd [OF h(2)]) (use assms(6) in blast)
  then show ?thesis unfolding heap_ok_def assms(3-5) by (intro conjI assms(2) h(3-6) l o)
qed

lemma mem_only_heap:
  assumes "mem_only s (s' :: 'a uheap_scheme)"
  shows "h_start s' = h_start s" "h_brk s' = h_brk s" "childFlag s' = childFlag s"
  by (subst mem_onlyD(1) [OF assms], simp add: h_brk_def)+

text \<open>A change of the member \<^verbatim>\<open>alloc1dealloc0\<close> of one node.\<close>

lemma alloc_upd:
  assumes "heap_ok A m ns s" "n \<in> set ns" "k \<in> set ns"
  shows "info (stn 4 (n + 16) v m) k = (if k = n then (info m n)\<lparr>mi_alloc := ucast v\<rparr> else info m k)"
proof (cases "k = n")
  case False
  have "stn 4 (n + 16) v m x = m x" if "unat x \<in> cell k" for x
  proof -
    have "unat x \<notin> cell n" using no_overlapD(3) [OF heap_okD(8) [OF assms(1)] assms(3,2) False] that by blast
    then have "\<not> unat (x - n) < 32" using heap_cell(2) [OF assms(1,2), of x] by blast
    from field_outside [OF _ this, of 16 4 v m] show ?thesis by simp
  qed
  then have "info (stn 4 (n + 16) v m) k = info m k" by (rule info_keep [OF assms(1,3)])
  then show ?thesis using False by (simp only: if_False)
qed (simp add: info_store)

text \<open>The two calls for a fresh block: the block starts at the program break and its node behind it.\<close>

lemma fresh_block:
  fixes sz :: u64
  assumes H: "heap_ok A m ns s" and room: "unat (h_brk s) + unat sz + 32 \<le> unat HEAP_END"
  obtains s1 s2 n where "sb_malloc env (ucast sz) s = Some (Ret (h_brk s), s1)" "sb_malloc env 32 s1 = Some (Ret n, s2)"
    "umap A m s2" "h_start s2 = h_start s" "childFlag s2 \<noteq> 1" "n = h_brk s + sz"
    "unat n = unat (h_brk s) + unat sz" "unat (h_brk s2) = unat n + 32" "n \<notin> set ns" "n \<noteq> 0"
proof -
  let ?b = "h_brk s"
  have sz: "unat sz < 2 ^ 31" using room by simp
  obtain s1 where s1: "sb_malloc env (ucast sz) s = Some (Ret ?b, s1)" "h_brk s1 = ?b + scast (ucast sz :: u32)"
    "childFlag s1 = childFlag s" "sysc.more s1 = sysc.more s" "frames s1 = frames s" "CR3 s1 = CR3 s"
    by (rule sb_malloc_ok [OF heap_okD(4) [OF H]]) (rule that)
  have "childFlag s1 \<noteq> 1" using s1(3) heap_okD(4) [OF H] by simp
  then obtain s2 where s2: "sb_malloc env 32 s1 = Some (Ret (h_brk s1), s2)" "h_brk s2 = h_brk s1 + scast (32 :: u32)"
    "childFlag s2 = childFlag s1" "sysc.more s2 = sysc.more s1" "frames s2 = frames s1" "CR3 s2 = CR3 s1"
    by (rule sb_malloc_ok) (rule that)
  have c: "scast (ucast sz :: u32) = sz" by (rule int_roundtrip [OF sz])
  have n: "unat (h_brk s1) = unat ?b + unat sz" using room unfolding s1(2) c by (subst unat_add_lem [THEN iffD1]) simp_all
  then have b: "unat (h_brk s2) = unat (h_brk s1) + 32"
    using room unfolding s2(2) by (subst unat_add_lem [THEN iffD1]) simp_all
  have "h_brk s1 \<notin> set ns"
  proof
    assume "h_brk s1 \<in> set ns"
    from heap_cell(1) [OF H this] show False using n by simp
  qed
  moreover have "h_brk s1 \<noteq> 0"
  proof
    assume "h_brk s1 = 0"
    then have "unat ?b = 0" using n by (metis add_is_0 unat_0)
    then show False using heap_okD(5) [OF H] by (simp add: word_le_nat_alt)
  qed
  moreover have "h_start s2 = h_start s" using uheap_more [of s2 s] s2(4) s1(4) by simp
  moreover have "umap A m s2" by (rule umap_mem [OF heap_okD(1) [OF H]]) (simp_all add: s1(5,6) s2(5,6))
  moreover have "childFlag s2 \<noteq> 1" using s1(3) s2(3) heap_okD(4) [OF H] by simp
  ultimately show ?thesis using s1(2) c by (intro that [OF s1(1) s2(1)] n b) simp_all
qed

lemma heap_extend:
  fixes sz :: u64
  assumes H: "heap_ok A m ns s" and n: "unat n = unat (h_brk s) + unat sz" "n \<notin> set ns" "range_of n 32 \<subseteq> A"
    and t: "umap A m' t" "unat (h_brk t) = unat n + 32" "h_brk t \<le> HEAP_END" "childFlag t \<noteq> 1" "nlist (info m') (h_start t) (ns @ [n])"
    and i: "\<And>k. k \<in> set ns \<Longrightarrow> mi_address (info m' k) = mi_address (info m k) \<and> mi_size (info m' k) = mi_size (info m k)"
      "mi_address (info m' n) = h_brk s" "mi_size (info m' n) = sz"
  shows "heap_ok A m' (ns @ [n]) t"
proof -
  note h = heap_okD [OF H]
  have le: "unat HEAP_START \<le> unat (h_brk s)" using h(5) by (simp only: word_le_nat_alt)
  have b: "block (info m') k = block (info m) k" if "k \<in> set ns" for k using i(1) [OF that] by (simp add: block_def)
  have bn: "block (info m') n = {unat (h_brk s)..<unat n}" using i(2,3) n(1) by (simp add: block_def)
  have low: "block (info m) k \<subseteq> area (h_brk s)" "cell k \<subseteq> area (h_brk s)" if "k \<in> set ns" for k
    by (rule laid_outD [OF h(7) that])+
  have hi: "block (info m') n \<inter> area (h_brk s) = {}" "cell n \<inter> area (h_brk s) = {}"
    using n(1) unfolding bn by (auto simp: cell_def area_def)
  have "area (h_brk s) \<subseteq> area (h_brk t)" "block (info m') n \<subseteq> area (h_brk t)" "cell n \<subseteq> area (h_brk t)"
    unfolding bn area_def cell_def using t(2) n(1) le by (simp_all only: ivl_subset) simp_all
  note up = this
  have L: "laid_out A (info m') (h_brk t) (ns @ [n])"
    unfolding laid_out_def
  proof (intro ballI conjI Un_least)
    fix k assume k: "k \<in> set (ns @ [n])"
    show "range_of k 32 \<subseteq> A" "block (info m') k \<subseteq> area (h_brk t)" "cell k \<subseteq> area (h_brk t)"
      using k n(3) laid_outD(1) [OF h(7), of k] low [of k] up b [of k] by (cases "k = n"; simp; blast)+
  qed
  have d: "block (info m') k \<inter> block (info m') n = {}" "block (info m') k \<inter> cell n = {}" "cell k \<inter> block (info m') n = {}"
    "cell k \<inter> cell n = {}" if "k \<in> set ns" for k
    using low [OF that] hi unfolding b [OF that] by blast+
  have dn: "block (info m') n \<inter> cell n = {}" unfolding bn by (auto simp: cell_def)
  have O: "no_overlap (info m') (ns @ [n])"
    unfolding no_overlap_def
  proof (intro ballI)
    fix x y assume "x \<in> set (ns @ [n])" "y \<in> set (ns @ [n])"
    then show "block (info m') x \<inter> cell y = {} \<and> (x \<noteq> y \<longrightarrow> block (info m') x \<inter> block (info m') y = {} \<and> cell x \<inter> cell y = {})"
      using d [of x] d [of y] dn no_overlapD [OF h(8), of x y] b [of x] b [of y] n(2)
      by (cases "x = n"; cases "y = n") (simp_all add: Int_commute)
  qed
  have "HEAP_START \<le> h_brk t" using le t(2) n(1) by (simp only: word_le_nat_alt)
  moreover have "distinct (ns @ [n])" using h(3) n(2) by simp
  ultimately show ?thesis unfolding heap_ok_def by (intro conjI t L O)
qed

section \<open>Allocation\<close>

text \<open>What an allocation has to deliver: the block of a node that was free or is new, of at least the size asked for, inside the heap
  area and apart from every block that was live.  The live blocks stay live and where they were, and no byte outside the
  nodes changes.\<close>

definition delivers :: "u64 set \<Rightarrow> u64 \<Rightarrow> bmem \<Rightarrow> u64 list \<Rightarrow> u64 \<Rightarrow> 'a uheap_scheme \<Rightarrow> bool" where
  "delivers A sz m ns a s' \<longleftrightarrow> (\<exists>m' ns' n. heap_ok A m' ns' s' \<and> set ns \<subseteq> set ns' \<and> n \<in> set ns' \<and>
     (n \<in> set ns \<longrightarrow> mi_alloc (info m n) = 0) \<and>
     mi_address (info m' n) = a \<and> sz \<le> mi_size (info m' n) \<and> mi_alloc (info m' n) = 1 \<and>
     {unat a..<unat a + unat sz} \<subseteq> {unat HEAP_START..<unat HEAP_END} \<and>
     (\<forall>k \<in> set ns. mi_alloc (info m k) \<noteq> 0 \<longrightarrow>
        mi_alloc (info m' k) \<noteq> 0 \<and> block (info m') k = block (info m) k \<and> block (info m) k \<inter> {unat a..<unat a + unat sz} = {}) \<and>
     (\<forall>x. (\<forall>k \<in> set ns'. unat x \<notin> cell k) \<longrightarrow> m' x = m x))"

lemma deliversI:
  assumes "heap_ok A m' ns' s'" "set ns \<subseteq> set ns'" "n \<in> set ns'" "n \<in> set ns \<Longrightarrow> mi_alloc (info m n) = 0"
    "mi_address (info m' n) = a" "sz \<le> mi_size (info m' n)" "mi_alloc (info m' n) = 1"
    "\<And>k. k \<in> set ns \<Longrightarrow> mi_alloc (info m k) \<noteq> 0 \<Longrightarrow> mi_alloc (info m' k) \<noteq> 0"
    "\<And>k. k \<in> set ns \<Longrightarrow> block (info m') k = block (info m) k"
    "\<And>x. (\<And>k. k \<in> set ns' \<Longrightarrow> unat x \<notin> cell k) \<Longrightarrow> m' x = m x"
  shows "delivers A sz m ns a s'"
proof -
  note h = heap_okD [OF assms(1)]
  let ?I = "{unat a..<unat a + unat sz}"
  have I: "?I \<subseteq> block (info m') n" using assms(5,6) by (auto simp: block_def word_le_nat_alt)
  also have "\<dots> \<subseteq> area (h_brk s')" by (rule laid_outD(2) [OF h(7) assms(3)])
  also have "area (h_brk s') \<subseteq> {unat HEAP_START..<unat HEAP_END}"
    unfolding area_def using h(6) unfolding word_le_nat_alt by (simp only: ivl_subset order_refl) simp
  finally have area: "?I \<subseteq> {unat HEAP_START..<unat HEAP_END}" .
  have apart: "block (info m) k \<inter> ?I = {}" if "k \<in> set ns" "mi_alloc (info m k) \<noteq> 0" for k
  proof -
    have "k \<noteq> n" using that assms(4) by blast
    then have "block (info m') k \<inter> block (info m') n = {}" using no_overlapD(2) [OF h(8) _ assms(3)] that(1) assms(2) by blast
    then show ?thesis using I assms(9) [OF that(1)] by blast
  qed
  show ?thesis
    unfolding delivers_def
  proof (intro exI conjI ballI impI allI)
    show "heap_ok A m' ns' s'" "set ns \<subseteq> set ns'" "n \<in> set ns'" "?I \<subseteq> {unat HEAP_START..<unat HEAP_END}"
      "mi_address (info m' n) = a" "sz \<le> mi_size (info m' n)" "mi_alloc (info m' n) = 1"
      by (fact assms area)+
    show "mi_alloc (info m n) = 0" if "n \<in> set ns" by (rule assms(4) [OF that])
    show "m' x = m x" if "\<forall>k \<in> set ns'. unat x \<notin> cell k" for x by (rule assms(10)) (rule bspec [OF that])
    fix k assume k: "k \<in> set ns" "mi_alloc (info m k) \<noteq> 0"
    show "mi_alloc (info m' k) \<noteq> 0" "block (info m') k = block (info m) k" "block (info m) k \<inter> ?I = {}"
      by (rule assms(8) [OF k], rule assms(9) [OF k(1)], rule apart [OF k])
  qed
qed

lemma malloc_reuse:
  assumes H: "heap_ok A m ns s" and n: "n \<in> set ns" "mi_alloc (info m n) = 0" "sz < mi_size (info m n)"
    and s': "umap A (stn 4 (n + 16) 1 m) s'" "mem_only s s'"
  shows "delivers A sz m ns (mi_address (info m n)) s'"
proof -
  let ?m = "stn 4 (n + 16) 1 m"
  note i = alloc_upd [OF H n(1), of _ 1]
  have H': "heap_ok A ?m ns s'"
    by (rule heap_ok_upd [OF H s'(1) mem_only_heap [OF s'(2)]]) (simp add: i)
  show ?thesis
  proof (rule deliversI [OF H' subset_refl n(1)])
    show "sz \<le> mi_size (info ?m n)" using n(3) by (simp add: i [OF n(1)])
    show "mi_address (info ?m n) = mi_address (info m n)" "mi_alloc (info ?m n) = 1" by (simp_all add: i [OF n(1)])
    show "mi_alloc (info ?m k) \<noteq> 0" if "k \<in> set ns" "mi_alloc (info m k) \<noteq> 0" for k using that by (simp add: i)
    show "block (info ?m) k = block (info m) k" if "k \<in> set ns" for k using that by (simp add: block_def i)
    fix x :: u64
    assume "\<And>k. k \<in> set ns \<Longrightarrow> unat x \<notin> cell k"
    then have "\<not> unat (x - n) < 32" using heap_cell(2) [OF H n(1), of x] n(1) by blast
    from field_outside [OF _ this, of 16 4 1 m] show "?m x = m x" by simp
  qed (rule n(2))
qed

text \<open>The new node in memory, with the last node pointing to it when there is one.\<close>

definition link_node :: "u64 list \<Rightarrow> u64 \<Rightarrow> u64 \<Rightarrow> u64 \<Rightarrow> bmem \<Rightarrow> bmem" where
  "link_node ns n sz add m = (if ns = [] then put_node n sz add m else stn 8 (last ns + 24) n (put_node n sz add m))"

lemma link_node_info:
  assumes H: "heap_ok A m ns s" and n: "n \<notin> set ns" "unat n + 32 \<le> 2 ^ 64" "\<forall>k \<in> set ns. cell k \<inter> cell n = {}"
  shows "info (link_node ns n sz add m) n = \<lparr>mi_size = sz, mi_address = add, mi_alloc = 1, mi_next = 0\<rparr>"
    "k \<in> set ns \<Longrightarrow> info (link_node ns n sz add m) k = (if k = last ns then (info m k)\<lparr>mi_next := n\<rparr> else info m k)"
    "(\<And>k. k \<in> set (ns @ [n]) \<Longrightarrow> unat x \<notin> cell k) \<Longrightarrow> link_node ns n sz add m x = m x"
proof -
  let ?m = "put_node n sz add m"
  have cn: "unat (x - n) < 32 \<longleftrightarrow> unat x \<in> cell n" for x using n(2) span_iff [of n 32 x] by (simp add: cell_def)
  have p: "info ?m k = info m k" if "k \<in> set ns" for k
  proof (rule info_keep [OF H that])
    fix x :: u64
    assume "unat x \<in> cell k"
    then have "\<not> unat (x - n) < 32" using bspec [OF n(3) that] cn by blast
    then show "?m x = m x" by (rule put_node_outside)
  qed
  have ls: "last ns \<in> set ns" if "ns \<noteq> []" using that by simp
  have out: "stn 8 (l + 24) n m' x = m' x" if "l \<in> set ns" "unat x \<notin> cell l" for l m' and x :: u64
  proof -
    have "\<not> unat (x - l) < 32" using heap_cell(2) [OF H that(1)] that(2) by blast
    from field_outside [OF _ this, of 24 8 n m'] show ?thesis by simp
  qed
  show "info (link_node ns n sz add m) n = \<lparr>mi_size = sz, mi_address = add, mi_alloc = 1, mi_next = 0\<rparr>"
  proof (cases "ns = []")
    case False
    have "info (stn 8 (last ns + 24) n ?m) n = info ?m n"
    proof (rule info_cong)
      fix x :: u64
      assume "unat (x - n) < 32"
      then have "unat x \<notin> cell (last ns)" using cn bspec [OF n(3) ls [OF False]] by blast
      then show "stn 8 (last ns + 24) n ?m x = ?m x" by (rule out [OF ls [OF False]])
    qed
    then show ?thesis using False by (simp add: link_node_def info_put_node)
  qed (simp add: link_node_def info_put_node)
  show "info (link_node ns n sz add m) k = (if k = last ns then (info m k)\<lparr>mi_next := n\<rparr> else info m k)" if k: "k \<in> set ns"
  proof (cases "k = last ns")
    case True
    then show ?thesis using k p [OF k] by (auto simp: link_node_def info_store)
  next
    case False
    have ne: "ns \<noteq> []" using k by auto
    have "info (stn 8 (last ns + 24) n ?m) k = info ?m k"
    proof (rule info_cong)
      fix x :: u64
      assume "unat (x - k) < 32"
      then have "unat x \<in> cell k" using heap_cell(2) [OF H k] by blast
      then have "unat x \<notin> cell (last ns)" using no_overlapD(3) [OF heap_okD(8) [OF H] k ls [OF ne] False] by blast
      then show "stn 8 (last ns + 24) n ?m x = ?m x" by (rule out [OF ls [OF ne]])
    qed
    then show ?thesis using ne False p [OF k] by (simp add: link_node_def)
  qed
  assume x: "\<And>k. k \<in> set (ns @ [n]) \<Longrightarrow> unat x \<notin> cell k"
  then have "\<not> unat (x - n) < 32" using cn by simp
  then have "?m x = m x" by (rule put_node_outside)
  moreover have "stn 8 (last ns + 24) n ?m x = ?m x" if "ns \<noteq> []" using out [OF ls [OF that]] x ls [OF that] by simp
  ultimately show "link_node ns n sz add m x = m x" by (simp add: link_node_def)
qed

text \<open>The run of the code when no free block fits, with the memory that it leaves.\<close>

lemma malloc_run:
  assumes H: "heap_ok A m ns s" and none: "ns = [] \<or> find (fits sz (info m)) (butlast ns) = None"
    and f: "sb_malloc env (ucast sz) s = Some (Ret (h_brk s), s1)" "sb_malloc env 32 s1 = Some (Ret n, s2)"
      "umap A m s2" "h_start s2 = h_start s" "childFlag s2 \<noteq> 1" and rn: "range_of n 32 \<subseteq> A"
  obtains s' where "lib_malloc env sz s = Some (h_brk s, s')" "umap A (link_node ns n sz (h_brk s) m) s'"
    "h_start s' = (if ns = [] then n else h_start s)" "childFlag s' \<noteq> 1" "h_brk s' = h_brk s2"
proof -
  note h = heap_okD [OF H]
  let ?m = "link_node ns n sz (h_brk s) m"
  define t where "t = (if ns = [] then s2\<lparr>h_start := n\<rparr> else s2)"
  have T: "umap A m t" "h_start t = (if ns = [] then n else h_start s)" "childFlag t \<noteq> 1" "h_brk t = h_brk s2"
    using umap_mem [OF f(3), of t] f(4,5) by (simp_all add: t_def h_brk_def)
  obtain s3 where 3: "fill_node n sz (h_brk s) t = Some s3" "umap A (put_node n sz (h_brk s) m) s3" "mem_only t s3"
    by (rule fill_node_ok [OF T(1) rn]) (rule that)
  obtain s' where s': "lib_malloc env sz s = Some (h_brk s, s')" "umap A ?m s'" "mem_only t s'"
  proof (cases "ns = []")
    case True
    then have "h_start s = 0" using h(2) by simp
    then have "lib_malloc env sz s = Some (h_brk s, s3)" using f(1,2) 3(1) True by (simp add: lib_malloc_def ret_val_def t_def)
    then show thesis using that 3(2,3) True by (simp add: link_node_def)
  next
    case False
    then have "h_start s \<noteq> 0" using h(2) by (cases ns) auto
    moreover have "\<forall>x \<in> set ns. range_of x 32 \<subseteq> A" using laid_outD(1) [OF h(7)] by blast
    from scan_first_fit [OF h(1,2) False this, of sz]
    have "malloc_scan sz (h_start s) 10000 0 False s = Some (last ns, 0, False, s)" using none False by simp
    moreover have "last ns \<in> set ns" using False by simp
    then have "range_of (last ns) 32 \<subseteq> A" by (rule laid_outD(1) [OF h(7)])
    then obtain s4 where 4: "ustoren 8 (last ns + 24) n s3 = Some s4" "umap A (stn 8 (last ns + 24) n (put_node n sz (h_brk s) m)) s4" "mem_only s3 s4"
      by (rule node_store [OF 3(2), of "last ns" 24 8 n]) (simp_all add: that)
    ultimately have "lib_malloc env sz s = Some (h_brk s, s4)"
      using f(1,2) 3(1) 4(1) False by (simp add: lib_malloc_def ret_val_def t_def)
    then show thesis using that 4(2) mem_only_trans [OF 3(3) 4(3)] False by (simp add: link_node_def)
  qed
  then show thesis using that T mem_only_heap [OF s'(3)] by simp
qed

lemma malloc_fresh:
  assumes H: "heap_ok A m ns s" and room: "unat (h_brk s) + unat sz + 32 \<le> unat HEAP_END" "range_of (h_brk s + sz) 32 \<subseteq> A"
    and none: "ns = [] \<or> find (fits sz (info m)) (butlast ns) = None"
  shows "\<exists>s'. lib_malloc env sz s = Some (h_brk s, s') \<and> delivers A sz m ns (h_brk s) s'"
proof -
  note h = heap_okD [OF H]
  obtain s1 s2 n where f: "sb_malloc env (ucast sz) s = Some (Ret (h_brk s), s1)" "sb_malloc env 32 s1 = Some (Ret n, s2)"
    "umap A m s2" "h_start s2 = h_start s" "childFlag s2 \<noteq> 1" "n = h_brk s + sz"
    "unat n = unat (h_brk s) + unat sz" "unat (h_brk s2) = unat n + 32" "n \<notin> set ns" "n \<noteq> 0"
    by (rule fresh_block [OF H room(1)]) (rule that)
  have rn: "range_of n 32 \<subseteq> A" using room(2) f(6) by simp
  let ?m = "link_node ns n sz (h_brk s) m"
  obtain s' where s': "lib_malloc env sz s = Some (h_brk s, s')" "umap A ?m s'"
    "h_start s' = (if ns = [] then n else h_start s)" "childFlag s' \<noteq> 1" "h_brk s' = h_brk s2"
    by (rule malloc_run [OF H none f(1-5) rn]) (rule that)
  have below: "unat n + 32 \<le> 2 ^ 28" using room(1) f(7) by simp
  then have nw: "unat n + 32 \<le> 2 ^ 64" by simp
  have apart: "\<forall>k \<in> set ns. cell k \<inter> cell n = {}"
    using heap_cell(1) [OF H] f(7) by (fastforce simp: cell_def)
  note L = link_node_info [OF H f(9) nw apart, where sz = sz and add = "h_brk s"]
  have N: "nlist (info ?m) (h_start s') (ns @ [n])"
  proof (cases "ns = []")
    case True
    then show ?thesis using L(1) s'(3) f(10) by simp
  next
    case False
    have "nlist (info ?m) (h_start s) (ns @ [n])"
    proof (rule nlist_snoc [OF h(2) False f(10)])
      show "mi_next (info ?m n) = 0" using L(1) by simp
      show "mi_next (info ?m (last ns)) = n" using L(2) [of "last ns"] False by simp
      show "mi_next (info ?m k) = mi_next (info m k)" if "k \<in> set (butlast ns)" for k
      proof -
        have "distinct (butlast ns @ [last ns])" using h(3) False by simp
        then have "k \<noteq> last ns" using that by auto
        then show ?thesis using L(2) [OF in_set_butlastD [OF that]] by simp
      qed
    qed
    then show ?thesis using s'(3) False by simp
  qed
  have same: "mi_size (info ?m k) = mi_size (info m k)" "mi_address (info ?m k) = mi_address (info m k)" "mi_alloc (info ?m k) = mi_alloc (info m k)"
    if "k \<in> set ns" for k
    using L(2) [OF that] by simp_all
  have brk: "h_brk s' \<le> HEAP_END" "unat (h_brk s') = unat n + 32" "childFlag s' \<noteq> 1"
    using room(1) f(7,8) s'(4,5) by (simp_all add: word_le_nat_alt)
  have H': "heap_ok A ?m (ns @ [n]) s'"
    by (rule heap_extend [OF H f(7,9) rn s'(2) brk(2,1,3) N]) (simp_all add: same L(1))
  have "delivers A sz m ns (h_brk s) s'"
  proof (rule deliversI [OF H'])
    show "set ns \<subseteq> set (ns @ [n])" "n \<in> set (ns @ [n])" by auto
    show "mi_alloc (info m n) = 0" if "n \<in> set ns" using that f(9) by blast
    show "mi_address (info ?m n) = h_brk s" "sz \<le> mi_size (info ?m n)" "mi_alloc (info ?m n) = 1" by (simp_all add: L(1))
    show "mi_alloc (info ?m k) \<noteq> 0" if "k \<in> set ns" "mi_alloc (info m k) \<noteq> 0" for k using that same(3) by simp
    show "block (info ?m) k = block (info m) k" if "k \<in> set ns" for k using same(1,2) [OF that] by (simp add: block_def)
    show "?m x = m x" if "\<And>k. k \<in> set (ns @ [n]) \<Longrightarrow> unat x \<notin> cell k" for x by (rule L(3)) (rule that)
  qed
  then show ?thesis using s'(1) by blast
qed

lemma malloc_cases:
  assumes H: "heap_ok A m ns s" and room: "unat (h_brk s) + unat sz + 32 \<le> unat HEAP_END" "range_of (h_brk s + sz) 32 \<subseteq> A"
  shows "\<exists>s'. lib_malloc env sz s = Some (case find (fits sz (info m)) (butlast ns) of None \<Rightarrow> h_brk s | Some n \<Rightarrow> mi_address (info m n), s') \<and>
    delivers A sz m ns (case find (fits sz (info m)) (butlast ns) of None \<Rightarrow> h_brk s | Some n \<Rightarrow> mi_address (info m n)) s'"
proof (cases "find (fits sz (info m)) (butlast ns)")
  case None
  from malloc_fresh [OF H room disjI2 [OF None], of env] show ?thesis unfolding None option.case .
next
  case (Some n)
  note h = heap_okD [OF H]
  have ne: "ns \<noteq> []" using Some by auto
  have n: "n \<in> set (butlast ns)" "fits sz (info m) n" using Some by (auto simp: find_Some_iff)
  have ns: "n \<in> set ns" by (rule in_set_butlastD [OF n(1)])
  have rn: "range_of n 32 \<subseteq> A" by (rule laid_outD(1) [OF h(7) ns])
  obtain s' where s': "ustoren 4 (n + 16) 1 s = Some s'" "umap A (stn 4 (n + 16) 1 m) s'" "mem_only s s'"
    by (rule node_store [OF h(1) rn, of 16 4 1]) (simp_all add: that)
  have "uloadn 8 (n + 8) s' = Some (mi_address (info m n), s')"
    using node_loads(2) [OF s'(2) rn] by (simp add: info_store)
  moreover have "\<forall>x \<in> set ns. range_of x 32 \<subseteq> A" using laid_outD(1) [OF h(7)] by blast
  from scan_first_fit [OF h(1,2) ne this, of sz] have "malloc_scan sz (h_start s) 10000 0 False s = Some (last ns, n, True, s)" using Some by simp
  moreover have "h_start s \<noteq> 0" using h(2) ne by (cases ns) auto
  ultimately have "lib_malloc env sz s = Some (mi_address (info m n), s')" using s'(1) by (simp add: lib_malloc_def)
  moreover have "delivers A sz m ns (mi_address (info m n)) s'"
    using n(2) unfolding fits_def by (intro malloc_reuse [OF H ns _ _ s'(2,3)]) simp_all
  ultimately show ?thesis unfolding Some option.case by blast
qed

text \<open>C26. The library's \<^verbatim>\<open>malloc\<close> is safe.  From a well-formed heap whose break leaves room for the block and its node before the
  end of the heap area, with the memory of that node reachable, it returns, and what it returns is the start of a block of
  at least the size asked for, that was free or is new, that lies inside the heap area and meets no block that was live
  before.  The live blocks stay live and where they were, the heap is well-formed again, the new break included, and the
  call changes no byte of the memory outside the nodes.\<close>

theorem malloc_safe:
  assumes "heap_ok A m ns s" "unat (h_brk s) + unat sz + 32 \<le> unat HEAP_END" "range_of (h_brk s + sz) 32 \<subseteq> A"
  shows "\<exists>a s'. lib_malloc env sz s = Some (a, s') \<and> delivers A sz m ns a s'"
  using malloc_cases [OF assms] by blast

text \<open>The search is first fit.  The code looks for the smallest free block that is large enough, but after the first hit it
  compares with the size asked for instead of the size found: it returns the first free block in the list, the last
  node apart, that is larger than the size asked for and smaller than 10000 bytes, and memory from the program break when
  there is none.\<close>

theorem malloc_first_fit:
  assumes "heap_ok A m ns s" "unat (h_brk s) + unat sz + 32 \<le> unat HEAP_END" "range_of (h_brk s + sz) 32 \<subseteq> A"
  shows "map_option fst (lib_malloc env sz s) =
    Some (case find (fits sz (info m)) (butlast ns) of None \<Rightarrow> h_brk s | Some n \<Rightarrow> mi_address (info m n))"
  using malloc_cases [OF assms, of env] by (elim exE conjE) (simp only: option.map fst_conv)

section \<open>Release\<close>

lemma free_loop_find:
  assumes "umap A m s" "nlist (info m) p ns" "\<forall>x \<in> set ns. range_of x 32 \<subseteq> A" "find (\<lambda>k. mi_address (info m k) = a) ns = Some n"
  shows "free_loop a p s = Option.bind (ustoren 4 (n + 16) 0 s) (\<lambda>s. Option.bind (uloadn 8 (n + 8) s) (\<lambda>(a, s).
    Option.bind (uloadn 8 n s) (\<lambda>(z, s). lib_memset a (ucast z) s)))"
  using assms(2-)
proof (induction ns arbitrary: p)
  case (Cons x ns)
  have "range_of x 32 \<subseteq> A" using Cons.prems(2) by simp
  note l = node_loads [OF assms(1) this]
  have p: "p = x" "x \<noteq> 0" "nlist (info m) (mi_next (info m x)) ns" using Cons.prems(1) by simp_all
  show ?case
  proof (cases "mi_address (info m x) = a")
    case True
    then show ?thesis using Cons.prems(3) p(2) l(2) unfolding p(1) by (subst free_loop.simps) simp
  next
    case False
    then have "free_loop a p s = free_loop a (mi_next (info m x)) s" using p(2) l unfolding p(1) by (subst free_loop.simps) simp
    then show ?thesis using Cons p(3) False by simp
  qed
qed simp

text \<open>The bytes of a block as addresses.\<close>

lemma block_range:
  assumes "heap_ok A m ns s" "n \<in> set ns"
  shows "unat (mi_size (info m n)) \<le> 2 ^ 28"
    "x \<in> range_of (mi_address (info m n)) (unat (mi_size (info m n))) \<longleftrightarrow> unat x \<in> block (info m) n"
proof -
  let ?a = "mi_address (info m n)" and ?z = "unat (mi_size (info m n))"
  have "?z = 0 \<or> unat ?a + ?z \<le> 2 ^ 28"
  proof (cases "?z = 0")
    case False
    then have "unat ?a + ?z - 1 \<in> block (info m) n" by (auto simp: block_def)
    then have "unat ?a + ?z - 1 \<in> area (h_brk s)" by (rule subsetD [OF laid_outD(2) [OF heap_okD(7) [OF assms(1)] assms(2)]])
    then have "unat ?a + ?z - 1 < unat (h_brk s)" by (simp add: area_def)
    then show ?thesis using heap_ok_brk [OF assms(1)] by linarith
  qed simp
  then show z: "?z \<le> 2 ^ 28" by linarith
  show "x \<in> range_of ?a ?z \<longleftrightarrow> unat x \<in> block (info m) n"
  proof (cases "?z = 0")
    case False
    then have "unat ?a + ?z \<le> 2 ^ 64" using \<open>?z = 0 \<or> _\<close> by simp
    then show ?thesis using span_iff [of ?a ?z x] range_iff [of ?z x ?a] z by (simp add: block_def)
  qed (simp add: block_def)
qed

text \<open>C27. \<^verbatim>\<open>free\<close> releases and clears.  For the address of a block whose bytes the program may write, the call returns with the first
  node of that address marked free and nothing else of the list changed, the heap is well-formed, every byte of the
  block is zero and, the mark apart, the other bytes of the memory are as they were.\<close>

theorem free_clears:
  assumes "heap_ok A m ns s" "find (\<lambda>k. mi_address (info m k) = a) ns = Some n" "range_of a (unat (mi_size (info m n))) \<subseteq> A"
  shows "\<exists>m' s'. lib_free a s = Some s' \<and> heap_ok A m' ns s' \<and>
    (\<forall>k \<in> set ns. info m' k = (if k = n then (info m n)\<lparr>mi_alloc := 0\<rparr> else info m k)) \<and>
    (\<forall>x. m' x = (if x \<in> range_of a (unat (mi_size (info m n))) \<or> x \<in> range_of (n + 16) 4 then 0 else m x))"
proof -
  note h = heap_okD [OF assms(1)]
  let ?z = "unat (mi_size (info m n))" and ?m1 = "stn 4 (n + 16) 0 m"
  let ?m' = "poke a (replicate ?z 0) ?m1"
  have n: "n \<in> set ns" "mi_address (info m n) = a" using assms(2) by (auto simp: find_Some_iff)
  have rn: "range_of n 32 \<subseteq> A" by (rule laid_outD(1) [OF h(7) n(1)])
  have "\<forall>x \<in> set ns. range_of x 32 \<subseteq> A" using laid_outD(1) [OF h(7)] by blast
  note L = free_loop_find [OF h(1,2) this assms(2)]
  note z = block_range [OF assms(1) n(1), unfolded n(2)]
  obtain t where t: "ustoren 4 (n + 16) 0 s = Some t" "umap A ?m1 t" "mem_only s t"
    by (rule node_store [OF h(1) rn, of 16 4 0]) (simp_all add: that)
  have ld: "uloadn 8 (n + 8) t = Some (a, t)" "uloadn 8 n t = Some (mi_size (info m n), t)"
    using node_loads(1,2) [OF t(2) rn] n(2) by (simp_all add: info_store)
  have "?z < 2 ^ 31" using z(1) by simp
  then have len: "nat (sint (ucast (mi_size (info m n)) :: u32)) = ?z" using int_small by simp
  have rng: "range_of a (length (replicate ?z (0 :: u8))) \<subseteq> A" "length (replicate ?z (0 :: u8)) < 2 ^ 64" using assms(3) z(1) by simp_all
  obtain s' where s': "ustore_bytes a (replicate ?z 0) t = Some s'" "umap A ?m' s'" "mem_only t s'"
    using ustore_bytes_umap [OF t(2) rng] by blast
  have run: "lib_free a s = Some s'" by (simp add: lib_free_def L t(1) ld lib_memset_def len s'(1))
  have i1: "info ?m1 k = (if k = n then (info m n)\<lparr>mi_alloc := 0\<rparr> else info m k)" if "k \<in> set ns" for k
    using alloc_upd [OF assms(1) n(1) that, of 0] by simp
  have poke: "?m' x = (if x \<in> range_of a ?z then 0 else ?m1 x)" for x
    using z(1) by (simp add: poke_def range_iff)
  have i: "info ?m' k = (if k = n then (info m n)\<lparr>mi_alloc := 0\<rparr> else info m k)" if "k \<in> set ns" for k
  proof -
    have "info ?m' k = info ?m1 k"
    proof (rule info_cong)
      fix x :: u64
      assume "unat (x - k) < 32"
      then have "unat x \<in> cell k" using heap_cell(2) [OF assms(1) that] by blast
      then have "unat x \<notin> block (info m) n" using no_overlapD(1) [OF h(8) n(1) that] by blast
      then show "?m' x = ?m1 x" unfolding poke z(2) by (simp only: if_False)
    qed
    then show ?thesis using i1 [OF that] by (rule trans)
  qed
  have "heap_ok A ?m' ns s'"
    by (rule heap_ok_upd [OF assms(1) s'(2) mem_only_heap [OF mem_only_trans [OF t(3) s'(3)]]]) (simp add: i)
  moreover have "?m' x = (if x \<in> range_of a ?z \<or> x \<in> range_of (n + 16) 4 then 0 else m x)" for x
    unfolding poke using range_iff [of 4 x "n + 16"] by (simp add: stn_apply)
  ultimately show ?thesis using run i by blast
qed

section \<open>A heap with two blocks\<close>

text \<open>The example process with the first page of its heap mapped, as \<^verbatim>\<open>loadElf\<close> leaves it.\<close>

definition heap_proc :: proc where
  "heap_proc = map_v_p2 HEAP_START 0x2000 (snd (allocatePage user_proc))"

lemma heap_proc_facts:
  shows "CR3 heap_proc = 0x1000" "0x2000 \<notin> tables (frames heap_proc) 0x1000"
    "pt_lookup (frames heap_proc) 0x1000 w = (if vpage w = vpage HEAP_START then 0x2007 else 0)"
proof -
  have ne: "free_pages user_proc \<noteq> {}" using user_proc_card by auto
  obtain s1 where al: "allocatePage user_proc = (0x2000, s1)"
    using kpages.alloc_some [OF vm_invD(1) [OF user_proc_inv] ne] by (auto simp: user_proc_min)
  note A = allocatePage_vm [OF user_proc_inv ne al]
  have i: "vm_inv (CR3 s1) s1" using A(1,3) by simp
  have m: "card (missing (frames s1) (CR3 s1) {HEAP_START}) \<le> card (free_pages s1)"
    using missing_le_3 [of "frames s1" "CR3 s1" "HEAP_START"] A(6) user_proc_card by simp
  have e: "heap_proc = map_v_p2 HEAP_START 0x2000 s1" by (simp add: heap_proc_def al)
  note M = map_v_p2_ok [OF i m, where p = "0x2000", folded e]
  have r: "CR3 s1 = 0x1000" using A(3) by simp
  show "pt_lookup (frames heap_proc) 0x1000 w = (if vpage w = vpage HEAP_START then 0x2007 else 0)"
    using M(2) [of w] r A(2) by (simp add: pt_lookup_def vidx_def)
  show "0x2000 \<notin> tables (frames heap_proc) 0x1000" using vm_keepsD(3) [OF M(5)] A(5,7) r by auto
  have "vm_frame user_proc heap_proc"
    using vm_frame_trans [OF allocatePage_frame [of user_proc] map_frames(2)] unfolding heap_proc_def by blast
  then show "CR3 heap_proc = 0x1000" using vm_frameD(1) proc_frameD by fastforce
qed

abbreviation heap_page :: "u64 set" where "heap_page \<equiv> range_of HEAP_START 4096"

definition fresh_heap :: uheap where
  "fresh_heap = (let s = sys_of heap_proc; s = upd_mm (mm (pcbs s (current s))) (\<lambda>r. r\<lparr>brk := 0x8000090\<rparr>) s
     in ulib.extend (sysc.extend s (ulib.fields (replicate 1000 0) (replicate 1000 0) 0)) (uheap.fields 0x8000040))"

lemma fresh_heap_sel [simp]:
  "frames fresh_heap = frames heap_proc" "CR3 fresh_heap = CR3 heap_proc" "childFlag fresh_heap = 0" "h_start fresh_heap = 0x8000040"
  "h_brk fresh_heap = 0x8000090"
  by (simp_all add: fresh_heap_def Let_def h_brk_def upd_mm_def sysc.extend_def ulib.extend_def ulib.fields_def uheap.fields_def)

lemma fresh_heap_wmem: "wmem heap_page fresh_heap"
proof -
  have v: "vpage v = vpage HEAP_START \<and> v < 2 ^ 47" if "v \<in> heap_page" for v
  proof -
    obtain i where i: "i < 4096" "v = HEAP_START + of_nat i" using \<open>v \<in> heap_page\<close> by auto
    have "unat v = 0x8000000 + i" using i by (simp add: unat_word_ariths unat_of_nat)
    then have "v < 2 ^ 47" "v div PAGE_SIZE = HEAP_START div PAGE_SIZE"
      using i by (simp_all add: word_less_nat_alt word_unat_eq_iff unat_div)
    then show ?thesis unfolding vpage_div by simp
  qed
  have "pt_lookup (frames fresh_heap) (CR3 fresh_heap) v = 0x2007" if "v \<in> heap_page" for v
    using heap_proc_facts(1,3) v [OF that] by simp
  then show ?thesis using v heap_proc_facts(1,2) unfolding wmem_def umem_def by auto
qed

text \<open>A block of 64 bytes that is free again and one of 16 bytes in use.\<close>

definition two_blocks :: "bmem \<Rightarrow> bmem" where
  "two_blocks m = stn 4 (0x8000040 + 16) 0 (stn 8 (0x8000040 + 24) 0x8000070
     (put_node 0x8000070 16 0x8000060 (put_node 0x8000040 64 0x8000000 m)))"

lemma two_blocks_info:
  "info (two_blocks m) 0x8000040 = \<lparr>mi_size = 64, mi_address = 0x8000000, mi_alloc = 0, mi_next = 0x8000070\<rparr>"
  "info (two_blocks m) 0x8000070 = \<lparr>mi_size = 16, mi_address = 0x8000060, mi_alloc = 1, mi_next = 0\<rparr>"
proof -
  have apart: "\<not> unat (x - 0x8000070) < 32" if "unat (x - 0x8000040 :: u64) < 32" for x :: u64
    using that span_iff [of "0x8000040" 32 x] span_iff [of "0x8000070" 32 x] by auto
  have "info (put_node 0x8000070 16 0x8000060 (put_node 0x8000040 64 0x8000000 m)) 0x8000040 = info (put_node 0x8000040 64 0x8000000 m) 0x8000040"
    by (rule info_cong) (rule put_node_outside [OF apart])
  then show "info (two_blocks m) 0x8000040 = \<lparr>mi_size = 64, mi_address = 0x8000000, mi_alloc = 0, mi_next = 0x8000070\<rparr>"
    by (simp only: two_blocks_def info_store info_put_node) simp
  have "info (two_blocks m) 0x8000070 = info (put_node 0x8000070 16 0x8000060 (put_node 0x8000040 64 0x8000000 m)) 0x8000070"
  proof (rule info_cong)
    fix x :: u64
    assume "unat (x - 0x8000070) < 32"
    then have "\<not> unat (x - 0x8000040) < 32" using apart by blast
    from field_outside [OF _ this, of 16 4] field_outside [OF _ this, of 24 8]
    show "two_blocks m x = put_node 0x8000070 16 0x8000060 (put_node 0x8000040 64 0x8000000 m) x" by (simp add: two_blocks_def)
  qed
  then show "info (two_blocks m) 0x8000070 = \<lparr>mi_size = 16, mi_address = 0x8000060, mi_alloc = 1, mi_next = 0\<rparr>"
    by (simp only: info_put_node)
qed

definition malloc_sys :: uheap where
  "malloc_sys = the (do {
     s \<leftarrow> fill_node 0x8000040 64 0x8000000 fresh_heap;
     s \<leftarrow> fill_node 0x8000070 16 0x8000060 s;
     s \<leftarrow> ustoren 8 (0x8000040 + 24) 0x8000070 s;
     ustoren 4 (0x8000040 + 16) 0 s
   })"

lemma heap_page_sub: "k + n \<le> 4096 \<Longrightarrow> range_of (HEAP_START + of_nat k) n \<subseteq> heap_page"
  by (rule range_inside)

lemma malloc_sys_ok:
  obtains m where "heap_ok heap_page (two_blocks m) [0x8000040, 0x8000070] malloc_sys" "h_brk malloc_sys = 0x8000090"
proof -
  obtain m where u: "umap heap_page m fresh_heap" using umap_ex [OF fresh_heap_wmem] by blast
  have r: "range_of 0x8000040 32 \<subseteq> heap_page" "range_of 0x8000070 32 \<subseteq> heap_page"
    using heap_page_sub [of 64 32] heap_page_sub [of 112 32] by simp_all
  obtain s1 where 1: "fill_node 0x8000040 64 0x8000000 fresh_heap = Some s1"
    "umap heap_page (put_node 0x8000040 64 0x8000000 m) s1" "mem_only fresh_heap s1"
    by (rule fill_node_ok [OF u r(1)]) (rule that)
  obtain s2 where 2: "fill_node 0x8000070 16 0x8000060 s1 = Some s2"
    "umap heap_page (put_node 0x8000070 16 0x8000060 (put_node 0x8000040 64 0x8000000 m)) s2" "mem_only s1 s2"
    by (rule fill_node_ok [OF 1(2) r(2)]) (rule that)
  obtain s3 where 3: "ustoren 8 (0x8000040 + of_nat 24) 0x8000070 s2 = Some s3"
    "umap heap_page (stn 8 (0x8000040 + of_nat 24) 0x8000070 (put_node 0x8000070 16 0x8000060 (put_node 0x8000040 64 0x8000000 m))) s3"
    "mem_only s2 s3"
    using node_store [OF 2(2) r(1), of 24 8 "0x8000070"] by auto
  obtain s4 where 4: "ustoren 4 (0x8000040 + of_nat 16) 0 s3 = Some s4"
    "umap heap_page (stn 4 (0x8000040 + of_nat 16) 0 (stn 8 (0x8000040 + of_nat 24) 0x8000070
       (put_node 0x8000070 16 0x8000060 (put_node 0x8000040 64 0x8000000 m)))) s4" "mem_only s3 s4"
    using node_store [OF 3(2) r(1), of 16 4 0] by auto
  have e: "malloc_sys = s4" using 1(1) 2(1) 3(1) 4(1) by (simp add: malloc_sys_def)
  have U: "umap heap_page (two_blocks m) malloc_sys" using 4(2) unfolding two_blocks_def e by simp
  have o: "mem_only fresh_heap malloc_sys"
    unfolding e by (rule mem_only_trans [OF mem_only_trans [OF mem_only_trans [OF 1(3) 2(3)] 3(3)] 4(3)])
  note f = mem_only_heap [OF o]
  let ?f = "info (two_blocks m)" and ?ns = "[0x8000040, 0x8000070]"
  have b: "block ?f 0x8000040 = {0x8000000..<0x8000040}" "block ?f 0x8000070 = {0x8000060..<0x8000070}"
    "cell 0x8000040 = {0x8000040..<0x8000060}" "cell 0x8000070 = {0x8000070..<0x8000090}"
    by (simp_all add: block_def cell_def two_blocks_info)
  have a: "area 0x8000090 = {0x8000000..<0x8000090}" by (simp add: area_def)
  have "laid_out heap_page ?f 0x8000090 ?ns"
    unfolding laid_out_def list.set ball_simps b a using r by (auto simp only: ivl_subset Un_subset_iff)
  moreover have "no_overlap ?f ?ns"
    unfolding no_overlap_def list.set ball_simps b by (simp add: ivl_disj_int)
  moreover have "nlist ?f 0x8000040 ?ns" by (simp add: two_blocks_info)
  ultimately have "heap_ok heap_page (two_blocks m) ?ns malloc_sys"
    unfolding heap_ok_def f fresh_heap_sel using U by simp
  then show thesis using f(2) that by simp
qed

theorem malloc_safe_witness:
  "\<exists>m a s'. umap heap_page (two_blocks m) malloc_sys \<and> lib_malloc test_env 100 malloc_sys = Some (a, s') \<and>
     delivers heap_page 100 (two_blocks m) [0x8000040, 0x8000070] a s'"
proof -
  obtain m where H: "heap_ok heap_page (two_blocks m) [0x8000040, 0x8000070] malloc_sys" and b: "h_brk malloc_sys = 0x8000090"
    by (rule malloc_sys_ok)
  have "range_of (h_brk malloc_sys + 100) 32 \<subseteq> heap_page" unfolding b using heap_page_sub [of 244 32] by simp
  moreover have "unat (h_brk malloc_sys) + unat (100 :: u64) + 32 \<le> unat HEAP_END" unfolding b by simp
  ultimately show ?thesis using malloc_safe [OF H] heap_okD(1) [OF H] by blast
qed

theorem malloc_first_fit_witness:
  "map_option fst (lib_malloc test_env 40 malloc_sys) = Some 0x8000000"
proof -
  obtain m where H: "heap_ok heap_page (two_blocks m) [0x8000040, 0x8000070] malloc_sys" and b: "h_brk malloc_sys = 0x8000090"
    by (rule malloc_sys_ok)
  have r: "range_of (h_brk malloc_sys + 40) 32 \<subseteq> heap_page" unfolding b using heap_page_sub [of 184 32] by simp
  have "unat (h_brk malloc_sys) + unat (40 :: u64) + 32 \<le> unat HEAP_END" unfolding b by simp
  from malloc_first_fit [OF H this r]
  have e: "map_option fst (lib_malloc test_env 40 malloc_sys) =
    Some (case find (fits 40 (info (two_blocks m))) (butlast [0x8000040, 0x8000070]) of None \<Rightarrow> h_brk malloc_sys
      | Some n \<Rightarrow> mi_address (info (two_blocks m) n))" .
  have "find (fits 40 (info (two_blocks m))) (butlast [0x8000040, 0x8000070]) = Some 0x8000040"
    by (simp add: fits_def two_blocks_info)
  then show ?thesis unfolding e by (simp add: two_blocks_info)
qed

theorem free_clears_witness:
  "\<exists>m m' s'. umap heap_page (two_blocks m) malloc_sys \<and> lib_free 0x8000060 malloc_sys = Some s' \<and>
     heap_ok heap_page m' [0x8000040, 0x8000070] s' \<and> mi_alloc (info m' 0x8000070) = 0 \<and> m' 0x8000065 = 0"
proof -
  obtain m where H: "heap_ok heap_page (two_blocks m) [0x8000040, 0x8000070] malloc_sys"
    by (rule malloc_sys_ok)
  let ?f = "info (two_blocks m)"
  have f: "find (\<lambda>k. mi_address (?f k) = 0x8000060) [0x8000040, 0x8000070] = Some 0x8000070" by (simp add: two_blocks_info)
  have z: "unat (mi_size (?f 0x8000070)) = 16" by (simp add: two_blocks_info)
  have r: "range_of 0x8000060 (unat (mi_size (?f 0x8000070))) \<subseteq> heap_page" unfolding z using heap_page_sub [of 96 16] by simp
  obtain m' s' where s': "lib_free 0x8000060 malloc_sys = Some s'" "heap_ok heap_page m' [0x8000040, 0x8000070] s'"
    "\<forall>k \<in> set [0x8000040, 0x8000070]. info m' k = (if k = 0x8000070 then (?f 0x8000070)\<lparr>mi_alloc := 0\<rparr> else ?f k)"
    "\<forall>x. m' x = (if x \<in> range_of 0x8000060 (unat (mi_size (?f 0x8000070))) \<or> x \<in> range_of (0x8000070 + 16) 4 then 0 else two_blocks m x)"
    using free_clears [OF H f r] by (elim exE conjE) (rule that)
  have "mi_alloc (info m' 0x8000070) = 0" using s'(3) by simp
  moreover have "0x8000060 + of_nat 5 \<in> range_of 0x8000060 16" by (rule range_memb) simp
  then have "m' (0x8000060 + of_nat 5) = 0" using s'(4) [rule_format, of "0x8000060 + of_nat 5"] unfolding z by (simp only: simp_thms if_True)
  then have "m' 0x8000065 = 0" by simp
  ultimately show ?thesis using heap_okD(1) [OF H] s'(1,2) by (intro exI conjI)
qed

end
