(* ===== verification/Shell.thy ===== *)
theory Shell
  imports Cd Malloc
begin

text \<open>
  The shell: \<^verbatim>\<open>bin/sbush/sbush.c\<close>, and the program \<^verbatim>\<open>bin/hello/hello.c\<close>.

  \<^verbatim>\<open>main\<close> never returns.  It is a step function between two points of the source, the prompt and the label \<^verbatim>\<open>start\<close> with the line
  to execute; \<open>sbush_run\<close> iterates it.  The lines of a script are executed by jumping from the script's loop to \<^verbatim>\<open>start\<close> and
  back to the label \<^verbatim>\<open>shebang\<close>; the variables of that loop keep their values across the jumps, as they do in the frame of
  the compiled \<^verbatim>\<open>main\<close>, and are the record \<open>shvars\<close>.

  While the shell waits for a child, other processes run; what they do until the shell goes on is the parameter \<open>k\<close>.  A
  child that has called \<^verbatim>\<open>execve\<close> runs another program, and the shell's code does not go on in it: the value is \<open>None\<close>.
\<close>

section \<open>Tables of arguments\<close>

text \<open>\<^verbatim>\<open>ans=malloc(n*sizeof(char*)); ans[0]=malloc(30); _strcpy_(binary,ans[0])\<close>, with either of the two allocators for the table
  and its first string.\<close>

definition put_arg :: "u64 \<Rightarrow> nat \<Rightarrow> u64 \<Rightarrow> 'a proc_scheme \<Rightarrow> 'a proc_scheme option" where
  "put_arg ans i a s = ustoren 8 (ans + 8 * of_nat i) a s"

definition fill_arg :: "u64 \<Rightarrow> nat \<Rightarrow> u64 \<Rightarrow> 'a proc_scheme \<Rightarrow> 'a proc_scheme option" where
  "fill_arg ans i src s = do {
     (a, s) \<leftarrow> arg_at ans i s;
     u_strcpy src a s
   }"

definition new_arg :: "kenv \<Rightarrow> u64 \<Rightarrow> nat \<Rightarrow> 'a uheap_scheme \<Rightarrow> 'a uheap_scheme option" where
  "new_arg env ans i s = do {
     (a, s) \<leftarrow> lib_malloc env 30 s;
     put_arg ans i a s
   }"

definition new_sb_arg :: "kenv \<Rightarrow> u64 \<Rightarrow> nat \<Rightarrow> 'a sysc_scheme \<Rightarrow> 'a sysc_scheme option" where
  "new_sb_arg env ans i s = do {
     (a, s) \<leftarrow> u_alloc env 30 s;
     put_arg ans i a s
   }"

text \<open>The loop of \<^verbatim>\<open>ls\<close> and \<^verbatim>\<open>cat\<close> that collects the words of the line; its value is \<^verbatim>\<open>nextToken\<close>.\<close>

partial_function (option) collect_args ::
  "kenv \<Rightarrow> (string \<Rightarrow> u64) \<Rightarrow> u64 \<Rightarrow> u64 \<Rightarrow> nat \<Rightarrow> 'a uheap_scheme \<Rightarrow> (u64 \<times> 'a uheap_scheme) option" where
  "collect_args env lit input ans i s =
     Option.bind (new_arg env ans i s) (\<lambda>s.
       Option.bind (u_split env lit (i + 1) input 32 s) (\<lambda>(nextToken, s).
         Option.bind (u_strcmp nextToken (lit '''') 0 s) (\<lambda>(r, s).
           if r = 0 then Some (nextToken, s)
           else Option.bind (fill_arg ans i nextToken s) (collect_args env lit input ans (i + 1)))))"

text \<open>The loop of \<^verbatim>\<open>echo\<close>.\<close>

partial_function (option) collect_echo ::
  "kenv \<Rightarrow> uglob \<Rightarrow> (string \<Rightarrow> u64) \<Rightarrow> u64 \<Rightarrow> u64 \<Rightarrow> nat \<Rightarrow> 'a uheap_scheme \<Rightarrow> (u64 \<times> 'a uheap_scheme) option" where
  "collect_echo env g lit input ans i s =
     Option.bind (new_arg env ans i s) (\<lambda>s.
       Option.bind (u_split env lit (i + 1) input 32 s) (\<lambda>(nextToken, s).
         Option.bind (uload nextToken s) (\<lambda>(c, s).
           if c = 0 then map_option (Pair nextToken) (fill_arg ans i (lit '''') s)
           else Option.bind (str_arg nextToken s) (\<lambda>(x, s).
             Option.bind (u_printf env g ''--%s--'' [x] s) (\<lambda>s.
               Option.bind (put_s env g (lit [CHR 0x0A, CHR 0x0A]) s) (\<lambda>s.
                 Option.bind (u_strcmp nextToken (lit '''') 0 s) (\<lambda>(r, s).
                   if r = 0 then map_option (Pair nextToken) (fill_arg ans i nextToken s)
                   else Option.bind (fill_arg ans i nextToken s) (collect_echo env g lit input ans (i + 1)))))))))"

section \<open>Running a program\<close>

definition fork_int :: "kenv \<Rightarrow> 'a sysc_scheme \<Rightarrow> (u32 \<times> 'a sysc_scheme) option" where
  "fork_int env s = do {
     (r, s) \<leftarrow> sb_fork env s;
     v \<leftarrow> ret_val r;
     Some (ucast v, s)
   }"

definition child_or_wait ::
  "kenv \<Rightarrow> ('a sysc_scheme \<Rightarrow> 'a sysc_scheme option) \<Rightarrow> u64 \<Rightarrow> u64 \<Rightarrow> u32 \<Rightarrow> 'a sysc_scheme \<Rightarrow> 'a sysc_scheme option" where
  "child_or_wait env k prog ans a s =
     (if a = 0
      then do {
        (r, s) \<leftarrow> sb_execve env prog ans 0 s;
        v \<leftarrow> ret_val r;
        Some s
      }
      else do {
        (r, s) \<leftarrow> sb_waitpid env (scast a) 0 0 s;
        case r of Ret v \<Rightarrow> Some s | Away \<Rightarrow> k s
      })"

definition sh_ls ::
  "kenv \<Rightarrow> uglob \<Rightarrow> (string \<Rightarrow> u64) \<Rightarrow> ('a uheap_scheme \<Rightarrow> 'a uheap_scheme option) \<Rightarrow> u64 \<Rightarrow> u64 \<Rightarrow> 'a uheap_scheme \<Rightarrow> 'a uheap_scheme option"
where
  "sh_ls env g lit k binary input s = do {
     (ans, s) \<leftarrow> lib_malloc env (100 * 8) s;
     s \<leftarrow> new_arg env ans 0 s;
     s \<leftarrow> fill_arg ans 0 binary s;
     (nextToken, s) \<leftarrow> lib_malloc env 30 s;
     (nextToken, s) \<leftarrow> collect_args env lit input ans 1 s;
     (a, s) \<leftarrow> arg_at ans 1 s;
     (r, s) \<leftarrow> u_strcmp a (lit '''') 0 s;
     s \<leftarrow> (if r = 0 then Option.bind (fill_arg ans 1 (g_pwd g) s) (put_arg ans 2 (lit '''')) else Some s);
     (a, s) \<leftarrow> fork_int env s;
     s \<leftarrow> child_or_wait env k (lit ''bin/ls'') ans a s;
     s \<leftarrow> put_s env g (lit ''done'') s;
     s \<leftarrow> lib_free ans s;
     lib_free nextToken s
   }"

definition sh_pwd :: "kenv \<Rightarrow> uglob \<Rightarrow> 'a ulib_scheme \<Rightarrow> 'a ulib_scheme option" where
  "sh_pwd env g s = do {
     s \<leftarrow> u_printf env g '' : '' [] s;
     put_s env g (g_pwd g) s
   }"

definition sh_ps ::
  "kenv \<Rightarrow> (string \<Rightarrow> u64) \<Rightarrow> ('a uheap_scheme \<Rightarrow> 'a uheap_scheme option) \<Rightarrow> 'a uheap_scheme \<Rightarrow> 'a uheap_scheme option" where
  "sh_ps env lit k s = do {
     (ans, s) \<leftarrow> lib_malloc env (100 * 8) s;
     s \<leftarrow> new_arg env ans 0 s;
     s \<leftarrow> fill_arg ans 0 (lit ''ps'') s;
     s \<leftarrow> new_arg env ans 1 s;
     s \<leftarrow> put_arg ans 1 (lit '''') s;
     (a, s) \<leftarrow> fork_int env s;
     s \<leftarrow> child_or_wait env k (lit ''bin/ps'') ans a s;
     lib_free ans s
   }"

definition sh_cat ::
  "kenv \<Rightarrow> (string \<Rightarrow> u64) \<Rightarrow> ('a uheap_scheme \<Rightarrow> 'a uheap_scheme option) \<Rightarrow> u64 \<Rightarrow> u64 \<Rightarrow> 'a uheap_scheme \<Rightarrow> 'a uheap_scheme option" where
  "sh_cat env lit k binary input s = do {
     (ans, s) \<leftarrow> lib_malloc env (100 * 8) s;
     s \<leftarrow> new_arg env ans 0 s;
     s \<leftarrow> fill_arg ans 0 binary s;
     (nextToken, s) \<leftarrow> lib_malloc env 30 s;
     (nextToken, s) \<leftarrow> collect_args env lit input ans 1 s;
     (a, s) \<leftarrow> fork_int env s;
     s \<leftarrow> child_or_wait env k (lit ''bin/cat'') ans a s;
     s \<leftarrow> lib_free ans s;
     lib_free nextToken s
   }"

definition sh_sleep ::
  "kenv \<Rightarrow> (string \<Rightarrow> u64) \<Rightarrow> ('a uheap_scheme \<Rightarrow> 'a uheap_scheme option) \<Rightarrow> u64 \<Rightarrow> u64 \<Rightarrow> 'a uheap_scheme \<Rightarrow> 'a uheap_scheme option" where
  "sh_sleep env lit k binary input s = do {
     (ans, s) \<leftarrow> u_alloc env (100 * 8) s;
     s \<leftarrow> new_arg env ans 0 s;
     s \<leftarrow> fill_arg ans 0 binary s;
     (nextToken, s) \<leftarrow> lib_malloc env 30 s;
     s \<leftarrow> new_arg env ans 1 s;
     (nextToken, s) \<leftarrow> u_split env lit 2 input 32 s;
     s \<leftarrow> fill_arg ans 1 nextToken s;
     s \<leftarrow> new_arg env ans 2 s;
     s \<leftarrow> fill_arg ans 2 (lit '''') s;
     (a, s) \<leftarrow> fork_int env s;
     s \<leftarrow> child_or_wait env k (lit ''bin/sleep'') ans a s;
     s \<leftarrow> lib_free ans s;
     lib_free nextToken s
   }"

definition sh_echo ::
  "kenv \<Rightarrow> uglob \<Rightarrow> (string \<Rightarrow> u64) \<Rightarrow> ('a uheap_scheme \<Rightarrow> 'a uheap_scheme option) \<Rightarrow> u64 \<Rightarrow> u64 \<Rightarrow> 'a uheap_scheme \<Rightarrow> 'a uheap_scheme option"
where
  "sh_echo env g lit k binary input s = do {
     (ans, s) \<leftarrow> lib_malloc env (50 * 8) s;
     s \<leftarrow> new_arg env ans 0 s;
     s \<leftarrow> fill_arg ans 0 binary s;
     (nextToken, s) \<leftarrow> lib_malloc env 30 s;
     (nextToken, s) \<leftarrow> collect_echo env g lit input ans 1 s;
     (a, s) \<leftarrow> fork_int env s;
     s \<leftarrow> put_s env g (lit ([CHR 0x0A] @ ''here in fork'' @ [CHR 0x0A])) s;
     s \<leftarrow> child_or_wait env k (lit ''bin/echo'') ans a s;
     s \<leftarrow> lib_free ans s;
     lib_free nextToken s
   }"

section \<open>Changing the directory\<close>

text \<open>\<^verbatim>\<open>_strcpy_("/rootfs",pwd); _strcpy_(newpwd,&pwd[7])\<close>.\<close>

definition set_pwd :: "uglob \<Rightarrow> (string \<Rightarrow> u64) \<Rightarrow> u64 \<Rightarrow> 'a proc_scheme \<Rightarrow> 'a proc_scheme option" where
  "set_pwd g lit newpwd s = do {
     s \<leftarrow> u_strcpy (lit ''/rootfs'') (g_pwd g) s;
     u_strcpy newpwd (g_pwd g + 7) s
   }"

text \<open>The call of the kernel for a path that is not the root, and what follows from its answer.\<close>

definition enter_dir ::
  "kenv \<Rightarrow> uglob \<Rightarrow> (string \<Rightarrow> u64) \<Rightarrow> u64 \<Rightarrow> u64 \<Rightarrow> u64 \<Rightarrow> 'a sysc_scheme \<Rightarrow> 'a sysc_scheme option" where
  "enter_dir env g lit path newpwd oldpwd s = do {
     (r, s) \<leftarrow> u_chdir env 0x0C path s;
     v \<leftarrow> ret_val r;
     if v \<noteq> 0 then set_pwd g lit newpwd s else u_strcpy oldpwd (g_pwd g) s
   }"

definition sh_cd :: "kenv \<Rightarrow> uglob \<Rightarrow> (string \<Rightarrow> u64) \<Rightarrow> u64 \<Rightarrow> 'a sysc_scheme \<Rightarrow> 'a sysc_scheme option" where
  "sh_cd env g lit input s = do {
     (nextToken, s) \<leftarrow> u_split env lit 2 input 32 s;
     (newpwd, s) \<leftarrow> u_alloc env 30 s;
     (oldpwd, s) \<leftarrow> u_alloc env 30 s;
     s \<leftarrow> u_strcpy (g_pwd g) oldpwd s;
     (newpwd, s) \<leftarrow> lib_cd env lit (g_pwd g) nextToken s;
     (storedpwd, s) \<leftarrow> u_alloc env 30 s;
     (c, s) \<leftarrow> uload newpwd s;
     (c', s) \<leftarrow> (if c = slash then uload (newpwd + 1) s else Some (0, s));
     s \<leftarrow> (if c = slash \<and> c' = slash
          then do {
            (temp, s) \<leftarrow> u_alloc env 30 s;
            let temp1 = temp + 1;
            s \<leftarrow> u_strcpy newpwd temp s;
            u_strcpy temp1 newpwd s
          }
          else Some s);
     (c, s) \<leftarrow> uload newpwd s;
     s \<leftarrow> (if c \<noteq> slash
          then do {
            (temp, s) \<leftarrow> u_alloc env 30 s;
            let temp1 = temp + 1;
            s \<leftarrow> ustore temp slash s;
            s \<leftarrow> u_strcpy newpwd temp1 s;
            u_strcpy temp newpwd s
          }
          else Some s);
     s \<leftarrow> u_strcpy newpwd storedpwd s;
     (dupnewpwd, s) \<leftarrow> u_alloc env 30 s;
     s \<leftarrow> u_strcpy newpwd dupnewpwd s;
     (firstToken, s) \<leftarrow> u_split env lit 1 dupnewpwd slash s;
     (checkifDir, s) \<leftarrow> u_alloc env 30 s;
     s \<leftarrow> u_strcpy newpwd checkifDir s;
     (r, s) \<leftarrow> u_strcmp firstToken (lit ''rootfs'') 6 s;
     s \<leftarrow> (if r = 0 then u_strcpy (checkifDir + 7) newpwd s else Some s);
     (c, s) \<leftarrow> uload newpwd s;
     (n, s) \<leftarrow> (if c = slash then u_strlen newpwd s else Some (0, s));
     if c = slash \<and> n = 1 then set_pwd g lit newpwd s
     else do {
       (c, s) \<leftarrow> uload newpwd s;
       if c = slash then enter_dir env g lit (newpwd + 1) newpwd oldpwd s else enter_dir env g lit newpwd newpwd oldpwd s
     }
   }"

section \<open>Scripts\<close>

record shvars =
  flag1 :: bool
  i1 :: nat
  sh_ans :: u64

text \<open>\<^verbatim>\<open>while (nextToken[ll-1]==' ') ll--\<close>.\<close>

partial_function (option) trim_loop :: "u64 \<Rightarrow> int \<Rightarrow> 'a proc_scheme \<Rightarrow> (int \<times> 'a proc_scheme) option" where
  "trim_loop t ll s =
     Option.bind (uload (t + of_int (ll - 1)) s) (\<lambda>(c, s). if c = 32 then trim_loop t (ll - 1) s else Some (ll, s))"

text \<open>The body of the script's loop up to the jump: the next line to execute, or \<open>None\<close> at the end of the script.\<close>

definition script_line ::
  "kenv \<Rightarrow> uglob \<Rightarrow> (string \<Rightarrow> u64) \<Rightarrow> shvars \<Rightarrow> 'a sysc_scheme \<Rightarrow> (u64 option \<times> shvars \<times> 'a sysc_scheme) option" where
  "script_line env g lit v s = do {
     let v = v\<lparr>flag1 := True\<rparr>;
     s \<leftarrow> new_sb_arg env (sh_ans v) (i1 v) s;
     (nextToken, s) \<leftarrow> u_split env lit (i1 v + 1) (g_buf g) 10 s;
     (r, s) \<leftarrow> u_strcmp nextToken (lit '''') 0 s;
     if r = 0 then Some (None, v\<lparr>flag1 := False\<rparr>, s)
     else do {
       s \<leftarrow> fill_arg (sh_ans v) (i1 v) nextToken s;
       (a, s) \<leftarrow> arg_at (sh_ans v) (i1 v) s;
       (n, s) \<leftarrow> u_strlen a s;
       (ll, s) \<leftarrow> trim_loop nextToken (int n) s;
       (input, s) \<leftarrow> u_alloc env 30 s;
       (input, s) \<leftarrow> arg_at (sh_ans v) (i1 v) s;
       Some (Some input, v, s)
     }
   }"

definition sh_script ::
  "kenv \<Rightarrow> uglob \<Rightarrow> (string \<Rightarrow> u64) \<Rightarrow> u64 \<Rightarrow> u64 \<Rightarrow> shvars \<Rightarrow> 'a ulib_scheme \<Rightarrow> (u64 option \<times> shvars \<times> 'a ulib_scheme) option" where
  "sh_script env g lit binary input v s = do {
     (ans, s) \<leftarrow> u_alloc env (100 * 8) s;
     s \<leftarrow> new_sb_arg env ans 0 s;
     s \<leftarrow> fill_arg ans 0 binary s;
     (nextToken, s) \<leftarrow> u_alloc env 30 s;
     s \<leftarrow> new_sb_arg env ans 1 s;
     (nextToken, s) \<leftarrow> u_split env lit 2 input 32 s;
     s \<leftarrow> fill_arg ans 1 nextToken s;
     (a, s) \<leftarrow> arg_at ans 1 s;
     s \<leftarrow> u_strcpy a (g_temp g) s;
     s \<leftarrow> put_s env g (g_temp g) s;
     (retfile, s) \<leftarrow> u_alloc env 30 s;
     (a, s) \<leftarrow> arg_at ans 1 s;
     (retfile, s) \<leftarrow> lib_shell env g a s;
     (line, s) \<leftarrow> u_alloc env 30 s;
     s \<leftarrow> u_strcpy retfile line s;
     (line, s) \<leftarrow> u_split env lit 1 (g_buf g) 10 s;
     s \<leftarrow> put_s env g line s;
     (r, s) \<leftarrow> u_strcmp line (lit ''#!sbush'') 7 s;
     if r = 0
     then do {
       (ans, s) \<leftarrow> u_alloc env (100 * 8) s;
       s \<leftarrow> new_sb_arg env ans 0 s;
       s \<leftarrow> fill_arg ans 0 line s;
       s \<leftarrow> put_s env g line s;
       s \<leftarrow> put_s env g (lit [CHR 0x0A]) s;
       (nextToken, s) \<leftarrow> u_alloc env 30 s;
       script_line env g lit (v\<lparr>i1 := 1, sh_ans := ans\<rparr>) s
     }
     else Some (None, v, s)
   }"

section \<open>The main loop\<close>

text \<open>From the label \<^verbatim>\<open>start\<close> to the end of the chain of commands; a line to execute is a jump back to \<^verbatim>\<open>start\<close>.\<close>

definition sh_command ::
  "kenv \<Rightarrow> uglob \<Rightarrow> (string \<Rightarrow> u64) \<Rightarrow> ('a uheap_scheme \<Rightarrow> 'a uheap_scheme option) \<Rightarrow> u64 \<Rightarrow> shvars \<Rightarrow> 'a uheap_scheme \<Rightarrow>
     (u64 option \<times> shvars \<times> 'a uheap_scheme) option" where
  "sh_command env g lit k input v s = do {
     let done = map_option (\<lambda>s. (None, v, s));
     (binary, s) \<leftarrow> u_split env lit 1 input 32 s;
     (r, s) \<leftarrow> u_strcmp binary (lit ''ls'') 0 s;
     if r = 0 then done (sh_ls env g lit k binary input s)
     else do {
       (r, s) \<leftarrow> u_strcmp input (lit ''pwd '') 0 s;
       if r = 0 then done (sh_pwd env g s)
       else do {
         (r, s) \<leftarrow> u_strcmp input (lit ''ps '') 0 s;
         if r = 0 then done (sh_ps env lit k s)
         else do {
           (r, s) \<leftarrow> u_strcmp binary (lit ''cat'') 0 s;
           if r = 0 then done (sh_cat env lit k binary input s)
           else do {
             (r, s) \<leftarrow> u_strcmp binary (lit ''sleep'') 0 s;
             if r = 0 then done (sh_sleep env lit k binary input s)
             else do {
               (r, s) \<leftarrow> u_strcmp binary (lit ''echo'') 0 s;
               if r = 0 then done (sh_echo env g lit k binary input s)
               else do {
                 (r, s) \<leftarrow> u_strcmp binary (lit ''cd'') 0 s;
                 if r = 0 then done (sh_cd env g lit input s)
                 else do {
                   (r, s) \<leftarrow> u_strstr input (lit ''.sh'') s;
                   if r \<noteq> 0 then sh_script env g lit binary input v s else Some (None, v, s)
                 }
               }
             }
           }
         }
       }
     }
   }"

definition sh_prompt :: "kenv \<Rightarrow> uglob \<Rightarrow> 'a uheap_scheme \<Rightarrow> (u64 \<times> 'a uheap_scheme) option" where
  "sh_prompt env g s = do {
     (x, s) \<leftarrow> str_arg (g_pwd g) s;
     s \<leftarrow> u_printf env g ''sbush: %s $'' [x] s;
     (input, s) \<leftarrow> lib_malloc env 30 s;
     (r, s) \<leftarrow> u_gets env input s;
     (binary, s) \<leftarrow> lib_malloc env 30 s;
     Some (input, s)
   }"

text \<open>The end of the loop's body, after a command: the next line of a script, or the prompt.\<close>

definition sh_after ::
  "kenv \<Rightarrow> uglob \<Rightarrow> (string \<Rightarrow> u64) \<Rightarrow> shvars \<Rightarrow> 'a sysc_scheme \<Rightarrow> (u64 option \<times> shvars \<times> 'a sysc_scheme) option" where
  "sh_after env g lit v s = do {
     s \<leftarrow> put_s env g (lit [CHR 0x0A]) s;
     if flag1 v
     then do {
       (at, v, s) \<leftarrow> script_line env g lit (v\<lparr>i1 := i1 v + 1\<rparr>) s;
       case at of
         Some input \<Rightarrow> Some (Some input, v, s)
       | None \<Rightarrow> map_option (\<lambda>s. (None, v, s)) (put_s env g (lit [CHR 0x0A]) s)
     }
     else Some (None, v, s)
   }"

definition sh_step ::
  "kenv \<Rightarrow> uglob \<Rightarrow> (string \<Rightarrow> u64) \<Rightarrow> ('a uheap_scheme \<Rightarrow> 'a uheap_scheme option) \<Rightarrow> u64 option \<times> shvars \<times> 'a uheap_scheme \<Rightarrow>
     (u64 option \<times> shvars \<times> 'a uheap_scheme) option" where
  "sh_step env g lit k = (\<lambda>(at, v, s).
     case at of
       None \<Rightarrow> map_option (\<lambda>(input, s). (Some input, v, s)) (sh_prompt env g s)
     | Some input \<Rightarrow> Option.bind (sh_command env g lit k input v s) (\<lambda>(at, v, s).
         case at of Some input \<Rightarrow> Some (Some input, v, s) | None \<Rightarrow> sh_after env g lit v s))"

fun sbush_run ::
  "kenv \<Rightarrow> uglob \<Rightarrow> (string \<Rightarrow> u64) \<Rightarrow> ('a uheap_scheme \<Rightarrow> 'a uheap_scheme option) \<Rightarrow> nat \<Rightarrow> u64 option \<times> shvars \<times> 'a uheap_scheme \<Rightarrow>
     (u64 option \<times> shvars \<times> 'a uheap_scheme) option" where
  "sbush_run env g lit k 0 x = Some x"
| "sbush_run env g lit k (Suc n) x = Option.bind (sh_step env g lit k x) (sbush_run env g lit k n)"

text \<open>\<^verbatim>\<open>main\<close> after \<open>n\<close> steps.\<close>

definition sbush_main ::
  "kenv \<Rightarrow> uglob \<Rightarrow> (string \<Rightarrow> u64) \<Rightarrow> ('a uheap_scheme \<Rightarrow> 'a uheap_scheme option) \<Rightarrow> nat \<Rightarrow> 'a uheap_scheme \<Rightarrow>
     (u64 option \<times> shvars \<times> 'a uheap_scheme) option" where
  "sbush_main env g lit k n s =
     Option.bind (sb_pwd env g 0 s) (\<lambda>s. sbush_run env g lit k n (None, \<lparr>flag1 = False, i1 = 0, sh_ans = 0\<rparr>, s))"

section \<open>The program hello\<close>

text \<open>It takes a line apart as the shell does and then loops for ever; its value is the state in that loop.\<close>

partial_function (option) hello_loop :: "kenv \<Rightarrow> (string \<Rightarrow> u64) \<Rightarrow> u64 \<Rightarrow> u64 \<Rightarrow> nat \<Rightarrow> 'a sysc_scheme \<Rightarrow> 'a sysc_scheme option" where
  "hello_loop env lit aa ans i s =
     Option.bind (u_alloc env 20 s) (\<lambda>(a, s).
       Option.bind (put_arg ans i a s) (\<lambda>s.
         Option.bind (u_split env lit (i + 1) aa 32 s) (\<lambda>(token, s).
           Option.bind (u_strcmp token (lit '''') 0 s) (\<lambda>(r, s).
             if r = 0 then Some s
             else Option.bind (fill_arg ans i token s) (hello_loop env lit aa ans (i + 1))))))"

definition hello_main :: "kenv \<Rightarrow> (string \<Rightarrow> u64) \<Rightarrow> 'a sysc_scheme \<Rightarrow> 'a sysc_scheme option" where
  "hello_main env lit s = do {
     (aa, s) \<leftarrow> u_alloc env 100 s;
     (r, s) \<leftarrow> u_gets env aa s;
     (ans, s) \<leftarrow> u_alloc env (100 * 8) s;
     (token, s) \<leftarrow> u_alloc env 20 s;
     (a, s) \<leftarrow> u_alloc env 20 s;
     s \<leftarrow> put_arg ans 0 a s;
     (token, s) \<leftarrow> u_split env lit 1 aa 32 s;
     s \<leftarrow> fill_arg ans 0 token s;
     hello_loop env lit aa ans 1 s
   }"

section \<open>A line for the shell\<close>

text \<open>The literals that the chain of commands compares with, and the newline.\<close>

definition sh_lits :: "string list" where
  "sh_lits = [[CHR 0x0A], ''ls'', ''pwd '', ''ps '', ''cat'', ''sleep'', ''echo'', ''cd'', ''.sh'']"

definition lits_at :: "u64 set \<Rightarrow> bmem \<Rightarrow> (string \<Rightarrow> u64) \<Rightarrow> bool" where
  "lits_at A m lit \<longleftrightarrow> (\<forall>l \<in> set sh_lits. cstr m (lit l) (str l) \<and> str_of (lit l) (str l) \<subseteq> A)"

lemma lits_atD:
  assumes "lits_at A m lit" "l \<in> set sh_lits"
  shows "cstr m (lit l) (str l)" "str_of (lit l) (str l) \<subseteq> A"
  using assms by (simp_all only: lits_at_def)

text \<open>What neither the tokenizer nor the output writes.\<close>

abbreviation calm :: "u64 set \<Rightarrow> uglob \<Rightarrow> u64 \<Rightarrow> u64 \<Rightarrow> u8 list \<Rightarrow> u64 set" where
  "calm A g B input cs \<equiv> A - out_mem g - heap_of B - {input + of_nat (length cs)}"

text \<open>The shell at the label \<^verbatim>\<open>start\<close> with a line that the tokenizer can take apart.\<close>

definition line_ready ::
  "u64 set \<Rightarrow> uglob \<Rightarrow> (string \<Rightarrow> u64) \<Rightarrow> bmem \<Rightarrow> u64 \<Rightarrow> u64 \<Rightarrow> u8 list \<Rightarrow> 'a ulib_scheme \<Rightarrow> bool" where
  "line_ready A g lit m B input cs s \<longleftrightarrow> prog_ok A m B s \<and> filled A g [] s \<and> splittable A m B (lit '''') input cs \<and>
     lits_at (calm A g B input cs) m lit \<and> g_p g + 1 \<notin> insert (input + of_nat (length cs)) (heap_of B) \<and>
     work 32 cs \<noteq> [] \<and> length (tokens 32 cs) \<le> 10 \<and> (\<forall>t \<in> set (tokens 32 cs). length t < 20) \<and> tokens 32 cs ! 0 \<noteq> []"

lemma line_split:
  assumes "line_ready A g lit m B input cs s"
  obtains p m' t where "u_split env lit 1 input 32 s = Some (p, t)" "umap A m' t" "cstr m' p (tokens 32 cs ! 0)" "str_of p (tokens 32 cs ! 0) \<subseteq> A"
    "cstr m' input (cs @ [32])" "str_of input (cs @ [32]) \<subseteq> A" "filled A g [] t" "screen t = screen s"
    "\<And>x. x \<in> calm A g B input cs \<Longrightarrow> m' x = m x"
proof -
  note L = assms [unfolded line_ready_def]
  have r: "prog_ok A m B s" "splittable A m B (lit '''') input cs" "(32 :: u8) \<noteq> 0" "work 32 cs \<noteq> []" "length (tokens 32 cs) \<le> 10"
    "\<forall>t \<in> set (tokens 32 cs). length t < 20" "(1 :: nat) \<le> 1" "1 < max 2 (length (tokens 32 cs))" "tokens 32 cs ! (1 - 1) \<noteq> []"
    using L by simp_all
  from u_split_step [where lit = lit and n = 1 and env = env, OF r(1-3,4-9)]
  obtain p m' t where t: "u_split env lit 1 input 32 s = Some (p, t)" "prog_ok A m' (B + 360) t" "cstr m' p (tokens 32 cs ! (1 - 1))"
    "str_of p (tokens 32 cs ! (1 - 1)) \<subseteq> heap_of B" "cstr m' input (cs @ [32])"
    "\<forall>x. x \<notin> heap_of B \<longrightarrow> x \<noteq> input + of_nat (length cs) \<longrightarrow> m' x = m x" "outside t = outside s"
    by (elim exE conjE) (rule that)
  have "m' (g_p g + 1) = m (g_p g + 1)" using t(6) L by blast
  then have "filled A g [] t"
    using filled_umap [OF L [THEN conjunct2, THEN conjunct1] prog_okD(1) [OF r(1)] prog_okD(1) [OF t(2)] prog_okD(2) [OF t(2)]] t(7)
    by (simp add: outside_def)
  moreover have "str_of p (tokens 32 cs ! 0) \<subseteq> A" using t(4) splittableD(4) [OF r(2)] by (simp add: order_trans)
  moreover have "str_of input (cs @ [32]) \<subseteq> A" using splittableD(8) [OF r(2)] by auto
  moreover have "screen t = screen s" using t(7) by (simp add: outside_def)
  moreover have "m' x = m x" if "x \<in> calm A g B input cs" for x using t(6) that by simp
  ultimately show ?thesis using t(1,3,5) prog_okD(1) [OF t(2)] by (intro that [of p t m']) simp_all
qed

lemma lits_keep:
  assumes "lits_at (calm A g B input cs) m lit" "\<And>x. x \<in> calm A g B input cs \<Longrightarrow> m' x = m x"
  shows "lits_at (calm A g B input cs) m' lit"
  unfolding lits_at_def
proof (intro ballI conjI)
  fix l assume "l \<in> set sh_lits"
  then have l: "cstr m (lit l) (str l)" "str_of (lit l) (str l) \<subseteq> calm A g B input cs" using assms(1) by (simp_all add: lits_at_def)
  show "cstr m' (lit l) (str l)"
    by (rule cstr_cong [OF l(1)], rule assms(2), rule subsetD [OF l(2)], rule range_memb) simp
  show "str_of (lit l) (str l) \<subseteq> calm A g B input cs" by (rule l(2))
qed

lemma lit_compare:
  assumes "lits_at K m lit" "K \<subseteq> A" "umap A m s" "cstr m a cs" "str_of a cs \<subseteq> A" "l \<in> set sh_lits"
  shows "u_strcmp a (lit l) 0 s = Some (if cs = str l then 0 else - 1, s)"
proof -
  have l: "cstr m (lit l) (str l)" "str_of (lit l) (str l) \<subseteq> A" using assms(1,2,6) unfolding lits_at_def by blast+
  show ?thesis by (rule ustr.cmp_whole [where A = A and m = m]) (use assms(3-5) l in blast)+
qed

text \<open>The comparison of \<^verbatim>\<open>sbush\<close> with \<^verbatim>\<open>#!sbush\<close> accepts every line of seven characters.\<close>

lemma shebang_any_line:
  assumes "umap A m s" "cstr m a cs" "str_of a cs \<subseteq> A" "cstr m b (str ''#!sbush'')" "str_of b (str ''#!sbush'') \<subseteq> A" "length cs = 7"
  shows "u_strcmp a b 7 s = Some (0, s)"
  using ustr.cmp_end [where A = A and m = m and s = s and a = a and cs = cs and b = b and ds = "str ''#!sbush''"] assms by simp

text \<open>Output of a string that output does not touch.\<close>

lemma put_s_keeps:
  assumes "filled A g [] s" "umap (A - out_mem g) m s" "cstr m a cs" "str_of a cs \<subseteq> A - out_mem g" "cs \<noteq> []" "37 \<notin> set cs"
  obtains s' where "put_s env g a s = Some s'" "filled A g [] s'" "umap (A - out_mem g) m s'" "screen s' = fold show_char cs (screen s)"
proof -
  have R: "out_ready A g s" using assms(1) by (simp add: filled_def)
  have "str_of a cs \<subseteq> A - {g_p g}" using assms(4) by auto
  then have "out_string A g a cs s"
    using cstr_ustring [OF assms(2,4)] assms(3) by (simp add: out_string_def)
  then obtain s' where s': "put_s env g a s = Some s'" "quiet A (g_p g) s s'" "screen s' = fold show_char cs (screen s)"
    using put_s_ok [OF R _ assms(5,6)] by blast
  have F: "filled A g [] s'"
    using ulib_more [OF quietD(3) [OF s'(2)]] out_ready_quiet [OF R s'(2)] assms(1) by (simp add: filled_def)
  have "\<forall>w \<in> A - range_of (g_buffer g) 512 - {g_p g}. vload_byte w s' = vload_byte w s" using quietD(4) [OF s'(2)] by simp
  then have "umap (A - out_mem g) m s'" by (rule printf_keeps [OF assms(2) F])
  then show ?thesis using s'(1,3) F by (intro that)
qed

text \<open>The end of a command that is not part of a script.\<close>

lemma sh_after_ok:
  assumes "filled A g [] s" "umap (A - out_mem g) m s" "lits_at K m lit" "K \<subseteq> A - out_mem g" "\<not> flag1 v"
  shows "\<exists>s'. sh_after env g lit v s = Some (None, v, s') \<and> screen s' = show_char 10 (screen s)"
proof -
  have "[CHR 0x0A] \<in> set sh_lits" by (simp add: sh_lits_def)
  note D = lits_atD [OF assms(3) this]
  have l: "cstr m (lit [CHR 0x0A]) [10]" using D(1) by simp
  have "str_of (lit [CHR 0x0A]) [10 :: u8] = str_of (lit [CHR 0x0A]) (str [CHR 0x0A])" by simp
  note l = l order_trans [OF ord_eq_le_trans [OF this D(2)] assms(4)]
  obtain s' where s': "put_s env g (lit [CHR 0x0A]) s = Some s'" "screen s' = fold show_char [10] (screen s)"
    by (rule put_s_keeps [OF assms(1,2) l]) (auto intro: that)
  then show ?thesis using assms(5) by (simp add: sh_after_def)
qed

lemma calm_sub: "calm A g B input cs \<subseteq> A" "calm A g B input cs \<subseteq> A - out_mem g"
  by blast+

lemma sh_pwd_ok:
  assumes "filled A g [] s" "umap (A - out_mem g) m s" "cstr m (g_pwd g) pw" "str_of (g_pwd g) pw \<subseteq> A - out_mem g" "pw \<noteq> []" "37 \<notin> set pw"
  obtains s' where "sh_pwd env g s = Some s'" "filled A g [] s'" "umap (A - out_mem g) m s'" "screen s' = fold show_char (str '' : '' @ pw) (screen s)"
proof -
  obtain t where t: "u_printf env g '' : '' [] s = Some t" "screen t = fold show_char (str '' : '') (screen s)" "filled A g [] t"
    "\<forall>w \<in> A - range_of (g_buffer g) 512 - {g_p g}. vload_byte w t = vload_byte w s"
    using u_printf_ok [OF assms(1), of "'' : ''" "[]" env] by (auto simp: plain_args_def)
  obtain s' where "put_s env g (g_pwd g) t = Some s'" "filled A g [] s'" "umap (A - out_mem g) m s'" "screen s' = fold show_char pw (screen t)"
    by (rule put_s_keeps [OF t(3) printf_keeps [OF assms(2) t(3,4)] assms(3-6)]) (rule that)
  then show ?thesis using t(1,2) by (intro that [of s']) (simp_all add: sh_pwd_def)
qed

text \<open>C40. The line \<^verbatim>\<open>pwd\<close>: the shell shows the working directory and a newline, and is back at the prompt.  The comparison succeeds because
  the tokenizer has appended a separator to the line.\<close>

theorem shell_shows_directory:
  assumes "line_ready A g lit m B input (str ''pwd'') s" "cstr m (g_pwd g) pw" "str_of (g_pwd g) pw \<subseteq> calm A g B input (str ''pwd'')"
    and "pw \<noteq> []" "37 \<notin> set pw" "\<not> flag1 v"
  shows "\<exists>s'. sh_step env g lit k (Some input, v, s) = Some (None, v, s') \<and> screen s' = fold show_char (str '' : '' @ pw @ [10]) (screen s)"
proof -
  let ?cs = "str ''pwd''"
  let ?K = "calm A g B input ?cs"
  obtain p m1 t where t: "u_split env lit 1 input 32 s = Some (p, t)" "umap A m1 t" "cstr m1 p (tokens 32 ?cs ! 0)"
    "str_of p (tokens 32 ?cs ! 0) \<subseteq> A" "cstr m1 input (?cs @ [32])" "str_of input (?cs @ [32]) \<subseteq> A" "filled A g [] t" "screen t = screen s"
    "\<And>x. x \<in> ?K \<Longrightarrow> m1 x = m x"
    by (rule line_split [OF assms(1), of env]) (rule that)
  have L: "lits_at ?K m1 lit" by (rule lits_keep [OF _ t(9)]) (use assms(1) in \<open>simp_all add: line_ready_def\<close>)
  note cmp = lit_compare [OF L calm_sub(1) t(2)]
  have tok: "tokens 32 ?cs ! 0 = ?cs" by (simp add: tokens_def work_def)
  have c1: "u_strcmp p (lit ''ls'') 0 t = Some (- 1, t)" using cmp [OF t(3,4), of "''ls''"] tok by (simp add: sh_lits_def)
  have c2: "u_strcmp input (lit ''pwd '') 0 t = Some (0, t)" using cmp [OF t(5,6), of "''pwd ''"] by (simp add: sh_lits_def)
  have u: "umap (A - out_mem g) m1 t" by (rule umap_sub [OF t(2)]) blast
  have pw: "cstr m1 (g_pwd g) pw"
  proof (rule cstr_cong [OF assms(2)])
    fix i assume "i \<le> length pw"
    then show "m1 (g_pwd g + of_nat i) = m (g_pwd g + of_nat i)"
      by (intro t(9) subsetD [OF assms(3)] range_memb) simp
  qed
  note pw = pw order_trans [OF assms(3) calm_sub(2)]
  obtain t' where t': "sh_pwd env g t = Some t'" "filled A g [] t'" "umap (A - out_mem g) m1 t'" "screen t' = fold show_char (str '' : '' @ pw) (screen t)"
    by (rule sh_pwd_ok [OF t(7) u pw assms(4,5)]) (rule that)
  obtain s' where "sh_after env g lit v t' = Some (None, v, s')" "screen s' = show_char 10 (screen t')"
    using sh_after_ok [OF t'(2,3) L calm_sub(2) assms(6)] by blast
  then show ?thesis using t(1,8) c1 c2 t'(1,4) by (simp add: sh_step_def sh_command_def)
qed

text \<open>A line whose first word is no command, and that does not name a script, is ignored without a message: only a newline is
  shown.\<close>

theorem shell_ignores_unknown:
  assumes "line_ready A g lit m B input cs s" "tokens 32 cs ! 0 \<notin> str ` {''ls'', ''cat'', ''sleep'', ''echo'', ''cd''}"
    and "cs @ [32] \<notin> {str ''pwd '', str ''ps ''}" "\<nexists>us vs. vs \<noteq> [] \<and> cs @ [32] = us @ str ''.sh'' @ vs" "\<not> flag1 v"
  shows "\<exists>s'. sh_step env g lit k (Some input, v, s) = Some (None, v, s') \<and> screen s' = show_char 10 (screen s)"
proof -
  let ?K = "calm A g B input cs"
  obtain p m1 t where t: "u_split env lit 1 input 32 s = Some (p, t)" "umap A m1 t" "cstr m1 p (tokens 32 cs ! 0)"
    "str_of p (tokens 32 cs ! 0) \<subseteq> A" "cstr m1 input (cs @ [32])" "str_of input (cs @ [32]) \<subseteq> A" "filled A g [] t" "screen t = screen s"
    "\<And>x. x \<in> ?K \<Longrightarrow> m1 x = m x"
    by (rule line_split [OF assms(1), of env]) (rule that)
  have L: "lits_at ?K m1 lit" by (rule lits_keep [OF _ t(9)]) (use assms(1) in \<open>simp_all add: line_ready_def\<close>)
  note cmp = lit_compare [OF L calm_sub(1) t(2)]
  have w: "u_strcmp p (lit l) 0 t = Some (- 1, t)" if "l \<in> {''ls'', ''cat'', ''sleep'', ''echo'', ''cd''}" for l
  proof -
    have "{''ls'', ''cat'', ''sleep'', ''echo'', ''cd''} \<subseteq> set sh_lits" by (simp add: sh_lits_def)
    from subsetD [OF this that] have "l \<in> set sh_lits" .
    moreover have "tokens 32 cs ! 0 \<noteq> str l" using that assms(2) by (metis imageI)
    ultimately show ?thesis using cmp [OF t(3,4), of l] by simp
  qed
  have i: "u_strcmp input (lit l) 0 t = Some (- 1, t)" if "l \<in> {''pwd '', ''ps ''}" for l
  proof -
    have "{''pwd '', ''ps ''} \<subseteq> set sh_lits" by (simp add: sh_lits_def)
    from subsetD [OF this that] have "l \<in> set sh_lits" .
    moreover have "cs @ [32] \<noteq> str l" using that assms(3) by blast
    ultimately show ?thesis using cmp [OF t(5,6), of l] by simp
  qed
  have "''.sh'' \<in> set sh_lits" by (simp add: sh_lits_def)
  note D = lits_atD [OF L this]
  have sh: "cstr m1 (lit ''.sh'') (str ''.sh'')" "str_of (lit ''.sh'') (str ''.sh'') \<subseteq> A"
    by (rule D(1), rule order_trans [OF D(2) calm_sub(1)])
  have "u_strstr input (lit ''.sh'') t = Some (0, t)"
    using ustr.sub_ok [where A = A and m = m1, OF conjI [OF t(2) conjI [OF t(5,6)]] conjI [OF t(2) conjI [OF sh]]] assms(4) by simp
  then have "sh_command env g lit k input v s = Some (None, v, t)"
    using t(1) w i by (simp add: sh_command_def)
  moreover have "umap (A - out_mem g) m1 t" by (rule umap_sub [OF t(2)]) blast
  then obtain s' where "sh_after env g lit v t = Some (None, v, s')" "screen s' = show_char 10 (screen t)"
    using sh_after_ok [OF t(7) _ L calm_sub(2) assms(5)] by blast
  ultimately show ?thesis using t(8) by (simp add: sh_step_def)
qed

text \<open>A shell with a line of three characters: the line, the literals and the working directory in the first bytes of its page.\<close>

definition shell_bytes :: "u8 list \<Rightarrow> u8 list" where
  "shell_bytes w = replicate 16 0 @ w @ replicate 29 0 @ [10, 0, 0, 0] @ str ''ls'' @ [0, 0] @ str ''pwd '' @ [0, 0, 0, 0] @ str ''ps '' @ [0] @
     str ''cat'' @ [0] @ str ''sleep'' @ [0, 0, 0] @ str ''echo'' @ [0, 0, 0, 0] @ str ''cd'' @ [0, 0] @ str ''.sh'' @ [0] @ [0, 0, 0, 0] @
     str ''/rootfs'' @ replicate 5 0"

definition shell_off :: "string \<Rightarrow> nat" where
  "shell_off l = (if l = [CHR 0x0A] then 48 else if l = ''ls'' then 52 else if l = ''pwd '' then 56 else if l = ''ps '' then 64
     else if l = ''cat'' then 68 else if l = ''sleep'' then 72 else if l = ''echo'' then 80 else if l = ''cd'' then 88
     else if l = ''.sh'' then 92 else 96)"

definition shell_lit :: "string \<Rightarrow> u64" where
  "shell_lit l = 0x400000 + of_nat (shell_off l)"

definition shell_glob :: uglob where
  "shell_glob = prog_glob\<lparr>g_pwd := 0x400064\<rparr>"

lemma shell_lits:
  assumes "l \<in> set sh_lits"
  shows "48 \<le> shell_off l" "shell_off l + Suc (length (str l)) \<le> 112" "0 \<notin> set (str l)"
    "take (Suc (length (str l))) (drop (shell_off l) (shell_bytes [x, y, z])) = str l @ [0]"
proof -
  have "\<forall>l \<in> set sh_lits. 48 \<le> shell_off l \<and> shell_off l + Suc (length (str l)) \<le> 112 \<and> 0 \<notin> set (str l)"
    by (simp add: sh_lits_def shell_off_def)
  then show "48 \<le> shell_off l" "shell_off l + Suc (length (str l)) \<le> 112" "0 \<notin> set (str l)" using assms by blast+
  have "\<forall>l \<in> set sh_lits. take (Suc (length (str l))) (drop (shell_off l) (shell_bytes [x, y, z])) = str l @ [0]"
    by (simp add: sh_lits_def shell_off_def shell_bytes_def drop_append)
  then show "take (Suc (length (str l))) (drop (shell_off l) (shell_bytes [x, y, z])) = str l @ [0]" using assms by blast
qed

lemma calm_low:
  assumes "48 \<le> k" "k + n \<le> 112"
  shows "range_of (0x400000 + of_nat k) n \<subseteq> calm page shell_glob 0x400400 0x400010 [x, y, z]"
proof -
  have r: "range_of (0x400000 + of_nat k) n \<subseteq> page - range_of 0x400200 512" "range_of (0x400000 + of_nat k) n \<subseteq> page - heap_of 0x400400"
    using low_range [of k n 512 512] low_range [of k n 1024 360] assms by simp_all
  have "0x400000 + of_nat j \<notin> range_of (0x400000 + of_nat k) n" if "j < 48" for j
    using subsetD [OF low_range [of j 1 k n] range_memb [of 0 1]] that assms by simp
  from this [of 32] this [of 19]
  have "0x400020 \<notin> range_of (0x400000 + of_nat k) n" "0x400013 \<notin> range_of (0x400000 + of_nat k) n" by simp_all
  moreover have "g_p shell_glob = 0x400020" "g_buffer shell_glob = 0x400200" "0x400010 + of_nat (length [x, y, z]) = (0x400013 :: u64)"
    by (simp_all add: shell_glob_def prog_glob_def)
  ultimately show ?thesis using r by auto
qed

lemma shell_example:
  assumes "0 \<notin> {x, y, z}" "tokens 32 [x, y, z] = [[x, y, z]]"
  obtains m where "line_ready page shell_glob shell_lit m 0x400400 0x400010 [x, y, z] (prog_sys 0x400400 (shell_bytes [x, y, z]))"
    "cstr m 0x400064 (str ''/rootfs'')"
proof -
  let ?w = "[x, y, z]"
  let ?b = "shell_bytes ?w" and ?s = "prog_sys 0x400400 (shell_bytes [x, y, z])"
  have lb: "length ?b = 112" by (simp add: shell_bytes_def)
  obtain m where m: "umap page (poke 0x400000 ?b m) ?s" "childFlag ?s \<noteq> 1" "h_brk ?s = 0x400400" "u_index ?s = 0"
    by (rule prog_sys_facts [of ?b "0x400400"]) (simp_all add: lb)
  let ?m = "poke 0x400000 ?b m"
  have v: "?m (0x400000 + of_nat i) = ?b ! i" if "i < 112" for i using that by (intro poke_in) (simp_all add: lb)
  have z: "?m 0x400014 = 0" "?m 0x400021 = 0" "?m 0x400060 = 0"
    using v [of 20] v [of 33] v [of 96] by (simp_all add: shell_bytes_def nth_append)
  have F: "filled page shell_glob [] ?s"
    using prog_glob_filled [OF m(1,2,4) z(2)] by (simp add: filled_def out_ready_def shell_glob_def)
  have "cstr ?m (0x400000 + of_nat 16) ?w"
    by (rule poke_cstr_at) (use assms(1) in \<open>auto simp: lb, simp add: shell_bytes_def drop_append\<close>)
  then have c: "cstr ?m 0x400010 ?w" by simp
  have "cstr ?m (0x400000 + of_nat 100) (str ''/rootfs'')"
    by (rule poke_cstr_at) (simp_all add: lb, simp add: shell_bytes_def drop_append)
  then have pw: "cstr ?m 0x400064 (str ''/rootfs'')" by simp
  have H: "heap_of 0x400400 \<subseteq> page" using page_sub [of 1024 360] by simp
  have r: "range_of 0x400010 (Suc (Suc (Suc (Suc (Suc 0))))) \<subseteq> page - heap_of 0x400400" using low_range [of 16 "Suc (Suc (Suc (Suc (Suc 0))))" 1024 360] by simp
  have e: "0x400060 \<in> page - heap_of 0x400400 - range_of 0x400010 (Suc (Suc (Suc (Suc (Suc 0)))))"
    using subsetD [OF low_range [of 96 1 1024 360] range_memb [of 0 1]] low_range [of 16 "Suc (Suc (Suc (Suc (Suc 0))))" 96 1]
      subsetD [OF low_range [of 16 "Suc (Suc (Suc (Suc (Suc 0))))" 96 1], of "0x400060"] range_memb [of 0 1 "0x400060 :: u64"] by auto
  have S: "splittable page ?m 0x400400 (shell_lit '''') 0x400010 ?w"
    unfolding splittable_def
  proof (intro conjI)
    show "range_of 0x400010 (length ?w + 2) \<subseteq> page - heap_of 0x400400" "heap_of 0x400400 \<subseteq> page" using r H by simp_all
    show "shell_lit '''' \<in> page - heap_of 0x400400 - range_of 0x400010 (length ?w + 2)" using e by (simp add: shell_lit_def shell_off_def)
  qed (use c z(1,3) in \<open>simp_all add: shell_lit_def shell_off_def\<close>)
  have L: "lits_at (calm page shell_glob 0x400400 0x400010 ?w) ?m shell_lit"
    unfolding lits_at_def
  proof (intro ballI conjI)
    fix l assume l: "l \<in> set sh_lits"
    note s = shell_lits [OF l]
    show "cstr ?m (shell_lit l) (str l)" unfolding shell_lit_def by (rule poke_cstr_at [OF s(4,3)]) (simp add: lb)
    show "str_of (shell_lit l) (str l) \<subseteq> calm page shell_glob 0x400400 0x400010 ?w"
      unfolding shell_lit_def by (rule calm_low [OF s(1,2)])
  qed
  have "0x400021 \<notin> heap_of 0x400400"
    using subsetD [OF low_range [of 33 1 1024 360] range_memb [of 0 1]] by simp
  then have g: "g_p shell_glob + 1 \<notin> insert (0x400010 + of_nat (length ?w)) (heap_of 0x400400)"
    by (simp add: shell_glob_def prog_glob_def)
  have "prog_ok page ?m 0x400400 ?s" using m by (simp add: prog_ok_def)
  moreover have "work 32 ?w \<noteq> []" by (simp add: work_def)
  ultimately show ?thesis using F S L g assms(2) pw by (intro that [of ?m]) (simp_all add: line_ready_def)
qed

theorem shell_shows_directory_witness:
  "\<exists>s'. sh_step test_env shell_glob shell_lit Some (Some 0x400010, \<lparr>flag1 = False, i1 = 0, sh_ans = 0\<rparr>, prog_sys 0x400400 (shell_bytes (str ''pwd'')))
       = Some (None, \<lparr>flag1 = False, i1 = 0, sh_ans = 0\<rparr>, s') \<and>
     screen s' = fold show_char (str '' : /rootfs'' @ [10]) (screen (prog_sys 0x400400 (shell_bytes (str ''pwd''))))"
proof -
  obtain m where m: "line_ready page shell_glob shell_lit m 0x400400 0x400010 (str ''pwd'') (prog_sys 0x400400 (shell_bytes (str ''pwd'')))"
    "cstr m 0x400064 (str ''/rootfs'')"
    by (rule shell_example [of 112 119 100]) (simp_all add: tokens_def work_def)
  have "str_of 0x400064 (str ''/rootfs'') \<subseteq> calm page shell_glob 0x400400 0x400010 (str ''pwd'')"
    using calm_low [of 100 "length (str ''/rootfs'') + 1" 112 119 100] by simp
  then show ?thesis
    using shell_shows_directory [OF m(1), of "str ''/rootfs''" "\<lparr>flag1 = False, i1 = 0, sh_ans = 0\<rparr>" test_env Some] m(2)
    by (simp add: shell_glob_def)
qed

theorem shell_ignores_unknown_witness:
  "\<exists>s'. sh_step test_env shell_glob shell_lit Some (Some 0x400010, \<lparr>flag1 = False, i1 = 0, sh_ans = 0\<rparr>, prog_sys 0x400400 (shell_bytes (str ''foo'')))
       = Some (None, \<lparr>flag1 = False, i1 = 0, sh_ans = 0\<rparr>, s') \<and>
     screen s' = show_char 10 (screen (prog_sys 0x400400 (shell_bytes (str ''foo''))))"
proof -
  obtain m where m: "line_ready page shell_glob shell_lit m 0x400400 0x400010 (str ''foo'') (prog_sys 0x400400 (shell_bytes (str ''foo'')))"
    by (rule shell_example [of 102 111 111]) (simp_all add: tokens_def work_def)
  have "tokens 32 (str ''foo'') ! 0 \<notin> str ` {''ls'', ''cat'', ''sleep'', ''echo'', ''cd''}" by (simp add: tokens_def work_def)
  moreover have "\<nexists>us vs. vs \<noteq> [] \<and> str ''foo'' @ [32] = us @ str ''.sh'' @ vs"
    by (auto simp: Cons_eq_append_conv)
  ultimately show ?thesis using shell_ignores_unknown [OF m, of "\<lparr>flag1 = False, i1 = 0, sh_ans = 0\<rparr>" test_env Some] by simp
qed

end
