(* ===== verification/Spec2Isabelle.thy ===== *)
theory Spec2Isabelle
  imports Pci Boot Shell
begin

text \<open>
  SBUnix: a 64-bit Unix-like kernel with its user library.

  \<^bold>\<open>The program.\<close>  The loader enters \<^verbatim>\<open>boot\<close> of \<^verbatim>\<open>sys/main.c\<close>, which installs the descriptor tables, chooses the memory to manage,
  builds the page allocator (\<^verbatim>\<open>sys/page.c\<close>) and the kernel's page tables (\<^verbatim>\<open>sys/mmu.c\<close>), indexes the archive that is
  linked into the image (\<^verbatim>\<open>sys/tarfs.c\<close>), loads the shell from it (\<^verbatim>\<open>sys/elf64.c\<close>, \<^verbatim>\<open>sys/process.c\<close>) and leaves for user
  mode.  From then on the kernel runs in its interrupts: the timer, the keyboard, the page fault and the system call
  gate (\<^verbatim>\<open>sys/isr.c\<close>, \<^verbatim>\<open>sys/timer.c\<close>, \<^verbatim>\<open>sys/syscall.c\<close>).  User programs reach it through the stubs of \<^verbatim>\<open>libc\<close>.  The disk
  driver \<^verbatim>\<open>sys/enumpci.c\<close> stands by itself.

  \<^bold>\<open>The state.\<close>  One record per component extends the one below, so that an operation of a lower component applies to the
  state of every higher one and visibly leaves the added fields alone: \<open>console\<close>, \<open>palloc\<close> (the free list), \<open>vm\<close> (the page
  frames as 512 words each, and the page table registers), \<open>fs\<close>, \<open>kbd\<close>, \<open>desc\<close>, \<open>proc\<close> (processes, memory descriptors, areas and
  open files as stores indexed by their addresses), \<open>timer\<close>, \<open>sysc\<close>, and in the library \<open>uglob\<close>, \<open>ulib\<close> and \<open>uheap\<close>.
  Machine integers are words of their width.  A pointer that the C code dereferences is an address of such a store or of
  the byte memory; aliasing is kept.  An operation that can fail to return or that stops the machine is \<open>option\<close>-valued.
  A store outside a fixed array (the line buffer, the archive index and its names, the names in a process) also has the
  value \<open>None\<close>: the records do not show what it would overwrite.

  \<^bold>\<open>Theories, in the order of the imports.\<close>
  \<^item> \<^verbatim>\<open>Prelude\<close>: the integer types, the window of the kernel, collections of rules and generic lemmas on words, lists and maps.
  \<^item> \<^verbatim>\<open>CString\<close>, \<^verbatim>\<open>Bytes\<close>: \<^verbatim>\<open>sys/string.c\<close> over a byte memory with its reference semantics on strings; numbers of several bytes.
  \<^item> \<^verbatim>\<open>Console\<close>: \<^verbatim>\<open>sys/kprintf.c\<close>.  The cursor stays on the screen and only the text buffer is written.
  \<^item> \<^verbatim>\<open>PageAlloc\<close>: the free list of \<^verbatim>\<open>sys/page.c\<close>.  The list \<open>fl_inv\<close> represents a set of free pages in ascending order; the operations
    implement taking the minimum and inserting.  The locale of the abstract allocator is interpreted on them.
  \<^item> \<^verbatim>\<open>Paging\<close>: \<^verbatim>\<open>sys/mmu.c\<close>.  \<open>vm_inv\<close> says that the tables form a tree of distinct frames in use; \<open>pt_lookup\<close> is the abstract page map.
    The locale \<open>vm_mapping\<close> states what one mapping does and derives what a run of them does; it is interpreted for
    the kernel's and for the user's variant of the routine.
  \<^item> \<^verbatim>\<open>Tarfs\<close>: \<^verbatim>\<open>sys/tarfs.c\<close>.  Archives are described by the list of their entries; the index holds exactly those whose directory
    comes before them, as a tree, within its 512 slots and the 100 bytes of a name.
  \<^item> \<^verbatim>\<open>Keyboard\<close>: the keyboard part of \<^verbatim>\<open>sys/isr.c\<close>, refined to a line editor as long as the line fits into its 512 bytes.
  \<^item> \<^verbatim>\<open>Descriptors\<close>: \<^verbatim>\<open>sys/gdt.c\<close> and \<^verbatim>\<open>sys/des_table.c\<close>, the packed descriptors and the vectors.
  \<^item> \<^verbatim>\<open>Tasks\<close>: the structures of \<^verbatim>\<open>include/sys/process.h\<close>, the scheduler of \<^verbatim>\<open>sys/process.c\<close>, and the ring of processes that the
    calls for fork, exec, wait and exit rearrange.
  \<^item> \<^verbatim>\<open>Elf\<close>, \<^verbatim>\<open>PageFault\<close>, \<^verbatim>\<open>Timer\<close>: \<^verbatim>\<open>sys/elf64.c\<close>, the fault handler of \<^verbatim>\<open>sys/page.c\<close>, and \<^verbatim>\<open>sys/timer.c\<close> with the dispatcher of \<^verbatim>\<open>sys/isr.c\<close>.
  \<^item> \<^verbatim>\<open>UserMem\<close>: kernel accesses to user memory, which may fault and are then repeated.
  \<^item> \<^verbatim>\<open>Syscall\<close>: \<^verbatim>\<open>sys/syscall.c\<close>, every call and the entry \<^verbatim>\<open>irq_handler2\<close>.
  \<^item> \<^verbatim>\<open>Fork\<close>, \<^verbatim>\<open>ForkTables\<close>, \<^verbatim>\<open>Isolation\<close>: what \<^verbatim>\<open>forkSyscall\<close> does to areas and page tables, and, with the fault handler, that the two
    processes do not see each other's writes.
  \<^item> \<^verbatim>\<open>Libc\<close>, \<^verbatim>\<open>Printf\<close>, \<^verbatim>\<open>Heap\<close>: the stubs and wrappers of \<^verbatim>\<open>libc\<close>, its formatted output, the program break and \<^verbatim>\<open>memset\<close>.
  \<^item> \<^verbatim>\<open>UString\<close>, \<^verbatim>\<open>Tokens\<close>: \<^verbatim>\<open>libc/string.c\<close> over user memory, of which \<open>umap\<close> says what a program can reach and what it holds.  The
    locale \<open>string_lib\<close> is the contract of a string library; it is interpreted for the kernel's routines on a byte memory and for
    the library's on paged memory.  The tokenizer \<^verbatim>\<open>split\<close> is described by the pieces that its loop computes.
  \<^item> \<^verbatim>\<open>Malloc\<close>: \<^verbatim>\<open>libc/malloc.c\<close>.  The nodes are structures in user memory, and \<open>info\<close> reads one; \<open>heap_ok\<close> keeps nodes and blocks
    apart and between the start of the heap area and the program break, which does not pass the end of the area.
  \<^item> \<^verbatim>\<open>Programs\<close>, \<^verbatim>\<open>Cd\<close>, \<^verbatim>\<open>Shell\<close>: the programs of \<^verbatim>\<open>bin\<close>, the commands of the library (\<^verbatim>\<open>cd\<close> in a theory of its own) and
    \<^verbatim>\<open>sbush\<close>.  The theorems run whole programs, from the arguments in memory through the library and the kernel to the screen.
  \<^item> \<^verbatim>\<open>Ahci\<close>, \<^verbatim>\<open>AhciPort\<close>, \<^verbatim>\<open>Pci\<close>: \<^verbatim>\<open>sys/enumpci.c\<close>.  The contract of the controller says how its registers answer and when a command
    counts as issued, not what it transfers; the theorem on reading is about the command that is in memory at that moment.
  \<^item> \<^verbatim>\<open>Boot\<close>: \<^verbatim>\<open>sys/main.c\<close>.

  \<^bold>\<open>Parameters.\<close>  What the sources do not contain is an argument: the addresses of linker symbols and of assembly labels, the bytes of
  the archive and of the loader's data, the keys pressed and the interrupts that arrive, the bytes of a user program, the
  addresses of its literals, what other processes do while the shell waits, and the disk controller with the configuration
  space of the PCI bus.  Where a theorem depends on the controller, its documented behaviour is a named hypothesis
  (\<open>accepts\<close>, \<open>controls\<close>, \<open>config\<close>) and the witness gives a simulated device that has it.

  \<^bold>\<open>Loops.\<close>  A loop with a bound is a total function with a measure.  A loop that waits, or that follows a pointer, is a partial
  function with the value \<open>None\<close> when it does not end; where the code relies on its end, a theorem proves it.  Waiting
  for an interrupt consumes the list or the number of interrupts given, so that all of them used up is \<open>None\<close> as well.

  \<^bold>\<open>Not modelled.\<close>  Assembly (\<^verbatim>\<open>sys/interrupt.s\<close>, \<^verbatim>\<open>sys/gdt.s\<close>, the stack switches of \<^verbatim>\<open>boot\<close> and of the context switch beyond the
  registers they save); \<^verbatim>\<open>isr_handler\<close>, whose body is empty; the translation caches of the processor; \<^verbatim>\<open>crt/crt1.c\<close>, which finds the
  arguments of a program in the frame that the compiler lays out; the header structures of the disk controller that no code
  uses.  Code in comments, which is most of \<^verbatim>\<open>bin/hello\<close> and half of \<^verbatim>\<open>bin/sbush\<close>, is no part of the program.
\<close>

end
